(* ===== verification/Prelude.thy ===== *)
theory Prelude
  imports "HOL-Library.Char_ord" "HOL-Library.List_Lexorder" "HOL-Library.Product_Lexorder"
    "HOL-Library.Sublist"
begin

text \<open>
  What every other theory of the development shares: the collections its proofs rewrite with,
  the generic row operations a table statement is made of, and the interface of a table whose
  rows carry a key. A table is a list of rows. An UPDATE maps over it, a DELETE filters it and
  an INSERT appends to it, so the order of rows is the order of insertion and no query may
  depend on it.
\<close>

named_theorems frag_defs "predicates of the stored rows, unfolded"
named_theorems stmt_defs "statements of the batches, unfolded"
named_theorems batch_defs "batches, unfolded to their statements"

type_synonym instant = int
type_synonym duration = int

text \<open>An UPDATE: the rows that satisfy the predicate are replaced, every other row is kept.\<close>

definition update_where :: "('r \<Rightarrow> bool) \<Rightarrow> ('r \<Rightarrow> 'r) \<Rightarrow> 'r list \<Rightarrow> 'r list" where
  "update_where p f rows = map (\<lambda>r. if p r then f r else r) rows"

definition delete_where :: "('r \<Rightarrow> bool) \<Rightarrow> 'r list \<Rightarrow> 'r list" where
  "delete_where p rows = filter (\<lambda>r. \<not> p r) rows"

definition count_where :: "('r \<Rightarrow> bool) \<Rightarrow> 'r list \<Rightarrow> nat" where
  "count_where p rows = length (filter p rows)"

text \<open>A scalar subquery over the one row that matches, as \<open>LIMIT 1\<close> over a key gives it.\<close>

definition first_where :: "('r \<Rightarrow> bool) \<Rightarrow> 'r list \<Rightarrow> 'r option" where
  "first_where p rows = find p rows"

lemma update_where_Nil [simp]: "update_where p f [] = []"
  by (simp add: update_where_def)

lemma update_where_Cons [simp]:
  "update_where p f (r # rows) = (if p r then f r else r) # update_where p f rows"
  by (simp add: update_where_def)

lemma update_where_append [simp]:
  "update_where p f (xs @ ys) = update_where p f xs @ update_where p f ys"
  by (simp add: update_where_def)

lemma length_update_where [simp]: "length (update_where p f rows) = length rows"
  by (simp add: update_where_def)

lemma set_update_where: "set (update_where p f rows) = (\<lambda>r. if p r then f r else r) ` set rows"
  by (simp add: update_where_def)

lemma in_update_whereE [elim]:
  assumes "r' \<in> set (update_where p f rows)"
  obtains r where "r \<in> set rows" "p r" "r' = f r" | "r' \<in> set rows" "\<not> p r'"
  using assms by (auto simp: set_update_where split: if_splits)

lemma ball_update_where:
  "(\<forall>r\<in>set (update_where p f rows). P r) =
   (\<forall>r\<in>set rows. if p r then P (f r) else P r)"
  by (auto simp: set_update_where split: if_splits)

lemma bex_update_where:
  "(\<exists>r\<in>set (update_where p f rows). P r) =
   (\<exists>r\<in>set rows. if p r then P (f r) else P r)"
  by (auto simp: set_update_where split: if_splits)

lemma update_where_none: "(\<And>r. r \<in> set rows \<Longrightarrow> \<not> p r) \<Longrightarrow> update_where p f rows = rows"
  by (induction rows) (auto simp: update_where_def)

lemma update_where_cong:
  "(\<And>r. r \<in> set rows \<Longrightarrow> p r = q r) \<Longrightarrow> (\<And>r. r \<in> set rows \<Longrightarrow> q r \<Longrightarrow> f r = g r)
   \<Longrightarrow> update_where p f rows = update_where q g rows"
  by (induction rows) (auto simp: update_where_def)

lemma map_update_where:
  "(\<And>r. p r \<Longrightarrow> k (f r) = k r) \<Longrightarrow> map k (update_where p f rows) = map k rows"
  by (induction rows) (auto simp: update_where_def)

lemma filter_update_where:
  "(\<And>r. p r \<Longrightarrow> q (f r) = q r)
   \<Longrightarrow> filter q (update_where p f rows) = update_where p f (filter q rows)"
  by (induction rows) (auto simp: update_where_def)

lemma filter_update_where_other:
  "(\<And>r. r \<in> set rows \<Longrightarrow> p r \<Longrightarrow> \<not> q r \<and> \<not> q (f r))
   \<Longrightarrow> filter q (update_where p f rows) = filter q rows"
  by (induction rows) (auto simp: update_where_def)

lemma set_delete_where [simp]: "set (delete_where p rows) = {r \<in> set rows. \<not> p r}"
  by (auto simp: delete_where_def)

lemma delete_where_none: "(\<And>r. r \<in> set rows \<Longrightarrow> \<not> p r) \<Longrightarrow> delete_where p rows = rows"
  by (simp add: delete_where_def)

lemma filter_delete_where:
  "filter q (delete_where p rows) = delete_where p (filter q rows)"
  by (simp add: delete_where_def filter_filter conj_commute)

lemma map_delete_where_distinct:
  "distinct (map k rows) \<Longrightarrow> distinct (map k (delete_where p rows))"
  by (simp add: delete_where_def distinct_map_filter)

lemma count_where_0: "(count_where p rows = 0) = (\<forall>r\<in>set rows. \<not> p r)"
  by (auto simp: count_where_def filter_empty_conv)

lemma count_where_pos: "(0 < count_where p rows) = (\<exists>r\<in>set rows. p r)"
  by (auto simp: count_where_def filter_empty_conv)

lemma count_where_key_le_1:
  assumes "distinct (map k rows)" "\<And>r. p r \<Longrightarrow> k r = x"
  shows "count_where p rows \<le> 1"
  using assms
proof (induction rows)
  case (Cons r rows)
  show ?case
  proof (cases "p r")
    case True
    then have "\<forall>s\<in>set rows. \<not> p s" using Cons.prems by force
    then show ?thesis using True by (simp add: count_where_def filter_empty_conv)
  next
    case False
    then show ?thesis using Cons by (simp add: count_where_def)
  qed
qed (simp add: count_where_def)

lemma distinct_map_unique:
  "distinct (map k rows) \<Longrightarrow> a \<in> set rows \<Longrightarrow> b \<in> set rows \<Longrightarrow> k a = k b \<Longrightarrow> a = b"
  by (auto simp: distinct_map inj_on_def)

lemma find_unique:
  "distinct (map k rows) \<Longrightarrow> r \<in> set rows \<Longrightarrow> k r = x \<Longrightarrow> find (\<lambda>r. k r = x) rows = Some r"
  by (induction rows) force+

lemma distinct_mapD: "distinct (map k rows) \<Longrightarrow> distinct rows"
  by (simp add: distinct_map)

lemma distinct_filter_eq_singleton:
  "distinct rows \<Longrightarrow> r \<in> set rows \<Longrightarrow> filter (\<lambda>s. s = r) rows = [r]"
proof (induction rows)
  case (Cons a rows)
  show ?case
  proof (cases "a = r")
    case True
    then have "filter (\<lambda>s. s = r) rows = []" using Cons.prems by (auto simp: filter_empty_conv)
    then show ?thesis using True by simp
  next
    case False
    then show ?thesis using Cons by simp
  qed
qed simp

lemma find_filter: "find p xs = (case filter p xs of [] \<Rightarrow> None | x # _ \<Rightarrow> Some x)"
  by (induction xs) auto

lemma find_append:
  "find p (xs @ ys) = (case find p xs of None \<Rightarrow> find p ys | Some y \<Rightarrow> Some y)"
  by (induction xs) auto

lemma filter_key_unique:
  assumes "distinct (map k rows)" "r \<in> set rows" "p r" "\<And>s. s \<in> set rows \<Longrightarrow> p s \<Longrightarrow> k s = k r"
  shows "filter p rows = [r]"
proof -
  have "\<forall>s\<in>set rows. p s = (s = r)"
    using assms distinct_map_unique[OF assms(1) _ assms(2)] by blast
  then have "filter p rows = filter (\<lambda>s. s = r) rows" by (intro filter_cong) auto
  moreover have "distinct rows" using assms(1) by (rule distinct_mapD)
  ultimately show ?thesis using assms(2) by (simp add: distinct_filter_eq_singleton)
qed

text \<open>
  A table whose rows carry a key that no two of them share. The laws are stated once, for any
  row type and key, and each table of the schema interprets the locale with its primary key.
\<close>

definition keyed :: "('r \<Rightarrow> 'k) \<Rightarrow> 'r list \<Rightarrow> bool" where
  "keyed key rows = distinct (map key rows)"

definition insert_row :: "('r \<Rightarrow> 'k) \<Rightarrow> 'r \<Rightarrow> 'r list \<Rightarrow> 'r list option" where
  "insert_row key r rows = (if key r \<in> key ` set rows then None else Some (rows @ [r]))"

locale keyed_table =
  fixes key :: "'r \<Rightarrow> 'k"
    and lookup :: "'k \<Rightarrow> 'r list \<Rightarrow> 'r option"
    and insertion :: "'r \<Rightarrow> 'r list \<Rightarrow> 'r list option"
  assumes lookup_eq: "lookup x rows = find (\<lambda>r. key r = x) rows"
    and insertion_eq: "insertion r rows = insert_row key r rows"
begin

lemma lookup_in:
  "keyed key rows \<Longrightarrow> r \<in> set rows \<Longrightarrow> lookup (key r) rows = Some r"
  by (simp add: lookup_eq keyed_def find_unique)

lemma lookup_Some:
  "lookup x rows = Some r \<Longrightarrow> r \<in> set rows \<and> key r = x"
  by (auto simp: lookup_eq find_Some_iff)

lemma lookup_None:
  "(lookup x rows = None) = (\<forall>r\<in>set rows. key r \<noteq> x)"
  by (auto simp: lookup_eq find_None_iff)

lemma insertion_Some:
  "insertion r rows = Some rows' \<Longrightarrow> rows' = rows @ [r] \<and> key r \<notin> key ` set rows"
  by (auto simp: insertion_eq insert_row_def split: if_splits)

lemma insertion_keyed:
  "keyed key rows \<Longrightarrow> insertion r rows = Some rows' \<Longrightarrow> keyed key rows'"
  by (auto simp: insertion_eq insert_row_def keyed_def split: if_splits)

lemma insertion_lookup:
  assumes "keyed key rows" "insertion r rows = Some rows'"
  shows "lookup x rows' = (if x = key r then Some r else lookup x rows)"
proof -
  have "rows' = rows @ [r]" "key r \<notin> key ` set rows" using insertion_Some assms(2) by blast+
  moreover have "find (\<lambda>s. key s = key r) rows = None" if "key r \<notin> key ` set rows"
    using that by (simp add: find_None_iff) (metis image_eqI)
  ultimately show ?thesis by (auto simp: lookup_eq find_append split: option.split)
qed

lemma update_keyed:
  "keyed key rows \<Longrightarrow> (\<And>r. p r \<Longrightarrow> key (f r) = key r) \<Longrightarrow> keyed key (update_where p f rows)"
  by (simp add: keyed_def map_update_where)

lemma delete_keyed: "keyed key rows \<Longrightarrow> keyed key (delete_where p rows)"
  by (simp add: keyed_def map_delete_where_distinct)

lemma unique: "keyed key rows \<Longrightarrow> a \<in> set rows \<Longrightarrow> b \<in> set rows \<Longrightarrow> key a = key b \<Longrightarrow> a = b"
  unfolding keyed_def by (rule distinct_map_unique)

lemma update_one_count:
  "keyed key rows \<Longrightarrow> (\<And>r. p r \<Longrightarrow> key r = x) \<Longrightarrow> count_where p rows \<le> 1"
  unfolding keyed_def by (rule count_where_key_le_1)

end

text \<open>A number as its decimal digits.\<close>

fun decimal :: "nat \<Rightarrow> string" where
  "decimal n = (if n < 10 then [''0123456789'' ! n] else decimal (n div 10) @ [''0123456789'' ! (n mod 10)])"

declare decimal.simps [simp del]

end
