(* ===== verification/Sql_Values.thy ===== *)
theory Sql_Values
  imports Complex_Main Prelude
begin

text \<open>
  The values a column holds. An INTEGER column of SQLite may hold a value of any storage class,
  and the store's guards ask for the class (\<open>typeof(c) = 'integer'\<close>) before they compare or add,
  so such a column is a \<^emph>\<open>cell\<close> here and never a bare integer. A comparison of a cell that is not
  an integer is false: the store guards every comparison whose answer on another class could
  matter, and the guard is part of the model. A JSON column is held as the document SQLite's
  JSON functions read, or as text that is no document.
\<close>

datatype cell = Null | Num int | Real rat | Text string | Blob string

text \<open>SQLite's order of storage classes, for ORDER BY and MIN.\<close>

fun cell_rank :: "cell \<Rightarrow> nat \<times> rat \<times> nat \<times> string" where
  "cell_rank Null = (0, 0, 0, '''')"
| "cell_rank (Num i) = (1, of_int i, 0, '''')"
| "cell_rank (Real q) = (1, q, 1, '''')"
| "cell_rank (Text s) = (2, 0, 0, s)"
| "cell_rank (Blob s) = (3, 0, 0, s)"

lemma cell_rank_inj: "cell_rank a = cell_rank b \<Longrightarrow> a = b"
  by (cases a; cases b) auto

instantiation cell :: linorder
begin

definition less_eq_cell :: "cell \<Rightarrow> cell \<Rightarrow> bool" where
  "less_eq_cell a b = (cell_rank a \<le> cell_rank b)"

definition less_cell :: "cell \<Rightarrow> cell \<Rightarrow> bool" where
  "less_cell a b = (cell_rank a < cell_rank b)"

instance
  by standard (auto simp: less_eq_cell_def less_cell_def intro: cell_rank_inj)

end

lemma less_eq_Num [simp]: "(Num a \<le> Num b) = (a \<le> b)"
  by (auto simp: less_eq_cell_def)

fun cell_lt :: "cell \<Rightarrow> cell \<Rightarrow> bool" where
  "cell_lt (Num a) (Num b) = (a < b)"
| "cell_lt _ _ = False"

fun cell_le :: "cell \<Rightarrow> cell \<Rightarrow> bool" where
  "cell_le (Num a) (Num b) = (a \<le> b)"
| "cell_le _ _ = False"

fun cell_is :: "cell \<Rightarrow> int \<Rightarrow> bool" where
  "cell_is (Num a) b = (a = b)"
| "cell_is _ _ = False"

fun cell_plus :: "cell \<Rightarrow> cell \<Rightarrow> cell" where
  "cell_plus (Num a) (Num b) = Num (a + b)"
| "cell_plus _ _ = Null"

fun cell_minus :: "cell \<Rightarrow> cell \<Rightarrow> cell" where
  "cell_minus (Num a) (Num b) = Num (a - b)"
| "cell_minus _ _ = Null"

fun coalesce :: "cell \<Rightarrow> cell \<Rightarrow> cell" where
  "coalesce Null b = b"
| "coalesce a b = a"

fun coalesce_text :: "string option \<Rightarrow> string option \<Rightarrow> string option" where
  "coalesce_text None b = b"
| "coalesce_text (Some a) b = Some a"

text \<open>MIN ignores NULL and answers NULL over no value.\<close>

definition sql_min :: "cell list \<Rightarrow> cell" where
  "sql_min cs = (case filter (\<lambda>c. c \<noteq> Null) cs of [] \<Rightarrow> Null | d # ds \<Rightarrow> foldl min d ds)"

definition sql_max :: "cell list \<Rightarrow> cell" where
  "sql_max cs = (case filter (\<lambda>c. c \<noteq> Null) cs of [] \<Rightarrow> Null | d # ds \<Rightarrow> foldl max d ds)"

lemma sql_min_singleton [simp]: "sql_min [c] = c"
  by (cases c) (simp_all add: sql_min_def)

text \<open>The integer of a cell its guards have held to be one.\<close>

fun ival :: "cell \<Rightarrow> int" where
  "ival (Num a) = a"
| "ival _ = 0"

lemma foldl_min_in: "foldl min (d::cell) ds \<in> set (d # ds)"
  by (induction ds arbitrary: d) (auto simp: min_def)

lemma foldl_min_le: "c \<in> set (d # ds) \<Longrightarrow> foldl min (d::cell) ds \<le> c"
proof (induction ds arbitrary: d c)
  case (Cons a ds)
  have le: "foldl min (min d a) ds \<le> min d a" using Cons.IH[of "min d a" "min d a"] by simp
  show ?case
  proof (cases "c = d \<or> c = a")
    case True
    then show ?thesis using le by (auto intro: order_trans)
  next
    case False
    then have "c \<in> set ds" using Cons.prems by simp
    then show ?thesis using Cons.IH[of c "min d a"] by simp
  qed
qed simp

lemma sql_min_le: "c \<in> set cs \<Longrightarrow> c \<noteq> Null \<Longrightarrow> sql_min cs \<le> c"
proof -
  assume c: "c \<in> set cs" "c \<noteq> Null"
  then have mem: "c \<in> set (filter (\<lambda>c. c \<noteq> Null) cs)" by simp
  obtain d ds where dds: "filter (\<lambda>c. c \<noteq> Null) cs = d # ds"
    using mem by (cases "filter (\<lambda>c. c \<noteq> Null) cs") auto
  have "c \<in> set (d # ds)" using mem dds by simp
  then show ?thesis using dds foldl_min_le by (simp add: sql_min_def)
qed

lemma sql_min_in: "sql_min cs = Null \<or> sql_min cs \<in> set cs"
proof (cases "filter (\<lambda>c. c \<noteq> Null) cs")
  case (Cons d ds)
  then have "sql_min cs \<in> set (d # ds)" using foldl_min_in[of d ds] by (simp add: sql_min_def)
  then show ?thesis using Cons by (metis filter_is_subset subsetD)
qed (simp add: sql_min_def)

lemma sql_min_Null: "(sql_min cs = Null) = (\<forall>c\<in>set cs. c = Null)"
proof (cases "filter (\<lambda>c. c \<noteq> Null) cs")
  case Nil
  then show ?thesis by (auto simp: sql_min_def filter_empty_conv)
next
  case (Cons d ds)
  then have "sql_min cs \<in> set (filter (\<lambda>c. c \<noteq> Null) cs)"
    using foldl_min_in[of d ds] by (simp add: sql_min_def)
  then show ?thesis by auto
qed

lemma foldl_max_in: "foldl max (d::cell) ds \<in> set (d # ds)"
  by (induction ds arbitrary: d) (auto simp: max_def)

lemma foldl_max_ge: "c \<in> set (d # ds) \<Longrightarrow> c \<le> foldl max (d::cell) ds"
proof (induction ds arbitrary: d c)
  case (Cons a ds)
  have ge: "max d a \<le> foldl max (max d a) ds" using Cons.IH[of "max d a" "max d a"] by simp
  show ?case
  proof (cases "c = d \<or> c = a")
    case True
    then show ?thesis using ge by (auto intro: order_trans)
  next
    case False
    then have "c \<in> set ds" using Cons.prems by simp
    then show ?thesis using Cons.IH[of c "max d a"] by simp
  qed
qed simp

text \<open>The greatest of some integers.\<close>

lemma sql_max_Num:
  assumes "cs \<noteq> []" "\<And>c. c \<in> set cs \<Longrightarrow> \<exists>a. c = Num a"
  shows "sql_max cs \<in> set cs" "c \<in> set cs \<Longrightarrow> cell_le c (sql_max cs)"
proof -
  obtain d ds where cs: "cs = d # ds" using assms(1) by (cases cs) auto
  have "filter (\<lambda>c. c \<noteq> Null) cs = cs" using assms(2) by (auto simp: filter_id_conv)
  then have eq: "sql_max cs = foldl max d ds" using cs by (simp add: sql_max_def)
  show mem: "sql_max cs \<in> set cs" using foldl_max_in[of d ds] eq cs by simp
  assume c: "c \<in> set cs"
  then have "c \<le> sql_max cs" using foldl_max_ge eq cs by simp
  then show "cell_le c (sql_max cs)" using assms(2)[OF c] assms(2)[OF mem] by auto
qed

text \<open>Documents of SQLite's JSON functions. An object keeps its members in order, and may
  repeat a name: \<open>json_each\<close> lists both, and the store refuses such an object.\<close>

datatype json =
    JNull | JBool bool | JInt int | JReal rat | JText string
  | JArray "json list" | JObject "(string \<times> json) list"

datatype doc = NoDoc | BadDoc string | Doc json

text \<open>\<open>json_type(d, '$.name')\<close> and \<open>json_extract\<close>: the first member of that name, if the
  document is an object that has one.\<close>

fun member :: "string \<Rightarrow> json \<Rightarrow> json option" where
  "member name (JObject ms) = map_of ms name"
| "member name _ = None"

text \<open>A JSON number, and SQLite's ROUND of it in thousandths: half away from zero.\<close>

fun json_number :: "json \<Rightarrow> rat option" where
  "json_number (JInt i) = Some (of_int i)"
| "json_number (JReal q) = Some q"
| "json_number _ = None"

definition round_half_away :: "rat \<Rightarrow> int" where
  "round_half_away q = (if q < 0 then - floor (- q + 1/2) else floor (q + 1/2))"

definition millis :: "rat \<Rightarrow> int" where
  "millis q = round_half_away (q * 1000)"

lemma millis_nonneg: "0 \<le> q \<Longrightarrow> 0 \<le> millis q"
  by (simp add: millis_def round_half_away_def)

end
