(* ===== verification/Validate.thy ===== *)
theory Validate
  imports Sql_Values
begin

text \<open>
  The port's validation (core \<open>validate.ts\<close>) and the constants of the protocol (\<open>contract.ts\<close>):
  the bounds every persisted integer is held to, the conversion of a caller's duration to
  milliseconds, and the refusals. A JavaScript number that reaches the port is a finite rational
  or is not finite; the model computes exactly where the code rounds a double.
\<close>

section \<open>Errors\<close>

text \<open>What an operation throws. A refused worker write is one of the first two.\<close>

datatype exn =
    LeaseLost string string
  | RunCancelled string string
  | RangeError string
  | TypeError string
  | PortRefusal string
  | InvalidDurableString string
  | ChildAwaitRefused string string
  | UniqueViolation string
  | BatchAudit string string
  | InternalError string

type_synonym 'a checked = "exn + 'a"

section \<open>Constants\<close>

definition RELAUNCH_CAP :: int where "RELAUNCH_CAP = 5"
definition INFRA_RETRY_CAP :: int where "INFRA_RETRY_CAP = 20"
definition INFRA_BACKOFF_SECONDS :: int where "INFRA_BACKOFF_SECONDS = 5"
definition RELAUNCH_BACKOFF_BASE_SECONDS :: int where "RELAUNCH_BACKOFF_BASE_SECONDS = 5"
definition RELAUNCH_BACKOFF_MAX_SECONDS :: int where "RELAUNCH_BACKOFF_MAX_SECONDS = 60"
definition IDENTIFIER_CHARACTERS :: nat where "IDENTIFIER_CHARACTERS = 255"

definition REASON_CLAIM_TIMEOUT :: string where
  "REASON_CLAIM_TIMEOUT = ''{\"name\":\"$ClaimTimeout\"}''"
definition REASON_RELAUNCH_CAP :: string where
  "REASON_RELAUNCH_CAP = ''{\"name\":\"$RelaunchCapExhausted\"}''"
definition REASON_INFRA_CAP :: string where
  "REASON_INFRA_CAP = ''{\"name\":\"$InfraRetriesExhausted\"}''"
definition REASON_CANCELLED :: string where
  "REASON_CANCELLED = ''{\"name\":\"$Cancelled\"}''"

definition MAX_EPOCH_MS :: int where "MAX_EPOCH_MS = 253402300799000"
definition MAX_DURATION_MS :: int where "MAX_DURATION_MS = 3155760000000"
definition MAX_COUNT :: int where "MAX_COUNT = 1000000"
definition MAX_RUN_ORDINAL :: int where "MAX_RUN_ORDINAL = MAX_COUNT + INFRA_RETRY_CAP"
definition MAX_SAFE_INTEGER :: int where "MAX_SAFE_INTEGER = 9007199254740991"

lemmas const_defs =
  RELAUNCH_CAP_def INFRA_RETRY_CAP_def INFRA_BACKOFF_SECONDS_def RELAUNCH_BACKOFF_BASE_SECONDS_def
  RELAUNCH_BACKOFF_MAX_SECONDS_def MAX_EPOCH_MS_def MAX_DURATION_MS_def MAX_COUNT_def
  MAX_RUN_ORDINAL_def

section \<open>Bounds of the persisted integers\<close>

type_synonym bounds = "int \<times> int"

definition attempts_bounds :: bounds where "attempts_bounds = (0, MAX_COUNT)"
definition max_attempts_bounds :: bounds where "max_attempts_bounds = (1, MAX_COUNT)"
definition infra_retries_bounds :: bounds where "infra_retries_bounds = (0, INFRA_RETRY_CAP)"
definition run_attempt_bounds :: bounds where "run_attempt_bounds = (1, MAX_RUN_ORDINAL)"
definition claim_gen_bounds :: bounds where "claim_gen_bounds = (0, MAX_COUNT)"
definition positive_claim_gen_bounds :: bounds where "positive_claim_gen_bounds = (1, MAX_COUNT)"
definition activated_gen_bounds :: bounds where "activated_gen_bounds = (0, MAX_COUNT)"
definition relaunch_count_bounds :: bounds where "relaunch_count_bounds = (0, RELAUNCH_CAP)"
definition lease_ms_bounds :: bounds where "lease_ms_bounds = (1, MAX_DURATION_MS)"
definition epoch_bounds :: bounds where "epoch_bounds = (0, MAX_EPOCH_MS)"
definition duration_bounds :: bounds where "duration_bounds = (0, MAX_DURATION_MS)"

lemmas bounds_defs =
  attempts_bounds_def max_attempts_bounds_def infra_retries_bounds_def run_attempt_bounds_def
  claim_gen_bounds_def positive_claim_gen_bounds_def activated_gen_bounds_def
  relaunch_count_bounds_def lease_ms_bounds_def epoch_bounds_def duration_bounds_def

text \<open>\<open>storedIntegerWithin\<close>: the column holds an integer, and one in the field's own interval.\<close>

fun stored_within :: "bounds \<Rightarrow> cell \<Rightarrow> bool" where
  "stored_within (lo, hi) (Num a) = (lo \<le> a \<and> a \<le> hi)"
| "stored_within _ _ = False"

text \<open>\<open>storedIncrementableInteger\<close>: one more than the value is still in the interval.\<close>

fun incrementable :: "bounds \<Rightarrow> cell \<Rightarrow> bool" where
  "incrementable (lo, hi) c = stored_within (lo, hi - 1) c"

fun stored_integer :: "cell \<Rightarrow> bool" where
  "stored_integer (Num _) = True"
| "stored_integer _ = False"

lemma stored_withinD: "stored_within (lo, hi) c \<Longrightarrow> \<exists>a. c = Num a \<and> lo \<le> a \<and> a \<le> hi"
  by (cases c) auto

lemma stored_within_iff: "stored_within b c = (\<exists>a. c = Num a \<and> fst b \<le> a \<and> a \<le> snd b)"
  by (cases b; cases c) auto

lemma incrementable_iff: "incrementable b c = (\<exists>a. c = Num a \<and> fst b \<le> a \<and> a < snd b)"
  by (cases b; cases c) auto

text \<open>\<open>epochAdditionFits\<close>: the base is an epoch instant and so is base plus delta.\<close>

definition addition_fits :: "cell \<Rightarrow> int \<Rightarrow> bool" where
  "addition_fits base delta =
     (stored_within epoch_bounds base \<and> cell_le base (Num (MAX_EPOCH_MS - delta)))"

lemma addition_fits_Num [simp]:
  "addition_fits (Num a) d = (0 \<le> a \<and> a \<le> MAX_EPOCH_MS \<and> a + d \<le> MAX_EPOCH_MS)"
  by (auto simp: addition_fits_def epoch_bounds_def)

section \<open>A caller's numbers\<close>

datatype number = Finite rat | NotFinite

text \<open>\<open>Math.round\<close>: to the nearest integer, a half upwards.\<close>

definition js_round :: "rat \<Rightarrow> int" where
  "js_round q = floor (q + 1/2)"

definition safe_integer :: "number \<Rightarrow> bool" where
  "safe_integer n =
     (case n of Finite q \<Rightarrow> of_int (floor q) = q \<and> abs (floor q) \<le> MAX_SAFE_INTEGER
      | NotFinite \<Rightarrow> False)"

definition durationToMs :: "string \<Rightarrow> number \<Rightarrow> bool \<Rightarrow> duration checked" where
  "durationToMs name seconds positive =
     (case seconds of
        NotFinite \<Rightarrow> Inl (RangeError name)
      | Finite s \<Rightarrow>
          if s < 0 then Inl (RangeError name)
          else let ms = js_round (s * 1000) in
            if ms > MAX_DURATION_MS then Inl (RangeError name)
            else if positive \<and> ms < 1 then Inl (RangeError name)
            else Inr ms)"

definition requireEpochMs :: "string \<Rightarrow> number \<Rightarrow> instant checked" where
  "requireEpochMs name n =
     (case n of
        Finite q \<Rightarrow> if \<not> safe_integer n \<or> q < 0 \<or> q > of_int MAX_EPOCH_MS
                    then Inl (RangeError name) else Inr (floor q)
      | NotFinite \<Rightarrow> Inl (RangeError name))"

definition requirePositiveInt :: "string \<Rightarrow> number \<Rightarrow> int \<Rightarrow> int checked" where
  "requirePositiveInt name n least =
     (case n of
        Finite q \<Rightarrow> if \<not> safe_integer n \<or> q < of_int least \<or> q > of_int MAX_COUNT
                    then Inl (RangeError name) else Inr (floor q)
      | NotFinite \<Rightarrow> Inl (RangeError name))"

lemma durationToMs_bounds:
  "durationToMs name s positive = Inr ms \<Longrightarrow>
     0 \<le> ms \<and> ms \<le> MAX_DURATION_MS \<and> (positive \<longrightarrow> 1 \<le> ms)"
  by (auto simp: durationToMs_def Let_def js_round_def split: number.splits if_splits)

lemma requirePositiveInt_bounds:
  "requirePositiveInt name n least = Inr k \<Longrightarrow> least \<le> k \<and> k \<le> MAX_COUNT"
  by (auto simp: requirePositiveInt_def safe_integer_def le_floor_iff floor_le_iff
      split: number.splits if_splits)

lemma requireEpochMs_bounds:
  "requireEpochMs name n = Inr k \<Longrightarrow> 0 \<le> k \<and> k \<le> MAX_EPOCH_MS"
  by (auto simp: requireEpochMs_def safe_integer_def le_floor_iff
      split: number.splits if_splits)

section \<open>Decoding a persisted integer\<close>

text \<open>\<open>decodeBoundedInteger\<close> with the throw of \<open>persistedRowInteger\<close>.\<close>

definition persisted_integer :: "string \<Rightarrow> bounds \<Rightarrow> cell \<Rightarrow> int checked" where
  "persisted_integer scope b c =
     (case c of
        Num a \<Rightarrow> if a < fst b \<or> a > snd b then Inl (RangeError scope) else Inr a
      | _ \<Rightarrow> Inl (RangeError scope))"

lemma persisted_integer_within:
  "stored_within b c \<Longrightarrow> persisted_integer scope b c = Inr (ival c)"
  by (auto simp: persisted_integer_def stored_within_iff)

lemma persisted_integer_Inr:
  "(\<exists>a. persisted_integer scope b c = Inr a) = stored_within b c"
  by (cases c; cases b) (auto simp: persisted_integer_def)

end
