(* ===== verification/Schema.thy ===== *)
theory Schema
  imports Validate
begin

text \<open>
  The scheduler's tables (store-libsql \<open>schema.ts\<close>), one record for each, under the columns'
  names less a suffix, and the database of their rows. The four tables that carry provenance
  have a stamp and the instant it was taken at. A column declared NOT NULL that holds an
  identifier or text is a string, a nullable one an option, an INTEGER column a cell and a JSON
  column a document. The state columns are checked by the schema, so they are an enumeration.
\<close>

datatype lstate = Pending | Running | Sleeping | Completed | Failed | Cancelled

text \<open>\<open>LIVE\<close>: the states still in play.\<close>

fun live :: "lstate \<Rightarrow> bool" where
  "live Pending = True" | "live Running = True" | "live Sleeping = True"
| "live Completed = False" | "live Failed = False" | "live Cancelled = False"

datatype wstatus = Waiting | Delivered

record task =
  t_id :: string
  t_queue :: string
  t_name :: string
  t_params :: string
  t_headers :: doc
  t_retry :: doc
  t_max_attempts :: cell
  t_cancellation :: doc
  t_idem :: "string option"
  t_state :: lstate
  t_attempts :: cell
  t_infra :: cell
  t_last_run :: "string option"
  t_completed :: "string option"
  t_failure :: "string option"
  t_enqueue_at :: cell
  t_first_started :: cell
  t_cancel_at :: cell
  t_cancelled_at :: cell
  t_created_at :: cell
  t_stamp :: "string option"
  t_fence_at :: cell

record run =
  r_id :: string
  r_queue :: string
  r_task :: string
  r_attempt :: cell
  r_state :: lstate
  r_claimed_by :: "string option"
  r_claim_gen :: cell
  r_activated_gen :: cell
  r_relaunch :: cell
  r_lease :: cell
  r_expires :: cell
  r_heartbeat :: cell
  r_available :: cell
  r_wake_event :: "string option"
  r_payload :: cell
  r_wake_step :: "string option"
  r_run_db :: "string option"
  r_started_at :: cell
  r_completed_at :: cell
  r_failed_at :: cell
  r_result :: "string option"
  r_failure :: "string option"
  r_created_at :: cell
  r_stamp :: "string option"
  r_fence_at :: cell

record checkpoint =
  c_task :: string
  c_name :: string
  c_queue :: string
  c_state :: string
  c_committed :: bool
  c_owner_run :: string
  c_owner_attempt :: cell
  c_updated_at :: cell

record event =
  e_queue :: string
  e_name :: string
  e_payload :: cell
  e_emitted_at :: cell
  e_stamp :: "string option"
  e_fence_at :: cell

record wait =
  w_run :: string
  w_step :: string
  w_queue :: string
  w_task :: string
  w_event :: string
  w_status :: wstatus
  w_timeout :: cell
  w_created_at :: cell
  w_stamp :: "string option"
  w_fence_at :: cell

record driver =
  d_queue :: string
  d_id :: string
  d_beat :: cell
  d_expires :: cell

record db =
  tasks :: "task list"
  runs :: "run list"
  checkpoints :: "checkpoint list"
  events :: "event list"
  waits :: "wait list"
  drivers :: "driver list"

definition empty_db :: db where
  "empty_db = \<lparr>tasks = [], runs = [], checkpoints = [], events = [], waits = [], drivers = []\<rparr>"

text \<open>The primary keys.\<close>

definition c_key :: "checkpoint \<Rightarrow> string \<times> string" where "c_key c = (c_task c, c_name c)"
definition e_key :: "event \<Rightarrow> string \<times> string" where "e_key e = (e_queue e, e_name e)"
definition w_key :: "wait \<Rightarrow> string \<times> string" where "w_key w = (w_run w, w_step w)"
definition d_key :: "driver \<Rightarrow> string \<times> string" where "d_key d = (d_queue d, d_id d)"

text \<open>The index \<open>runs_task_attempt\<close> is unique, and so is \<open>tasks_idem\<close> where the key is not NULL.\<close>

definition r_ordinal :: "run \<Rightarrow> string \<times> cell" where "r_ordinal r = (r_task r, r_attempt r)"

definition idem_taken :: "task list \<Rightarrow> string \<Rightarrow> string option \<Rightarrow> bool" where
  "idem_taken ts q k = (k \<noteq> None \<and> (\<exists>t\<in>set ts. t_queue t = q \<and> t_idem t = k))"

text \<open>What the schema's keys and unique indexes hold of every reachable database.\<close>

definition idem_unique :: "task list \<Rightarrow> bool" where
  "idem_unique ts =
     (\<forall>t\<in>set ts. \<forall>u\<in>set ts. t_idem t \<noteq> None \<and> t_queue t = t_queue u \<and> t_idem t = t_idem u \<longrightarrow> t = u)"

definition keys_ok :: "db \<Rightarrow> bool" where
  "keys_ok db =
     (keyed t_id (tasks db) \<and> keyed r_id (runs db) \<and> keyed r_ordinal (runs db) \<and>
      keyed c_key (checkpoints db) \<and> keyed e_key (events db) \<and> keyed w_key (waits db) \<and>
      keyed d_key (drivers db))"

definition task_of :: "string \<Rightarrow> task list \<Rightarrow> task option" where
  "task_of x ts = find (\<lambda>t. t_id t = x) ts"

definition run_of :: "string \<Rightarrow> run list \<Rightarrow> run option" where
  "run_of x rs = find (\<lambda>r. r_id r = x) rs"

definition event_of :: "string \<times> string \<Rightarrow> event list \<Rightarrow> event option" where
  "event_of x es = find (\<lambda>e. e_key e = x) es"

definition wait_of :: "string \<times> string \<Rightarrow> wait list \<Rightarrow> wait option" where
  "wait_of x ws = find (\<lambda>w. w_key w = x) ws"

definition checkpoint_of :: "string \<times> string \<Rightarrow> checkpoint list \<Rightarrow> checkpoint option" where
  "checkpoint_of x cs = find (\<lambda>c. c_key c = x) cs"

interpretation task_table: keyed_table t_id task_of "insert_row t_id"
  by unfold_locales (simp_all add: task_of_def)

interpretation run_table: keyed_table r_id run_of "insert_row r_id"
  by unfold_locales (simp_all add: run_of_def)

interpretation event_table: keyed_table e_key event_of "insert_row e_key"
  by unfold_locales (simp_all add: event_of_def)

interpretation wait_table: keyed_table w_key wait_of "insert_row w_key"
  by unfold_locales (simp_all add: wait_of_def)

interpretation checkpoint_table: keyed_table c_key checkpoint_of "insert_row c_key"
  by unfold_locales (simp_all add: checkpoint_of_def)

lemma live_iff: "live s = (s = Pending \<or> s = Running \<or> s = Sleeping)"
  by (cases s) auto

text \<open>The runs a task owns, in this queue (\<open>runOwnedByTask\<close>), and a task's unit of runs.\<close>

definition owned_by :: "run \<Rightarrow> task \<Rightarrow> bool" where
  "owned_by r t = (t_id t = r_task r \<and> t_queue t = r_queue r)"

definition runs_of :: "string \<Rightarrow> db \<Rightarrow> run list" where
  "runs_of tid db = filter (\<lambda>r. r_task r = tid) (runs db)"

end
