(* ===== verification/Fence.thy ===== *)
theory Fence
  imports Schema
begin

text \<open>
  The batch primitive (core \<open>fenced-batch.ts\<close>) and the provenance stamp (\<open>contract.ts\<close>). A batch
  is a list of named statements that one transaction executes in order. A compare-and-set stamps
  every row it writes with \<open><seed>:<name>\<close> and with the instant it read; a follow-on selects the
  rows an earlier statement stamped and takes its instants from them. A constraint violation
  aborts the transaction. After the commit the primitive audits the row counts and names the
  winner. The statements of the relations \<open>FENCE_RELATIONS\<close> are generated here once.
\<close>

section \<open>Stamps\<close>

definition stamp :: "string \<Rightarrow> string \<Rightarrow> string" where
  "stamp seed name = seed @ '':'' @ name"

definition stamped_by :: "string \<Rightarrow> string option \<Rightarrow> bool" where
  "stamped_by seed s = (case s of None \<Rightarrow> False | Some x \<Rightarrow> prefix (seed @ '':'') x)"

lemma stamped_by_stamp [simp]: "stamped_by seed (Some (stamp seed name))"
  by (simp add: stamped_by_def stamp_def)

lemma stamped_byI: "s = Some (stamp seed name) \<Longrightarrow> stamped_by seed s"
  by simp

lemma stamp_inject [simp]: "(stamp seed a = stamp seed b) = (a = b)"
  by (simp add: stamp_def)

text \<open>\<open>isFenceStatementName\<close>: one or more letters, digits, underscores or dashes.\<close>

definition fence_name_char :: "char \<Rightarrow> bool" where
  "fence_name_char c =
     ((CHR ''a'' \<le> c \<and> c \<le> CHR ''z'') \<or> (CHR ''A'' \<le> c \<and> c \<le> CHR ''Z'') \<or>
      (CHR ''0'' \<le> c \<and> c \<le> CHR ''9'') \<or> c = CHR ''_'' \<or> c = CHR ''-'')"

definition isFenceStatementName :: "string \<Rightarrow> bool" where
  "isFenceStatementName s = (s \<noteq> [] \<and> list_all fence_name_char s)"

datatype stamp_error = NoSeparator | EmptySeed | EmptyStatement | StatementNameInvalid

text \<open>\<open>lastIndexOf(':')\<close>, and the parse of a stored stamp.\<close>

fun last_colon :: "string \<Rightarrow> nat option" where
  "last_colon [] = None"
| "last_colon (c # s) =
     (case last_colon s of
        Some i \<Rightarrow> Some (Suc i)
      | None \<Rightarrow> if c = CHR '':'' then Some 0 else None)"

definition parseFenceStamp :: "string \<Rightarrow> stamp_error + (string \<times> string)" where
  "parseFenceStamp s =
     (case last_colon s of
        None \<Rightarrow> Inl NoSeparator
      | Some i \<Rightarrow>
          if i = 0 then Inl EmptySeed
          else if i = length s - 1 then Inl EmptyStatement
          else let statement = drop (i + 1) s in
            if \<not> isFenceStatementName statement then Inl StatementNameInvalid
            else Inr (take i s, statement))"

lemma last_colon_append:
  "CHR '':'' \<notin> set b \<Longrightarrow> last_colon (a @ CHR '':'' # b) = Some (length a)"
proof -
  assume b: "CHR '':'' \<notin> set b"
  have "last_colon b = None" using b by (induction b) auto
  then show ?thesis by (induction a) auto
qed

lemma last_colon_Some:
  "last_colon s = Some i \<Longrightarrow> i < length s \<and> s ! i = CHR '':'' \<and> CHR '':'' \<notin> set (drop (i + 1) s)"
proof (induction s arbitrary: i)
  case (Cons c s)
  have none: "last_colon s = None \<Longrightarrow> CHR '':'' \<notin> set s" for s
    by (induction s) (auto split: option.splits if_splits)
  show ?case
    using Cons by (cases "last_colon s") (auto split: if_splits dest: none)
qed simp

section \<open>Statements and batches\<close>

datatype stmt_kind = Cas | CasMany | FollowOn

record stmt =
  s_name :: string
  s_kind :: stmt_kind
  s_atmost :: "nat option"
  s_exec :: "db \<Rightarrow> exn + (db \<times> nat)"

record fenced_result =
  won :: "string option"
  won_count :: nat
  affected :: "(string \<times> nat) list"

fun exec_all :: "stmt list \<Rightarrow> db \<Rightarrow> exn + (db \<times> nat list)" where
  "exec_all [] db = Inr (db, [])"
| "exec_all (s # ss) db =
     (case s_exec s db of
        Inl e \<Rightarrow> Inl e
      | Inr (db', n) \<Rightarrow>
          (case exec_all ss db' of
             Inl e \<Rightarrow> Inl e
           | Inr (db'', ns) \<Rightarrow> Inr (db'', n # ns)))"

definition over :: "nat \<Rightarrow> nat option \<Rightarrow> bool" where
  "over n m = (case m of None \<Rightarrow> False | Some k \<Rightarrow> k < n)"

text \<open>The audit of \<open>FencedBatch.run\<close>, in the order of the statements.\<close>

fun audit :: "(stmt \<times> nat) list \<Rightarrow> string option \<Rightarrow> nat \<Rightarrow> exn + (string option \<times> nat)" where
  "audit [] w n = Inr (w, n)"
| "audit ((s, k) # rest) w n =
     (if over k (s_atmost s) then Inl (BatchAudit (s_name s) ''affected too many rows'')
      else if s_kind s \<noteq> FollowOn \<and> 1 \<le> k then
        (if w \<noteq> None then Inl (BatchAudit (s_name s) ''both won'')
         else audit rest (Some (s_name s)) k)
      else audit rest w n)"

definition run_batch :: "stmt list \<Rightarrow> db \<Rightarrow> db \<times> (exn + fenced_result)" where
  "run_batch ss db =
     (case exec_all ss db of
        Inl e \<Rightarrow> (db, Inl e)
      | Inr (db', ns) \<Rightarrow>
          (db', case audit (zip ss ns) None 0 of
                  Inl e \<Rightarrow> Inl e
                | Inr (w, k) \<Rightarrow>
                    Inr \<lparr>won = w, won_count = k, affected = zip (map s_name ss) ns\<rparr>))"

definition affected_of :: "string \<Rightarrow> fenced_result \<Rightarrow> nat" where
  "affected_of name res = (case map_of (affected res) name of None \<Rightarrow> 0 | Some n \<Rightarrow> n)"

section \<open>Writes of one table\<close>

definition upd_tasks ::
  "(db \<Rightarrow> task \<Rightarrow> bool) \<Rightarrow> (db \<Rightarrow> task \<Rightarrow> task) \<Rightarrow> db \<Rightarrow> exn + (db \<times> nat)" where
  "upd_tasks p f db =
     Inr (db\<lparr>tasks := update_where (p db) (f db) (tasks db)\<rparr>, count_where (p db) (tasks db))"

definition upd_runs ::
  "(db \<Rightarrow> run \<Rightarrow> bool) \<Rightarrow> (db \<Rightarrow> run \<Rightarrow> run) \<Rightarrow> db \<Rightarrow> exn + (db \<times> nat)" where
  "upd_runs p f db =
     Inr (db\<lparr>runs := update_where (p db) (f db) (runs db)\<rparr>, count_where (p db) (runs db))"

definition del_waits :: "(db \<Rightarrow> wait \<Rightarrow> bool) \<Rightarrow> db \<Rightarrow> exn + (db \<times> nat)" where
  "del_waits p db =
     Inr (db\<lparr>waits := delete_where (p db) (waits db)\<rparr>, count_where (p db) (waits db))"

text \<open>An insert of a run: its id is the primary key, and its task and ordinal are unique.\<close>

definition ins_run :: "run \<Rightarrow> db \<Rightarrow> exn + (db \<times> nat)" where
  "ins_run r db =
     (if r_id r \<in> r_id ` set (runs db) then Inl (UniqueViolation ''runs.run_id'')
      else if r_ordinal r \<in> r_ordinal ` set (runs db)
      then Inl (UniqueViolation ''runs_task_attempt'')
      else Inr (db\<lparr>runs := runs db @ [r]\<rparr>, 1))"

section \<open>Generated statements\<close>

definition stamp_task :: "string \<Rightarrow> string \<Rightarrow> cell \<Rightarrow> task \<Rightarrow> task" where
  "stamp_task seed name since t = t\<lparr>t_stamp := Some (stamp seed name), t_fence_at := since\<rparr>"

definition stamp_run :: "string \<Rightarrow> string \<Rightarrow> cell \<Rightarrow> run \<Rightarrow> run" where
  "stamp_run seed name since r = r\<lparr>r_stamp := Some (stamp seed name), r_fence_at := since\<rparr>"

lemmas stamp_row_defs [stmt_defs] = stamp_task_def stamp_run_def

text \<open>The compare-and-sets over runs and tasks (\<open>FENCE_ASSIGNMENTS\<close>).\<close>

definition cas_runs ::
  "string \<Rightarrow> instant \<Rightarrow> string \<Rightarrow> (db \<Rightarrow> run \<Rightarrow> bool) \<Rightarrow> (db \<Rightarrow> run \<Rightarrow> run) \<Rightarrow> stmt" where
  "cas_runs seed now name p f =
     \<lparr>s_name = name, s_kind = Cas, s_atmost = Some 1,
      s_exec = upd_runs p (\<lambda>db r. stamp_run seed name (Num now) (f db r))\<rparr>"

definition cas_many_runs ::
  "string \<Rightarrow> instant \<Rightarrow> string \<Rightarrow> nat \<Rightarrow> (db \<Rightarrow> run \<Rightarrow> bool) \<Rightarrow> (db \<Rightarrow> run \<Rightarrow> run) \<Rightarrow> stmt" where
  "cas_many_runs seed now name most p f =
     \<lparr>s_name = name, s_kind = CasMany, s_atmost = Some most,
      s_exec = upd_runs p (\<lambda>db r. stamp_run seed name (Num now) (f db r))\<rparr>"

definition cas_tasks ::
  "string \<Rightarrow> instant \<Rightarrow> string \<Rightarrow> (db \<Rightarrow> task \<Rightarrow> bool) \<Rightarrow> (db \<Rightarrow> task \<Rightarrow> task) \<Rightarrow> stmt" where
  "cas_tasks seed now name p f =
     \<lparr>s_name = name, s_kind = Cas, s_atmost = Some 1,
      s_exec = upd_tasks p (\<lambda>db t. stamp_task seed name (Num now) (f db t))\<rparr>"

text \<open>The rows a statement of this batch stamped, as a follow-on's source selects them.\<close>

definition stamped_runs :: "string \<Rightarrow> string \<Rightarrow> (run \<Rightarrow> bool) \<Rightarrow> db \<Rightarrow> run list" where
  "stamped_runs seed fence w db =
     filter (\<lambda>f. w f \<and> r_stamp f = Some (stamp seed fence)) (runs db)"

definition stamped_tasks :: "string \<Rightarrow> string \<Rightarrow> (task \<Rightarrow> bool) \<Rightarrow> db \<Rightarrow> task list" where
  "stamped_tasks seed fence w db =
     filter (\<lambda>f. w f \<and> t_stamp f = Some (stamp seed fence)) (tasks db)"

definition stamped_waits :: "string \<Rightarrow> string \<Rightarrow> (wait \<Rightarrow> bool) \<Rightarrow> db \<Rightarrow> wait list" where
  "stamped_waits seed fence w db =
     filter (\<lambda>f. w f \<and> w_stamp f = Some (stamp seed fence)) (waits db)"

definition stamped_events :: "string \<Rightarrow> string \<Rightarrow> (event \<Rightarrow> bool) \<Rightarrow> db \<Rightarrow> event list" where
  "stamped_events seed fence w db =
     filter (\<lambda>f. w f \<and> e_stamp f = Some (stamp seed fence)) (events db)"

text \<open>\<open>derived\<close> over \<open>runs-to-tasks\<close>: the tasks of the stamped runs, in the batch's queue.\<close>

definition runs_to_tasks ::
  "string \<Rightarrow> string \<Rightarrow> string \<Rightarrow> string \<Rightarrow> (run \<Rightarrow> bool) \<Rightarrow> (db \<Rightarrow> task \<Rightarrow> task) \<Rightarrow>
   (db \<Rightarrow> task \<Rightarrow> bool) \<Rightarrow> nat option \<Rightarrow> stmt" where
  "runs_to_tasks seed name fence q w set_to narrow rows =
     \<lparr>s_name = name, s_kind = FollowOn, s_atmost = rows,
      s_exec = (\<lambda>db.
        let src = stamped_runs seed fence (\<lambda>f. w f \<and> r_queue f = q) db in
        upd_tasks
          (\<lambda>db t. (\<exists>f\<in>set src. t_id t = r_task f) \<and> t_queue t = q \<and> narrow db t)
          (\<lambda>db t. stamp_task seed name (sql_min (map r_fence_at src)) (set_to db t)) db)\<rparr>"

text \<open>\<open>derived\<close> over \<open>tasks-to-runs\<close>.\<close>

definition tasks_to_runs ::
  "string \<Rightarrow> string \<Rightarrow> string \<Rightarrow> string \<Rightarrow> (task \<Rightarrow> bool) \<Rightarrow> (db \<Rightarrow> run \<Rightarrow> run) \<Rightarrow>
   (db \<Rightarrow> run \<Rightarrow> bool) \<Rightarrow> nat option \<Rightarrow> stmt" where
  "tasks_to_runs seed name fence q w set_to narrow rows =
     \<lparr>s_name = name, s_kind = FollowOn, s_atmost = rows,
      s_exec = (\<lambda>db.
        let src = stamped_tasks seed fence (\<lambda>f. w f \<and> t_queue f = q) db in
        upd_runs
          (\<lambda>db r. (\<exists>f\<in>set src. r_task r = t_id f) \<and> r_queue r = q \<and> narrow db r)
          (\<lambda>db r. stamp_run seed name (sql_min (map t_fence_at src)) (set_to db r)) db)\<rparr>"

text \<open>\<open>derived\<close> over \<open>waits-to-runs\<close>.\<close>

definition waits_to_runs ::
  "string \<Rightarrow> string \<Rightarrow> string \<Rightarrow> string \<Rightarrow> (wait \<Rightarrow> bool) \<Rightarrow> (db \<Rightarrow> run \<Rightarrow> run) \<Rightarrow>
   (db \<Rightarrow> run \<Rightarrow> bool) \<Rightarrow> nat option \<Rightarrow> stmt" where
  "waits_to_runs seed name fence q w set_to narrow rows =
     \<lparr>s_name = name, s_kind = FollowOn, s_atmost = rows,
      s_exec = (\<lambda>db.
        let src = stamped_waits seed fence (\<lambda>f. w f \<and> w_queue f = q) db in
        upd_runs
          (\<lambda>db r. (\<exists>f\<in>set src. r_id r = w_run f) \<and> r_queue r = q \<and> narrow db r)
          (\<lambda>db r. stamp_run seed name (sql_min (map w_fence_at src)) (set_to db r)) db)\<rparr>"

text \<open>\<open>derived\<close> over \<open>runs-to-waits\<close>: a DELETE that follows \<open>run_id\<close> whatever queue the wait
  names.\<close>

definition runs_to_waits ::
  "string \<Rightarrow> string \<Rightarrow> string \<Rightarrow> (run \<Rightarrow> bool) \<Rightarrow> (db \<Rightarrow> wait \<Rightarrow> bool) \<Rightarrow> stmt" where
  "runs_to_waits seed name fence w narrow =
     \<lparr>s_name = name, s_kind = FollowOn, s_atmost = None,
      s_exec = (\<lambda>db.
        let src = stamped_runs seed fence w db in
        del_waits (\<lambda>db x. (\<exists>f\<in>set src. w_run x = r_id f) \<and> narrow db x) db)\<rparr>"

text \<open>\<open>seal\<close> over \<open>runs-to-runs\<close>: the stamp of the source rows is overwritten at their instant.\<close>

definition seal_runs :: "string \<Rightarrow> string \<Rightarrow> string \<Rightarrow> (run \<Rightarrow> bool) \<Rightarrow> stmt" where
  "seal_runs seed name fence w =
     \<lparr>s_name = name, s_kind = FollowOn, s_atmost = None,
      s_exec = (\<lambda>db.
        let src = stamped_runs seed fence w db in
        upd_runs
          (\<lambda>db r. \<exists>f\<in>set src. r_id r = r_id f)
          (\<lambda>db r. stamp_run seed name (sql_min (map r_fence_at src)) r) db)\<rparr>"

section \<open>A batch that won nothing wrote nothing\<close>

text \<open>No row carries a stamp of this seed: the seed is drawn anew for every invocation.\<close>

definition fresh :: "string \<Rightarrow> db \<Rightarrow> bool" where
  "fresh seed db =
     ((\<forall>t\<in>set (tasks db). \<not> stamped_by seed (t_stamp t)) \<and>
      (\<forall>r\<in>set (runs db). \<not> stamped_by seed (r_stamp r)) \<and>
      (\<forall>w\<in>set (waits db). \<not> stamped_by seed (w_stamp w)) \<and>
      (\<forall>e\<in>set (events db). \<not> stamped_by seed (e_stamp e)))"

definition gated :: "string \<Rightarrow> stmt \<Rightarrow> bool" where
  "gated seed s = (\<forall>db. fresh seed db \<longrightarrow> s_exec s db = Inr (db, 0))"

definition silent :: "stmt \<Rightarrow> bool" where
  "silent s = (\<forall>db db'. s_exec s db = Inr (db', 0) \<longrightarrow> db' = db)"

definition loses_quietly :: "string \<Rightarrow> stmt \<Rightarrow> bool" where
  "loses_quietly seed s = (if s_kind s = FollowOn then gated seed s else silent s)"

lemma stamped_fresh [simp]:
  "fresh seed db \<Longrightarrow> stamped_runs seed fence w db = []"
  "fresh seed db \<Longrightarrow> stamped_tasks seed fence v db = []"
  "fresh seed db \<Longrightarrow> stamped_waits seed fence u db = []"
  "fresh seed db \<Longrightarrow> stamped_events seed fence x db = []"
  by (auto simp: fresh_def stamped_runs_def stamped_tasks_def stamped_waits_def stamped_events_def
      filter_empty_conv)

lemma upd_none:
  "(\<And>t. t \<in> set (tasks db) \<Longrightarrow> \<not> p db t) \<Longrightarrow> upd_tasks p f db = Inr (db, 0)"
  "(\<And>r. r \<in> set (runs db) \<Longrightarrow> \<not> q db r) \<Longrightarrow> upd_runs q g db = Inr (db, 0)"
  "(\<And>w. w \<in> set (waits db) \<Longrightarrow> \<not> d db w) \<Longrightarrow> del_waits d db = Inr (db, 0)"
  by (simp_all add: upd_tasks_def upd_runs_def del_waits_def update_where_none delete_where_none
      count_where_0)

lemma upd_zero:
  "upd_tasks p f db = Inr (db', 0) \<Longrightarrow> db' = db"
  "upd_runs q g db = Inr (db', 0) \<Longrightarrow> db' = db"
  by (auto simp: upd_tasks_def upd_runs_def count_where_0 update_where_none)

lemma generated_gated [simp]:
  "gated seed (runs_to_tasks seed name fence q w set_to narrow rows)"
  "gated seed (tasks_to_runs seed name fence q w2 set_to2 narrow2 rows)"
  "gated seed (waits_to_runs seed name fence q w3 set_to3 narrow3 rows)"
  "gated seed (runs_to_waits seed name fence w4 narrow4)"
  "gated seed (seal_runs seed name fence w5)"
  by (auto simp: gated_def runs_to_tasks_def tasks_to_runs_def waits_to_runs_def runs_to_waits_def
      seal_runs_def Let_def intro!: upd_none)

lemma generated_kind [simp]:
  "s_kind (runs_to_tasks seed name fence q w set_to narrow rows) = FollowOn"
  "s_kind (tasks_to_runs seed name fence q w2 set_to2 narrow2 rows) = FollowOn"
  "s_kind (waits_to_runs seed name fence q w3 set_to3 narrow3 rows) = FollowOn"
  "s_kind (runs_to_waits seed name fence w4 narrow4) = FollowOn"
  "s_kind (seal_runs seed name fence w5) = FollowOn"
  by (simp_all add: runs_to_tasks_def tasks_to_runs_def waits_to_runs_def runs_to_waits_def
      seal_runs_def)

lemma cas_quiet [simp]:
  "loses_quietly seed (cas_runs seed now name p f)"
  "loses_quietly seed (cas_many_runs seed now name k p f)"
  "loses_quietly seed (cas_tasks seed now name q g)"
  by (auto simp: loses_quietly_def silent_def cas_runs_def cas_many_runs_def cas_tasks_def
      dest: upd_zero)

lemma generated_quiet [simp]:
  "loses_quietly seed (runs_to_tasks seed name fence q w set_to narrow rows)"
  "loses_quietly seed (tasks_to_runs seed name fence q w2 set_to2 narrow2 rows)"
  "loses_quietly seed (waits_to_runs seed name fence q w3 set_to3 narrow3 rows)"
  "loses_quietly seed (runs_to_waits seed name fence w4 narrow4)"
  "loses_quietly seed (seal_runs seed name fence w5)"
  by (simp_all add: loses_quietly_def)

lemma audit_won: "audit xs (Some w) n = Inr (w', k) \<Longrightarrow> w' \<noteq> None"
  by (induction xs "Some w" n rule: audit.induct) (auto split: if_splits)

lemma exec_all_quiet:
  assumes "fresh seed db" "\<forall>s\<in>set ss. loses_quietly seed s"
    "exec_all ss db = Inr (db', ns)" "audit (zip ss ns) None n = Inr (None, k)"
  shows "db' = db \<and> (\<forall>n\<in>set ns. n = 0)"
  using assms
proof (induction ss arbitrary: ns)
  case (Cons s ss)
  obtain db1 n1 ns1 where step: "s_exec s db = Inr (db1, n1)" "exec_all ss db1 = Inr (db', ns1)"
    "ns = n1 # ns1"
    using Cons.prems(3) by (auto split: sum.splits)
  have quiet: "loses_quietly seed s" using Cons.prems(2) by simp
  have same: "db1 = db \<and> n1 = 0 \<and> audit (zip ss ns1) None n = Inr (None, k)"
  proof (cases "s_kind s = FollowOn")
    case True
    then have "s_exec s db = Inr (db, 0)" using quiet Cons.prems(1)
      by (simp add: loses_quietly_def gated_def)
    then show ?thesis using step Cons.prems(4) True by (auto split: if_splits)
  next
    case False
    have a: "audit ((s, n1) # zip ss ns1) None n = Inr (None, k)"
      using Cons.prems(4) step(3) by simp
    then have "n1 = 0" using False audit_won by (fastforce split: if_splits)
    moreover from this have "db1 = db" using quiet False step(1)
      by (simp add: loses_quietly_def silent_def)
    ultimately show ?thesis using a by (auto split: if_splits)
  qed
  have "exec_all ss db = Inr (db', ns1)" using same step(2) by simp
  then have "db' = db \<and> (\<forall>n\<in>set ns1. n = 0)"
    using Cons.IH[of ns1] Cons.prems(1,2) same by simp
  then show ?case using same step(3) by simp
qed simp

theorem lost_batch_unchanged:
  assumes "fresh seed db" "\<forall>s\<in>set ss. loses_quietly seed s"
    "run_batch ss db = (db', Inr res)" "won res = None"
  shows "db' = db"
proof -
  obtain ns where e: "exec_all ss db = Inr (db', ns)"
    using assms(3) by (auto simp: run_batch_def split: sum.splits)
  then obtain k where "audit (zip ss ns) None 0 = Inr (None, k)"
    using assms(3,4) by (auto simp: run_batch_def split: sum.splits)
  then show ?thesis using exec_all_quiet assms(1,2) e by blast
qed

end
