(* ===== verification/Fragments.thy ===== *)
theory Fragments
  imports Fence
begin

text \<open>
  The shared predicates of the store (store-libsql \<open>fragments.ts\<close>): what live, due, eligible and
  owned mean, the admission of stored counters, and the durable state of a saga. Each is a
  predicate over a row and the database its subqueries read. An instant is an argument, as it is
  in the source: a compare-and-set passes the batch's clock, a follow-on the instant its fence
  recorded.
\<close>

section \<open>Deadlines\<close>

definition cancelDue :: "task \<Rightarrow> instant \<Rightarrow> bool" where
  "cancelDue t moment =
     (stored_within epoch_bounds (t_cancel_at t) \<and> cell_le (t_cancel_at t) (Num moment))"

definition cancelNotDue :: "task \<Rightarrow> instant \<Rightarrow> bool" where
  "cancelNotDue t moment =
     (t_cancel_at t = Null \<or>
      (stored_within epoch_bounds (t_cancel_at t) \<and> cell_lt (Num moment) (t_cancel_at t)))"

definition runAvailableDue :: "run \<Rightarrow> instant \<Rightarrow> bool" where
  "runAvailableDue r moment =
     (stored_within epoch_bounds (r_available r) \<and> cell_le (r_available r) (Num moment))"

definition runClaimExpired :: "run \<Rightarrow> instant \<Rightarrow> bool" where
  "runClaimExpired r moment =
     (stored_within epoch_bounds (r_expires r) \<and> cell_le (r_expires r) (Num moment))"

definition runClaimUnexpired :: "run \<Rightarrow> instant \<Rightarrow> bool" where
  "runClaimUnexpired r moment =
     (stored_within epoch_bounds (r_expires r) \<and> cell_lt (Num moment) (r_expires r))"

definition eligibleTask :: "task \<Rightarrow> instant \<Rightarrow> bool" where
  "eligibleTask t moment = (live (t_state t) \<and> cancelNotDue t moment)"

section \<open>Counters\<close>

definition storedPositiveClaimGeneration :: "run \<Rightarrow> bool" where
  "storedPositiveClaimGeneration r = stored_within positive_claim_gen_bounds (r_claim_gen r)"

definition storedIncrementableClaimGeneration :: "run \<Rightarrow> bool" where
  "storedIncrementableClaimGeneration r = incrementable claim_gen_bounds (r_claim_gen r)"

definition storedCurrentRunAccounting :: "run \<Rightarrow> task \<Rightarrow> bool" where
  "storedCurrentRunAccounting r t =
     (stored_within run_attempt_bounds (r_attempt r) \<and>
      stored_within attempts_bounds (t_attempts t) \<and>
      stored_within max_attempts_bounds (t_max_attempts t) \<and>
      stored_within infra_retries_bounds (t_infra t) \<and>
      cell_lt (t_attempts t) (t_max_attempts t) \<and>
      r_attempt r = cell_plus (cell_plus (t_attempts t) (t_infra t)) (Num 1))"

definition storedHighestOwnedOrdinal :: "db \<Rightarrow> run \<Rightarrow> bool" where
  "storedHighestOwnedOrdinal db r =
     (\<not> (\<exists>h\<in>set (runs db). r_task h = r_task r \<and>
            (\<not> stored_within run_attempt_bounds (r_attempt h) \<or>
             cell_lt (r_attempt r) (r_attempt h))))"

section \<open>Ownership\<close>

definition runOwnedByTask :: "run \<Rightarrow> task \<Rightarrow> bool" where
  "runOwnedByTask r t = (t_id t = r_task r \<and> t_queue t = r_queue r)"

definition taskOwnsEveryRun :: "db \<Rightarrow> task \<Rightarrow> bool" where
  "taskOwnsEveryRun db t =
     (\<not> (\<exists>r\<in>set (runs db). r_task r = t_id t \<and> r_queue r \<noteq> t_queue t))"

definition soleLiveRun :: "db \<Rightarrow> run \<Rightarrow> bool" where
  "soleLiveRun db r =
     (\<not> (\<exists>s\<in>set (runs db). r_task s = r_task r \<and> live (r_state s) \<and> r_id s \<noteq> r_id r))"

text \<open>Some task that owns the run satisfies the predicate.\<close>

definition owner_such :: "db \<Rightarrow> run \<Rightarrow> (task \<Rightarrow> bool) \<Rightarrow> bool" where
  "owner_such db r p = (\<exists>t\<in>set (tasks db). runOwnedByTask r t \<and> p t)"

definition successorOwned :: "db \<Rightarrow> string \<Rightarrow> string \<Rightarrow> cell \<Rightarrow> bool" where
  "successorOwned db i task attempt =
     (\<exists>s\<in>set (runs db). r_id s = i \<and> r_task s = task \<and> attempt \<noteq> Null \<and> r_attempt s = attempt)"

text \<open>\<open>topOrdinal\<close> and \<open>noLiveRunOf\<close>.\<close>

definition topOrdinal :: "db \<Rightarrow> task \<Rightarrow> cell" where
  "topOrdinal db t = sql_max (map r_attempt (filter (\<lambda>r. runOwnedByTask r t) (runs db)))"

definition noLiveRunOf :: "db \<Rightarrow> task \<Rightarrow> bool" where
  "noLiveRunOf db t = (\<not> (\<exists>r\<in>set (runs db). runOwnedByTask r t \<and> live (r_state r)))"

section \<open>The registered wait of a parked run\<close>

definition wait_witness :: "run \<Rightarrow> wait \<Rightarrow> bool" where
  "wait_witness r w =
     (w_run w = r_id r \<and> w_queue w = r_queue r \<and> w_task w = r_task r \<and>
      r_wake_event r = Some (w_event w) \<and> w_status w = Waiting \<and>
      w_timeout w = r_available r \<and>
      (r_available r = Null \<or> stored_within epoch_bounds (r_available r)) \<and>
      (w_timeout w = Null \<or> stored_within epoch_bounds (w_timeout w)))"

definition registeredStep :: "db \<Rightarrow> run \<Rightarrow> string option" where
  "registeredStep db r =
     (case filter (wait_witness r) (waits db) of [w] \<Rightarrow> Some (w_step w) | _ \<Rightarrow> None)"

definition registeredCurrent :: "db \<Rightarrow> run \<Rightarrow> bool" where
  "registeredCurrent db r =
     (\<exists>w\<in>set (waits db). wait_witness r w \<and> r_wake_step r = Some (w_step w))"

definition registeredUnambiguous :: "db \<Rightarrow> run \<Rightarrow> bool" where
  "registeredUnambiguous db r = (length (filter (wait_witness r) (waits db)) \<le> 1)"

definition waitsTemporallySafe :: "db \<Rightarrow> run \<Rightarrow> bool" where
  "waitsTemporallySafe db r =
     (\<not> (\<exists>w\<in>set (waits db). w_run w = r_id r \<and> w_status w = Waiting \<and>
            w_timeout w \<noteq> Null \<and> \<not> stored_within epoch_bounds (w_timeout w)))"

section \<open>Durable documents a worker is handed\<close>

text \<open>A duration of the retry strategy: a JSON number, not negative, a valid span once in
  milliseconds.\<close>

definition durable_duration :: "json \<Rightarrow> string \<Rightarrow> bool" where
  "durable_duration d path =
     (case Option.bind (member path d) json_number of
        None \<Rightarrow> False
      | Some q \<Rightarrow> 0 \<le> q \<and> 0 \<le> millis q \<and> millis q \<le> MAX_DURATION_MS)"

definition durable_factor :: "json \<Rightarrow> bool" where
  "durable_factor d =
     (case Option.bind (member ''factor'' d) json_number of
        None \<Rightarrow> False
      | Some q \<Rightarrow> 0 \<le> q \<and> q \<le> 17976931348623157 * 10 ^ 292)"

definition durableTaskRetryAdmissible :: "task \<Rightarrow> bool" where
  "durableTaskRetryAdmissible t =
     (case t_retry t of
        Doc (JObject ms) \<Rightarrow>
          distinct (map fst ms) \<and>
          (case map_of ms ''kind'' of
             Some (JText kind) \<Rightarrow>
               if kind = ''none'' then True
               else if kind = ''fixed'' then durable_duration (JObject ms) ''baseSeconds''
               else if kind = ''exponential'' then
                 durable_duration (JObject ms) ''baseSeconds'' \<and> durable_factor (JObject ms) \<and>
                 durable_duration (JObject ms) ''maxSeconds''
               else False
           | _ \<Rightarrow> False)
      | _ \<Rightarrow> False)"

fun is_text :: "json \<Rightarrow> bool" where
  "is_text (JText _) = True"
| "is_text _ = False"

definition durableTaskHeadersAdmissible :: "task \<Rightarrow> bool" where
  "durableTaskHeadersAdmissible t =
     (case t_headers t of
        NoDoc \<Rightarrow> True
      | Doc (JObject ms) \<Rightarrow> distinct (map fst ms) \<and> list_all (\<lambda>m. is_text (snd m)) ms
      | _ \<Rightarrow> False)"

section \<open>Sagas\<close>

definition SAGA_PHASE_CHECKPOINT :: string where "SAGA_PHASE_CHECKPOINT = ''$rolling-back''"
definition SAGA_STARTED_PREFIX :: string where "SAGA_STARTED_PREFIX = ''$started:''"
definition SAGA_ROLLBACK_PREFIX :: string where "SAGA_ROLLBACK_PREFIX = ''$rollback:''"
definition SAGA_TRIES_PREFIX :: string where "SAGA_TRIES_PREFIX = ''$rollback-tries:''"

lemmas saga_name_defs =
  SAGA_PHASE_CHECKPOINT_def SAGA_STARTED_PREFIX_def SAGA_ROLLBACK_PREFIX_def SAGA_TRIES_PREFIX_def

definition sagaBeganOf :: "db \<Rightarrow> string \<Rightarrow> bool" where
  "sagaBeganOf db task =
     (\<exists>c\<in>set (checkpoints db). c_task c = task \<and> c_name c = SAGA_PHASE_CHECKPOINT)"

definition namedUnder :: "string \<Rightarrow> string \<Rightarrow> bool" where
  "namedUnder name pre = (take (length pre) name = pre)"

text \<open>\<open>firstNamePast\<close> and \<open>rangeUnder\<close>: the names under a reserved prefix as a range of the key.\<close>

definition firstNamePast :: "string \<Rightarrow> string" where
  "firstNamePast pre = butlast pre @ [CHR '';'']"

definition rangeUnder :: "checkpoint \<Rightarrow> string \<Rightarrow> bool" where
  "rangeUnder c pre = (pre \<le> c_name c \<and> c_name c < firstNamePast pre)"

definition checkpointInItsPhase :: "db \<Rightarrow> string \<Rightarrow> string \<Rightarrow> bool" where
  "checkpointInItsPhase db task name = (namedUnder name SAGA_ROLLBACK_PREFIX = sagaBeganOf db task)"

definition checkpointIsTheEngines :: "string \<Rightarrow> bool" where
  "checkpointIsTheEngines name =
     (name = SAGA_PHASE_CHECKPOINT \<or> namedUnder name SAGA_TRIES_PREFIX)"

definition rollbackRan :: "db \<Rightarrow> checkpoint \<Rightarrow> string \<Rightarrow> bool" where
  "rollbackRan db marker pre =
     (\<exists>c\<in>set (checkpoints db). c_task c = c_task marker \<and>
        c_name c = SAGA_ROLLBACK_PREFIX @ drop (length pre) (c_name marker))"

definition rollbackPending :: "db \<Rightarrow> string \<Rightarrow> bool" where
  "rollbackPending db task =
     (\<exists>c\<in>set (checkpoints db). c_task c = task \<and> rangeUnder c SAGA_STARTED_PREFIX \<and>
        \<not> rollbackRan db c SAGA_STARTED_PREFIX)"

datatype rollback_state = RollbackFailed | RollbackComplete

definition rollbackOutcome :: "db \<Rightarrow> task \<Rightarrow> rollback_state option" where
  "rollbackOutcome db t =
     (if \<not> live (t_state t) \<and> sagaBeganOf db (t_id t)
      then Some (if rollbackPending db (t_id t) then RollbackFailed else RollbackComplete)
      else None)"

definition rollbackError :: "db \<Rightarrow> task \<Rightarrow> string option" where
  "rollbackError db t =
     map_option c_state
       (find (\<lambda>c. c_task c = t_id t \<and> rangeUnder c SAGA_TRIES_PREFIX \<and>
                  t_last_run t = Some (c_owner_run c)) (checkpoints db))"

section \<open>Facts\<close>

lemma cancel_due_exclusive: "\<not> (cancelDue t moment \<and> cancelNotDue t moment)"
  by (cases "t_cancel_at t") (auto simp: cancelDue_def cancelNotDue_def)

lemma eligible_live: "eligibleTask t moment \<Longrightarrow> live (t_state t)"
  by (simp add: eligibleTask_def)

lemma owner_such_mono: "owner_such db r p \<Longrightarrow> (\<And>t. p t \<Longrightarrow> q t) \<Longrightarrow> owner_such db r q"
  by (auto simp: owner_such_def)

lemma owner_unique:
  "keys_ok db \<Longrightarrow> t \<in> set (tasks db) \<Longrightarrow> t_id t = r_task r \<Longrightarrow> owner_such db r p \<Longrightarrow>
   t_queue t = r_queue r \<and> p t"
  by (auto simp: owner_such_def runOwnedByTask_def keys_ok_def dest: task_table.unique)

lemma accountingD:
  "storedCurrentRunAccounting r t \<Longrightarrow>
     \<exists>a m i. t_attempts t = Num a \<and> t_max_attempts t = Num m \<and> t_infra t = Num i \<and>
       r_attempt r = Num (a + i + 1) \<and> 0 \<le> a \<and> a < m \<and> m \<le> MAX_COUNT \<and>
       0 \<le> i \<and> i \<le> INFRA_RETRY_CAP"
  by (auto simp: storedCurrentRunAccounting_def stored_within_iff bounds_defs)

lemma namedUnder_prefix: "namedUnder name pre = prefix pre name"
  by (metis append_eq_conv_conj namedUnder_def prefix_def)

text \<open>Names compare by their characters, and the first name past a reserved prefix ends in the
  character after the colon, so the range holds exactly the names under the prefix.\<close>

lemma char_after_colon: "(CHR '':'' \<le> c \<and> c < CHR '';'') = (c = CHR '':'')"
proof -
  have "((58::nat) \<le> of_char c \<and> of_char c < (59::nat)) = (of_char c = (58::nat))" by auto
  moreover have "of_char (CHR '':'') = (58::nat)" "of_char (CHR '';'') = (59::nat)" by simp_all
  ultimately show ?thesis
    unfolding less_eq_char_def less_char_def by (metis of_char_eq_iff)
qed

lemma range_is_prefix:
  "(a @ [CHR '':''] \<le> n \<and> n < a @ [CHR '';'']) = prefix (a @ [CHR '':'']) (n :: string)"
proof (induction a arbitrary: n)
  case Nil
  show ?case
  proof (cases n)
    case (Cons c m)
    have "([CHR '':''] \<le> c # m \<and> c # m < [CHR '';'']) = (CHR '':'' \<le> c \<and> c < CHR '';'')"
      by (simp only: Cons_le_Cons Cons_less_Cons not_less_Nil Nil_le_Cons simp_thms
          le_less[of "CHR '':''" c])
    then show ?thesis using Cons char_after_colon[of c] by (auto simp del: Cons_le_Cons Cons_less_Cons)
  qed simp
next
  case (Cons x a)
  note IH = Cons.IH
  show ?case
  proof (cases n)
    case (Cons y m)
    show ?thesis
    proof (cases "x = y")
      case True
      then show ?thesis using Cons IH[of m] by simp
    next
      case False
      then have "\<not> (x < y \<and> y < x)" by (meson less_asym)
      then show ?thesis using Cons False by simp
    qed
  qed simp
qed

lemma rangeUnder_iff:
  "rangeUnder c (a @ '':'') = prefix (a @ '':'') (c_name c)"
  by (simp add: rangeUnder_def firstNamePast_def range_is_prefix)

end
