(* ===== verification/Rows.thy ===== *)
theory Rows
  imports Fragments
begin

text \<open>
  The effect of a statement that hits one row. A compare-and-set that names a run by its id
  writes at most that run, and a follow-on keyed on its stamp writes at most the run's own task,
  so a batch that wins is a composition of the replacements defined here. The lemmas turn the
  statements of the batch primitive into those replacements, and answer what the sources of
  later follow-ons select.
\<close>

definition put_run :: "run \<Rightarrow> db \<Rightarrow> db" where
  "put_run r db = db\<lparr>runs := map (\<lambda>s. if r_id s = r_id r then r else s) (runs db)\<rparr>"

definition put_task :: "task \<Rightarrow> db \<Rightarrow> db" where
  "put_task t db = db\<lparr>tasks := map (\<lambda>s. if t_id s = t_id t then t else s) (tasks db)\<rparr>"

definition add_run :: "run \<Rightarrow> db \<Rightarrow> db" where
  "add_run r db = db\<lparr>runs := runs db @ [r]\<rparr>"

definition drop_waits :: "(wait \<Rightarrow> bool) \<Rightarrow> db \<Rightarrow> db" where
  "drop_waits p db = db\<lparr>waits := delete_where p (waits db)\<rparr>"

named_theorems row_simps "tables of a database after a row was replaced"

lemma put_tables [row_simps, simp]:
  "tasks (put_run r db) = tasks db" "checkpoints (put_run r db) = checkpoints db"
  "events (put_run r db) = events db" "waits (put_run r db) = waits db"
  "drivers (put_run r db) = drivers db"
  "runs (put_task t db) = runs db" "checkpoints (put_task t db) = checkpoints db"
  "events (put_task t db) = events db" "waits (put_task t db) = waits db"
  "drivers (put_task t db) = drivers db"
  "tasks (add_run r db) = tasks db" "checkpoints (add_run r db) = checkpoints db"
  "events (add_run r db) = events db" "waits (add_run r db) = waits db"
  "drivers (add_run r db) = drivers db" "runs (add_run r db) = runs db @ [r]"
  "tasks (drop_waits p db) = tasks db" "checkpoints (drop_waits p db) = checkpoints db"
  "events (drop_waits p db) = events db" "runs (drop_waits p db) = runs db"
  "drivers (drop_waits p db) = drivers db" "waits (drop_waits p db) = delete_where p (waits db)"
  by (simp_all add: put_run_def put_task_def add_run_def drop_waits_def)

lemma map_put_id [simp]:
  "map r_id (runs (put_run r db)) = map r_id (runs db)"
  "map t_id (tasks (put_task t db)) = map t_id (tasks db)"
  by (simp_all add: put_run_def put_task_def)

lemma in_put_run:
  "s \<in> set (runs (put_run r db)) \<longleftrightarrow>
   (s = r \<and> r_id r \<in> r_id ` set (runs db)) \<or> (s \<in> set (runs db) \<and> r_id s \<noteq> r_id r)"
  by (auto simp: put_run_def image_iff) metis+

lemma in_put_task:
  "s \<in> set (tasks (put_task t db)) \<longleftrightarrow>
   (s = t \<and> t_id t \<in> t_id ` set (tasks db)) \<or> (s \<in> set (tasks db) \<and> t_id s \<noteq> t_id t)"
  by (auto simp: put_task_def image_iff) metis+

lemma keyed_put_run [simp]: "keyed r_id (runs (put_run r db)) = keyed r_id (runs db)"
  by (simp add: keyed_def)

lemma keyed_put_task [simp]: "keyed t_id (tasks (put_task t db)) = keyed t_id (tasks db)"
  by (simp add: keyed_def)

lemma map_put_run_same:
  assumes "keyed r_id (runs db)" "r \<in> set (runs db)" "r_id r' = r_id r" "k r' = k r"
  shows "map k (runs (put_run r' db)) = map k (runs db)"
  using assms run_table.unique[OF assms(1) _ assms(2)]
  by (force simp: put_run_def)

lemma map_put_task_same:
  assumes "keyed t_id (tasks db)" "t \<in> set (tasks db)" "t_id t' = t_id t" "k t' = k t"
  shows "map k (tasks (put_task t' db)) = map k (tasks db)"
  using assms task_table.unique[OF assms(1) _ assms(2)]
  by (force simp: put_task_def)

lemma update_where_one_run:
  assumes "keyed r_id (runs db)" "r \<in> set (runs db)" "p r"
    "\<And>s. s \<in> set (runs db) \<Longrightarrow> p s \<Longrightarrow> r_id s = r_id r" "r_id (f r) = r_id r"
  shows "db\<lparr>runs := update_where p f (runs db)\<rparr> = put_run (f r) db"
    "count_where p (runs db) = 1"
proof -
  have "\<forall>s\<in>set (runs db). p s = (r_id s = r_id r)" "\<forall>s\<in>set (runs db). p s \<longrightarrow> s = r"
    using assms run_table.unique[OF assms(1) _ assms(2)] by blast+
  then have "update_where p f (runs db) =
      map (\<lambda>s. if r_id s = r_id (f r) then f r else s) (runs db)"
    unfolding update_where_def using assms(5) by (intro map_cong) auto
  then show "db\<lparr>runs := update_where p f (runs db)\<rparr> = put_run (f r) db"
    by (simp add: put_run_def)
  show "count_where p (runs db) = 1"
    using filter_key_unique[of r_id "runs db" r p] assms(1-4)
    unfolding count_where_def keyed_def by (metis One_nat_def length_Cons list.size(3))
qed

lemma update_where_one_task:
  assumes "keyed t_id (tasks db)" "t \<in> set (tasks db)" "p t"
    "\<And>s. s \<in> set (tasks db) \<Longrightarrow> p s \<Longrightarrow> t_id s = t_id t" "t_id (f t) = t_id t"
  shows "db\<lparr>tasks := update_where p f (tasks db)\<rparr> = put_task (f t) db"
    "count_where p (tasks db) = 1"
proof -
  have "\<forall>s\<in>set (tasks db). p s = (t_id s = t_id t)" "\<forall>s\<in>set (tasks db). p s \<longrightarrow> s = t"
    using assms task_table.unique[OF assms(1) _ assms(2)] by blast+
  then have "update_where p f (tasks db) =
      map (\<lambda>s. if t_id s = t_id (f t) then f t else s) (tasks db)"
    unfolding update_where_def using assms(5) by (intro map_cong) auto
  then show "db\<lparr>tasks := update_where p f (tasks db)\<rparr> = put_task (f t) db"
    by (simp add: put_task_def)
  show "count_where p (tasks db) = 1"
    using filter_key_unique[of t_id "tasks db" t p] assms(1-4)
    unfolding count_where_def keyed_def by (metis One_nat_def length_Cons list.size(3))
qed

text \<open>The compare-and-set over one run: it loses and writes nothing, or replaces that run.\<close>

lemma cas_runs_lost:
  "\<not> (\<exists>r\<in>set (runs db). p db r) \<Longrightarrow> s_exec (cas_runs seed now name p f) db = Inr (db, 0)"
  by (auto simp: cas_runs_def intro!: upd_none)

lemma cas_runs_won:
  assumes "keyed r_id (runs db)" "r \<in> set (runs db)" "p db r"
    "\<And>s. p db s \<Longrightarrow> r_id s = rid" "r_id (f db r) = r_id r"
  shows "s_exec (cas_runs seed now name p f) db =
    Inr (put_run (stamp_run seed name (Num now) (f db r)) db, 1)"
proof -
  have "r_id s = r_id r" if "p db s" for s using assms(3,4) that by metis
  then show ?thesis
    using update_where_one_run[of db r "p db" "\<lambda>r. stamp_run seed name (Num now) (f db r)"] assms
    by (simp add: cas_runs_def upd_runs_def stamp_run_def)
qed

lemma cas_tasks_lost:
  "\<not> (\<exists>t\<in>set (tasks db). p db t) \<Longrightarrow> s_exec (cas_tasks seed now name p f) db = Inr (db, 0)"
  by (auto simp: cas_tasks_def intro!: upd_none)

lemma cas_tasks_won:
  assumes "keyed t_id (tasks db)" "t \<in> set (tasks db)" "p db t"
    "\<And>s. p db s \<Longrightarrow> t_id s = tid" "t_id (f db t) = t_id t"
  shows "s_exec (cas_tasks seed now name p f) db =
    Inr (put_task (stamp_task seed name (Num now) (f db t)) db, 1)"
proof -
  have "t_id s = t_id t" if "p db s" for s using assms(3,4) that by metis
  then show ?thesis
    using update_where_one_task[of db t "p db" "\<lambda>t. stamp_task seed name (Num now) (f db t)"] assms
    by (simp add: cas_tasks_def upd_tasks_def stamp_task_def)
qed

text \<open>What a follow-on's source selects once the compare-and-set has stamped one run.\<close>

lemma stamped_run_one:
  assumes "keyed r_id (runs db)" "r \<in> set (runs db)" "w r" "r_stamp r = Some (stamp seed fence)"
    "\<And>s. w s \<Longrightarrow> r_id s = r_id r"
  shows "stamped_runs seed fence w db = [r]"
  unfolding stamped_runs_def
proof (rule filter_key_unique[of r_id])
  show "distinct (map r_id (runs db))" using assms(1) by (simp add: keyed_def)
qed (use assms(2-5) in blast)+

lemma stamped_task_one:
  assumes "keyed t_id (tasks db)" "t \<in> set (tasks db)" "w t" "t_stamp t = Some (stamp seed fence)"
    "\<And>s. w s \<Longrightarrow> t_id s = t_id t"
  shows "stamped_tasks seed fence w db = [t]"
  unfolding stamped_tasks_def
proof (rule filter_key_unique[of t_id])
  show "distinct (map t_id (tasks db))" using assms(1) by (simp add: keyed_def)
qed (use assms(2-5) in blast)+

text \<open>A follow-on over the task of one stamped run.\<close>

lemma runs_to_tasks_one:
  assumes "keyed t_id (tasks db)" "t \<in> set (tasks db)"
    "stamped_runs seed fence (\<lambda>f. w f \<and> r_queue f = q) db = [r]"
    "t_id t = r_task r" "t_queue t = q" "narrow db t" "t_id (set_to db t) = t_id t"
  shows "s_exec (runs_to_tasks seed name fence q w set_to narrow rows) db =
    Inr (put_task (stamp_task seed name (r_fence_at r) (set_to db t)) db, 1)"
proof -
  let ?p = "\<lambda>t. t_id t = r_task r \<and> t_queue t = q \<and> narrow db t"
  let ?f = "\<lambda>t. stamp_task seed name (r_fence_at r) (set_to db t)"
  have "?p t" "\<And>s. ?p s \<Longrightarrow> t_id s = t_id t" "t_id (?f t) = t_id t"
    using assms by (simp_all add: stamp_task_def)
  then show ?thesis
    using update_where_one_task[of db t ?p ?f] assms(1,2,3)
    by (simp add: runs_to_tasks_def upd_tasks_def)
qed

lemma runs_to_tasks_none:
  assumes "stamped_runs seed fence (\<lambda>f. w f \<and> r_queue f = q) db = src"
    "\<And>t f. t \<in> set (tasks db) \<Longrightarrow> f \<in> set src \<Longrightarrow> t_id t = r_task f \<Longrightarrow> t_queue t = q \<Longrightarrow>
       \<not> narrow db t"
  shows "s_exec (runs_to_tasks seed name fence q w set_to narrow rows) db = Inr (db, 0)"
  using assms by (auto simp: runs_to_tasks_def Let_def intro!: upd_none)

lemma runs_to_waits_one:
  assumes "stamped_runs seed fence w db = [r]"
  shows "s_exec (runs_to_waits seed name fence w narrow) db =
    Inr (drop_waits (\<lambda>x. w_run x = r_id r \<and> narrow db x) db,
         count_where (\<lambda>x. w_run x = r_id r \<and> narrow db x) (waits db))"
  using assms by (simp add: runs_to_waits_def del_waits_def drop_waits_def)

lemma runs_to_waits_none:
  "stamped_runs seed fence w db = [] \<Longrightarrow>
   s_exec (runs_to_waits seed name fence w narrow) db = Inr (db, 0)"
  by (auto simp: runs_to_waits_def intro!: upd_none)

lemma stmt_fields [simp]:
  "s_name (cas_runs seed now name p f) = name" "s_kind (cas_runs seed now name p f) = Cas"
  "s_atmost (cas_runs seed now name p f) = Some 1"
  "s_name (cas_many_runs seed now name k p f) = name"
  "s_kind (cas_many_runs seed now name k p f) = CasMany"
  "s_atmost (cas_many_runs seed now name k p f) = Some k"
  "s_name (cas_tasks seed now name p2 f2) = name" "s_kind (cas_tasks seed now name p2 f2) = Cas"
  "s_atmost (cas_tasks seed now name p2 f2) = Some 1"
  "s_name (runs_to_tasks seed name fence q w set_to narrow rows) = name"
  "s_atmost (runs_to_tasks seed name fence q w set_to narrow rows) = rows"
  "s_name (tasks_to_runs seed name fence q w3 set_to3 narrow3 rows) = name"
  "s_atmost (tasks_to_runs seed name fence q w3 set_to3 narrow3 rows) = rows"
  "s_name (waits_to_runs seed name fence q w4 set_to4 narrow4 rows) = name"
  "s_atmost (waits_to_runs seed name fence q w4 set_to4 narrow4 rows) = rows"
  "s_name (runs_to_waits seed name fence w5 narrow5) = name"
  "s_atmost (runs_to_waits seed name fence w5 narrow5) = None"
  "s_name (seal_runs seed name fence w6) = name"
  "s_atmost (seal_runs seed name fence w6) = None"
  by (simp_all add: cas_runs_def cas_many_runs_def cas_tasks_def runs_to_tasks_def
      tasks_to_runs_def waits_to_runs_def runs_to_waits_def seal_runs_def)

text \<open>What the stamp leaves alone.\<close>

lemma stamp_run_fields [simp]:
  "r_id (stamp_run seed name x r) = r_id r" "r_queue (stamp_run seed name x r) = r_queue r"
  "r_task (stamp_run seed name x r) = r_task r" "r_attempt (stamp_run seed name x r) = r_attempt r"
  "r_state (stamp_run seed name x r) = r_state r"
  "r_claimed_by (stamp_run seed name x r) = r_claimed_by r"
  "r_claim_gen (stamp_run seed name x r) = r_claim_gen r"
  "r_activated_gen (stamp_run seed name x r) = r_activated_gen r"
  "r_relaunch (stamp_run seed name x r) = r_relaunch r"
  "r_lease (stamp_run seed name x r) = r_lease r"
  "r_expires (stamp_run seed name x r) = r_expires r"
  "r_heartbeat (stamp_run seed name x r) = r_heartbeat r"
  "r_available (stamp_run seed name x r) = r_available r"
  "r_wake_event (stamp_run seed name x r) = r_wake_event r"
  "r_payload (stamp_run seed name x r) = r_payload r"
  "r_wake_step (stamp_run seed name x r) = r_wake_step r"
  "r_run_db (stamp_run seed name x r) = r_run_db r"
  "r_started_at (stamp_run seed name x r) = r_started_at r"
  "r_result (stamp_run seed name x r) = r_result r"
  "r_failure (stamp_run seed name x r) = r_failure r"
  "r_stamp (stamp_run seed name x r) = Some (stamp seed name)"
  "r_fence_at (stamp_run seed name x r) = x"
  by (simp_all add: stamp_run_def)

lemma stamp_task_fields [simp]:
  "t_id (stamp_task seed name x t) = t_id t" "t_queue (stamp_task seed name x t) = t_queue t"
  "t_state (stamp_task seed name x t) = t_state t"
  "t_attempts (stamp_task seed name x t) = t_attempts t"
  "t_max_attempts (stamp_task seed name x t) = t_max_attempts t"
  "t_infra (stamp_task seed name x t) = t_infra t"
  "t_idem (stamp_task seed name x t) = t_idem t"
  "t_completed (stamp_task seed name x t) = t_completed t"
  "t_failure (stamp_task seed name x t) = t_failure t"
  "t_last_run (stamp_task seed name x t) = t_last_run t"
  "t_cancel_at (stamp_task seed name x t) = t_cancel_at t"
  "t_first_started (stamp_task seed name x t) = t_first_started t"
  "t_enqueue_at (stamp_task seed name x t) = t_enqueue_at t"
  "t_stamp (stamp_task seed name x t) = Some (stamp seed name)"
  "t_fence_at (stamp_task seed name x t) = x"
  by (simp_all add: stamp_task_def)

end
