(* ===== verification/Lease.thy ===== *)
theory Lease
  imports Rows
begin

text \<open>
  A worker's hold on its run: the heartbeat, the fenced checkpoint write, the advisory expiry and
  the driver's beat (store-libsql \<open>store.ts\<close>; core \<open>statements/lease.ts\<close>, \<open>checkpoint.ts\<close>,
  \<open>claimed-run.ts\<close>), and the answer to a refused write (\<open>errors.ts\<close>). An operation takes the seed
  its batch drew, the instant its clock read and the database, and answers the database after it
  with a value or an error.
\<close>

type_synonym 'a reply = "db \<times> (exn + 'a)"

section \<open>Why a write was refused\<close>

definition refusalState :: "string \<Rightarrow> db \<Rightarrow> lstate option" where
  "refusalState rid db = map_option r_state (find (\<lambda>r. r_id r = rid) (runs db))"

definition refusal :: "string \<Rightarrow> string \<Rightarrow> db \<Rightarrow> exn" where
  "refusal operation rid db =
     (if refusalState rid db = Some Cancelled then RunCancelled operation rid
      else LeaseLost operation rid)"

text \<open>A batch whose winner must be the statement named, or the write is refused.\<close>

definition require_won :: "string \<Rightarrow> string \<Rightarrow> string \<Rightarrow> db \<times> (exn + fenced_result) \<Rightarrow> unit reply" where
  "require_won operation rid winner answer =
     (case answer of
        (db', Inl e) \<Rightarrow> (db', Inl e)
      | (db', Inr res) \<Rightarrow>
          (db', if won res = Some winner then Inr () else Inl (refusal operation rid db')))"

section \<open>The claim a worker presents\<close>

definition whereClaimedRun :: "string \<Rightarrow> string \<Rightarrow> string \<Rightarrow> run \<Rightarrow> bool" where
  "whereClaimedRun rid queue token r =
     (r_id r = rid \<and> r_queue r = queue \<and> r_claimed_by r = Some token \<and> r_state r = Running)"

section \<open>Heartbeat\<close>

datatype lease_state = Held int | LostLease | CancelledLease

definition refusedLease :: "string \<Rightarrow> db \<Rightarrow> lease_state" where
  "refusedLease rid db = (if refusalState rid db = Some Cancelled then CancelledLease else LostLease)"

definition heartbeat_admits :: "instant \<Rightarrow> string \<Rightarrow> string \<Rightarrow> string \<Rightarrow> duration \<Rightarrow> db \<Rightarrow> run \<Rightarrow> bool" where
  "heartbeat_admits now queue rid token ext db r =
     (whereClaimedRun rid queue token r \<and>
      owner_such db r (\<lambda>t. live (t_state t)) \<and>
      addition_fits (Num now) ext)"

definition heartbeat_batch ::
  "string \<Rightarrow> instant \<Rightarrow> string \<Rightarrow> string \<Rightarrow> string \<Rightarrow> duration \<Rightarrow> stmt list" where
  "heartbeat_batch seed now queue rid token ext =
     [cas_runs seed now ''extend'' (heartbeat_admits now queue rid token ext)
        (\<lambda>db r. r\<lparr>r_expires := Num (now + ext), r_heartbeat := Num now\<rparr>)]"

definition heartbeatRemaining :: "string \<Rightarrow> string \<Rightarrow> db \<Rightarrow> cell option" where
  "heartbeatRemaining seed rid db =
     map_option (\<lambda>r. cell_minus (r_expires r) (r_heartbeat r))
       (find (\<lambda>r. r_id r = rid \<and> r_stamp r = Some (stamp seed ''extend'')) (runs db))"

definition heartbeat ::
  "string \<Rightarrow> instant \<Rightarrow> string \<Rightarrow> string \<Rightarrow> string \<Rightarrow> number \<Rightarrow> db \<Rightarrow> lease_state reply" where
  "heartbeat seed now queue rid token extendLeaseSeconds db =
     (case durationToMs ''extendLeaseSeconds'' extendLeaseSeconds True of
        Inl e \<Rightarrow> (db, Inl e)
      | Inr ext \<Rightarrow>
          (case run_batch (heartbeat_batch seed now queue rid token ext) db of
             (db', Inl e) \<Rightarrow> (db', Inl e)
           | (db', Inr res) \<Rightarrow>
               (db', case (if won res = Some ''extend'' then heartbeatRemaining seed rid db' else None) of
                       None \<Rightarrow> Inr (refusedLease rid db')
                     | Some remaining \<Rightarrow>
                         (case persisted_integer ''heartbeat.remaining_ms'' duration_bounds remaining of
                            Inl e \<Rightarrow> Inl e
                          | Inr n \<Rightarrow> Inr (Held n)))))"

section \<open>Checkpoints\<close>

definition checkpointOwnerMatches :: "checkpoint \<Rightarrow> run \<Rightarrow> bool" where
  "checkpointOwnerMatches c owner =
     (stored_within run_attempt_bounds (c_owner_attempt c) \<and>
      r_id owner = c_owner_run c \<and> r_task owner = c_task c \<and> r_queue owner = c_queue c \<and>
      r_attempt owner = c_owner_attempt c)"

definition validCheckpointConflict :: "db \<Rightarrow> run \<Rightarrow> string \<Rightarrow> bool" where
  "validCheckpointConflict db r name =
     (\<not> (\<exists>c\<in>set (checkpoints db). c_task c = r_task r \<and> c_name c = name \<and>
            \<not> (c_queue c = r_queue r \<and> (\<exists>owner\<in>set (runs db). checkpointOwnerMatches c owner))))"

definition checkpoint_row :: "run \<Rightarrow> string \<Rightarrow> string \<Rightarrow> checkpoint" where
  "checkpoint_row f name state =
     \<lparr>c_task = r_task f, c_name = name, c_queue = r_queue f, c_state = state, c_committed = True,
      c_owner_run = r_id f, c_owner_attempt = r_attempt f, c_updated_at = r_fence_at f\<rparr>"

text \<open>The upsert: a row that is there is taken over only by an attempt that is not lower.\<close>

definition upsert_checkpoint :: "checkpoint \<Rightarrow> checkpoint list \<Rightarrow> checkpoint list" where
  "upsert_checkpoint c cs =
     (if c_key c \<in> c_key ` set cs
      then update_where (\<lambda>x. c_key x = c_key c \<and> cell_le (c_owner_attempt x) (c_owner_attempt c))
             (\<lambda>x. x\<lparr>c_state := c_state c, c_owner_run := c_owner_run c,
                     c_owner_attempt := c_owner_attempt c, c_updated_at := c_updated_at c\<rparr>) cs
      else cs @ [c])"

definition upsert_count :: "checkpoint \<Rightarrow> checkpoint list \<Rightarrow> nat" where
  "upsert_count c cs =
     (if c_key c \<in> c_key ` set cs
      then count_where (\<lambda>x. c_key x = c_key c \<and> cell_le (c_owner_attempt x) (c_owner_attempt c)) cs
      else 1)"

definition checkpointWrite ::
  "string \<Rightarrow> string \<Rightarrow> string \<Rightarrow> string \<Rightarrow> string \<Rightarrow> string \<Rightarrow> stmt" where
  "checkpointWrite seed name fence rid checkpointName stateJson =
     \<lparr>s_name = name, s_kind = FollowOn, s_atmost = Some 1,
      s_exec = (\<lambda>db.
        case stamped_runs seed fence (\<lambda>f. r_id f = rid \<and> stored_within run_attempt_bounds (r_attempt f)) db of
          [] \<Rightarrow> Inr (db, 0)
        | f # _ \<Rightarrow>
            let c = checkpoint_row f checkpointName stateJson in
            Inr (db\<lparr>checkpoints := upsert_checkpoint c (checkpoints db)\<rparr>,
                 upsert_count c (checkpoints db)))\<rparr>"

definition SAGA_STEP_KEY_CHARACTERS :: nat where
  "SAGA_STEP_KEY_CHARACTERS =
     IDENTIFIER_CHARACTERS -
     max (length SAGA_STARTED_PREFIX) (max (length SAGA_ROLLBACK_PREFIX) (length SAGA_TRIES_PREFIX))"

definition requireSagaStepFits :: "string \<Rightarrow> string \<Rightarrow> unit checked" where
  "requireSagaStepFits what name =
     (if \<not> prefix SAGA_STARTED_PREFIX name then Inr ()
      else if length SAGA_STARTED_PREFIX + SAGA_STEP_KEY_CHARACTERS < length name
      then Inl (InvalidDurableString what) else Inr ())"

definition checkpoint_phase :: "db \<Rightarrow> string \<Rightarrow> string \<Rightarrow> bool" where
  "checkpoint_phase db task name =
     (checkpointInItsPhase db task name \<and> \<not> checkpointIsTheEngines name)"

definition setCheckpoint_admits ::
  "instant \<Rightarrow> string \<Rightarrow> string \<Rightarrow> string \<Rightarrow> string \<Rightarrow> string \<Rightarrow> duration \<Rightarrow> db \<Rightarrow> run \<Rightarrow> bool" where
  "setCheckpoint_admits now queue task rid token name ext db r =
     (whereClaimedRun rid queue token r \<and> r_task r = task \<and>
      stored_within run_attempt_bounds (r_attempt r) \<and>
      owner_such db r (\<lambda>t. live (t_state t)) \<and>
      validCheckpointConflict db r name \<and>
      addition_fits (Num now) ext \<and>
      checkpoint_phase db (r_task r) name)"

definition setCheckpoint_batch ::
  "string \<Rightarrow> instant \<Rightarrow> string \<Rightarrow> string \<Rightarrow> string \<Rightarrow> string \<Rightarrow> string \<Rightarrow> string \<Rightarrow> duration \<Rightarrow> stmt list" where
  "setCheckpoint_batch seed now queue task rid token name stateJson ext =
     [cas_runs seed now ''lease'' (setCheckpoint_admits now queue task rid token name ext)
        (\<lambda>db r. r\<lparr>r_expires := Num (now + ext), r_heartbeat := Num now\<rparr>),
      checkpointWrite seed ''checkpoint'' ''lease'' rid name stateJson]"

definition setCheckpoint ::
  "string \<Rightarrow> instant \<Rightarrow> string \<Rightarrow> string \<Rightarrow> string \<Rightarrow> string \<Rightarrow> string \<Rightarrow> string \<Rightarrow> number \<Rightarrow> db \<Rightarrow> unit reply" where
  "setCheckpoint seed now queue task rid token name stateJson extendLeaseSeconds db =
     (case requireSagaStepFits ''checkpointName'' name of
        Inl e \<Rightarrow> (db, Inl e)
      | Inr _ \<Rightarrow>
          (case durationToMs ''extendLeaseSeconds'' extendLeaseSeconds True of
             Inl e \<Rightarrow> (db, Inl e)
           | Inr ext \<Rightarrow>
               require_won ''setCheckpoint'' rid ''lease''
                 (run_batch (setCheckpoint_batch seed now queue task rid token name stateJson ext) db)))"

text \<open>\<open>get-checkpoints\<close>: the committed checkpoints whose owner ran no later than an attempt.\<close>

definition getCheckpoints :: "string \<Rightarrow> string \<Rightarrow> int \<Rightarrow> db \<Rightarrow> checkpoint list" where
  "getCheckpoints queue task attempt db =
     sort_key c_name
       (filter (\<lambda>c. (\<exists>owner\<in>set (runs db). checkpointOwnerMatches c owner) \<and>
                    c_task c = task \<and> c_queue c = queue \<and> c_committed c \<and>
                    cell_le (c_owner_attempt c) (Num attempt)) (checkpoints db))"

section \<open>The advisory expiry and the driver's beat\<close>

definition expireLeaseNow :: "instant \<Rightarrow> string \<Rightarrow> string \<Rightarrow> string \<Rightarrow> db \<Rightarrow> db \<times> bool" where
  "expireLeaseNow now queue rid token db =
     (let p = (\<lambda>r. whereClaimedRun rid queue token r \<and> runClaimUnexpired r now \<and>
                   owner_such db r (\<lambda>t. True))
      in (db\<lparr>runs := update_where p (\<lambda>r. r\<lparr>r_expires := Num now\<rparr>) (runs db)\<rparr>,
          count_where p (runs db) = 1))"

definition driver_upsert :: "driver \<Rightarrow> driver list \<Rightarrow> driver list" where
  "driver_upsert d ds =
     (if d_key d \<in> d_key ` set ds
      then update_where (\<lambda>x. d_key x = d_key d)
             (\<lambda>x. x\<lparr>d_beat := d_beat d, d_expires := d_expires d\<rparr>) ds
      else ds @ [d])"

definition driverHeartbeat ::
  "instant \<Rightarrow> string \<Rightarrow> string \<Rightarrow> number \<Rightarrow> db \<Rightarrow> unit reply" where
  "driverHeartbeat now queue driverId ttlSeconds db =
     (case durationToMs ''ttlSeconds'' ttlSeconds True of
        Inl e \<Rightarrow> (db, Inl e)
      | Inr ttl \<Rightarrow>
          if addition_fits (Num now) ttl then
            let ds = driver_upsert
                       \<lparr>d_queue = queue, d_id = driverId, d_beat = Num now, d_expires = Num (now + ttl)\<rparr>
                       (drivers db)
            in (db\<lparr>drivers := delete_where
                     (\<lambda>d. cell_lt (d_expires d) (Num now) \<and> stored_within epoch_bounds (d_beat d) \<and>
                           stored_within epoch_bounds (d_expires d)) ds\<rparr>, Inr ())
          else (db, Inr ()))"

end
