(* ===== verification/Retry.thy ===== *)
theory Retry
  imports Fragments
begin

text \<open>
  Retry policies (core \<open>retry.ts\<close>): the one parser of a strategy, which canonicalises its durations to
  milliseconds, the delay of a failed attempt, and the decision to retry. The store reads a stored
  strategy with SQL of its own (\<open>durableTaskRetryAdmissible\<close>); what the parser produces is what that
  SQL admits, and a delay the decision gives is one the store's \<open>fail\<close> accepts.
\<close>

section \<open>Values a caller hands in\<close>

text \<open>A JavaScript value as the parsers look at it. A field that is missing reads as
  \<open>JsUndefined\<close>; an array is an object whose properties are its indices; \<open>JsOther\<close> is \<open>null\<close>, or a value
  of any other type.\<close>

datatype js_value = JsNumber number | JsString string | JsBool bool | JsObject "(string \<times> js_value) list" | JsUndefined | JsOther

definition readRetryField :: "(string \<times> js_value) list \<Rightarrow> string \<Rightarrow> js_value" where
  "readRetryField props name = (case map_of props name of None \<Rightarrow> JsUndefined | Some v \<Rightarrow> v)"

section \<open>Strategies\<close>

datatype retry_strategy = NoRetry | FixedRetry rat | ExponentialRetry rat rat rat

definition canonicalDurationSeconds :: "string \<Rightarrow> js_value \<Rightarrow> rat checked" where
  "canonicalDurationSeconds name v =
     (case v of
        JsNumber n \<Rightarrow> map_sum id (\<lambda>ms. of_int ms / 1000) (durationToMs name n False)
      | _ \<Rightarrow> Inl (RangeError name))"

definition canonicalRetryFactor :: "js_value \<Rightarrow> rat checked" where
  "canonicalRetryFactor v =
     (case v of
        JsNumber (Finite q) \<Rightarrow> if q < 0 then Inl (RangeError ''retry strategy factor'') else Inr q
      | _ \<Rightarrow> Inl (RangeError ''retry strategy factor''))"

definition normalizeRetryStrategy :: "js_value \<Rightarrow> retry_strategy checked" where
  "normalizeRetryStrategy value =
     (case value of
        JsObject props \<Rightarrow>
          if readRetryField props ''kind'' = JsString ''none'' then Inr NoRetry
          else if readRetryField props ''kind'' = JsString ''fixed'' then
            map_sum id FixedRetry (canonicalDurationSeconds ''baseSeconds'' (readRetryField props ''baseSeconds''))
          else if readRetryField props ''kind'' = JsString ''exponential'' then
            (case canonicalDurationSeconds ''baseSeconds'' (readRetryField props ''baseSeconds'') of
               Inl e \<Rightarrow> Inl e
             | Inr base \<Rightarrow>
                 (case canonicalRetryFactor (readRetryField props ''factor'') of
                    Inl e \<Rightarrow> Inl e
                  | Inr factor \<Rightarrow>
                      map_sum id (ExponentialRetry base factor)
                        (canonicalDurationSeconds ''maxSeconds'' (readRetryField props ''maxSeconds''))))
          else Inl (RangeError ''retry strategy kind'')
      | _ \<Rightarrow> Inl (RangeError ''retry strategy''))"

text \<open>A value as \<open>JSON.parse\<close> reads its document: of members that share a name, the last counts.\<close>

fun json_value :: "json \<Rightarrow> js_value" where
  "json_value (JText s) = JsString s"
| "json_value (JInt i) = JsNumber (Finite (of_int i))"
| "json_value (JReal q) = JsNumber (Finite q)"
| "json_value (JBool b) = JsBool b"
| "json_value (JObject ms) = JsObject (rev (map (\<lambda>(k, v). (k, json_value v)) ms))"
| "json_value JNull = JsOther"
| "json_value (JArray vs) = JsObject (zip (map decimal [0..<length vs]) (map json_value vs))"

text \<open>The strategy as a caller's value, and as the document \<open>spawn\<close> stores.\<close>

fun strategy_value :: "retry_strategy \<Rightarrow> js_value" where
  "strategy_value NoRetry = JsObject [(''kind'', JsString ''none'')]"
| "strategy_value (FixedRetry b) = JsObject [(''kind'', JsString ''fixed''), (''baseSeconds'', JsNumber (Finite b))]"
| "strategy_value (ExponentialRetry b f m) =
     JsObject [(''kind'', JsString ''exponential''), (''baseSeconds'', JsNumber (Finite b)),
               (''factor'', JsNumber (Finite f)), (''maxSeconds'', JsNumber (Finite m))]"

fun strategy_doc :: "retry_strategy \<Rightarrow> json" where
  "strategy_doc NoRetry = JObject [(''kind'', JText ''none'')]"
| "strategy_doc (FixedRetry b) = JObject [(''kind'', JText ''fixed''), (''baseSeconds'', JReal b)]"
| "strategy_doc (ExponentialRetry b f m) =
     JObject [(''kind'', JText ''exponential''), (''baseSeconds'', JReal b), (''factor'', JReal f), (''maxSeconds'', JReal m)]"

definition DEFAULT_RETRY :: retry_strategy where
  "DEFAULT_RETRY = ExponentialRetry 5 2 3600"

definition DEFAULT_MAX_ATTEMPTS :: int where
  "DEFAULT_MAX_ATTEMPTS = 5"

section \<open>The decision\<close>

text \<open>A product past the doubles is not finite there and is capped; here it is past the cap too.\<close>

fun retry_delay :: "retry_strategy \<Rightarrow> int \<Rightarrow> rat" where
  "retry_delay NoRetry attempt = 0"
| "retry_delay (FixedRetry b) attempt = b"
| "retry_delay (ExponentialRetry b f m) attempt = (if b = 0 then 0 else min (b * f ^ nat (attempt - 1)) m)"

definition normalizedRetryDelaySeconds :: "retry_strategy \<Rightarrow> int \<Rightarrow> rat checked" where
  "normalizedRetryDelaySeconds s attempt =
     map_sum id (\<lambda>ms. of_int ms / 1000) (durationToMs ''retry delay'' (Finite (retry_delay s attempt)) False)"

datatype retry_decision = Exhausted | RetryIn rat

definition decideRetry :: "js_value \<Rightarrow> number \<Rightarrow> number \<Rightarrow> retry_decision checked" where
  "decideRetry strategy failedAttempt maxAttempts =
     (case normalizeRetryStrategy strategy of
        Inl e \<Rightarrow> Inl e
      | Inr s \<Rightarrow>
          (case requirePositiveInt ''failedAttempt'' failedAttempt 1 of
             Inl e \<Rightarrow> Inl e
           | Inr attempt \<Rightarrow>
               (case requirePositiveInt ''maxAttempts'' maxAttempts 1 of
                  Inl e \<Rightarrow> Inl e
                | Inr maximum \<Rightarrow>
                    if s = NoRetry \<or> attempt + 1 > maximum then Inr Exhausted
                    else map_sum id RetryIn (normalizedRetryDelaySeconds s attempt))))"

definition retryDelaySeconds :: "js_value \<Rightarrow> number \<Rightarrow> rat checked" where
  "retryDelaySeconds strategy failedAttempt =
     (case normalizeRetryStrategy strategy of
        Inl e \<Rightarrow> Inl e
      | Inr NoRetry \<Rightarrow> Inl (RangeError ''retry delay'')
      | Inr s \<Rightarrow>
          (case requirePositiveInt ''failedAttempt'' failedAttempt 1 of
             Inl e \<Rightarrow> Inl e
           | Inr attempt \<Rightarrow> normalizedRetryDelaySeconds s attempt))"

section \<open>Canonical durations\<close>

definition canonical_seconds :: "rat \<Rightarrow> bool" where
  "canonical_seconds q = (\<exists>ms. q * 1000 = of_int ms \<and> 0 \<le> ms \<and> ms \<le> MAX_DURATION_MS)"

lemma js_round_of_int [simp]: "js_round (of_int ms) = ms"
  by (simp add: js_round_def) linarith

lemma canonical_nonneg: "q * 1000 = of_int ms \<Longrightarrow> 0 \<le> ms \<Longrightarrow> 0 \<le> (q::rat)"
  by (metis of_int_0_le_iff zero_le_mult_iff zero_less_numeral not_less order_less_irrefl)

lemma canonical_ms:
  "q * 1000 = of_int ms \<Longrightarrow> 0 \<le> ms \<Longrightarrow> ms \<le> MAX_DURATION_MS \<Longrightarrow> durationToMs name (Finite q) False = Inr ms"
  using canonical_nonneg[of q ms] by (simp add: durationToMs_def Let_def)

lemma map_sum_Inr: "(map_sum id f x = Inr y) = (\<exists>a. x = Inr a \<and> y = f a)"
  by (cases x) auto

lemma canonical_duration:
  "canonicalDurationSeconds name v = Inr q \<Longrightarrow> canonical_seconds q"
  using durationToMs_bounds by (fastforce simp: map_sum_Inr canonicalDurationSeconds_def canonical_seconds_def split: js_value.splits)

lemma canonical_again: "canonical_seconds q \<Longrightarrow> canonicalDurationSeconds name (JsNumber (Finite q)) = Inr q"
  by (auto simp: canonicalDurationSeconds_def canonical_seconds_def canonical_ms)

lemma canonical_bounds: "canonical_seconds q \<Longrightarrow> 0 \<le> q \<and> q * 1000 \<le> of_int MAX_DURATION_MS"
  using canonical_nonneg by (auto simp: canonical_seconds_def)

definition normal :: "retry_strategy \<Rightarrow> bool" where
  "normal s =
     (case s of NoRetry \<Rightarrow> True | FixedRetry b \<Rightarrow> canonical_seconds b
      | ExponentialRetry b f m \<Rightarrow> canonical_seconds b \<and> 0 \<le> f \<and> canonical_seconds m)"

lemma normalize_normal: "normalizeRetryStrategy v = Inr s \<Longrightarrow> normal s"
  by (cases v)
    (auto simp: map_sum_Inr normalizeRetryStrategy_def canonicalRetryFactor_def normal_def
      split: if_splits sum.splits js_value.splits number.splits dest: canonical_duration)

text \<open>Parsing what was parsed changes nothing, so a stored strategy means what the caller's did.\<close>

lemma normalize_again: "normal s \<Longrightarrow> normalizeRetryStrategy (strategy_value s) = Inr s"
  by (cases s)
    (simp_all add: normalizeRetryStrategy_def readRetryField_def normal_def canonical_again canonicalRetryFactor_def)

section \<open>The store admits it\<close>

lemma millis_canonical: "q * 1000 = of_int ms \<Longrightarrow> 0 \<le> ms \<Longrightarrow> millis q = ms"
  using js_round_of_int[of ms] by (simp add: millis_def round_half_away_def js_round_def)

lemma durable_canonical:
  "canonical_seconds q \<Longrightarrow> member path d = Some (JReal q) \<Longrightarrow> durable_duration d path"
  using canonical_nonneg millis_canonical by (fastforce simp: durable_duration_def canonical_seconds_def)

lemma normal_admissible:
  assumes "normal s" "t_retry t = Doc (strategy_doc s)"
    "\<forall>b f m. s = ExponentialRetry b f m \<longrightarrow> f \<le> 17976931348623157 * 10 ^ 292"
  shows "durableTaskRetryAdmissible t"
proof (cases s)
  case NoRetry
  then show ?thesis using assms(2) by (simp add: durableTaskRetryAdmissible_def)
next
  case (FixedRetry b)
  then show ?thesis using assms(1,2)
    by (simp add: durableTaskRetryAdmissible_def normal_def durable_canonical[of b])
next
  case (ExponentialRetry b f m)
  then show ?thesis using assms
    by (simp add: durableTaskRetryAdmissible_def normal_def durable_canonical[of b] durable_canonical[of m] durable_factor_def)
qed

section \<open>What is stored and admitted is parsed\<close>

text \<open>SQLite's rounding and JavaScript's agree on what is not negative, so the strategies a claim
  admits are the ones the parser takes.\<close>

lemma js_round_millis: "0 \<le> q \<Longrightarrow> js_round (q * 1000) = millis q"
  by (simp add: js_round_def millis_def round_half_away_def)

abbreviation parsed_members :: "(string \<times> json) list \<Rightarrow> (string \<times> js_value) list" where
  "parsed_members ms \<equiv> rev (map (\<lambda>(k, v). (k, json_value v)) ms)"

lemma map_of_values: "map_of (map (\<lambda>(k, v). (k, json_value v)) ms) name = map_option json_value (map_of ms name)"
  by (induction ms) auto

lemma map_of_distinct:
  assumes "distinct (map fst ms)"
  shows "map_of (rev ms) = map_of ms"
proof
  fix k
  have "distinct (map fst (rev ms))" using assms by (simp add: rev_map[symmetric])
  then have "map_of (rev ms) k = Some v \<longleftrightarrow> map_of ms k = Some v" for v using assms by (simp add: map_of_eq_Some_iff)
  then show "map_of (rev ms) k = map_of ms k" by (metis option.exhaust)
qed

lemma value_field:
  assumes "distinct (map fst ms)"
  shows "readRetryField (parsed_members ms) name = (case member name (JObject ms) of None \<Rightarrow> JsUndefined | Some v \<Rightarrow> json_value v)"
proof -
  have f: "map fst (map (\<lambda>(k, v). (k, json_value v)) ms) = map fst ms" by (induction ms) auto
  have "map_of (parsed_members ms) = map_of (map (\<lambda>(k, v). (k, json_value v)) ms)"
    by (rule map_of_distinct) (unfold f, rule assms)
  then show ?thesis by (simp add: readRetryField_def map_of_values split: option.split)
qed

lemma json_value_number: "json_number v = Some q \<Longrightarrow> json_value v = JsNumber (Finite q)"
  by (cases v) auto

lemma value_duration:
  assumes "distinct (map fst ms)" "durable_duration (JObject ms) path"
  shows "\<exists>q. canonicalDurationSeconds name (readRetryField (parsed_members ms) path) = Inr q"
proof -
  obtain v q where v: "member path (JObject ms) = Some v" "json_number v = Some q" "0 \<le> q" "millis q \<le> MAX_DURATION_MS"
    using assms(2) by (auto simp: durable_duration_def split: option.splits bind_splits)
  then have "durationToMs name (Finite q) False = Inr (millis q)"
    using js_round_millis[of q] by (simp add: durationToMs_def Let_def)
  then have "canonicalDurationSeconds name (readRetryField (parsed_members ms) path) =
      Inr (of_int (millis q) / 1000)"
    using v by (simp add: value_field[OF assms(1)] json_value_number canonicalDurationSeconds_def)
  then show ?thesis by blast
qed

lemma value_factor:
  assumes "distinct (map fst ms)" "durable_factor (JObject ms)"
  shows "\<exists>q. canonicalRetryFactor (readRetryField (parsed_members ms) ''factor'') = Inr q"
proof -
  obtain v q where "member ''factor'' (JObject ms) = Some v" "json_number v = Some q" "0 \<le> q"
    using assms(2) by (auto simp: durable_factor_def split: option.splits bind_splits)
  then show ?thesis by (simp add: value_field[OF assms(1)] json_value_number canonicalRetryFactor_def)
qed

lemma admissible_parses:
  assumes "durableTaskRetryAdmissible t" "t_retry t = Doc d"
  shows "\<exists>s. normalizeRetryStrategy (json_value d) = Inr s"
proof -
  obtain ms kind where d: "d = JObject ms" and u: "distinct (map fst ms)" and kind: "map_of ms ''kind'' = Some (JText kind)"
    and arms: "kind = ''none'' \<or> kind = ''fixed'' \<and> durable_duration d ''baseSeconds'' \<or>
      kind = ''exponential'' \<and> durable_duration d ''baseSeconds'' \<and> durable_factor d \<and> durable_duration d ''maxSeconds''"
    using assms by (auto simp: durableTaskRetryAdmissible_def split: json.splits option.splits if_splits)
  have k: "readRetryField (parsed_members ms) ''kind'' = JsString kind"
    using kind by (simp add: value_field[OF u])
  from arms show ?thesis
  proof (elim disjE conjE)
    assume "kind = ''none''"
    then show ?thesis using k by (simp add: d normalizeRetryStrategy_def)
  next
    assume f: "kind = ''fixed''" "durable_duration d ''baseSeconds''"
    obtain q where "canonicalDurationSeconds ''baseSeconds'' (readRetryField (parsed_members ms) ''baseSeconds'') = Inr q"
      using value_duration[OF u] f(2) d by blast
    then show ?thesis using k f(1) by (simp add: d normalizeRetryStrategy_def)
  next
    assume e: "kind = ''exponential''" "durable_duration d ''baseSeconds''" "durable_factor d" "durable_duration d ''maxSeconds''"
    obtain b f m where "canonicalDurationSeconds ''baseSeconds'' (readRetryField (parsed_members ms) ''baseSeconds'') = Inr b"
      "canonicalRetryFactor (readRetryField (parsed_members ms) ''factor'') = Inr f"
      "canonicalDurationSeconds ''maxSeconds'' (readRetryField (parsed_members ms) ''maxSeconds'') = Inr m"
      using value_duration[OF u] value_factor[OF u] e(2-4) d by metis
    then show ?thesis using k e(1) by (simp add: d normalizeRetryStrategy_def)
  qed
qed

section \<open>What is decided\<close>

lemma retry_delay_bounds:
  assumes "normal s" "1 \<le> attempt"
  shows "0 \<le> retry_delay s attempt" "retry_delay s attempt * 1000 \<le> of_int MAX_DURATION_MS"
  using assms canonical_bounds
  by (cases s; force simp: normal_def min_def MAX_DURATION_MS_def)+

lemma delay_answered:
  assumes "normal s" "1 \<le> attempt"
  obtains ms where "normalizedRetryDelaySeconds s attempt = Inr (of_int ms / 1000)" "0 \<le> ms" "ms \<le> MAX_DURATION_MS"
    "ms = js_round (retry_delay s attempt * 1000)"
proof -
  let ?ms = "js_round (retry_delay s attempt * 1000)"
  have "0 \<le> ?ms" using retry_delay_bounds[OF assms] by (simp add: js_round_def)
  moreover have "?ms \<le> MAX_DURATION_MS"
    using retry_delay_bounds(2)[OF assms] unfolding js_round_def by (simp add: floor_le_iff)
  ultimately show ?thesis using that retry_delay_bounds[OF assms]
    by (simp add: normalizedRetryDelaySeconds_def durationToMs_def Let_def)
qed

lemma decide_retry:
  assumes "normalizeRetryStrategy v = Inr s" "requirePositiveInt ''failedAttempt'' a 1 = Inr attempt"
    "requirePositiveInt ''maxAttempts'' mx 1 = Inr maximum"
  shows "decideRetry v a mx = Inr Exhausted \<longleftrightarrow> s = NoRetry \<or> maximum \<le> attempt"
    "\<not> (s = NoRetry \<or> maximum \<le> attempt) \<Longrightarrow>
       \<exists>ms. decideRetry v a mx = Inr (RetryIn (of_int ms / 1000)) \<and> 0 \<le> ms \<and> ms \<le> MAX_DURATION_MS \<and>
         ms = js_round (retry_delay s attempt * 1000) \<and>
         durationToMs ''retry.delaySeconds'' (Finite (of_int ms / 1000)) False = Inr ms"
proof -
  have at: "1 \<le> attempt" using requirePositiveInt_bounds[OF assms(2)] by simp
  obtain ms where ms: "normalizedRetryDelaySeconds s attempt = Inr (of_int ms / 1000)" "0 \<le> ms" "ms \<le> MAX_DURATION_MS"
    "ms = js_round (retry_delay s attempt * 1000)"
    by (rule delay_answered[OF normalize_normal[OF assms(1)] at])
  show "decideRetry v a mx = Inr Exhausted \<longleftrightarrow> s = NoRetry \<or> maximum \<le> attempt"
    using assms ms(1) by (auto simp: decideRetry_def)
  show "\<not> (s = NoRetry \<or> maximum \<le> attempt) \<Longrightarrow>
       \<exists>ms. decideRetry v a mx = Inr (RetryIn (of_int ms / 1000)) \<and> 0 \<le> ms \<and> ms \<le> MAX_DURATION_MS \<and>
         ms = js_round (retry_delay s attempt * 1000) \<and>
         durationToMs ''retry.delaySeconds'' (Finite (of_int ms / 1000)) False = Inr ms"
    using assms ms canonical_ms[OF _ ms(2,3), of "of_int ms / 1000"] by (auto simp: decideRetry_def)
qed

text \<open>Backoff: with a factor of at least one the delays grow, up to the strategy's cap.\<close>

lemma backoff_grows:
  assumes "normal (ExponentialRetry b f m)" "1 \<le> f" "1 \<le> i" "i \<le> j"
  shows "retry_delay (ExponentialRetry b f m) i \<le> retry_delay (ExponentialRetry b f m) j"
    "retry_delay (ExponentialRetry b f m) j \<le> m"
proof -
  have "f ^ nat (i - 1) \<le> f ^ nat (j - 1)" using assms(2-4) by (intro power_increasing) auto
  moreover have "0 \<le> b" "0 \<le> m" using assms(1) canonical_bounds by (auto simp: normal_def)
  ultimately have "b * f ^ nat (i - 1) \<le> b * f ^ nat (j - 1)" "0 \<le> m" by (auto intro: mult_left_mono)
  then show "retry_delay (ExponentialRetry b f m) i \<le> retry_delay (ExponentialRetry b f m) j"
    "retry_delay (ExponentialRetry b f m) j \<le> m"
    by (auto simp: min.coboundedI1)
qed

end
