(* ===== verification/Claim.thy ===== *)
theory Claim
  imports Lease Retry
begin

text \<open>
  The claim of due runs, the activation of a claimed one, the read of its task's name and the
  deferral of its launch (store-libsql \<open>store.ts\<close>; core \<open>statements/claim-receipt.ts\<close>,
  \<open>claimed-run.ts\<close>, \<open>park.ts\<close>), with the two statements every suspension shares.
\<close>

section \<open>Who a claim may take\<close>

definition claimEligibility :: "instant \<Rightarrow> db \<Rightarrow> run \<Rightarrow> task \<Rightarrow> bool" where
  "claimEligibility now db r t =
     (eligibleTask t now \<and>
      durableTaskRetryAdmissible t \<and>
      durableTaskHeadersAdmissible t \<and>
      soleLiveRun db r \<and>
      (r_wake_step r \<noteq> None \<or> registeredUnambiguous db r) \<and>
      waitsTemporallySafe db r \<and>
      storedIncrementableClaimGeneration r \<and>
      stored_within activated_gen_bounds (r_activated_gen r) \<and>
      cell_le (r_activated_gen r) (r_claim_gen r) \<and>
      stored_within relaunch_count_bounds (r_relaunch r) \<and>
      storedCurrentRunAccounting r t \<and>
      storedHighestOwnedOrdinal db r)"

definition dueRuns :: "lstate \<Rightarrow> instant \<Rightarrow> string \<Rightarrow> run \<Rightarrow> bool" where
  "dueRuns s now queue r = (r_queue r = queue \<and> r_state r = s \<and> runAvailableDue r now)"

text \<open>One leg of the candidates: the due runs of one state whose task admits them, oldest first,
  at most \<open>limit\<close> of them. The filter is before the limit.\<close>

definition claim_leg :: "lstate \<Rightarrow> instant \<Rightarrow> string \<Rightarrow> nat \<Rightarrow> db \<Rightarrow> run list" where
  "claim_leg s now queue limit db =
     take limit (sort_key (\<lambda>r. (r_available r, r_id r))
       (filter (\<lambda>r. dueRuns s now queue r \<and> owner_such db r (claimEligibility now db r)) (runs db)))"

definition candidateRunIds :: "instant \<Rightarrow> string \<Rightarrow> nat \<Rightarrow> db \<Rightarrow> string list" where
  "candidateRunIds now queue limit db =
     map r_id (take limit (sort_key (\<lambda>r. (r_available r, r_id r))
       (claim_leg Pending now queue limit db @ claim_leg Sleeping now queue limit db)))"

definition token_holds :: "string \<Rightarrow> string \<Rightarrow> db \<Rightarrow> bool" where
  "token_holds queue token db =
     (\<exists>h\<in>set (runs db). r_queue h = queue \<and> r_state h = Running \<and> r_claimed_by h = Some token)"

definition claim_admits :: "instant \<Rightarrow> string \<Rightarrow> string \<Rightarrow> duration \<Rightarrow> nat \<Rightarrow> db \<Rightarrow> run \<Rightarrow> bool" where
  "claim_admits now queue token lease limit db r =
     (r_id r \<in> set (candidateRunIds now queue limit db) \<and>
      \<not> token_holds queue token db \<and>
      addition_fits (Num now) lease)"

definition claim_set :: "instant \<Rightarrow> string \<Rightarrow> duration \<Rightarrow> db \<Rightarrow> run \<Rightarrow> run" where
  "claim_set now token lease db r =
     r\<lparr>r_state := Running, r_claimed_by := Some token,
       r_claim_gen := cell_plus (r_claim_gen r) (Num 1), r_lease := Num lease,
       r_expires := Num (now + lease), r_heartbeat := Num now,
       r_wake_step := coalesce_text (r_wake_step r) (registeredStep db r)\<rparr>"

text \<open>The runs this batch took, as the follow-ons select them.\<close>

definition claim_taken :: "string \<Rightarrow> string \<Rightarrow> run \<Rightarrow> bool" where
  "claim_taken queue token f =
     (r_queue f = queue \<and> r_state f = Running \<and> r_claimed_by f = Some token)"

definition claimed_run_of :: "string \<Rightarrow> db \<Rightarrow> task \<Rightarrow> string option" where
  "claimed_run_of seed db t =
     (case stamped_runs seed ''claim'' (\<lambda>f. r_task f = t_id t) db of
        [f] \<Rightarrow> Some (r_id f) | _ \<Rightarrow> None)"

definition fencedAt :: "string \<Rightarrow> string \<Rightarrow> string \<Rightarrow> db \<Rightarrow> cell" where
  "fencedAt seed fence rid db =
     (case find (\<lambda>f. r_id f = rid \<and> r_stamp f = Some (stamp seed fence)) (runs db) of
        None \<Rightarrow> Null | Some f \<Rightarrow> r_fence_at f)"

definition claim_batch :: "string \<Rightarrow> instant \<Rightarrow> string \<Rightarrow> string \<Rightarrow> duration \<Rightarrow> nat \<Rightarrow> stmt list" where
  "claim_batch seed now queue token lease limit =
     [cas_many_runs seed now ''claim'' limit
        (claim_admits now queue token lease limit) (claim_set now token lease),
      runs_to_tasks seed ''task-book'' ''claim'' queue (claim_taken queue token)
        (\<lambda>db t. t\<lparr>t_state := Running, t_last_run := claimed_run_of seed db t\<rparr>)
        (\<lambda>db t. live (t_state t)) None,
      runs_to_waits seed ''waits-timeout'' ''claim'' (claim_taken queue token)
        (\<lambda>db w. w_status w = Waiting \<and> stored_within epoch_bounds (w_timeout w) \<and>
                cell_le (w_timeout w) (fencedAt seed ''claim'' (w_run w) db))]"

section \<open>What a worker is handed\<close>

datatype wake_delivery = NoWake | TimedOut string string | Payload string string cell

record claimed_run =
  cr_run :: string
  cr_task :: string
  cr_task_name :: string
  cr_attempt :: int
  cr_infra :: int
  cr_claim_gen :: int
  cr_token :: string
  cr_expires :: int
  cr_lease_ms :: int
  cr_params :: string
  cr_retry :: retry_strategy
  cr_max_attempts :: int
  cr_headers :: json
  cr_wake :: wake_delivery

definition decode_wake :: "run \<Rightarrow> wake_delivery" where
  "decode_wake r =
     (case (r_wake_event r, r_wake_step r) of
        (Some ev, Some st) \<Rightarrow> if r_payload r = Null then TimedOut ev st else Payload ev st (r_payload r)
      | _ \<Rightarrow> NoWake)"

text \<open>A column of JSON text as \<open>String\<close> and \<open>JSON.parse\<close> read it: \<open>NULL\<close> is the text \<open>null\<close>.\<close>

definition stored_document :: "doc \<Rightarrow> json checked" where
  "stored_document d =
     (case d of NoDoc \<Rightarrow> Inr JNull | BadDoc s \<Rightarrow> Inl (InternalError ''SyntaxError'') | Doc j \<Rightarrow> Inr j)"

definition stored_retry :: "doc \<Rightarrow> retry_strategy checked" where
  "stored_retry d = (case stored_document d of Inl e \<Rightarrow> Inl e | Inr j \<Rightarrow> normalizeRetryStrategy (json_value j))"

definition stored_headers :: "doc \<Rightarrow> json checked" where
  "stored_headers d = (if d = NoDoc then Inr (JObject []) else stored_document d)"

definition decodeClaimedRun :: "string \<Rightarrow> run \<Rightarrow> task \<Rightarrow> claimed_run checked" where
  "decodeClaimedRun token r t =
     (case persisted_integer ''claim'' run_attempt_bounds (r_attempt r) of Inl e \<Rightarrow> Inl e | Inr attempt \<Rightarrow>
     (case persisted_integer ''claim'' infra_retries_bounds (t_infra t) of Inl e \<Rightarrow> Inl e | Inr infra \<Rightarrow>
     (case persisted_integer ''claim'' positive_claim_gen_bounds (r_claim_gen r) of Inl e \<Rightarrow> Inl e | Inr gen \<Rightarrow>
     (case persisted_integer ''claim'' epoch_bounds (r_expires r) of Inl e \<Rightarrow> Inl e | Inr expires \<Rightarrow>
     (case persisted_integer ''claim'' lease_ms_bounds (r_lease r) of Inl e \<Rightarrow> Inl e | Inr lease \<Rightarrow>
     (case stored_retry (t_retry t) of Inl e \<Rightarrow> Inl e | Inr retry \<Rightarrow>
     (case persisted_integer ''claim'' max_attempts_bounds (t_max_attempts t) of Inl e \<Rightarrow> Inl e | Inr most \<Rightarrow>
     (case stored_headers (t_headers t) of Inl e \<Rightarrow> Inl e | Inr headers \<Rightarrow>
       Inr \<lparr>cr_run = r_id r, cr_task = r_task r, cr_task_name = t_name t, cr_attempt = attempt,
            cr_infra = infra, cr_claim_gen = gen, cr_token = token, cr_expires = expires,
            cr_lease_ms = lease, cr_params = t_params t, cr_retry = retry,
            cr_max_attempts = most, cr_headers = headers, cr_wake = decode_wake r\<rparr>))))))))"

text \<open>What the store's SQL admits of a task, the decoder parses.\<close>

lemma admitted_documents:
  assumes "durableTaskRetryAdmissible t" "durableTaskHeadersAdmissible t"
  shows "\<exists>s. stored_retry (t_retry t) = Inr s" "\<exists>j. stored_headers (t_headers t) = Inr j"
proof -
  obtain d where "t_retry t = Doc d" using assms(1) by (auto simp: durableTaskRetryAdmissible_def split: doc.splits)
  then show "\<exists>s. stored_retry (t_retry t) = Inr s"
    using admissible_parses[OF assms(1)] by (simp add: stored_retry_def stored_document_def)
  show "\<exists>j. stored_headers (t_headers t) = Inr j"
    using assms(2) by (cases "t_headers t") (auto simp: durableTaskHeadersAdmissible_def stored_headers_def stored_document_def)
qed

definition receipt_admits :: "db \<Rightarrow> run \<Rightarrow> task \<Rightarrow> bool" where
  "receipt_admits db r t =
     (live (t_state t) \<and>
      durableTaskRetryAdmissible t \<and>
      durableTaskHeadersAdmissible t \<and>
      soleLiveRun db r \<and>
      storedPositiveClaimGeneration r \<and>
      stored_within activated_gen_bounds (r_activated_gen r) \<and>
      cell_le (r_activated_gen r) (r_claim_gen r) \<and>
      stored_within relaunch_count_bounds (r_relaunch r) \<and>
      stored_within lease_ms_bounds (r_lease r) \<and>
      stored_within epoch_bounds (r_expires r) \<and>
      storedCurrentRunAccounting r t \<and>
      storedHighestOwnedOrdinal db r)"

text \<open>Runs joined to the tasks that own them.\<close>

definition joined :: "db \<Rightarrow> (run \<times> task) list" where
  "joined db =
     concat (map (\<lambda>r. map (\<lambda>t. (r, t)) (filter (runOwnedByTask r) (tasks db))) (runs db))"

definition claimReceipt :: "string \<Rightarrow> string \<Rightarrow> db \<Rightarrow> (run \<times> task) list" where
  "claimReceipt queue token db =
     sort_key (\<lambda>(r, t). r_id r)
       (filter (\<lambda>(r, t). r_queue r = queue \<and> r_claimed_by r = Some token \<and> r_state r = Running \<and>
                         receipt_admits db r t) (joined db))"

fun decode_all :: "string \<Rightarrow> (run \<times> task) list \<Rightarrow> claimed_run list checked" where
  "decode_all token [] = Inr []"
| "decode_all token ((r, t) # rows) =
     (case decodeClaimedRun token r t of
        Inl e \<Rightarrow> Inl e
      | Inr c \<Rightarrow> (case decode_all token rows of Inl e \<Rightarrow> Inl e | Inr cs \<Rightarrow> Inr (c # cs)))"

definition claim ::
  "string \<Rightarrow> instant \<Rightarrow> bool \<Rightarrow> string \<Rightarrow> string \<Rightarrow> number \<Rightarrow> number \<Rightarrow> db \<Rightarrow> claimed_run list reply" where
  "claim seed now short queue token leaseSeconds limit db =
     (case durationToMs ''leaseSeconds'' leaseSeconds True of
        Inl e \<Rightarrow> (db, Inl e)
      | Inr lease \<Rightarrow>
          (case requirePositiveInt ''limit'' limit 1 of
             Inl e \<Rightarrow> (db, Inl e)
           | Inr bound \<Rightarrow>
               let most = nat (if bound > 1 \<and> short then 1 else bound) in
               (case run_batch (claim_batch seed now queue token lease most) db of
                  (db', Inl e) \<Rightarrow> (db', Inl e)
                | (db', Inr res) \<Rightarrow> (db', decode_all token (claimReceipt queue token db')))))"

section \<open>Activation\<close>

definition claimReceiptAdmission :: "instant \<Rightarrow> db \<Rightarrow> run \<Rightarrow> (task \<Rightarrow> bool) \<Rightarrow> bool" where
  "claimReceiptAdmission now db r own =
     (storedPositiveClaimGeneration r \<and>
      stored_within activated_gen_bounds (r_activated_gen r) \<and>
      stored_within lease_ms_bounds (r_lease r) \<and>
      stored_within relaunch_count_bounds (r_relaunch r) \<and>
      soleLiveRun db r \<and>
      owner_such db r (\<lambda>t. eligibleTask t now \<and> durableTaskRetryAdmissible t \<and>
        durableTaskHeadersAdmissible t \<and> storedCurrentRunAccounting r t \<and>
        storedHighestOwnedOrdinal db r \<and> own t))"

definition whereClaimReceipt ::
  "instant \<Rightarrow> string \<Rightarrow> string \<Rightarrow> string \<Rightarrow> int \<Rightarrow> (task \<Rightarrow> bool) \<Rightarrow> db \<Rightarrow> run \<Rightarrow> bool" where
  "whereClaimReceipt now rid queue token gen own db r =
     (whereClaimedRun rid queue token r \<and>
      cell_is (r_claim_gen r) gen \<and>
      cell_lt (r_activated_gen r) (Num gen) \<and>
      claimReceiptAdmission now db r own)"

text \<open>\<open>taskMaxDurationMs\<close>, NULL unless the policy holds a number.\<close>

definition max_duration_json :: "task \<Rightarrow> json option" where
  "max_duration_json t =
     (case t_cancellation t of Doc d \<Rightarrow> member ''maxDurationSeconds'' d | _ \<Rightarrow> None)"

definition taskMaxDurationMs :: "task \<Rightarrow> int option" where
  "taskMaxDurationMs t = map_option millis (Option.bind (max_duration_json t) json_number)"

definition activationDurationAdmissible :: "instant \<Rightarrow> task \<Rightarrow> bool" where
  "activationDurationAdmissible now t =
     (case t_cancellation t of
        NoDoc \<Rightarrow> True
      | BadDoc _ \<Rightarrow> False
      | Doc d \<Rightarrow>
          (case max_duration_json t of
             None \<Rightarrow> True
           | Some v \<Rightarrow>
               (case json_number v of
                  None \<Rightarrow> False
                | Some q \<Rightarrow>
                    \<not> (q < 0 \<or> millis q > MAX_DURATION_MS) \<and>
                    addition_fits (coalesce (t_first_started t) (Num now)) (millis q))))"

definition activate_admits ::
  "instant \<Rightarrow> string \<Rightarrow> string \<Rightarrow> string \<Rightarrow> int \<Rightarrow> db \<Rightarrow> run \<Rightarrow> bool" where
  "activate_admits now queue rid token gen db r =
     (whereClaimReceipt now rid queue token gen (activationDurationAdmissible now) db r \<and>
      addition_fits (Num now) (ival (r_lease r)))"

definition activated_deadline :: "string \<Rightarrow> string \<Rightarrow> db \<Rightarrow> task \<Rightarrow> cell" where
  "activated_deadline seed rid db t =
     (if max_duration_json t \<noteq> None
      then (case taskMaxDurationMs t of
              None \<Rightarrow> Null
            | Some d \<Rightarrow> cell_plus (coalesce (t_first_started t) (fencedAt seed ''activate'' rid db)) (Num d))
      else Null)"

definition activate_batch ::
  "string \<Rightarrow> instant \<Rightarrow> string \<Rightarrow> string \<Rightarrow> string \<Rightarrow> int \<Rightarrow> stmt list" where
  "activate_batch seed now queue rid token gen =
     [cas_runs seed now ''activate'' (activate_admits now queue rid token gen)
        (\<lambda>db r. r\<lparr>r_activated_gen := Num gen, r_started_at := coalesce (r_started_at r) (Num now),
                  r_expires := Num (now + ival (r_lease r)), r_heartbeat := Num now\<rparr>),
      runs_to_tasks seed ''task-start'' ''activate'' queue (\<lambda>f. r_id f = rid)
        (\<lambda>db t. t\<lparr>t_first_started := coalesce (t_first_started t) (fencedAt seed ''activate'' rid db),
                  t_cancel_at := activated_deadline seed rid db t\<rparr>)
        (\<lambda>db t. live (t_state t)) (Some 1)]"

definition activatedRun :: "string \<Rightarrow> string \<Rightarrow> db \<Rightarrow> (run \<times> task) option" where
  "activatedRun seed rid db =
     find (\<lambda>(r, t). r_id r = rid \<and> r_stamp r = Some (stamp seed ''activate'') \<and> r_state r = Running)
       (joined db)"

definition requirePositiveClaimGeneration :: "string \<Rightarrow> int \<Rightarrow> int checked" where
  "requirePositiveClaimGeneration name gen =
     (if gen < 1 \<or> gen > MAX_COUNT then Inl (RangeError name) else Inr gen)"

definition activate ::
  "string \<Rightarrow> instant \<Rightarrow> string \<Rightarrow> string \<Rightarrow> string \<Rightarrow> int \<Rightarrow> db \<Rightarrow> claimed_run option reply" where
  "activate seed now queue rid token claimGen db =
     (case requirePositiveClaimGeneration ''activate.claimGen'' claimGen of
        Inl e \<Rightarrow> (db, Inl e)
      | Inr gen \<Rightarrow>
          (case run_batch (activate_batch seed now queue rid token gen) db of
             (db', Inl e) \<Rightarrow> (db', Inl e)
           | (db', Inr res) \<Rightarrow>
               if won res \<noteq> Some ''activate'' then (db', Inr None)
               else (case activatedRun seed rid db' of
                       None \<Rightarrow> (db', Inr None)
                     | Some (r, t) \<Rightarrow> (db', map_sum id Some (decodeClaimedRun token r t)))))"

definition claimedTaskName :: "string \<Rightarrow> string \<Rightarrow> string \<Rightarrow> int \<Rightarrow> db \<Rightarrow> string option checked" where
  "claimedTaskName queue rid token claimGen db =
     (case requirePositiveClaimGeneration ''claimedTaskName.claimGen'' claimGen of
        Inl e \<Rightarrow> Inl e
      | Inr gen \<Rightarrow>
          Inr (map_option (\<lambda>(r, t). t_name t)
            (find (\<lambda>(r, t). whereClaimedRun rid queue token r \<and> cell_is (r_claim_gen r) gen \<and>
                            cell_lt (r_activated_gen r) (Num gen)) (joined db))))"

section \<open>Parking a run\<close>

definition park :: "instant \<Rightarrow> instant \<Rightarrow> run \<Rightarrow> run" where
  "park now wakeAt r =
     r\<lparr>r_state := (if wakeAt \<le> now then Pending else Sleeping), r_available := Num wakeAt,
       r_claimed_by := None, r_expires := Null, r_heartbeat := Null\<rparr>"

text \<open>The state of a run as a statement of this batch left it.\<close>

definition stampedRunState :: "string \<Rightarrow> string \<Rightarrow> string \<Rightarrow> db \<Rightarrow> task \<Rightarrow> lstate" where
  "stampedRunState seed fence rid db t =
     (case find (\<lambda>f. r_id f = rid \<and> r_stamp f = Some (stamp seed fence)) (runs db) of
        None \<Rightarrow> t_state t | Some f \<Rightarrow> r_state f)"

definition waitsGone :: "string \<Rightarrow> string \<Rightarrow> string \<Rightarrow> stmt" where
  "waitsGone seed rid after =
     runs_to_waits seed ''waits-gone'' after (\<lambda>f. r_id f = rid) (\<lambda>db w. True)"

definition taskMirrorsRun :: "string \<Rightarrow> string \<Rightarrow> string \<Rightarrow> string \<Rightarrow> stmt" where
  "taskMirrorsRun seed queue rid after =
     runs_to_tasks seed ''task-mirror'' after queue (\<lambda>f. r_id f = rid)
       (\<lambda>db t. t\<lparr>t_state := stampedRunState seed after rid db t\<rparr>)
       (\<lambda>db t. live (t_state t)) (Some 1)"

definition finishSuspension :: "string \<Rightarrow> string \<Rightarrow> string \<Rightarrow> stmt list" where
  "finishSuspension seed queue rid =
     [taskMirrorsRun seed queue rid ''suspend'', waitsGone seed rid ''suspend'']"

text \<open>A wake is relative to the batch's clock or an absolute instant (\<open>prepareWake\<close>).\<close>

datatype wake_spec = InSeconds number | AtEpochMs number

definition prepareWake :: "wake_spec \<Rightarrow> (bool \<times> int) checked" where
  "prepareWake wake =
     (case wake of
        InSeconds s \<Rightarrow> map_sum id (Pair True) (durationToMs ''wake.inSeconds'' s False)
      | AtEpochMs n \<Rightarrow> map_sum id (Pair False) (requireEpochMs ''wake.atEpochMs'' n))"

definition wake_at :: "instant \<Rightarrow> bool \<times> int \<Rightarrow> instant" where
  "wake_at now plan = (if fst plan then now + snd plan else snd plan)"

definition wake_fits :: "instant \<Rightarrow> bool \<times> int \<Rightarrow> bool" where
  "wake_fits now plan = (fst plan \<longrightarrow> addition_fits (Num now) (snd plan))"

section \<open>The launch deferral\<close>

definition deferLaunch_admits ::
  "instant \<Rightarrow> string \<Rightarrow> string \<Rightarrow> string \<Rightarrow> int \<Rightarrow> bool \<times> int \<Rightarrow> db \<Rightarrow> run \<Rightarrow> bool" where
  "deferLaunch_admits now queue rid token gen plan db r =
     (whereClaimReceipt now rid queue token gen (\<lambda>t. True) db r \<and> wake_fits now plan)"

definition deferLaunch_batch ::
  "string \<Rightarrow> instant \<Rightarrow> string \<Rightarrow> string \<Rightarrow> string \<Rightarrow> int \<Rightarrow> bool \<times> int \<Rightarrow> stmt list" where
  "deferLaunch_batch seed now queue rid token gen plan =
     cas_runs seed now ''suspend'' (deferLaunch_admits now queue rid token gen plan)
       (\<lambda>db r. park now (wake_at now plan) r) # finishSuspension seed queue rid"

definition deferLaunch ::
  "string \<Rightarrow> instant \<Rightarrow> string \<Rightarrow> string \<Rightarrow> string \<Rightarrow> int \<Rightarrow> number \<Rightarrow> db \<Rightarrow> unit reply" where
  "deferLaunch seed now queue rid token claimGen inSeconds db =
     (case requirePositiveClaimGeneration ''deferLaunch.claimGen'' claimGen of
        Inl e \<Rightarrow> (db, Inl e)
      | Inr gen \<Rightarrow>
          (case prepareWake (InSeconds inSeconds) of
             Inl e \<Rightarrow> (db, Inl e)
           | Inr plan \<Rightarrow>
               require_won ''deferLaunch'' rid ''suspend''
                 (run_batch (deferLaunch_batch seed now queue rid token gen plan) db)))"

end
