(* ===== verification/Suspend.thy ===== *)
theory Suspend
  imports Claim
begin

text \<open>
  The two suspensions of an activated run: \<open>reschedule\<close>, which parks it on a timer, and
  \<open>suspendRun\<close>, which parks it and commits the suspension's marker in the same batch (store-libsql
  \<open>store.ts\<close>; core \<open>statements/suspend.ts\<close>).
\<close>

text \<open>Both park the run and drop any event wake it carried.\<close>

definition suspend_set :: "instant \<Rightarrow> bool \<times> int \<Rightarrow> db \<Rightarrow> run \<Rightarrow> run" where
  "suspend_set now plan db r =
     (park now (wake_at now plan) r)\<lparr>r_wake_event := None, r_payload := Null, r_wake_step := None\<rparr>"

definition reschedule_admits ::
  "instant \<Rightarrow> string \<Rightarrow> string \<Rightarrow> string \<Rightarrow> bool \<times> int \<Rightarrow> db \<Rightarrow> run \<Rightarrow> bool" where
  "reschedule_admits now queue rid token plan db r =
     (whereClaimedRun rid queue token r \<and>
      stored_integer (r_attempt r) \<and>
      owner_such db r (\<lambda>t. eligibleTask t now) \<and>
      wake_fits now plan)"

definition reschedule_batch ::
  "string \<Rightarrow> instant \<Rightarrow> string \<Rightarrow> string \<Rightarrow> string \<Rightarrow> bool \<times> int \<Rightarrow> stmt list" where
  "reschedule_batch seed now queue rid token plan =
     cas_runs seed now ''suspend'' (reschedule_admits now queue rid token plan) (suspend_set now plan)
     # finishSuspension seed queue rid"

definition reschedule ::
  "string \<Rightarrow> instant \<Rightarrow> string \<Rightarrow> string \<Rightarrow> string \<Rightarrow> wake_spec \<Rightarrow> db \<Rightarrow> unit reply" where
  "reschedule seed now queue rid token wake db =
     (case prepareWake wake of
        Inl e \<Rightarrow> (db, Inl e)
      | Inr plan \<Rightarrow>
          require_won ''reschedule'' rid ''suspend''
            (run_batch (reschedule_batch seed now queue rid token plan) db))"

definition suspendRun_admits ::
  "instant \<Rightarrow> string \<Rightarrow> string \<Rightarrow> string \<Rightarrow> bool \<times> int \<Rightarrow> string \<Rightarrow> db \<Rightarrow> run \<Rightarrow> bool" where
  "suspendRun_admits now queue rid token plan key db r =
     (whereClaimedRun rid queue token r \<and>
      owner_such db r (\<lambda>t. eligibleTask t now) \<and>
      stored_within run_attempt_bounds (r_attempt r) \<and>
      validCheckpointConflict db r key \<and>
      wake_fits now plan \<and>
      \<not> sagaBeganOf db (r_task r) \<and>
      checkpoint_phase db (r_task r) key)"

definition suspendRun_batch ::
  "string \<Rightarrow> instant \<Rightarrow> string \<Rightarrow> string \<Rightarrow> string \<Rightarrow> bool \<times> int \<Rightarrow> string \<Rightarrow> string \<Rightarrow> stmt list" where
  "suspendRun_batch seed now queue rid token plan key stateJson =
     [cas_runs seed now ''suspend'' (suspendRun_admits now queue rid token plan key) (suspend_set now plan),
      checkpointWrite seed ''marker'' ''suspend'' rid key stateJson]
     @ finishSuspension seed queue rid"

definition suspendRun ::
  "string \<Rightarrow> instant \<Rightarrow> string \<Rightarrow> string \<Rightarrow> string \<Rightarrow> wake_spec \<Rightarrow> string \<Rightarrow> string \<Rightarrow> db \<Rightarrow> unit reply" where
  "suspendRun seed now queue rid token wake key stateJson db =
     (case requireSagaStepFits ''checkpoint.key'' key of
        Inl e \<Rightarrow> (db, Inl e)
      | Inr _ \<Rightarrow>
          (case prepareWake wake of
             Inl e \<Rightarrow> (db, Inl e)
           | Inr plan \<Rightarrow>
               require_won ''suspendRun'' rid ''suspend''
                 (run_batch (suspendRun_batch seed now queue rid token plan key stateJson) db)))"

end
