(* ===== verification/Child_Tasks.thy ===== *)
theory Child_Tasks
  imports Lease
begin

text \<open>
  A task's outcome and the names built from a task's id (core \<open>task-result.ts\<close>,
  \<open>child-tasks.ts\<close>): the decoding of a task row's outcome with the contradictions it refuses, the
  completion event and its payload, the reserved names, the idempotency key of a child spawn with
  its parser, and the memo of the runs a store handed out.
\<close>

section \<open>Outcomes\<close>

record outcome =
  o_state :: lstate
  o_completed :: "string option"
  o_failure :: "string option"

datatype contradiction =
    CompletedWithoutPayload | PayloadOnOtherState | FailureWithoutReason | ReasonOnOtherState

definition contradictionsOf :: "outcome \<Rightarrow> contradiction list" where
  "contradictionsOf res =
     (let hasPayload = (o_completed res \<noteq> None);
          failed = (o_state res = Failed \<or> o_state res = Cancelled)
      in (if o_state res = Completed \<and> \<not> hasPayload then [CompletedWithoutPayload] else []) @
         (if o_state res \<noteq> Completed \<and> hasPayload then [PayloadOnOtherState] else []) @
         (if failed \<and> o_failure res = None then [FailureWithoutReason] else []) @
         (if \<not> failed \<and> o_failure res \<noteq> None then [ReasonOnOtherState] else []))"

definition task_outcome :: "task \<Rightarrow> outcome" where
  "task_outcome t = \<lparr>o_state = t_state t, o_completed = t_completed t, o_failure = t_failure t\<rparr>"

definition decodeTaskResult :: "task \<Rightarrow> outcome checked" where
  "decodeTaskResult t =
     (if contradictionsOf (task_outcome t) \<noteq> [] then Inl (RangeError (t_id t))
      else Inr (task_outcome t))"

text \<open>The columns of a task agree with its state.\<close>

definition outcome_ok :: "task \<Rightarrow> bool" where
  "outcome_ok t =
     ((t_state t = Completed \<longleftrightarrow> t_completed t \<noteq> None) \<and>
      ((t_state t = Failed \<or> t_state t = Cancelled) \<longleftrightarrow> t_failure t \<noteq> None))"

lemma contradictions_none: "(contradictionsOf (task_outcome t) = []) = outcome_ok t"
  by (auto simp: contradictionsOf_def task_outcome_def outcome_ok_def Let_def)

section \<open>The payload of a completion event\<close>

fun state_name :: "lstate \<Rightarrow> string" where
  "state_name Pending = ''pending''" | "state_name Running = ''running''"
| "state_name Sleeping = ''sleeping''" | "state_name Completed = ''completed''"
| "state_name Failed = ''failed''" | "state_name Cancelled = ''cancelled''"

definition state_of_name :: "string \<Rightarrow> lstate option" where
  "state_of_name s =
     find (\<lambda>x. state_name x = s) [Pending, Running, Sleeping, Completed, Failed, Cancelled]"

text \<open>The fields of \<open>encodeTaskOutcome\<close>, in order, and \<open>JSON.stringify\<close> of an object of strings.\<close>

definition outcome_fields :: "outcome \<Rightarrow> (string \<times> string) list" where
  "outcome_fields res =
     (''state'', state_name (o_state res)) #
     (case o_completed res of None \<Rightarrow> [] | Some v \<Rightarrow> [(''completedPayloadJson'', v)]) @
     (case o_failure res of None \<Rightarrow> [] | Some v \<Rightarrow> [(''failureReasonJson'', v)])"

definition hex_digit :: "nat \<Rightarrow> char" where
  "hex_digit n = ''0123456789abcdef'' ! (n mod 16)"

definition quote_char :: "char \<Rightarrow> string" where
  "quote_char c =
     (let n = of_char c in
      if c = CHR 0x22 then [CHR 0x5C, CHR 0x22]
      else if c = CHR 0x5C then [CHR 0x5C, CHR 0x5C]
      else if n = (8::nat) then [CHR 0x5C, CHR ''b'']
      else if n = 9 then [CHR 0x5C, CHR ''t'']
      else if n = 10 then [CHR 0x5C, CHR ''n'']
      else if n = 12 then [CHR 0x5C, CHR ''f'']
      else if n = 13 then [CHR 0x5C, CHR ''r'']
      else if n < 32 then [CHR 0x5C, CHR ''u'', CHR ''0'', CHR ''0'', hex_digit (n div 16), hex_digit n]
      else [c])"

definition json_quote :: "string \<Rightarrow> string" where
  "json_quote s = [CHR 0x22] @ concat (map quote_char s) @ [CHR 0x22]"

fun json_fields :: "(string \<times> string) list \<Rightarrow> string" where
  "json_fields [] = []"
| "json_fields [(k, v)] = json_quote k @ '':'' @ json_quote v"
| "json_fields ((k, v) # m # ms) = json_quote k @ '':'' @ json_quote v @ '','' @ json_fields (m # ms)"

definition encodeTaskOutcome :: "outcome \<Rightarrow> string" where
  "encodeTaskOutcome res = ''{'' @ json_fields (outcome_fields res) @ ''}''"

text \<open>\<open>decodeTaskOutcome\<close> on the value \<open>JSON.parse\<close> read, or on text it refused.\<close>

definition text_field :: "string \<Rightarrow> string \<Rightarrow> (string \<times> json) list \<Rightarrow> string option checked" where
  "text_field task name ms =
     (case map_of ms name of
        None \<Rightarrow> Inr None
      | Some (JText s) \<Rightarrow> Inr (Some s)
      | Some _ \<Rightarrow> Inl (RangeError task))"

definition decodeTaskOutcome :: "string \<Rightarrow> json option \<Rightarrow> outcome checked" where
  "decodeTaskOutcome task parsed =
     (case parsed of
        Some (JObject ms) \<Rightarrow>
          (case map_of ms ''state'' of
             Some (JText s) \<Rightarrow>
               (case state_of_name s of
                  None \<Rightarrow> Inl (RangeError task)
                | Some st \<Rightarrow>
                    if live st then Inl (RangeError task)
                    else (case text_field task ''completedPayloadJson'' ms of
                       Inl e \<Rightarrow> Inl e
                     | Inr c \<Rightarrow>
                         (case text_field task ''failureReasonJson'' ms of
                            Inl e \<Rightarrow> Inl e
                          | Inr f \<Rightarrow>
                              let res = \<lparr>o_state = st, o_completed = c, o_failure = f\<rparr> in
                              if contradictionsOf res \<noteq> [] then Inl (RangeError task) else Inr res)))
           | _ \<Rightarrow> Inl (RangeError task))
      | _ \<Rightarrow> Inl (RangeError task))"

lemma state_of_state_name [simp]: "state_of_name (state_name s) = Some s"
  by (cases s) (simp_all add: state_of_name_def)

section \<open>Names\<close>

definition RESERVED_EVENT_PREFIX :: string where "RESERVED_EVENT_PREFIX = ''$''"
definition TASK_DONE_EVENT_PREFIX :: string where "TASK_DONE_EVENT_PREFIX = ''$task-done:''"

definition taskDoneEventName :: "string \<Rightarrow> string" where
  "taskDoneEventName task = TASK_DONE_EVENT_PREFIX @ task"

definition taskIdOfDoneEvent :: "string \<Rightarrow> string option" where
  "taskIdOfDoneEvent name =
     (if prefix TASK_DONE_EVENT_PREFIX name then Some (drop (length TASK_DONE_EVENT_PREFIX) name)
      else None)"

lemma taskDoneEventName_inject [simp]: "(taskDoneEventName a = taskDoneEventName b) = (a = b)"
  by (simp add: taskDoneEventName_def)

lemma taskIdOfDoneEvent_name [simp]: "taskIdOfDoneEvent (taskDoneEventName task) = Some task"
  by (simp add: taskIdOfDoneEvent_def taskDoneEventName_def)

text \<open>A caller's event, or the completion event of a task.\<close>

datatype event_name = UserEvent string | TaskDone string

fun event_value :: "event_name \<Rightarrow> string" where
  "event_value (UserEvent s) = s"
| "event_value (TaskDone task) = taskDoneEventName task"

fun event_task :: "event_name \<Rightarrow> string option" where
  "event_task (UserEvent s) = None"
| "event_task (TaskDone task) = Some task"

definition fromPort :: "string \<Rightarrow> string \<Rightarrow> event_name checked" where
  "fromPort operation raw =
     (if prefix RESERVED_EVENT_PREFIX raw then Inl (PortRefusal operation) else Inr (UserEvent raw))"

definition awaitedTaskDone :: "string \<Rightarrow> event_name checked" where
  "awaitedTaskDone child =
     (if IDENTIFIER_CHARACTERS < length child \<or>
         IDENTIFIER_CHARACTERS < length (taskDoneEventName child)
      then Inl (InvalidDurableString ''childTaskId'') else Inr (TaskDone child))"

lemma fromPort_not_done:
  "fromPort operation raw = Inr name \<Longrightarrow>
     event_task name = None \<and> event_value name = raw \<and> raw \<noteq> taskDoneEventName task"
  by (auto simp: fromPort_def RESERVED_EVENT_PREFIX_def taskDoneEventName_def
      TASK_DONE_EVENT_PREFIX_def split: if_splits)

section \<open>The idempotency key of a child spawn\<close>

definition digit_value :: "char \<Rightarrow> nat option" where
  "digit_value c = (let n = of_char c in if 48 \<le> n \<and> n \<le> (57::nat) then Some (n - 48) else None)"

text \<open>\<open>Number\<close> of the written length. A text that is no plain decimal is read as zero, which the
  comparison with the rebuilt key then refuses, as it refuses whatever else JavaScript reads.\<close>

definition written_number :: "string \<Rightarrow> nat" where
  "written_number s =
     foldl (\<lambda>a c. a * 10 + (case digit_value c of None \<Rightarrow> 0 | Some d \<Rightarrow> d)) 0 s"

definition CHILD_SPAWN_KEY_PREFIX :: string where "CHILD_SPAWN_KEY_PREFIX = ''$spawn:''"

definition childSpawnKey :: "string \<Rightarrow> string \<Rightarrow> string" where
  "childSpawnKey parent replay =
     CHILD_SPAWN_KEY_PREFIX @ decimal (length parent) @ '':'' @ parent @ '':'' @ replay"

definition parseChildSpawnKey :: "string \<Rightarrow> (string \<times> string) option" where
  "parseChildSpawnKey key =
     (if \<not> prefix CHILD_SPAWN_KEY_PREFIX key then None
      else
        let rest = drop (length CHILD_SPAWN_KEY_PREFIX) key;
            written = takeWhile (\<lambda>c. c \<noteq> CHR '':'') rest;
            body = drop (length written + 1) rest;
            n = written_number written;
            parent = take n body;
            replay = drop (n + 1) body
        in if childSpawnKey parent replay = key then Some (parent, replay) else None)"

datatype spawning_parent = Known "string option" | Unknown

definition spawningParent :: "string option \<Rightarrow> spawning_parent" where
  "spawningParent key =
     (case key of
        None \<Rightarrow> Known None
      | Some k \<Rightarrow>
          if \<not> prefix CHILD_SPAWN_KEY_PREFIX k then Known None
          else (case parseChildSpawnKey k of None \<Rightarrow> Unknown | Some (parent, _) \<Rightarrow> Known (Some parent)))"

record child_of =
  co_queue :: string
  co_run :: string
  co_task :: string
  co_token :: string
  co_replay :: string

definition spawnIdempotencyKey :: "string option \<Rightarrow> child_of option \<Rightarrow> string option checked" where
  "spawnIdempotencyKey callerKey childOf =
     (case childOf of
        Some c \<Rightarrow>
          if callerKey \<noteq> None then Inl (PortRefusal ''spawn'')
          else let key = childSpawnKey (co_task c) (co_replay c) in
            if IDENTIFIER_CHARACTERS < length key then Inl (InvalidDurableString ''childOf.replayKey'')
            else Inr (Some key)
      | None \<Rightarrow>
          (case callerKey of
             None \<Rightarrow> Inr None
           | Some k \<Rightarrow>
               if prefix RESERVED_EVENT_PREFIX k then Inl (PortRefusal ''spawn'') else Inr (Some k)))"

lemma decimal_digits: "c \<in> set (decimal n) \<Longrightarrow> \<exists>d<10. c = ''0123456789'' ! d"
proof (induction n rule: decimal.induct)
  case (1 n)
  show ?case
  proof (cases "n < 10")
    case True
    then show ?thesis using 1(2) by (auto simp: decimal.simps[of n])
  next
    case False
    then have "c \<in> set (decimal (n div 10)) \<or> c = ''0123456789'' ! (n mod 10)"
      using 1(2) by (auto simp: decimal.simps[of n])
    moreover have "n mod 10 < 10" by simp
    ultimately show ?thesis using 1(1) False by blast
  qed
qed

lemma digit_value_nth: "d < 10 \<Longrightarrow> digit_value (''0123456789'' ! d) = Some d"
proof -
  assume "d < 10"
  then have "d \<in> {0,1,2,3,4,5,6,7,8,9}" by auto
  then show ?thesis by (auto simp: digit_value_def)
qed

lemma digit_not_colon: "d < 10 \<Longrightarrow> ''0123456789'' ! d \<noteq> CHR '':''"
proof -
  assume "d < 10"
  then have "d \<in> {0,1,2,3,4,5,6,7,8,9}" by auto
  then show ?thesis by auto
qed

lemma written_number_decimal [simp]: "written_number (decimal n) = n"
proof (induction n rule: decimal.induct)
  case (1 n)
  show ?case
  proof (cases "n < 10")
    case True
    then show ?thesis by (simp add: decimal.simps[of n] written_number_def digit_value_nth)
  next
    case False
    then have "decimal n = decimal (n div 10) @ [''0123456789'' ! (n mod 10)]"
      by (simp add: decimal.simps[of n])
    then have "written_number (decimal n) =
      written_number (decimal (n div 10)) * 10 + n mod 10"
      by (simp add: written_number_def digit_value_nth)
    then show ?thesis using 1 False by simp
  qed
qed

lemma colon_not_in_decimal: "CHR '':'' \<notin> set (decimal n)"
proof
  assume "CHR '':'' \<in> set (decimal n)"
  then obtain d where "d < 10" "''0123456789'' ! d = CHR '':''" using decimal_digits by metis
  then show False using digit_not_colon by blast
qed

lemma takeWhile_decimal:
  "takeWhile (\<lambda>c. c \<noteq> CHR '':'') (decimal n @ CHR '':'' # rest) = decimal n"
  using colon_not_in_decimal by (subst takeWhile_append2) auto

lemma parse_childSpawnKey: "parseChildSpawnKey (childSpawnKey parent replay) = Some (parent, replay)"
proof -
  have "drop (length CHILD_SPAWN_KEY_PREFIX) (childSpawnKey parent replay) =
    decimal (length parent) @ CHR '':'' # parent @ CHR '':'' # replay"
    by (simp add: childSpawnKey_def)
  moreover have "prefix CHILD_SPAWN_KEY_PREFIX (childSpawnKey parent replay)"
    by (simp add: childSpawnKey_def)
  ultimately show ?thesis
    by (simp add: parseChildSpawnKey_def takeWhile_decimal Let_def)
qed

lemma parse_childSpawnKey_Some:
  "parseChildSpawnKey key = Some (parent, replay) \<Longrightarrow> key = childSpawnKey parent replay"
  by (auto simp only: parseChildSpawnKey_def Let_def option.simps prod.simps split: if_splits)

section \<open>The memo of handed-out runs\<close>

text \<open>A \<open>Map\<close> in order of insertion, newest last; the oldest entry leaves first.\<close>

type_synonym memo = "(string \<times> string) list"

definition memo_forget :: "string \<Rightarrow> memo \<Rightarrow> memo" where
  "memo_forget rid m = filter (\<lambda>(k, _). k \<noteq> rid) m"

definition memo_remember :: "nat \<Rightarrow> string \<Rightarrow> string \<Rightarrow> memo \<Rightarrow> memo" where
  "memo_remember capacity rid task m =
     (let m' = memo_forget rid m @ [(rid, task)]
      in if capacity < length m' then tl m' else m')"

definition memo_recall :: "string \<Rightarrow> memo \<Rightarrow> string option" where
  "memo_recall rid m = map_of m rid"

definition childAwaitRefusal :: "string \<Rightarrow> string \<Rightarrow> string option \<Rightarrow> exn option" where
  "childAwaitRefusal queue child childQueue =
     (if childQueue = Some queue then None
      else Some (ChildAwaitRefused child
        (if childQueue = None then ''no-such-task'' else ''other-queue'')))"

end
