(* ===== verification/Events.thy ===== *)
theory Events
  imports Claim Child_Tasks
begin

text \<open>
  Events and awaits (store-libsql \<open>store.ts\<close>; core \<open>statements/events.ts\<close>, \<open>task-done.ts\<close>): the
  emit, whose first write wins, the wake of every run parked on an event, the await that hits or
  registers in one batch, and the completion event every terminal batch owes its task's parent.
\<close>

section \<open>Waking the waiters of an event\<close>

definition recordedEvent :: "string \<Rightarrow> string \<Rightarrow> db \<Rightarrow> run \<Rightarrow> event option" where
  "recordedEvent seed name db r =
     find (\<lambda>f. e_queue f = r_queue r \<and> e_name f = name \<and> e_stamp f = Some (stamp seed ''event''))
       (events db)"

definition wake_witness :: "db \<Rightarrow> run \<Rightarrow> bool" where
  "wake_witness db r =
     ((r_wake_step r \<noteq> None \<and> registeredCurrent db r) \<or>
      (r_wake_step r = None \<and> registeredStep db r \<noteq> None))"

definition wake_admits :: "string \<Rightarrow> string \<Rightarrow> string \<Rightarrow> db \<Rightarrow> run \<Rightarrow> bool" where
  "wake_admits seed queue name db r =
     (r_state r = Sleeping \<and>
      r_wake_event r = Some name \<and>
      (\<exists>w\<in>set (waits db). w_run w = r_id r \<and> w_queue w = queue \<and> w_event w = name \<and> w_status w = Waiting) \<and>
      wake_witness db r \<and>
      recordedEvent seed name db r \<noteq> None \<and>
      owner_such db r (\<lambda>t. live (t_state t)))"

definition wake_set :: "string \<Rightarrow> string \<Rightarrow> db \<Rightarrow> run \<Rightarrow> run" where
  "wake_set seed name db r =
     (case recordedEvent seed name db r of
        None \<Rightarrow> r
      | Some f \<Rightarrow>
          r\<lparr>r_state := Pending, r_available := e_fence_at f,
            r_wake_step := coalesce_text (r_wake_step r) (registeredStep db r),
            r_wake_event := Some name, r_payload := e_payload f,
            r_stamp := Some (stamp seed ''wake-runs''), r_fence_at := e_fence_at f\<rparr>)"

definition wakeRunsUpdate :: "string \<Rightarrow> string \<Rightarrow> string \<Rightarrow> stmt" where
  "wakeRunsUpdate seed queue name =
     \<lparr>s_name = ''wake-runs'', s_kind = FollowOn, s_atmost = None,
      s_exec = upd_runs (wake_admits seed queue name) (wake_set seed name)\<rparr>"

definition woken :: "string \<Rightarrow> run \<Rightarrow> bool" where
  "woken name f = (r_wake_event f = Some name \<and> r_state f = Pending)"

definition wakeWaiters :: "string \<Rightarrow> string \<Rightarrow> string \<Rightarrow> string \<Rightarrow> stmt list" where
  "wakeWaiters seed queue name waits_gone =
     [wakeRunsUpdate seed queue name,
      runs_to_tasks seed ''wake-tasks'' ''wake-runs'' queue (woken name)
        (\<lambda>db t. t\<lparr>t_state := Pending\<rparr>) (\<lambda>db t. live (t_state t)) None,
      runs_to_waits seed waits_gone ''wake-runs'' (\<lambda>f. r_queue f = queue \<and> woken name f)
        (\<lambda>db w. w_event w = name \<and> w_status w = Waiting),
      seal_runs seed ''wake-finished'' ''wake-runs'' (\<lambda>f. r_queue f = queue \<and> woken name f)]"

section \<open>Emitting an event\<close>

fun is_text_cell :: "cell \<Rightarrow> bool" where
  "is_text_cell (Text _) = True"
| "is_text_cell _ = False"

definition emitEventCas :: "string \<Rightarrow> instant \<Rightarrow> string \<Rightarrow> string \<Rightarrow> string \<Rightarrow> stmt" where
  "emitEventCas seed now queue name payload =
     \<lparr>s_name = ''event'', s_kind = Cas, s_atmost = Some 1,
      s_exec = (\<lambda>db.
        if (queue, name) \<in> e_key ` set (events db) then
          let p = (\<lambda>e. e_key e = (queue, name) \<and> e_stamp e \<noteq> Some (stamp seed ''event'') \<and>
                       is_text_cell (e_payload e) \<and> stored_within epoch_bounds (e_emitted_at e))
          in Inr (db\<lparr>events := update_where p
                    (\<lambda>e. e\<lparr>e_stamp := Some (stamp seed ''event''), e_fence_at := e_emitted_at e\<rparr>)
                    (events db)\<rparr>, count_where p (events db))
        else
          Inr (db\<lparr>events := events db @
                 [\<lparr>e_queue = queue, e_name = name, e_payload = Text payload, e_emitted_at = Num now,
                   e_stamp = Some (stamp seed ''event''), e_fence_at = Num now\<rparr>]\<rparr>, 1))\<rparr>"

definition emitEvent_batch :: "string \<Rightarrow> instant \<Rightarrow> string \<Rightarrow> string \<Rightarrow> string \<Rightarrow> stmt list" where
  "emitEvent_batch seed now queue name payload =
     emitEventCas seed now queue name payload # wakeWaiters seed queue name ''waits-gone''"

definition emitEvent ::
  "string \<Rightarrow> instant \<Rightarrow> string \<Rightarrow> string \<Rightarrow> string \<Rightarrow> db \<Rightarrow> unit reply" where
  "emitEvent seed now queue eventName payload db =
     (case fromPort ''emitEvent'' eventName of
        Inl e \<Rightarrow> (db, Inl e)
      | Inr name \<Rightarrow>
          (case run_batch (emitEvent_batch seed now queue (event_value name) payload) db of
             (db', Inl e) \<Rightarrow> (db', Inl e)
           | (db', Inr res) \<Rightarrow>
               (db', case event_of (queue, event_value name) (events db') of
                       None \<Rightarrow> Inl (RangeError ''emitEvent'')
                     | Some e \<Rightarrow> if is_text_cell (e_payload e) then Inr ()
                                 else Inl (RangeError ''emitEvent''))))"

section \<open>The completion event\<close>

definition taskDoneEventInsert :: "string \<Rightarrow> string \<Rightarrow> string \<Rightarrow> string \<Rightarrow> outcome \<Rightarrow> stmt" where
  "taskDoneEventInsert seed queue task terminal res =
     \<lparr>s_name = ''event'', s_kind = FollowOn, s_atmost = Some 1,
      s_exec = (\<lambda>db.
        case stamped_tasks seed terminal
               (\<lambda>f. t_id f = task \<and> t_queue f = queue \<and>
                    (t_queue f, taskDoneEventName task) \<notin> e_key ` set (events db)) db of
          [] \<Rightarrow> Inr (db, 0)
        | f # _ \<Rightarrow>
            Inr (db\<lparr>events := events db @
                   [\<lparr>e_queue = t_queue f, e_name = taskDoneEventName task,
                     e_payload = Text (encodeTaskOutcome res), e_emitted_at = t_fence_at f,
                     e_stamp = Some (stamp seed ''event''), e_fence_at = t_fence_at f\<rparr>]\<rparr>, 1))\<rparr>"

definition taskDone :: "string \<Rightarrow> string \<Rightarrow> string \<Rightarrow> string \<Rightarrow> outcome \<Rightarrow> stmt list" where
  "taskDone seed queue task terminal res =
     taskDoneEventInsert seed queue task terminal res
     # wakeWaiters seed queue (taskDoneEventName task) ''woken-waits-gone''"

definition completed_with :: "string \<Rightarrow> outcome" where
  "completed_with payload = \<lparr>o_state = Completed, o_completed = Some payload, o_failure = None\<rparr>"

definition failed_with :: "string \<Rightarrow> outcome" where
  "failed_with reason = \<lparr>o_state = Failed, o_completed = None, o_failure = Some reason\<rparr>"

definition cancelled_with :: "string \<Rightarrow> outcome" where
  "cancelled_with reason = \<lparr>o_state = Cancelled, o_completed = None, o_failure = Some reason\<rparr>"

text \<open>The task of the run a terminal batch is about to end: the memo's, or the read of the run in
  its queue, or the refusal.\<close>

definition endingTask :: "memo \<Rightarrow> string \<Rightarrow> string \<Rightarrow> string \<Rightarrow> db \<Rightarrow> string checked" where
  "endingTask m operation queue rid db =
     (case memo_recall rid m of
        Some task \<Rightarrow> Inr task
      | None \<Rightarrow>
          (case find (\<lambda>r. r_id r = rid \<and> r_queue r = queue) (runs db) of
             Some r \<Rightarrow> Inr (r_task r)
           | None \<Rightarrow> Inl (refusal operation rid db)))"

section \<open>Awaiting an event\<close>

definition stillClaimed :: "string \<Rightarrow> string \<Rightarrow> string \<Rightarrow> string \<Rightarrow> (task \<Rightarrow> bool) \<Rightarrow> db \<Rightarrow> bool" where
  "stillClaimed queue rid task token admits db =
     (\<exists>r\<in>set (runs db). whereClaimedRun rid queue token r \<and> r_task r = task \<and> owner_such db r admits)"

definition awaitable :: "string \<Rightarrow> event_name \<Rightarrow> db \<Rightarrow> bool" where
  "awaitable queue name db =
     (case event_task name of
        None \<Rightarrow> True
      | Some child \<Rightarrow> (\<exists>c\<in>set (tasks db). t_id c = child \<and> t_queue c = queue \<and> live (t_state c)))"

definition register_admits ::
  "instant \<Rightarrow> string \<Rightarrow> string \<Rightarrow> string \<Rightarrow> string \<Rightarrow> event_name \<Rightarrow> int option \<Rightarrow> db \<Rightarrow> bool" where
  "register_admits now queue task rid token name timeout db =
     ((queue, event_value name) \<notin> e_key ` set (events db) \<and>
      stillClaimed queue rid task token (\<lambda>t. eligibleTask t now) db \<and>
      (case timeout of None \<Rightarrow> True | Some d \<Rightarrow> addition_fits (Num now) d) \<and>
      \<not> sagaBeganOf db task \<and>
      awaitable queue name db)"

definition registered_wait ::
  "string \<Rightarrow> instant \<Rightarrow> string \<Rightarrow> string \<Rightarrow> string \<Rightarrow> string \<Rightarrow> event_name \<Rightarrow> int option \<Rightarrow> wait" where
  "registered_wait seed now queue task rid step name timeout =
     \<lparr>w_run = rid, w_step = step, w_queue = queue, w_task = task, w_event = event_value name,
      w_status = Waiting,
      w_timeout = (case timeout of None \<Rightarrow> Null | Some d \<Rightarrow> Num (now + d)),
      w_created_at = Num now, w_stamp = Some (stamp seed ''register''), w_fence_at = Num now\<rparr>"

definition registerWaitCas ::
  "string \<Rightarrow> instant \<Rightarrow> string \<Rightarrow> string \<Rightarrow> string \<Rightarrow> string \<Rightarrow> string \<Rightarrow> event_name \<Rightarrow> int option \<Rightarrow> stmt" where
  "registerWaitCas seed now queue task rid token step name timeout =
     \<lparr>s_name = ''register'', s_kind = Cas, s_atmost = Some 1,
      s_exec = (\<lambda>db.
        if register_admits now queue task rid token name timeout db \<and>
           (rid, step) \<notin> w_key ` set (waits db)
        then Inr (db\<lparr>waits := waits db @ [registered_wait seed now queue task rid step name timeout]\<rparr>, 1)
        else Inr (db, 0))\<rparr>"

definition fenced_timeout :: "string \<Rightarrow> string \<Rightarrow> string \<Rightarrow> db \<Rightarrow> cell" where
  "fenced_timeout seed rid step db =
     (case stamped_waits seed ''register'' (\<lambda>f. w_run f = rid \<and> w_step f = step) db of
        [] \<Rightarrow> Null | f # _ \<Rightarrow> w_timeout f)"

definition awaitEvent_batch ::
  "string \<Rightarrow> instant \<Rightarrow> string \<Rightarrow> string \<Rightarrow> string \<Rightarrow> string \<Rightarrow> string \<Rightarrow> event_name \<Rightarrow> int option \<Rightarrow> stmt list" where
  "awaitEvent_batch seed now queue task rid token step name timeout =
     [registerWaitCas seed now queue task rid token step name timeout,
      waits_to_runs seed ''park'' ''register'' queue
        (\<lambda>f. w_run f = rid \<and> w_step f = step \<and> w_status f = Waiting)
        (\<lambda>db r. r\<lparr>r_state := Sleeping, r_available := fenced_timeout seed rid step db,
                  r_wake_event := Some (event_value name), r_payload := Null,
                  r_wake_step := Some step, r_claimed_by := None, r_expires := Null,
                  r_heartbeat := Null\<rparr>)
        (\<lambda>db r. r_task r = task \<and> whereClaimedRun rid queue token r \<and>
                owner_such db r (\<lambda>t. live (t_state t))) (Some 1),
      runs_to_tasks seed ''task-mirror'' ''park'' queue (\<lambda>f. r_id f = rid \<and> r_state f = Sleeping)
        (\<lambda>db t. t\<lparr>t_state := Sleeping\<rparr>) (\<lambda>db t. live (t_state t)) (Some 1)]"

datatype await_answer = Emitted cell | Parked

definition emittedEvent :: "string \<Rightarrow> event_name \<Rightarrow> string \<Rightarrow> string \<Rightarrow> string \<Rightarrow> db \<Rightarrow> event option" where
  "emittedEvent queue name task rid token db =
     (if stillClaimed queue rid task token (\<lambda>t. live (t_state t)) db
      then event_of (queue, event_value name) (events db) else None)"

text \<open>Answers \<open>None\<close> when nothing registered and nothing was emitted.\<close>

definition awaitNamedEvent ::
  "string \<Rightarrow> instant \<Rightarrow> string \<Rightarrow> string \<Rightarrow> string \<Rightarrow> string \<Rightarrow> string \<Rightarrow> event_name \<Rightarrow> number option \<Rightarrow>
   db \<Rightarrow> await_answer option reply" where
  "awaitNamedEvent seed now queue task rid token step name timeoutSeconds db =
     (case (case timeoutSeconds of
              None \<Rightarrow> Inr None
            | Some s \<Rightarrow> map_sum id Some (durationToMs ''timeoutSeconds'' s True)) of
        Inl e \<Rightarrow> (db, Inl e)
      | Inr timeout \<Rightarrow>
          (case run_batch (awaitEvent_batch seed now queue task rid token step name timeout) db of
             (db', Inl e) \<Rightarrow> (db', Inl e)
           | (db', Inr res) \<Rightarrow>
               (db', case emittedEvent queue name task rid token db' of
                       Some e \<Rightarrow> if is_text_cell (e_payload e) then Inr (Some (Emitted (e_payload e)))
                                 else Inl (RangeError ''awaitEvent'')
                     | None \<Rightarrow> if won res \<noteq> Some ''register'' then Inr None else Inr (Some Parked))))"

definition awaitEvent ::
  "string \<Rightarrow> instant \<Rightarrow> string \<Rightarrow> string \<Rightarrow> string \<Rightarrow> string \<Rightarrow> string \<Rightarrow> string \<Rightarrow> number option \<Rightarrow>
   db \<Rightarrow> await_answer reply" where
  "awaitEvent seed now queue task rid token step eventName timeoutSeconds db =
     (case fromPort ''awaitEvent'' eventName of
        Inl e \<Rightarrow> (db, Inl e)
      | Inr name \<Rightarrow>
          (case awaitNamedEvent seed now queue task rid token step name timeoutSeconds db of
             (db', Inl e) \<Rightarrow> (db', Inl e)
           | (db', Inr None) \<Rightarrow> (db', Inl (refusal ''awaitEvent'' rid db'))
           | (db', Inr (Some a)) \<Rightarrow> (db', Inr a)))"

section \<open>Recording the outcome of a child that ended with nothing recorded\<close>

definition materializeTaskDoneCas ::
  "string \<Rightarrow> instant \<Rightarrow> string \<Rightarrow> string \<Rightarrow> string \<Rightarrow> string \<Rightarrow> string \<Rightarrow> string \<Rightarrow> string option \<Rightarrow> stmt" where
  "materializeTaskDoneCas seed now queue task rid token child payload childStamp =
     \<lparr>s_name = ''materialize'', s_kind = Cas, s_atmost = Some 1,
      s_exec = (\<lambda>db.
        case filter (\<lambda>c. t_id c = child \<and> t_stamp c = childStamp \<and>
                         (t_queue c, taskDoneEventName child) \<notin> e_key ` set (events db) \<and>
                         stillClaimed queue rid task token (\<lambda>t. live (t_state t)) db) (tasks db) of
          [] \<Rightarrow> Inr (db, 0)
        | c # _ \<Rightarrow>
            Inr (db\<lparr>events := events db @
                   [\<lparr>e_queue = t_queue c, e_name = taskDoneEventName child, e_payload = Text payload,
                     e_emitted_at = Num now, e_stamp = Some (stamp seed ''materialize''),
                     e_fence_at = Num now\<rparr>]\<rparr>, 1))\<rparr>"

definition recordTaskDone ::
  "string \<Rightarrow> instant \<Rightarrow> string \<Rightarrow> string \<Rightarrow> string \<Rightarrow> string \<Rightarrow> string \<Rightarrow> string option \<Rightarrow> outcome \<Rightarrow>
   db \<Rightarrow> await_answer option reply" where
  "recordTaskDone seed now queue task rid token child childStamp res db =
     (case run_batch [materializeTaskDoneCas seed now queue task rid token child
                        (encodeTaskOutcome res) childStamp] db of
        (db', Inl e) \<Rightarrow> (db', Inl e)
      | (db', Inr _) \<Rightarrow>
          (db', case emittedEvent queue (TaskDone child) task rid token db' of
                  None \<Rightarrow> Inr None
                | Some e \<Rightarrow> if is_text_cell (e_payload e) then Inr (Some (Emitted (e_payload e)))
                            else Inl (RangeError ''awaitTaskDone'')))"

text \<open>A task as a child await sees it.\<close>

definition taskDoneState :: "string \<Rightarrow> db \<Rightarrow> (string \<times> outcome \<times> string option) option checked" where
  "taskDoneState child db =
     (case find (\<lambda>t. t_id t = child) (tasks db) of
        None \<Rightarrow> Inr None
      | Some t \<Rightarrow>
          (case decodeTaskResult t of
             Inl e \<Rightarrow> Inl e
           | Inr res \<Rightarrow> Inr (Some (t_queue t, res, t_stamp t))))"

section \<open>The child await\<close>

text \<open>One round: the \<open>await-event\<close> batch, a read of the child when it neither hit nor registered,
  and the batch that records an ending nothing recorded. Other writers act before each of the
  three, so each takes the database it then finds. \<open>None\<close> is another round.\<close>

definition awaitTaskDone_round ::
  "(nat \<Rightarrow> db \<Rightarrow> string) \<Rightarrow> (nat \<Rightarrow> instant) \<Rightarrow> (nat \<Rightarrow> db \<Rightarrow> db) \<Rightarrow> string \<Rightarrow> string \<Rightarrow> string \<Rightarrow> string \<Rightarrow> string \<Rightarrow> string \<Rightarrow>
   number option \<Rightarrow> event_name \<Rightarrow> nat \<Rightarrow> db \<Rightarrow> await_answer option reply" where
  "awaitTaskDone_round seeds clock between queue task rid token step child timeout name i db =
     (let d0 = between (3 * i) db in
      case awaitNamedEvent (seeds (2 * i) d0) (clock (2 * i)) queue task rid token step name timeout d0 of
        (d, Inl e) \<Rightarrow> (d, Inl e)
      | (d, Inr (Some a)) \<Rightarrow> (d, Inr (Some a))
      | (d, Inr None) \<Rightarrow>
          let d1 = between (3 * i + 1) d in
          (case taskDoneState child d1 of
             Inl e \<Rightarrow> (d1, Inl e)
           | Inr found \<Rightarrow>
               (case childAwaitRefusal queue child (map_option fst found) of
                  Some e \<Rightarrow> (d1, Inl e)
                | None \<Rightarrow>
                    (case found of
                       None \<Rightarrow> (d1, Inr None)
                     | Some (q, res, st) \<Rightarrow>
                         if live (o_state res) then (d1, Inr None)
                         else let d2 = between (3 * i + 2) d1 in
                           recordTaskDone (seeds (2 * i + 1) d2) (clock (2 * i + 1)) queue task rid token child st res d2))))"

fun awaitTaskDone_rounds ::
  "nat \<Rightarrow> (nat \<Rightarrow> db \<Rightarrow> await_answer option reply) \<Rightarrow> (db \<Rightarrow> exn) \<Rightarrow> nat \<Rightarrow> db \<Rightarrow> await_answer reply" where
  "awaitTaskDone_rounds 0 once refuse i db = (db, Inl (refuse db))"
| "awaitTaskDone_rounds (Suc k) once refuse i db =
     (case once i db of
        (d, Inl e) \<Rightarrow> (d, Inl e)
      | (d, Inr (Some a)) \<Rightarrow> (d, Inr a)
      | (d, Inr None) \<Rightarrow> awaitTaskDone_rounds k once refuse (i + 1) d)"

definition awaitTaskDone ::
  "(nat \<Rightarrow> db \<Rightarrow> string) \<Rightarrow> (nat \<Rightarrow> instant) \<Rightarrow> (nat \<Rightarrow> db \<Rightarrow> db) \<Rightarrow> string \<Rightarrow> string \<Rightarrow> string \<Rightarrow> string \<Rightarrow> string \<Rightarrow> string \<Rightarrow>
   number option \<Rightarrow> db \<Rightarrow> await_answer reply" where
  "awaitTaskDone seeds clock between queue task rid token step child timeout db =
     (case awaitedTaskDone child of
        Inl e \<Rightarrow> (db, Inl e)
      | Inr name \<Rightarrow>
          awaitTaskDone_rounds 2
            (awaitTaskDone_round seeds clock between queue task rid token step child timeout name)
            (refusal ''awaitTaskDone'' rid) 0 db)"

end
