(* ===== verification/Finish.thy ===== *)
theory Finish
  imports Events
begin

text \<open>
  A run's end by its own worker: completion, a user failure with or without a retry, and a failed
  rollback (store-libsql \<open>store.ts\<close>; core \<open>statements/complete.ts\<close>, \<open>fail.ts\<close>, \<open>successor.ts\<close>,
  \<open>sagas.ts\<close>). Every one of these batches may end the task, and then records its completion event
  and wakes who awaits it.
\<close>

section \<open>Completion\<close>

definition taskAdmitsCompletion :: "db \<Rightarrow> run \<Rightarrow> bool" where
  "taskAdmitsCompletion db r =
     owner_such db r (\<lambda>t.
       (\<not> live (t_state t) \<or> \<not> sagaBeganOf db (t_id t)) \<and>
       (\<not> live (t_state t) \<or> (live (t_state t) \<and> soleLiveRun db r)))"

definition complete_admits :: "string \<Rightarrow> string \<Rightarrow> string \<Rightarrow> db \<Rightarrow> run \<Rightarrow> bool" where
  "complete_admits queue rid token db r =
     (whereClaimedRun rid queue token r \<and> taskAdmitsCompletion db r)"

definition complete_set :: "instant \<Rightarrow> string \<Rightarrow> db \<Rightarrow> run \<Rightarrow> run" where
  "complete_set now resultJson db r =
     r\<lparr>r_state := Completed, r_completed_at := Num now, r_result := Some resultJson,
       r_wake_event := None, r_payload := Null, r_wake_step := None,
       r_claimed_by := None, r_expires := Null\<rparr>"

definition complete_batch ::
  "string \<Rightarrow> instant \<Rightarrow> string \<Rightarrow> string \<Rightarrow> string \<Rightarrow> string \<Rightarrow> string \<Rightarrow> stmt list" where
  "complete_batch seed now queue task rid token resultJson =
     [cas_runs seed now ''complete'' (complete_admits queue rid token) (complete_set now resultJson),
      runs_to_tasks seed ''task'' ''complete'' queue (\<lambda>f. r_id f = rid)
        (\<lambda>db t. t\<lparr>t_state := Completed, t_completed := Some resultJson, t_cancel_at := Null\<rparr>)
        (\<lambda>db t. live (t_state t)) (Some 1),
      waitsGone seed rid ''complete'']
     @ taskDone seed queue task ''task'' (completed_with resultJson)"

definition complete ::
  "string \<Rightarrow> instant \<Rightarrow> memo \<Rightarrow> string \<Rightarrow> string \<Rightarrow> string \<Rightarrow> string \<Rightarrow> db \<Rightarrow> unit reply" where
  "complete seed now m queue rid token resultJson db =
     (case endingTask m ''complete'' queue rid db of
        Inl e \<Rightarrow> (db, Inl e)
      | Inr task \<Rightarrow>
          require_won ''complete'' rid ''complete''
            (run_batch (complete_batch seed now queue task rid token resultJson) db))"

section \<open>Successors of a failed run\<close>

text \<open>The new run a failure places: the next ordinal, carrying what the failed run carried.\<close>

definition new_run :: "string \<Rightarrow> string \<Rightarrow> string \<Rightarrow> cell \<Rightarrow> lstate \<Rightarrow> cell \<Rightarrow> string option \<Rightarrow> cell \<Rightarrow> run" where
  "new_run rid queue task attempt state available stampv since =
     \<lparr>r_id = rid, r_queue = queue, r_task = task, r_attempt = attempt, r_state = state,
      r_claimed_by = None, r_claim_gen = Num 0, r_activated_gen = Num 0, r_relaunch = Num 0,
      r_lease = Null, r_expires = Null, r_heartbeat = Null, r_available = available,
      r_wake_event = None, r_payload = Null, r_wake_step = None, r_run_db = None,
      r_started_at = Null, r_completed_at = Null, r_failed_at = Null, r_result = None,
      r_failure = None, r_created_at = since, r_stamp = stampv, r_fence_at = since\<rparr>"

text \<open>\<open>SUCCESSOR_CARRIED_RUN_COLUMNS\<close>.\<close>

definition carried :: "run \<Rightarrow> run \<Rightarrow> run" where
  "carried p r =
     r\<lparr>r_wake_event := r_wake_event p, r_payload := r_payload p, r_wake_step := r_wake_step p,
       r_run_db := r_run_db p\<rparr>"

definition successor_run :: "string \<Rightarrow> string \<Rightarrow> string \<Rightarrow> lstate \<Rightarrow> duration \<Rightarrow> run \<Rightarrow> run" where
  "successor_run seed name sid state delay f =
     carried f (new_run sid (r_queue f) (r_task f) (cell_plus (r_attempt f) (Num 1)) state
       (cell_plus (r_fence_at f) (Num delay)) (Some (stamp seed name)) (r_fence_at f))"

definition failureSuccessor ::
  "string \<Rightarrow> string \<Rightarrow> string \<Rightarrow> string \<Rightarrow> string \<Rightarrow> lstate \<Rightarrow> duration \<Rightarrow>
   (db \<Rightarrow> run \<Rightarrow> task \<Rightarrow> bool) \<Rightarrow> stmt" where
  "failureSuccessor seed name fence sid rid state delay admission =
     \<lparr>s_name = name, s_kind = FollowOn, s_atmost = Some 1,
      s_exec = (\<lambda>db.
        case filter (\<lambda>(f, t). r_id f = rid \<and> r_stamp f = Some (stamp seed fence) \<and> admission db f t \<and>
                              \<not> successorOwned db sid (r_task f) (cell_plus (r_attempt f) (Num 1)))
               (joined db) of
          [] \<Rightarrow> Inr (db, 0)
        | (f, t) # _ \<Rightarrow> ins_run (successor_run seed name sid state delay f) db)\<rparr>"

section \<open>The saga arm of a failing batch\<close>

definition USER_ATTEMPTS_FROM :: "string \<Rightarrow> string \<Rightarrow> string \<Rightarrow> db \<Rightarrow> task \<Rightarrow> cell" where
  "USER_ATTEMPTS_FROM seed fence rid db t =
     (case find (\<lambda>f. r_id f = rid \<and> r_stamp f = Some (stamp seed fence)) (runs db) of
        None \<Rightarrow> Null | Some f \<Rightarrow> cell_minus (r_attempt f) (t_infra t))"

definition INFRA_RETRIES_FROM :: "string \<Rightarrow> string \<Rightarrow> string \<Rightarrow> db \<Rightarrow> task \<Rightarrow> cell" where
  "INFRA_RETRIES_FROM seed fence sid db t =
     (case find (\<lambda>f. r_id f = sid \<and> r_stamp f = Some (stamp seed fence)) (runs db) of
        None \<Rightarrow> Null
      | Some f \<Rightarrow> cell_minus (cell_minus (r_attempt f) (Num 1)) (t_attempts t))"

definition queued_state :: "duration \<Rightarrow> lstate" where
  "queued_state delay = (if delay \<le> 0 then Pending else Sleeping)"

definition pass_admits :: "(db \<Rightarrow> run \<Rightarrow> task \<Rightarrow> bool) \<Rightarrow> db \<Rightarrow> run \<Rightarrow> task \<Rightarrow> bool" where
  "pass_admits admission db f t =
     (live (t_state t) \<and> admission db f t \<and>
      cell_lt (cell_minus (r_attempt f) (t_infra t)) (Num (snd max_attempts_bounds)))"

definition sagaPass ::
  "string \<Rightarrow> string \<Rightarrow> string \<Rightarrow> string \<Rightarrow> string \<Rightarrow> string option \<Rightarrow> duration \<Rightarrow>
   (db \<Rightarrow> run \<Rightarrow> task \<Rightarrow> bool) \<Rightarrow> stmt list" where
  "sagaPass seed queue rid passId fence enteringWith delay admission =
     [failureSuccessor seed ''rollback-pass'' fence passId rid (queued_state delay) delay
        (pass_admits admission)] @
     (case enteringWith of
        None \<Rightarrow> []
      | Some reason \<Rightarrow>
          [checkpointWrite seed ''rolling-back'' ''rollback-pass'' passId SAGA_PHASE_CHECKPOINT reason]) @
     [runs_to_tasks seed ''task-rolling-back'' ''rollback-pass'' queue (\<lambda>f. r_id f = passId)
        (\<lambda>db t. t\<lparr>t_attempts := USER_ATTEMPTS_FROM seed fence rid db t,
                  t_max_attempts := cell_plus (USER_ATTEMPTS_FROM seed fence rid db t) (Num 1),
                  t_state := stampedRunState seed ''rollback-pass'' passId db t,
                  t_last_run := Some passId\<rparr>)
        (\<lambda>db t. live (t_state t)) (Some 1)]"

text \<open>The batch enters the phase: no saga has begun and a started step is owed its rollback.\<close>

definition enters_saga :: "db \<Rightarrow> run \<Rightarrow> task \<Rightarrow> bool" where
  "enters_saga db f t = (\<not> sagaBeganOf db (t_id t) \<and> rollbackPending db (t_id t))"

definition user_budget_spent :: "run \<Rightarrow> task \<Rightarrow> bool" where
  "user_budget_spent f t = cell_le (t_max_attempts t) (cell_minus (r_attempt f) (t_infra t))"

text \<open>No run holds the successor's identity, one ordinal past the run named.\<close>

definition no_successor :: "string \<Rightarrow> string \<Rightarrow> db \<Rightarrow> task \<Rightarrow> bool" where
  "no_successor sid rid db t =
     (\<not> successorOwned db sid (t_id t)
        (case find (\<lambda>p. r_id p = rid) (runs db) of
           None \<Rightarrow> Null | Some p \<Rightarrow> cell_plus (r_attempt p) (Num 1)))"

section \<open>Failure\<close>

record failed_rollback =
  fr_step :: string
  fr_error :: string

record failure =
  f_queue :: string
  f_run :: string
  f_token :: string
  f_json :: string
  f_task :: string
  f_successor :: string
  f_retry :: "duration option"
  f_rollback :: "((string \<times> string) \<times> duration option) option"

definition fail_admits :: "instant \<Rightarrow> failure \<Rightarrow> db \<Rightarrow> run \<Rightarrow> bool" where
  "fail_admits now fl db r =
     (whereClaimedRun (f_run fl) (f_queue fl) (f_token fl) r \<and>
      owner_such db r (\<lambda>t. \<not> live (t_state t) \<or>
        (live (t_state t) \<and> soleLiveRun db r \<and> storedCurrentRunAccounting r t \<and>
         storedHighestOwnedOrdinal db r \<and>
         (case f_retry fl of
            None \<Rightarrow> True
          | Some delay \<Rightarrow> user_budget_spent r t \<or> addition_fits (Num now) delay))) \<and>
      (f_rollback fl \<noteq> None \<longrightarrow> sagaBeganOf db (r_task r)))"

definition fail_set :: "instant \<Rightarrow> string \<Rightarrow> db \<Rightarrow> run \<Rightarrow> run" where
  "fail_set now reason db r =
     r\<lparr>r_state := Failed, r_failed_at := Num now, r_failure := Some reason, r_claimed_by := None,
       r_expires := Null\<rparr>"

definition fail_terminal :: "string \<Rightarrow> string \<Rightarrow> failure \<Rightarrow> stmt" where
  "fail_terminal seed name fl =
     runs_to_tasks seed name ''fail'' (f_queue fl) (\<lambda>f. r_id f = f_run fl)
       (\<lambda>db t. t\<lparr>t_attempts := USER_ATTEMPTS_FROM seed ''fail'' (f_run fl) db t,
                 t_state := Failed, t_failure := Some (f_json fl)\<rparr>)
       (\<lambda>db t. live (t_state t) \<and> no_successor (f_successor fl) (f_run fl) db t) (Some 1)"

definition retry_admits :: "db \<Rightarrow> run \<Rightarrow> task \<Rightarrow> bool" where
  "retry_admits db f t =
     (live (t_state t) \<and> cell_lt (cell_minus (r_attempt f) (t_infra t)) (t_max_attempts t) \<and>
      incrementable run_attempt_bounds (r_attempt f))"

definition failInto_batch :: "string \<Rightarrow> instant \<Rightarrow> failure \<Rightarrow> stmt list" where
  "failInto_batch seed now fl =
     [cas_runs seed now ''fail'' (fail_admits now fl) (fail_set now (f_json fl))] @
     (case f_rollback fl of
        None \<Rightarrow>
          sagaPass seed (f_queue fl) (f_run fl) (f_successor fl) ''fail'' (Some (f_json fl)) 0
            (\<lambda>db f t. enters_saga db f t \<and> (f_retry fl \<noteq> None \<longrightarrow> user_budget_spent f t))
      | Some ((key, state), passDelay) \<Rightarrow>
          checkpointWrite seed ''rollback-tried'' ''fail'' (f_run fl) key state #
          (case passDelay of
             None \<Rightarrow> []
           | Some delay \<Rightarrow>
               sagaPass seed (f_queue fl) (f_run fl) (f_successor fl) ''fail'' None delay
                 (\<lambda>db f t. addition_fits (r_fence_at f) delay))) @
     (case f_retry fl of
        Some delay \<Rightarrow>
          [failureSuccessor seed ''successor'' ''fail'' (f_successor fl) (f_run fl) (queued_state delay)
             delay retry_admits,
           runs_to_tasks seed ''task-retrying'' ''successor'' (f_queue fl) (\<lambda>f. r_id f = f_successor fl)
             (\<lambda>db t. t\<lparr>t_attempts := USER_ATTEMPTS_FROM seed ''fail'' (f_run fl) db t,
                       t_state := stampedRunState seed ''successor'' (f_successor fl) db t,
                       t_last_run := Some (f_successor fl)\<rparr>)
             (\<lambda>db t. live (t_state t)) (Some 1),
           fail_terminal seed ''task-terminal'' fl]
      | None \<Rightarrow> [fail_terminal seed ''task'' fl]) @
     [waitsGone seed (f_run fl) ''fail''] @
     taskDone seed (f_queue fl) (f_task fl)
       (if f_retry fl = None then ''task'' else ''task-terminal'') (failed_with (f_json fl))"

text \<open>Answers whether the task is rolling back.\<close>

definition failInto :: "string \<Rightarrow> string \<Rightarrow> instant \<Rightarrow> failure \<Rightarrow> db \<Rightarrow> bool reply" where
  "failInto operation seed now fl db =
     (case run_batch (failInto_batch seed now fl) db of
        (db', Inl e) \<Rightarrow> (db', Inl e)
      | (db', Inr res) \<Rightarrow>
          (db', if won res \<noteq> Some ''fail'' then Inl (refusal operation (f_run fl) db')
                else Inr (affected_of ''task-rolling-back'' res = 1)))"

text \<open>The successor's id is minted once and names the retry or, in its place, the rollback pass.\<close>

definition fail ::
  "string \<Rightarrow> string \<Rightarrow> instant \<Rightarrow> memo \<Rightarrow> string \<Rightarrow> string \<Rightarrow> string \<Rightarrow> string \<Rightarrow> number option \<Rightarrow>
   db \<Rightarrow> bool reply" where
  "fail seed sid now m queue rid token failureJson retry db =
     (case (case retry of
              None \<Rightarrow> Inr None
            | Some s \<Rightarrow> map_sum id Some (durationToMs ''retry.delaySeconds'' s False)) of
        Inl e \<Rightarrow> (db, Inl e)
      | Inr delay \<Rightarrow>
          (case endingTask m ''fail'' queue rid db of
             Inl e \<Rightarrow> (db, Inl e)
           | Inr task \<Rightarrow>
               failInto ''fail'' seed now
                 \<lparr>f_queue = queue, f_run = rid, f_token = token, f_json = failureJson, f_task = task,
                  f_successor = sid, f_retry = delay, f_rollback = None\<rparr> db))"

section \<open>A failed rollback\<close>

definition rollbackTriesName :: "string \<Rightarrow> string" where
  "rollbackTriesName step = SAGA_TRIES_PREFIX @ step"

text \<open>An attempt record, as text through \<open>encode\<close> and back through \<open>decode\<close>: the JSON of
  \<open>encodeRollbackTry\<close> and the parse of \<open>decodeRollbackTry\<close>. The count stops at the largest safe
  integer.\<close>

definition nextRollbackTry ::
  "(int \<times> string \<Rightarrow> string) \<Rightarrow> (string \<Rightarrow> (int \<times> string) option) \<Rightarrow> failed_rollback \<Rightarrow> string option \<Rightarrow>
   string \<times> string" where
  "nextRollbackTry enc dec fr lastState =
     (let last = Option.bind lastState dec;
          n = (case last of None \<Rightarrow> 0 | Some (k, _) \<Rightarrow> k) + 1;
          tries = (if last \<noteq> None \<and> n > MAX_SAFE_INTEGER then n - 1 else n)
      in (rollbackTriesName (fr_step fr), enc (tries, fr_error fr)))"

definition requireFailedRollback :: "failed_rollback \<Rightarrow> failed_rollback checked" where
  "requireFailedRollback fr =
     (if IDENTIFIER_CHARACTERS < length (rollbackTriesName (fr_step fr))
      then Inl (InvalidDurableString ''rollback.stepKey'') else Inr fr)"

definition failRollback ::
  "(int \<times> string \<Rightarrow> string) \<Rightarrow> (string \<Rightarrow> (int \<times> string) option) \<Rightarrow> string \<Rightarrow> string \<Rightarrow> instant \<Rightarrow> memo \<Rightarrow>
   string \<Rightarrow> string \<Rightarrow> string \<Rightarrow> string \<Rightarrow> number option \<Rightarrow> failed_rollback \<Rightarrow> db \<Rightarrow> bool reply" where
  "failRollback enc dec seed sid now m queue rid token failureJson retry rollback db =
     (case requireFailedRollback rollback of
        Inl e \<Rightarrow> (db, Inl e)
      | Inr failed \<Rightarrow>
          (case (case retry of
                   None \<Rightarrow> Inr None
                 | Some s \<Rightarrow> map_sum id Some (durationToMs ''retry.delaySeconds'' s False)) of
             Inl e \<Rightarrow> (db, Inl e)
           | Inr delay \<Rightarrow>
               (case endingTask m ''failRollback'' queue rid db of
                  Inl e \<Rightarrow> (db, Inl e)
                | Inr task \<Rightarrow>
                    let tried = nextRollbackTry enc dec failed
                          (map_option c_state
                            (checkpoint_of (task, rollbackTriesName (fr_step failed)) (checkpoints db)))
                    in failInto ''failRollback'' seed now
                         \<lparr>f_queue = queue, f_run = rid, f_token = token, f_json = failureJson,
                          f_task = task, f_successor = sid, f_retry = None,
                          f_rollback = Some (tried, delay)\<rparr> db)))"

end
