(* ===== verification/Sweep.thy ===== *)
theory Sweep
  imports Finish
begin

text \<open>
  The sweep (store-libsql \<open>store.ts\<close>; core \<open>statements/sweep.ts\<close>, \<open>reads.ts\<close>): the scan for due
  cancellations and expired claims, the batch that reopens or caps a launch that was lost, the
  batch that fails an activated run whose claim expired, the cancellation both the sweep and an
  explicit call perform, and the next instant anything in a queue comes due.
\<close>

section \<open>What a sweep may act on\<close>

definition storedSweepGenerations :: "run \<Rightarrow> bool" where
  "storedSweepGenerations r =
     (storedPositiveClaimGeneration r \<and> stored_within activated_gen_bounds (r_activated_gen r))"

definition storedSweepCounters :: "run \<Rightarrow> bool" where
  "storedSweepCounters r =
     (storedSweepGenerations r \<and> stored_within relaunch_count_bounds (r_relaunch r))"

definition launch_lost :: "run \<Rightarrow> bool" where
  "launch_lost r = cell_lt (r_activated_gen r) (r_claim_gen r)"

definition activated :: "run \<Rightarrow> bool" where
  "activated r = (r_activated_gen r = r_claim_gen r \<and> stored_integer (r_claim_gen r))"

definition sweepLiveOwnerAdmissible :: "db \<Rightarrow> run \<Rightarrow> task \<Rightarrow> bool" where
  "sweepLiveOwnerAdmissible db r t =
     (storedSweepCounters r \<and>
      soleLiveRun db r \<and>
      storedCurrentRunAccounting r t \<and>
      storedHighestOwnedOrdinal db r \<and>
      (launch_lost r \<or>
       (activated r \<and>
        (cell_is (t_infra t) INFRA_RETRY_CAP \<or>
         (incrementable run_attempt_bounds (r_attempt r) \<and>
          r_attempt r = cell_plus (cell_plus (t_attempts t) (t_infra t)) (Num 1))))))"

definition sweepTerminalOwnerAdmissible :: "run \<Rightarrow> bool" where
  "sweepTerminalOwnerAdmissible r =
     (storedSweepGenerations r \<and>
      (activated r \<or>
       (launch_lost r \<and> stored_within relaunch_count_bounds (r_relaunch r) \<and>
        cell_is (r_relaunch r) RELAUNCH_CAP)))"

definition sweepScanAdmissible :: "db \<Rightarrow> run \<Rightarrow> task \<Rightarrow> bool" where
  "sweepScanAdmissible db r t =
     ((live (t_state t) \<and> sweepLiveOwnerAdmissible db r t) \<or>
      (\<not> live (t_state t) \<and> sweepTerminalOwnerAdmissible r))"

section \<open>The scan\<close>

definition newest_live_run :: "db \<Rightarrow> task \<Rightarrow> string option" where
  "newest_live_run db t =
     (case rev (sort_key r_attempt
             (filter (\<lambda>r. runOwnedByTask r t \<and> live (r_state r)) (runs db))) of
        [] \<Rightarrow> None | r # _ \<Rightarrow> Some (r_id r))"

definition dueCancelRows :: "instant \<Rightarrow> string \<Rightarrow> nat \<Rightarrow> db \<Rightarrow> (string \<times> string option) list" where
  "dueCancelRows now queue limit db =
     map (\<lambda>t. (t_id t, newest_live_run db t))
       (take limit (sort_key (\<lambda>t. (t_cancel_at t, t_id t))
         (filter (\<lambda>t. t_queue t = queue \<and> cancelDue t now \<and> live (t_state t) \<and> taskOwnsEveryRun db t)
            (tasks db))))"

definition expiredClaims :: "instant \<Rightarrow> string \<Rightarrow> nat \<Rightarrow> db \<Rightarrow> run list" where
  "expiredClaims now queue limit db =
     map fst (take limit (sort_key (\<lambda>(r, t). (r_expires r, r_id r))
       (filter (\<lambda>(r, t). r_queue r = queue \<and> r_state r = Running \<and> runClaimExpired r now \<and>
                         sweepScanAdmissible db r t) (joined db))))"

datatype sweep_item =
    CancelItem string "string option"
  | LostLaunchItem string string int int
  | ClaimTimeoutItem string string int

definition expired_item :: "run \<Rightarrow> sweep_item checked" where
  "expired_item r =
     (case persisted_integer ''sweep'' positive_claim_gen_bounds (r_claim_gen r) of
        Inl e \<Rightarrow> Inl e
      | Inr gen \<Rightarrow>
          (case persisted_integer ''sweep'' activated_gen_bounds (r_activated_gen r) of
             Inl e \<Rightarrow> Inl e
           | Inr act \<Rightarrow>
               if act < gen then
                 (case persisted_integer ''sweep'' relaunch_count_bounds (r_relaunch r) of
                    Inl e \<Rightarrow> Inl e
                  | Inr n \<Rightarrow> Inr (LostLaunchItem (r_id r) (r_task r) gen n))
               else Inr (ClaimTimeoutItem (r_id r) (r_task r) gen)))"

fun collect_expired :: "nat \<Rightarrow> run list \<Rightarrow> sweep_item list \<Rightarrow> sweep_item list checked" where
  "collect_expired budget [] items = Inr items"
| "collect_expired budget (r # rs) items =
     (if budget \<le> length items then Inr items
      else (case expired_item r of
              Inl e \<Rightarrow> Inl e
            | Inr item \<Rightarrow> collect_expired budget rs (items @ [item])))"

text \<open>One budget bounds the items of both reads; each reads its own clock.\<close>

definition sweep_items :: "instant \<Rightarrow> instant \<Rightarrow> string \<Rightarrow> nat \<Rightarrow> db \<Rightarrow> sweep_item list checked" where
  "sweep_items now now2 queue budget db =
     collect_expired budget (expiredClaims now2 queue budget db)
       (map (\<lambda>(t, r). CancelItem t r) (take budget (dueCancelRows now queue budget db)))"

section \<open>A lost launch\<close>

definition whereSweptClaim :: "string \<Rightarrow> string \<Rightarrow> int \<Rightarrow> run \<Rightarrow> bool" where
  "whereSweptClaim rid queue gen r =
     (r_id r = rid \<and> r_queue r = queue \<and> r_state r = Running \<and> cell_is (r_claim_gen r) gen)"

definition relaunchDelayMs :: "run \<Rightarrow> duration" where
  "relaunchDelayMs r =
     min ((ival (r_relaunch r) + 1) * RELAUNCH_BACKOFF_BASE_SECONDS) RELAUNCH_BACKOFF_MAX_SECONDS * 1000"

definition live_owner :: "db \<Rightarrow> run \<Rightarrow> bool" where
  "live_owner db r = owner_such db r (\<lambda>t. live (t_state t) \<and> sweepLiveOwnerAdmissible db r t)"

definition terminal_owner :: "db \<Rightarrow> run \<Rightarrow> bool" where
  "terminal_owner db r = owner_such db r (\<lambda>t. \<not> live (t_state t) \<and> sweepTerminalOwnerAdmissible r)"

definition reopen_admits :: "instant \<Rightarrow> string \<Rightarrow> string \<Rightarrow> int \<Rightarrow> db \<Rightarrow> run \<Rightarrow> bool" where
  "reopen_admits now queue rid gen db r =
     (whereSweptClaim rid queue gen r \<and> launch_lost r \<and> runClaimExpired r now \<and>
      cell_lt (r_relaunch r) (Num RELAUNCH_CAP) \<and> live_owner db r \<and>
      addition_fits (Num now) (relaunchDelayMs r))"

definition cap_admits :: "instant \<Rightarrow> string \<Rightarrow> string \<Rightarrow> int \<Rightarrow> db \<Rightarrow> run \<Rightarrow> bool" where
  "cap_admits now queue rid gen db r =
     (whereSweptClaim rid queue gen r \<and> launch_lost r \<and> runClaimExpired r now \<and>
      cell_is (r_relaunch r) RELAUNCH_CAP \<and> (live_owner db r \<or> terminal_owner db r))"

definition reopen_set :: "instant \<Rightarrow> db \<Rightarrow> run \<Rightarrow> run" where
  "reopen_set now db r =
     r\<lparr>r_state := Pending, r_claimed_by := None, r_expires := Null, r_heartbeat := Null,
       r_relaunch := cell_plus (r_relaunch r) (Num 1), r_available := Num (now + relaunchDelayMs r)\<rparr>"

text \<open>No run holds the pass's identity, one past the run this batch failed.\<close>

definition no_pass :: "string \<Rightarrow> string \<Rightarrow> string \<Rightarrow> string \<Rightarrow> db \<Rightarrow> task \<Rightarrow> bool" where
  "no_pass seed fence passId rid db t =
     (\<not> successorOwned db passId (t_id t)
        (case find (\<lambda>p. r_id p = rid \<and> r_stamp p = Some (stamp seed fence)) (runs db) of
           None \<Rightarrow> Null | Some p \<Rightarrow> cell_plus (r_attempt p) (Num 1)))"

definition lostLaunch_batch ::
  "string \<Rightarrow> string \<Rightarrow> instant \<Rightarrow> instant \<Rightarrow> string \<Rightarrow> string \<Rightarrow> string \<Rightarrow> int \<Rightarrow> stmt list" where
  "lostLaunch_batch seed passId now now2 queue task rid gen =
     [cas_runs seed now ''reopen'' (reopen_admits now queue rid gen) (reopen_set now),
      cas_runs seed now2 ''cap'' (cap_admits now2 queue rid gen) (fail_set now2 REASON_RELAUNCH_CAP)] @
     sagaPass seed queue rid passId ''cap'' (Some REASON_RELAUNCH_CAP) 0 enters_saga @
     [runs_to_tasks seed ''task-pending'' ''reopen'' queue (\<lambda>f. r_id f = rid)
        (\<lambda>db t. t\<lparr>t_state := Pending\<rparr>) (\<lambda>db t. live (t_state t)) (Some 1),
      runs_to_tasks seed ''task-fail'' ''cap'' queue (\<lambda>f. r_id f = rid)
        (\<lambda>db t. t\<lparr>t_state := Failed, t_failure := Some REASON_RELAUNCH_CAP\<rparr>)
        (\<lambda>db t. live (t_state t) \<and> no_pass seed ''cap'' passId rid db t) (Some 1),
      waitsGone seed rid ''cap''] @
     taskDone seed queue task ''task-fail'' (failed_with REASON_RELAUNCH_CAP)"

datatype swept =
    SweptCancelled string "string option"
  | SweptLostLaunch string string int
  | RelaunchCapExhausted string string
  | RollbackStarted string string string
  | SweptClaimTimeout string string string
  | InfraCapExhausted string string

definition sweepLostLaunch ::
  "string \<Rightarrow> string \<Rightarrow> instant \<Rightarrow> instant \<Rightarrow> string \<Rightarrow> string \<Rightarrow> string \<Rightarrow> int \<Rightarrow> int \<Rightarrow> db \<Rightarrow> swept option reply" where
  "sweepLostLaunch seed passId now now2 queue rid task gen relaunches db =
     (case run_batch (lostLaunch_batch seed passId now now2 queue task rid gen) db of
        (db', Inl e) \<Rightarrow> (db', Inl e)
      | (db', Inr res) \<Rightarrow>
          (db', Inr
            (if won res = Some ''reopen'' then Some (SweptLostLaunch rid task (relaunches + 1))
             else if won res = Some ''cap'' then
               (if affected_of ''task-rolling-back'' res = 1 then Some (RollbackStarted rid task passId)
                else Some (RelaunchCapExhausted rid task))
             else None)))"

section \<open>An expired claim of an activated run\<close>

definition timeout_admits :: "instant \<Rightarrow> string \<Rightarrow> string \<Rightarrow> int \<Rightarrow> db \<Rightarrow> run \<Rightarrow> bool" where
  "timeout_admits now queue rid gen db r =
     (whereSweptClaim rid queue gen r \<and> activated r \<and> runClaimExpired r now \<and>
      owner_such db r (\<lambda>t.
        (\<not> live (t_state t) \<and> sweepTerminalOwnerAdmissible r) \<or>
        (live (t_state t) \<and> sweepLiveOwnerAdmissible db r t \<and>
         (cell_is (t_infra t) INFRA_RETRY_CAP \<or>
          addition_fits (Num now) (INFRA_BACKOFF_SECONDS * 1000)))))"

text \<open>The claim-timeout failure keeps the deadline that expired.\<close>

definition timeout_set :: "instant \<Rightarrow> db \<Rightarrow> run \<Rightarrow> run" where
  "timeout_set now db r =
     r\<lparr>r_state := Failed, r_failed_at := Num now, r_failure := Some REASON_CLAIM_TIMEOUT,
       r_claimed_by := None\<rparr>"

definition infra_successor_admits :: "db \<Rightarrow> run \<Rightarrow> task \<Rightarrow> bool" where
  "infra_successor_admits db f t =
     (live (t_state t) \<and> stored_within infra_retries_bounds (t_infra t) \<and>
      cell_lt (t_infra t) (Num INFRA_RETRY_CAP) \<and> incrementable run_attempt_bounds (r_attempt f))"

definition claimTimeout_batch ::
  "string \<Rightarrow> string \<Rightarrow> instant \<Rightarrow> string \<Rightarrow> string \<Rightarrow> string \<Rightarrow> int \<Rightarrow> stmt list" where
  "claimTimeout_batch seed sid now queue task rid gen =
     [cas_runs seed now ''fail'' (timeout_admits now queue rid gen) (timeout_set now),
      failureSuccessor seed ''successor'' ''fail'' sid rid Pending (INFRA_BACKOFF_SECONDS * 1000)
        infra_successor_admits] @
     sagaPass seed queue rid sid ''fail'' (Some REASON_INFRA_CAP) 0 enters_saga @
     [runs_to_tasks seed ''task-terminal'' ''fail'' queue (\<lambda>f. r_id f = rid)
        (\<lambda>db t. t\<lparr>t_state := Failed, t_failure := Some REASON_INFRA_CAP\<rparr>)
        (\<lambda>db t. live (t_state t) \<and> stored_within infra_retries_bounds (t_infra t) \<and>
                cell_is (t_infra t) INFRA_RETRY_CAP \<and> no_pass seed ''fail'' sid rid db t) (Some 1),
      runs_to_tasks seed ''bookkeeping'' ''successor'' queue (\<lambda>f. r_id f = sid)
        (\<lambda>db t. t\<lparr>t_infra := INFRA_RETRIES_FROM seed ''successor'' sid db t, t_state := Pending,
                  t_last_run := Some sid\<rparr>)
        (\<lambda>db t. live (t_state t)) (Some 1),
      waitsGone seed rid ''fail''] @
     taskDone seed queue task ''task-terminal'' (failed_with REASON_INFRA_CAP)"

definition sweepClaimTimeout ::
  "string \<Rightarrow> string \<Rightarrow> instant \<Rightarrow> string \<Rightarrow> string \<Rightarrow> string \<Rightarrow> int \<Rightarrow> db \<Rightarrow> swept option reply" where
  "sweepClaimTimeout seed sid now queue rid task gen db =
     (case run_batch (claimTimeout_batch seed sid now queue task rid gen) db of
        (db', Inl e) \<Rightarrow> (db', Inl e)
      | (db', Inr res) \<Rightarrow>
          (db', Inr
            (if won res \<noteq> Some ''fail'' then None
             else if affected_of ''bookkeeping'' res = 1 then Some (SweptClaimTimeout rid task sid)
             else if affected_of ''task-rolling-back'' res = 1 then Some (RollbackStarted rid task sid)
             else if affected_of ''task-terminal'' res = 1 then Some (InfraCapExhausted rid task)
             else None)))"

section \<open>Cancellation\<close>

definition cancel_admits :: "instant \<Rightarrow> string \<Rightarrow> string \<Rightarrow> bool \<Rightarrow> bool \<Rightarrow> db \<Rightarrow> task \<Rightarrow> bool" where
  "cancel_admits now queue task deadlineOnly unlessSaga db t =
     (t_id t = task \<and> t_queue t = queue \<and> live (t_state t) \<and>
      (deadlineOnly \<longrightarrow> cancelDue t now) \<and> taskOwnsEveryRun db t \<and>
      (unlessSaga \<longrightarrow> \<not> sagaBeganOf db (t_id t)))"

definition cancel_set :: "instant \<Rightarrow> db \<Rightarrow> task \<Rightarrow> task" where
  "cancel_set now db t =
     t\<lparr>t_state := Cancelled, t_cancelled_at := Num now, t_cancel_at := Null,
       t_failure := Some REASON_CANCELLED\<rparr>"

definition cancel_batch ::
  "string \<Rightarrow> instant \<Rightarrow> string \<Rightarrow> string \<Rightarrow> bool \<Rightarrow> bool \<Rightarrow> stmt list" where
  "cancel_batch seed now queue task deadlineOnly unlessSaga =
     [cas_tasks seed now ''cancel'' (cancel_admits now queue task deadlineOnly unlessSaga) (cancel_set now),
      tasks_to_runs seed ''runs'' ''cancel'' queue (\<lambda>f. t_id f = task)
        (\<lambda>db r. r\<lparr>r_state := Cancelled, r_claimed_by := None, r_expires := Null\<rparr>)
        (\<lambda>db r. r_task r = task \<and> live (r_state r)) None,
      runs_to_waits seed ''waits'' ''runs'' (\<lambda>f. r_task f = task \<and> r_state f = Cancelled) (\<lambda>db w. True)] @
     taskDone seed queue task ''cancel'' (cancelled_with REASON_CANCELLED)"

definition cancelTransition ::
  "string \<Rightarrow> instant \<Rightarrow> string \<Rightarrow> string \<Rightarrow> bool \<Rightarrow> bool \<Rightarrow> db \<Rightarrow> bool reply" where
  "cancelTransition seed now queue task deadlineOnly unlessSaga db =
     (case run_batch (cancel_batch seed now queue task deadlineOnly unlessSaga) db of
        (db', Inl e) \<Rightarrow> (db', Inl e)
      | (db', Inr res) \<Rightarrow> (db', Inr (won res = Some ''cancel'')))"

definition cancelTask :: "string \<Rightarrow> instant \<Rightarrow> string \<Rightarrow> string \<Rightarrow> bool \<Rightarrow> db \<Rightarrow> bool reply" where
  "cancelTask seed now queue task unlessSagaBegan db =
     cancelTransition seed now queue task False unlessSagaBegan db"

section \<open>One item of a sweep\<close>

definition sweep_one ::
  "string \<Rightarrow> string \<Rightarrow> instant \<Rightarrow> instant \<Rightarrow> string \<Rightarrow> sweep_item \<Rightarrow> db \<Rightarrow> swept option reply" where
  "sweep_one seed newId now now2 queue item db =
     (case item of
        CancelItem task rid \<Rightarrow>
          (case cancelTransition seed now queue task True False db of
             (db', Inl e) \<Rightarrow> (db', Inl e)
           | (db', Inr w) \<Rightarrow> (db', Inr (if w then Some (SweptCancelled task rid) else None)))
      | LostLaunchItem rid task gen n \<Rightarrow> sweepLostLaunch seed newId now now2 queue rid task gen n db
      | ClaimTimeoutItem rid task gen \<Rightarrow> sweepClaimTimeout seed newId now queue rid task gen db)"

section \<open>The next wake\<close>

definition next_wake :: "string \<Rightarrow> db \<Rightarrow> cell" where
  "next_wake queue db =
     sql_min
       [sql_min (map r_available (filter (\<lambda>r. r_queue r = queue \<and> r_state r = Pending \<and>
          stored_within epoch_bounds (r_available r)) (runs db))),
        sql_min (map r_available (filter (\<lambda>r. r_queue r = queue \<and> r_state r = Sleeping \<and>
          stored_within epoch_bounds (r_available r)) (runs db))),
        sql_min (map r_expires (filter (\<lambda>r. r_queue r = queue \<and> r_state r = Running \<and>
          stored_within epoch_bounds (r_expires r)) (runs db))),
        sql_min (map t_cancel_at (filter (\<lambda>t. t_queue t = queue \<and> live (t_state t) \<and>
          stored_within epoch_bounds (t_cancel_at t)) (tasks db)))]"

definition nextWakeAtEpochMs :: "string \<Rightarrow> db \<Rightarrow> int option checked" where
  "nextWakeAtEpochMs queue db =
     (case next_wake queue db of
        Null \<Rightarrow> Inr None
      | c \<Rightarrow> map_sum id Some (persisted_integer ''nextWakeAtEpochMs.wake_ms'' epoch_bounds c))"

end
