(* ===== verification/Revive.thy ===== *)
theory Revive
  imports Sweep
begin

text \<open>
  The revival of a failed task (store-libsql \<open>store.ts\<close>; core \<open>statements/retry-task.ts\<close>) and the
  spawn of a new one (\<open>statements/spawn.ts\<close>), with the reads that answer their callers.
\<close>

section \<open>Revival\<close>

definition retry_charged :: "db \<Rightarrow> task \<Rightarrow> cell" where
  "retry_charged db t = cell_minus (topOrdinal db t) (t_infra t)"

definition everyRunOrdinalInRange :: "db \<Rightarrow> task \<Rightarrow> bool" where
  "everyRunOrdinalInRange db t =
     (\<not> (\<exists>r\<in>set (runs db). runOwnedByTask r t \<and> \<not> stored_within run_attempt_bounds (r_attempt r)))"

definition RETRY_ADMITS :: "db \<Rightarrow> task \<Rightarrow> bool" where
  "RETRY_ADMITS db t =
     (taskOwnsEveryRun db t \<and>
      t_failure t \<noteq> None \<and>
      t_completed t = None \<and>
      (\<exists>r\<in>set (runs db). runOwnedByTask r t) \<and>
      noLiveRunOf db t \<and>
      stored_within attempts_bounds (t_attempts t) \<and>
      stored_within infra_retries_bounds (t_infra t) \<and>
      everyRunOrdinalInRange db t \<and>
      incrementable max_attempts_bounds (t_max_attempts t) \<and>
      (cell_is (cell_minus (retry_charged db t) (t_attempts t)) 0 \<or>
       cell_is (cell_minus (retry_charged db t) (t_attempts t)) 1) \<and>
      \<not> sagaBeganOf db (t_id t) \<and>
      cell_le (retry_charged db t) (t_max_attempts t))"

definition revive_admits :: "string \<Rightarrow> string \<Rightarrow> db \<Rightarrow> task \<Rightarrow> bool" where
  "revive_admits queue task db t =
     (t_id t = task \<and> t_queue t = queue \<and> t_state t = Failed \<and> RETRY_ADMITS db t)"

definition revive_set :: "string \<Rightarrow> db \<Rightarrow> task \<Rightarrow> task" where
  "revive_set rid db t =
     t\<lparr>t_state := Pending, t_attempts := retry_charged db t,
       t_max_attempts := cell_plus (t_max_attempts t) (Num 1), t_failure := None,
       t_last_run := Some rid\<rparr>"

definition revivalRunInsert :: "string \<Rightarrow> string \<Rightarrow> string \<Rightarrow> stmt" where
  "revivalRunInsert seed rid task =
     \<lparr>s_name = ''run'', s_kind = FollowOn, s_atmost = Some 1,
      s_exec = (\<lambda>db.
        case filter (\<lambda>(p, f). t_id f = task \<and> t_stamp f = Some (stamp seed ''revive'') \<and>
                              r_attempt p = topOrdinal db f \<and> noLiveRunOf db f) (joined db) of
          [] \<Rightarrow> Inr (db, 0)
        | (p, f) # _ \<Rightarrow>
            ins_run (carried p (new_run rid (t_queue f) (t_id f) (cell_plus (r_attempt p) (Num 1)) Pending
              (t_fence_at f) (Some (stamp seed ''run'')) (t_fence_at f))) db)\<rparr>"

definition retryTask_batch :: "string \<Rightarrow> string \<Rightarrow> instant \<Rightarrow> string \<Rightarrow> string \<Rightarrow> stmt list" where
  "retryTask_batch seed rid now queue task =
     [cas_tasks seed now ''revive'' (revive_admits queue task) (revive_set rid),
      revivalRunInsert seed rid task]"

definition retryTask ::
  "string \<Rightarrow> string \<Rightarrow> instant \<Rightarrow> string \<Rightarrow> string \<Rightarrow> db \<Rightarrow> (string \<times> cell) option reply" where
  "retryTask seed rid now queue task db =
     (case run_batch (retryTask_batch seed rid now queue task) db of
        (db', Inl e) \<Rightarrow> (db', Inl e)
      | (db', Inr res) \<Rightarrow>
          if won res \<noteq> Some ''revive'' then (db', Inr None)
          else (case find (\<lambda>r. r_id r = rid \<and> r_stamp r = Some (stamp seed ''run'')) (runs db') of
                  None \<Rightarrow> (db', Inl (InternalError ''retryTask: the revival won but inserted no run''))
                | Some r \<Rightarrow> (db', Inr (Some (rid, r_attempt r)))))"

section \<open>Spawn\<close>

text \<open>A task as the port has validated its options: \<open>spawnOnce\<close> up to the batch.\<close>

record spawn_request =
  sp_queue :: string
  sp_name :: string
  sp_params :: string
  sp_headers :: doc
  sp_retry :: doc
  sp_max_attempts :: int
  sp_delay :: duration
  sp_max_delay :: "duration option"
  sp_cancellation :: doc
  sp_key :: "string option"
  sp_parent :: "child_of option"

definition identity_free :: "string \<Rightarrow> db \<Rightarrow> bool" where
  "identity_free task db =
     (task \<notin> t_id ` set (tasks db) \<and> task \<notin> r_task ` set (runs db))"

definition spawn_admits :: "instant \<Rightarrow> string \<Rightarrow> spawn_request \<Rightarrow> db \<Rightarrow> bool" where
  "spawn_admits now task rq db =
     (identity_free task db \<and>
      addition_fits (Num now) (sp_delay rq) \<and>
      (case sp_max_delay rq of None \<Rightarrow> True | Some d \<Rightarrow> addition_fits (Num now) (sp_delay rq + d)) \<and>
      (case sp_parent rq of
         None \<Rightarrow> True
       | Some p \<Rightarrow>
           stillClaimed (co_queue p) (co_run p) (co_task p) (co_token p) (\<lambda>t. live (t_state t)) db \<and>
           \<not> sagaBeganOf db (co_task p)))"

definition spawned_task :: "string \<Rightarrow> instant \<Rightarrow> string \<Rightarrow> spawn_request \<Rightarrow> task" where
  "spawned_task seed now task rq =
     \<lparr>t_id = task, t_queue = sp_queue rq, t_name = sp_name rq, t_params = sp_params rq,
      t_headers = sp_headers rq, t_retry = sp_retry rq, t_max_attempts = Num (sp_max_attempts rq),
      t_cancellation = sp_cancellation rq, t_idem = sp_key rq, t_state = Pending,
      t_attempts = Num 0, t_infra = Num 0, t_last_run = None, t_completed = None, t_failure = None,
      t_enqueue_at = Num (now + sp_delay rq), t_first_started = Null,
      t_cancel_at = (case sp_max_delay rq of None \<Rightarrow> Null | Some d \<Rightarrow> Num (now + sp_delay rq + d)),
      t_cancelled_at = Null, t_created_at = Num now,
      t_stamp = Some (stamp seed ''task''), t_fence_at = Num now\<rparr>"

definition spawnTaskCas :: "string \<Rightarrow> instant \<Rightarrow> string \<Rightarrow> spawn_request \<Rightarrow> stmt" where
  "spawnTaskCas seed now task rq =
     \<lparr>s_name = ''task'', s_kind = Cas, s_atmost = Some 1,
      s_exec = (\<lambda>db.
        if \<not> spawn_admits now task rq db then Inr (db, 0)
        else if idem_taken (tasks db) (sp_queue rq) (sp_key rq) then Inr (db, 0)
        else if task \<in> t_id ` set (tasks db) then Inl (UniqueViolation ''tasks.task_id'')
        else Inr (db\<lparr>tasks := tasks db @ [spawned_task seed now task rq]\<rparr>, 1))\<rparr>"

definition spawnRunInsert :: "string \<Rightarrow> string \<Rightarrow> string \<Rightarrow> stmt" where
  "spawnRunInsert seed rid task =
     \<lparr>s_name = ''run'', s_kind = FollowOn, s_atmost = Some 1,
      s_exec = (\<lambda>db.
        case stamped_tasks seed ''task''
               (\<lambda>f. t_id f = task \<and> stored_within epoch_bounds (t_enqueue_at f) \<and>
                    t_id f \<notin> r_task ` set (runs db)) db of
          [] \<Rightarrow> Inr (db, 0)
        | f # _ \<Rightarrow>
            ins_run (new_run rid (t_queue f) (t_id f) (Num 1) Pending (t_enqueue_at f)
              (Some (stamp seed ''run'')) (t_fence_at f)) db)\<rparr>"

definition spawn_batch :: "string \<Rightarrow> instant \<Rightarrow> string \<Rightarrow> string \<Rightarrow> spawn_request \<Rightarrow> stmt list" where
  "spawn_batch seed now task rid rq =
     [spawnTaskCas seed now task rq, spawnRunInsert seed rid task]"

text \<open>The receipt: the holder of the key before a holder of the id, with its top run.\<close>

definition spawn_winner :: "string \<Rightarrow> spawn_request \<Rightarrow> task \<Rightarrow> bool" where
  "spawn_winner task rq t =
     ((t_id t = task \<and> t_queue t = sp_queue rq) \<or>
      (sp_key rq \<noteq> None \<and> t_queue t = sp_queue rq \<and> t_idem t = sp_key rq \<and> t_id t \<noteq> task))"

definition top_run :: "db \<Rightarrow> task \<Rightarrow> string option" where
  "top_run db t =
     (case rev (sort_key r_attempt (filter (\<lambda>r. runOwnedByTask r t) (runs db))) of
        [] \<Rightarrow> None | r # _ \<Rightarrow> Some (r_id r))"

definition spawnReceipt :: "string \<Rightarrow> spawn_request \<Rightarrow> db \<Rightarrow> (string \<times> string option) option" where
  "spawnReceipt task rq db =
     (case sort_key (\<lambda>t. ((if t_id t = task then (1::nat) else 0), t_id t))
             (filter (spawn_winner task rq) (tasks db)) of
        [] \<Rightarrow> None | t # _ \<Rightarrow> Some (t_id t, top_run db t))"

record spawn_result =
  sr_task :: string
  sr_run :: "string option"
  sr_created :: bool

text \<open>One send of the batch; no answer when the insert lost and no task explains it.\<close>

definition spawnOnce ::
  "string \<Rightarrow> instant \<Rightarrow> string \<Rightarrow> string \<Rightarrow> spawn_request \<Rightarrow> db \<Rightarrow> spawn_result option reply" where
  "spawnOnce seed now task rid rq db =
     (case run_batch (spawn_batch seed now task rid rq) db of
        (db', Inl e) \<Rightarrow> (db', Inl e)
      | (db', Inr res) \<Rightarrow>
          if won res = Some ''task'' then
            (db', Inr (Some \<lparr>sr_task = task, sr_run = Some rid, sr_created = True\<rparr>))
          else (case spawnReceipt task rq db' of
                  Some (t, r) \<Rightarrow> (db', Inr (Some \<lparr>sr_task = t, sr_run = r, sr_created = False\<rparr>))
                | None \<Rightarrow>
                    (case sp_parent rq of
                       Some p \<Rightarrow> (db', Inl (refusal ''spawn'' (co_run p) db'))
                     | None \<Rightarrow> (db', Inr None))))"

text \<open>Both sends are one spawn, under the ids the first send minted. Another writer may act
  between the two, so the second send takes the database it then finds.\<close>

definition spawnSendingOnceMore ::
  "(db \<Rightarrow> spawn_result option reply) \<Rightarrow> (db \<Rightarrow> spawn_result option reply) \<Rightarrow> (db \<Rightarrow> db) \<Rightarrow> db \<Rightarrow>
   spawn_result reply" where
  "spawnSendingOnceMore send send2 between db =
     (case send db of
        (db', Inl e) \<Rightarrow> (db', Inl e)
      | (db', Inr (Some res)) \<Rightarrow> (db', Inr res)
      | (db', Inr None) \<Rightarrow>
          (case send2 (between db') of
             (db2, Inl e) \<Rightarrow> (db2, Inl e)
           | (db2, Inr (Some res)) \<Rightarrow> (db2, Inr res)
           | (db2, Inr None) \<Rightarrow>
               (db2, Inl (InternalError ''spawn: the task insert lost but no existing task explains it''))))"

section \<open>A task's result\<close>

definition getTaskResult ::
  "string \<Rightarrow> string \<Rightarrow> db \<Rightarrow> (outcome \<times> (rollback_state \<times> string option) option) option checked" where
  "getTaskResult queue task db =
     (case find (\<lambda>t. t_id t = task \<and> t_queue t = queue) (tasks db) of
        None \<Rightarrow> Inr None
      | Some t \<Rightarrow>
          (case decodeTaskResult t of
             Inl e \<Rightarrow> Inl e
           | Inr res \<Rightarrow>
               Inr (Some (res, map_option (\<lambda>out. (out, if out = RollbackComplete then None else rollbackError db t))
                                (rollbackOutcome db t)))))"

end
