(* ===== verification/Invariant.thy ===== *)
theory Invariant
  imports Suspend Revive
begin

text \<open>
  The invariant of the scheduler's database. It is stated by units: a task with the runs that
  name it. A live task has exactly one live run, of the task's own state and at its top ordinal,
  and an ended one has none and has its completion event. Beside the units it holds what a run's
  columns say of one another, that a wait belongs to a run parked on exactly that event and that
  the event has not been recorded, that a run asleep without a deadline has such a wait, and the
  keys of the schema. The lemmas say how a replacement of one unit's rows keeps all of it.
\<close>

section \<open>Definitions\<close>

definition valid_clock :: "instant \<Rightarrow> bool" where
  "valid_clock now = (0 \<le> now \<and> now \<le> MAX_EPOCH_MS)"

definition run_ok :: "run \<Rightarrow> bool" where
  "run_ok r =
     (stored_within run_attempt_bounds (r_attempt r) \<and>
      stored_within claim_gen_bounds (r_claim_gen r) \<and>
      stored_within activated_gen_bounds (r_activated_gen r) \<and>
      cell_le (r_activated_gen r) (r_claim_gen r) \<and>
      stored_within relaunch_count_bounds (r_relaunch r) \<and>
      (r_state r = Running \<longleftrightarrow> r_claimed_by r \<noteq> None) \<and>
      (r_state r = Running \<longrightarrow>
         storedPositiveClaimGeneration r \<and> stored_within epoch_bounds (r_expires r) \<and>
         stored_within lease_ms_bounds (r_lease r)) \<and>
      (r_state r = Pending \<longrightarrow> stored_within epoch_bounds (r_available r)) \<and>
      (r_state r = Sleeping \<longrightarrow> r_available r = Null \<or> stored_within epoch_bounds (r_available r)))"

definition counters_ok :: "task \<Rightarrow> bool" where
  "counters_ok t =
     (stored_within attempts_bounds (t_attempts t) \<and>
      stored_within max_attempts_bounds (t_max_attempts t) \<and>
      stored_within infra_retries_bounds (t_infra t))"

definition unit_runs :: "db \<Rightarrow> string \<Rightarrow> run set" where
  "unit_runs db tid = {r \<in> set (runs db). r_task r = tid}"

text \<open>The run that carries a live task: every other run of the unit has ended, at a lower ordinal.\<close>

definition carries :: "task \<Rightarrow> run set \<Rightarrow> run \<Rightarrow> bool" where
  "carries t U r =
     (r \<in> U \<and> r_state r = t_state t \<and> storedCurrentRunAccounting r t \<and>
      (\<forall>s\<in>U. s \<noteq> r \<longrightarrow> \<not> live (r_state s) \<and> cell_lt (r_attempt s) (r_attempt r)))"

definition unit_ok :: "task \<Rightarrow> run set \<Rightarrow> (string \<times> string) set \<Rightarrow> bool" where
  "unit_ok t U E =
     ((\<forall>r\<in>U. r_queue r = t_queue t) \<and> counters_ok t \<and> outcome_ok t \<and>
      (if live (t_state t) then \<exists>r. carries t U r
       else (\<forall>r\<in>U. \<not> live (r_state r)) \<and> (t_queue t, taskDoneEventName (t_id t)) \<in> E))"

definition event_keys :: "db \<Rightarrow> (string \<times> string) set" where
  "event_keys db = e_key ` set (events db)"

definition parked_on :: "run \<Rightarrow> wait \<Rightarrow> bool" where
  "parked_on r w =
     (r_state r = Sleeping \<and> wait_witness r w \<and> r_wake_step r = Some (w_step w))"

definition wait_ok :: "run set \<Rightarrow> (string \<times> string) set \<Rightarrow> wait \<Rightarrow> bool" where
  "wait_ok R E w =
     (w_status w = Waiting \<longrightarrow> (\<exists>r\<in>R. parked_on r w) \<and> (w_queue w, w_event w) \<notin> E)"

definition sleeper_ok :: "wait set \<Rightarrow> run \<Rightarrow> bool" where
  "sleeper_ok W r =
     (r_state r = Sleeping \<and> r_available r = Null \<longrightarrow> (\<exists>w\<in>W. parked_on r w))"

definition event_ok :: "event \<Rightarrow> bool" where
  "event_ok e = (is_text_cell (e_payload e) \<and> stored_within epoch_bounds (e_emitted_at e))"

definition checkpoint_ok :: "run set \<Rightarrow> checkpoint \<Rightarrow> bool" where
  "checkpoint_ok R c = (c_committed c \<and> (\<exists>owner\<in>R. checkpointOwnerMatches c owner))"

definition units_ok :: "(string \<times> string) set \<Rightarrow> db \<Rightarrow> bool" where
  "units_ok E db = (\<forall>t\<in>set (tasks db). unit_ok t (unit_runs db (t_id t)) E)"

definition waits_ok :: "(string \<times> string) set \<Rightarrow> db \<Rightarrow> bool" where
  "waits_ok E db =
     ((\<forall>w\<in>set (waits db). wait_ok (set (runs db)) E w) \<and>
      (\<forall>r\<in>set (runs db). sleeper_ok (set (waits db)) r))"

definition rows_ok :: "db \<Rightarrow> bool" where
  "rows_ok db =
     (keys_ok db \<and> idem_unique (tasks db) \<and>
      (\<forall>r\<in>set (runs db). run_ok r \<and> r_task r \<in> t_id ` set (tasks db)) \<and>
      (\<forall>e\<in>set (events db). event_ok e) \<and>
      (\<forall>c\<in>set (checkpoints db). checkpoint_ok (set (runs db)) c))"

definition inv :: "db \<Rightarrow> bool" where
  "inv db = (rows_ok db \<and> units_ok (event_keys db) db \<and> waits_ok (event_keys db) db)"

section \<open>What the invariant says of a claimed run\<close>

lemma keys_okD:
  "keys_ok db \<Longrightarrow> keyed t_id (tasks db)" "keys_ok db \<Longrightarrow> keyed r_id (runs db)"
  "keys_ok db \<Longrightarrow> keyed r_ordinal (runs db)" "keys_ok db \<Longrightarrow> keyed w_key (waits db)"
  "keys_ok db \<Longrightarrow> keyed e_key (events db)" "keys_ok db \<Longrightarrow> keyed c_key (checkpoints db)"
  by (simp_all add: keys_ok_def)

lemma inv_keys: "inv db \<Longrightarrow> keys_ok db"
  by (simp add: inv_def rows_ok_def)

lemma inv_run_ok: "inv db \<Longrightarrow> r \<in> set (runs db) \<Longrightarrow> run_ok r"
  by (simp add: inv_def rows_ok_def)

lemma inv_unit: "inv db \<Longrightarrow> t \<in> set (tasks db) \<Longrightarrow> unit_ok t (unit_runs db (t_id t)) (event_keys db)"
  by (simp add: inv_def units_ok_def)

lemma inv_owner:
  assumes "inv db" "r \<in> set (runs db)"
  obtains t where "t \<in> set (tasks db)" "t_id t = r_task r" "t_queue t = r_queue r"
proof -
  have "r_task r \<in> t_id ` set (tasks db)" using assms by (simp add: inv_def rows_ok_def)
  then obtain t where t: "t \<in> set (tasks db)" "t_id t = r_task r" by (metis imageE)
  then have "r \<in> unit_runs db (t_id t)" using assms(2) by (simp add: unit_runs_def)
  then have "r_queue r = t_queue t" using inv_unit[OF assms(1) t(1)] by (simp add: unit_ok_def)
  then show ?thesis using that t by simp
qed

lemma owner_such_iff:
  assumes "keys_ok db" "t \<in> set (tasks db)" "t_id t = r_task r" "t_queue t = r_queue r"
  shows "owner_such db r p = p t"
proof -
  have "s = t" if "s \<in> set (tasks db)" "t_id s = r_task r" for s
    using task_table.unique[OF keys_okD(1)[OF assms(1)] that(1) assms(2)] assms(3) that(2) by simp
  then show ?thesis
    using assms(2-4) unfolding owner_such_def runOwnedByTask_def by metis
qed

text \<open>A live run's task is live, of the run's state, and carried by that run.\<close>

lemma inv_live_run:
  assumes "inv db" "r \<in> set (runs db)" "live (r_state r)" "t \<in> set (tasks db)" "t_id t = r_task r"
  shows "live (t_state t)" "carries t (unit_runs db (t_id t)) r" "t_state t = r_state r"
proof -
  have u: "unit_ok t (unit_runs db (t_id t)) (event_keys db)" using inv_unit assms(1,4) by blast
  have mem: "r \<in> unit_runs db (t_id t)" using assms by (simp add: unit_runs_def)
  show l: "live (t_state t)" using u mem assms(3) by (auto simp: unit_ok_def split: if_splits)
  then obtain c where c: "carries t (unit_runs db (t_id t)) c" using u by (auto simp: unit_ok_def)
  then have "c = r" using mem assms(3) by (auto simp: carries_def)
  then show "carries t (unit_runs db (t_id t)) r" using c by simp
  then show "t_state t = r_state r" by (simp add: carries_def)
qed

lemma carries_sole: "carries t (unit_runs db (r_task r)) r \<Longrightarrow> soleLiveRun db r"
  by (auto simp: carries_def soleLiveRun_def unit_runs_def)

lemma carries_highest:
  assumes "inv db" "carries t (unit_runs db (r_task r)) r"
  shows "storedHighestOwnedOrdinal db r"
proof -
  have "stored_within run_attempt_bounds (r_attempt h) \<and> \<not> cell_lt (r_attempt r) (r_attempt h)"
    if h: "h \<in> set (runs db)" "r_task h = r_task r" for h
  proof -
    have "stored_within run_attempt_bounds (r_attempt h)"
      using inv_run_ok assms(1) h(1) by (simp add: run_ok_def)
    moreover have "h = r \<or> cell_lt (r_attempt h) (r_attempt r)"
      using assms(2) h by (auto simp: carries_def unit_runs_def)
    ultimately show ?thesis by (cases "r_attempt h"; cases "r_attempt r") auto
  qed
  then show ?thesis by (auto simp: storedHighestOwnedOrdinal_def)
qed

section \<open>Units under replacement\<close>

lemma unit_runs_put_run:
  assumes "keyed r_id (runs db)" "r \<in> set (runs db)" "r_id r' = r_id r" "r_task r' = r_task r"
  shows "unit_runs (put_run r' db) tid =
    (if tid = r_task r then insert r' (unit_runs db tid - {r}) else unit_runs db tid)"
proof -
  have "set (runs (put_run r' db)) = insert r' (set (runs db) - {r})"
    using assms run_table.unique[OF assms(1) _ assms(2)] by (auto simp: in_put_run)
  then show ?thesis using assms by (auto simp: unit_runs_def)
qed

lemma unit_runs_add [simp]:
  "unit_runs (add_run n db) tid = (if tid = r_task n then insert n (unit_runs db tid) else unit_runs db tid)"
  by (auto simp: unit_runs_def)

lemma unit_runs_other [simp]:
  "unit_runs (put_task t db) tid = unit_runs db tid"
  "unit_runs (drop_waits p db) tid = unit_runs db tid"
  by (simp_all add: unit_runs_def)

lemma unit_runs_events [simp]:
  "unit_runs (db\<lparr>events := es\<rparr>) tid = unit_runs db tid"
  "unit_runs (db\<lparr>checkpoints := cs\<rparr>) tid = unit_runs db tid"
  "unit_runs (db\<lparr>waits := ws\<rparr>) tid = unit_runs db tid"
  "unit_runs (db\<lparr>drivers := ds\<rparr>) tid = unit_runs db tid"
  "unit_runs (db\<lparr>tasks := ts\<rparr>) tid = unit_runs db tid"
  by (simp_all add: unit_runs_def)

lemma event_keys_simps [simp]:
  "event_keys (put_run r db) = event_keys db" "event_keys (put_task t db) = event_keys db"
  "event_keys (add_run r db) = event_keys db" "event_keys (drop_waits p db) = event_keys db"
  "event_keys (db\<lparr>checkpoints := cs\<rparr>) = event_keys db" "event_keys (db\<lparr>waits := ws\<rparr>) = event_keys db"
  "event_keys (db\<lparr>drivers := ds\<rparr>) = event_keys db" "event_keys (db\<lparr>tasks := ts\<rparr>) = event_keys db"
  "event_keys (db\<lparr>runs := rs\<rparr>) = event_keys db"
  by (simp_all add: event_keys_def)

text \<open>Other units are untouched, so only the unit at hand is left to show.\<close>

lemma units_put:
  assumes "units_ok E db" "keyed t_id (tasks db)" "t \<in> set (tasks db)" "t_id t' = t_id t"
    "\<And>tid. tid \<noteq> t_id t \<Longrightarrow> unit_runs db' tid = unit_runs db tid"
    "tasks db' = tasks (put_task t' db)" "E \<subseteq> E'"
    "unit_ok t' (unit_runs db' (t_id t)) E'"
  shows "units_ok E' db'"
  unfolding units_ok_def
proof
  fix s assume s: "s \<in> set (tasks db')"
  show "unit_ok s (unit_runs db' (t_id s)) E'"
  proof (cases "t_id s = t_id t")
    case True
    then have "s = t'" using s assms(4,6) by (auto simp: in_put_task)
    then show ?thesis using assms(4,8) by simp
  next
    case False
    then have "s \<in> set (tasks db)" using s assms(4,6) by (auto simp: in_put_task)
    then have "unit_ok s (unit_runs db (t_id s)) E" using assms(1) by (simp add: units_ok_def)
    then show ?thesis using False assms(5,7) by (auto simp: unit_ok_def split: if_splits)
  qed
qed

section \<open>Rows under replacement\<close>

lemma set_put_run:
  assumes "keyed r_id (runs db)" "r \<in> set (runs db)" "r_id r' = r_id r"
  shows "set (runs (put_run r' db)) = insert r' (set (runs db) - {r})"
  using assms run_table.unique[OF assms(1) _ assms(2)] by (auto simp: in_put_run)

lemma set_put_task:
  assumes "keyed t_id (tasks db)" "t \<in> set (tasks db)" "t_id t' = t_id t"
  shows "set (tasks (put_task t' db)) = insert t' (set (tasks db) - {t})"
  using assms task_table.unique[OF assms(1) _ assms(2)] by (auto simp: in_put_task)

lemma keys_put_run:
  assumes "keys_ok db" "r \<in> set (runs db)" "r_id r' = r_id r" "r_task r' = r_task r"
    "r_attempt r' = r_attempt r"
  shows "keys_ok (put_run r' db)"
proof -
  have "map r_ordinal (runs (put_run r' db)) = map r_ordinal (runs db)"
    by (rule map_put_run_same) (use assms in \<open>simp_all add: keys_ok_def r_ordinal_def\<close>)
  then show ?thesis using assms(1) by (simp add: keys_ok_def keyed_def)
qed

lemma checkpoint_ok_cong:
  assumes "checkpoint_ok R c" "\<And>x. x \<in> R \<Longrightarrow> \<exists>y\<in>R'. r_id y = r_id x \<and> r_task y = r_task x \<and>
    r_queue y = r_queue x \<and> r_attempt y = r_attempt x"
  shows "checkpoint_ok R' c"
proof -
  obtain x where x: "x \<in> R" "checkpointOwnerMatches c x" "c_committed c"
    using assms(1) by (auto simp: checkpoint_ok_def)
  obtain y where "y \<in> R'" "r_id y = r_id x" "r_task y = r_task x" "r_queue y = r_queue x"
    "r_attempt y = r_attempt x" using assms(2)[OF x(1)] by blast
  then show ?thesis using x(2,3) by (auto simp: checkpoint_ok_def checkpointOwnerMatches_def)
qed

lemma rows_put_run:
  assumes "rows_ok db" "r \<in> set (runs db)" "r_id r' = r_id r" "r_task r' = r_task r"
    "r_attempt r' = r_attempt r" "r_queue r' = r_queue r" "run_ok r'"
  shows "rows_ok (put_run r' db)"
proof -
  have k: "keys_ok db" using assms(1) by (simp add: rows_ok_def)
  have set: "set (runs (put_run r' db)) = insert r' (set (runs db) - {r})"
    using set_put_run[OF keys_okD(2)[OF k] assms(2,3)] .
  have "checkpoint_ok (set (runs (put_run r' db))) c" if "c \<in> set (checkpoints db)" for c
  proof (rule checkpoint_ok_cong)
    show "checkpoint_ok (set (runs db)) c" using assms(1) that by (simp add: rows_ok_def)
    fix x assume "x \<in> set (runs db)"
    then show "\<exists>y\<in>set (runs (put_run r' db)). r_id y = r_id x \<and> r_task y = r_task x \<and>
      r_queue y = r_queue x \<and> r_attempt y = r_attempt x"
      using assms set by (cases "x = r") auto
  qed
  then show ?thesis
    using assms keys_put_run[OF k assms(2-5)] by (auto simp: rows_ok_def set)
qed

lemma rows_put_task:
  assumes "rows_ok db" "t \<in> set (tasks db)" "t_id t' = t_id t" "t_queue t' = t_queue t"
    "t_idem t' = t_idem t"
  shows "rows_ok (put_task t' db)"
proof -
  have k: "keys_ok db" using assms(1) by (simp add: rows_ok_def)
  have set: "set (tasks (put_task t' db)) = insert t' (set (tasks db) - {t})"
    using set_put_task[OF keys_okD(1)[OF k] assms(2,3)] .
  have "t_id ` set (tasks (put_task t' db)) = t_id ` set (tasks db)"
    using map_put_id(2)[of t' db] by (metis list.set_map)
  moreover have "idem_unique (tasks (put_task t' db))"
    using assms by (auto simp: rows_ok_def idem_unique_def set)
  moreover have "keys_ok (put_task t' db)" using k by (simp add: keys_ok_def)
  ultimately show ?thesis using assms(1) by (simp add: rows_ok_def)
qed

lemma ins_run_Inr:
  "ins_run n db = Inr (db', k) \<Longrightarrow>
     db' = add_run n db \<and> k = 1 \<and> r_id n \<notin> r_id ` set (runs db) \<and> r_ordinal n \<notin> r_ordinal ` set (runs db)"
  by (auto simp: ins_run_def add_run_def split: if_splits)

lemma rows_add_run:
  assumes "rows_ok db" "r_id n \<notin> r_id ` set (runs db)" "r_ordinal n \<notin> r_ordinal ` set (runs db)"
    "run_ok n" "r_task n \<in> t_id ` set (tasks db)"
  shows "rows_ok (add_run n db)"
  using assms by (auto simp: rows_ok_def keys_ok_def keyed_def checkpoint_ok_def)

lemma rows_drop_waits: "rows_ok db \<Longrightarrow> rows_ok (drop_waits p db)"
  by (simp add: rows_ok_def keys_ok_def wait_table.delete_keyed)

section \<open>Waits under replacement\<close>

lemma waits_put_task [simp]: "waits_ok E (put_task t db) = waits_ok E db"
  by (simp add: waits_ok_def)

lemma parked_on_id: "parked_on r w \<Longrightarrow> w_run w = r_id r"
  by (simp add: parked_on_def wait_witness_def)

lemma parked_on_cong:
  assumes "r_state r' = r_state r" "r_id r' = r_id r" "r_queue r' = r_queue r" "r_task r' = r_task r"
    "r_wake_event r' = r_wake_event r" "r_wake_step r' = r_wake_step r" "r_available r' = r_available r"
  shows "parked_on r' w = parked_on r w"
  using assms by (simp add: parked_on_def wait_witness_def)

text \<open>A replacement that leaves what the run is parked on.\<close>

lemma waits_put_run_same:
  assumes "waits_ok E db" "keyed r_id (runs db)" "r \<in> set (runs db)" "r_state r' = r_state r"
    "r_id r' = r_id r" "r_queue r' = r_queue r" "r_task r' = r_task r"
    "r_wake_event r' = r_wake_event r" "r_wake_step r' = r_wake_step r" "r_available r' = r_available r"
  shows "waits_ok E (put_run r' db)"
proof -
  note p = parked_on_cong[OF assms(4-10)]
  have "wait_ok (insert r' (set (runs db) - {r})) E w" if "wait_ok (set (runs db)) E w" for w
  proof -
    have "\<exists>x\<in>insert r' (set (runs db) - {r}). parked_on x w" if "\<exists>x\<in>set (runs db). parked_on x w"
      using that p by (metis Diff_iff empty_iff insertCI insert_iff)
    then show ?thesis using that by (simp add: wait_ok_def)
  qed
  moreover have "sleeper_ok W r' = sleeper_ok W r" for W
    using assms p by (simp add: sleeper_ok_def)
  ultimately show ?thesis
    using assms(1,3) by (simp add: waits_ok_def set_put_run[OF assms(2,3,5)])
qed

text \<open>A replacement that ends or moves the run, with its waits dropped.\<close>

lemma waits_put_run_drop:
  assumes "waits_ok E db" "keyed r_id (runs db)" "r \<in> set (runs db)" "r_id r' = r_id r"
    "\<not> (r_state r' = Sleeping \<and> r_available r' = Null)" "waits db' = waits db"
    "runs db' = runs (put_run r' db)"
  shows "waits_ok E (drop_waits (\<lambda>w. w_run w = r_id r \<and> True) db')"
proof -
  have set: "set (runs db') = insert r' (set (runs db) - {r})"
    using set_put_run[OF assms(2-4)] assms(7) by simp
  have keep: "\<exists>x\<in>set (runs db) - {r}. parked_on x w"
    if "\<exists>x\<in>set (runs db). parked_on x w" "w_run w \<noteq> r_id r" for w
    using that parked_on_id by (metis Diff_iff empty_iff insert_iff)
  have "wait_ok (set (runs db')) E w" if "w \<in> set (waits db)" "w_run w \<noteq> r_id r" for w
  proof -
    have "wait_ok (set (runs db)) E w" using assms(1) that by (simp add: waits_ok_def)
    then show ?thesis using keep[OF _ that(2)] unfolding set wait_ok_def by blast
  qed
  moreover have "sleeper_ok {w \<in> set (waits db). w_run w \<noteq> r_id r} x"
    if x: "x \<in> set (runs db) - {r}" for x
  proof -
    have "sleeper_ok (set (waits db)) x" using assms(1) x by (simp add: waits_ok_def)
    moreover have "r_id x \<noteq> r_id r" using x run_table.unique[OF assms(2) _ assms(3)] by blast
    ultimately show ?thesis using parked_on_id[of x] unfolding sleeper_ok_def by fastforce
  qed
  ultimately show ?thesis
    using assms(5,6) by (auto simp: waits_ok_def set sleeper_ok_def)
qed

lemma waits_add_run:
  assumes "waits_ok E db" "\<not> (r_state n = Sleeping \<and> r_available n = Null)"
  shows "waits_ok E (add_run n db)"
  using assms by (auto simp: waits_ok_def wait_ok_def sleeper_ok_def)

lemma waits_events [simp]:
  "waits_ok E (db\<lparr>events := es\<rparr>) = waits_ok E db" "waits_ok E (db\<lparr>checkpoints := cs\<rparr>) = waits_ok E db"
  "waits_ok E (db\<lparr>tasks := ts\<rparr>) = waits_ok E db" "waits_ok E (db\<lparr>drivers := ds\<rparr>) = waits_ok E db"
  by (simp_all add: waits_ok_def)

lemma units_tables [simp]:
  "units_ok E (db\<lparr>events := es\<rparr>) = units_ok E db" "units_ok E (db\<lparr>checkpoints := cs\<rparr>) = units_ok E db"
  "units_ok E (db\<lparr>waits := ws\<rparr>) = units_ok E db" "units_ok E (db\<lparr>drivers := ds\<rparr>) = units_ok E db"
  "units_ok E (drop_waits p db) = units_ok E db"
  by (simp_all add: units_ok_def)

section \<open>A unit that stays live\<close>

definition same_run :: "run \<Rightarrow> run \<Rightarrow> bool" where
  "same_run r r' =
     (r_id r' = r_id r \<and> r_queue r' = r_queue r \<and> r_task r' = r_task r \<and> r_attempt r' = r_attempt r)"

definition same_task :: "task \<Rightarrow> task \<Rightarrow> bool" where
  "same_task t t' = (t_id t' = t_id t \<and> t_queue t' = t_queue t \<and> t_idem t' = t_idem t)"

definition same_counters :: "task \<Rightarrow> task \<Rightarrow> bool" where
  "same_counters t t' =
     (t_attempts t' = t_attempts t \<and> t_max_attempts t' = t_max_attempts t \<and> t_infra t' = t_infra t)"

definition same_outcome :: "task \<Rightarrow> task \<Rightarrow> bool" where
  "same_outcome t t' = (t_completed t' = t_completed t \<and> t_failure t' = t_failure t)"

lemmas same_defs = same_run_def same_task_def same_counters_def same_outcome_def

lemma live_unit_outcome:
  "unit_ok t U E \<Longrightarrow> live (t_state t) \<Longrightarrow> t_completed t = None \<and> t_failure t = None"
  by (cases "t_state t") (auto simp: unit_ok_def outcome_ok_def)

lemma live_outcome_ok:
  "live (t_state t) \<Longrightarrow> outcome_ok t = (t_completed t = None \<and> t_failure t = None)"
  by (cases "t_state t") (auto simp: outcome_ok_def)

text \<open>The live run is replaced by a live one of the state its task takes.\<close>

lemma unit_move:
  assumes "unit_ok t U E" "carries t U r" "live (t_state t)" "live (r_state r')"
    "same_run r r'" "same_task t t'" "same_counters t t'" "same_outcome t t'" "t_state t' = r_state r'"
  shows "unit_ok t' (insert r' (U - {r})) E"
proof -
  have "carries t' (insert r' (U - {r})) r'"
    using assms(2,5,7,9) by (auto simp: carries_def same_defs storedCurrentRunAccounting_def)
  moreover have "outcome_ok t'"
    using live_unit_outcome[OF assms(1,3)] assms(4,8,9) live_outcome_ok[of t'] by (simp add: same_outcome_def)
  moreover have "\<forall>s\<in>insert r' (U - {r}). r_queue s = t_queue t'"
    using assms(1,2,5,6) by (auto simp: unit_ok_def carries_def same_defs)
  ultimately show ?thesis
    using assms(1,4,7,9) by (auto simp: unit_ok_def counters_ok_def same_counters_def)
qed

lemma move_unit:
  assumes "inv db" "r \<in> set (runs db)" "live (r_state r)" "t \<in> set (tasks db)" "t_id t = r_task r"
    "same_run r r'" "live (r_state r')" "run_ok r'"
    "same_task t t'" "same_counters t t'" "same_outcome t t'" "t_state t' = r_state r'"
  shows "rows_ok (put_task t' (put_run r' db))" "units_ok (event_keys db) (put_task t' (put_run r' db))"
proof -
  have k: "keys_ok db" using assms(1) by (rule inv_keys)
  have ids: "r_id r' = r_id r" "r_task r' = r_task r" using assms(6) by (simp_all add: same_run_def)
  have tid: "t_id t' = t_id t" using assms(9) by (simp add: same_task_def)
  note live = inv_live_run[OF assms(1-5)]
  have U: "unit_ok t (unit_runs db (t_id t)) (event_keys db)" using inv_unit assms(1,4) by blast
  have "rows_ok (put_run r' db)"
    by (rule rows_put_run) (use assms(1,2,6,8) in \<open>simp_all add: inv_def same_run_def\<close>)
  then show "rows_ok (put_task t' (put_run r' db))"
    by (intro rows_put_task[where t = t]) (use assms(4,9) in \<open>simp_all add: same_task_def\<close>)
  show "units_ok (event_keys db) (put_task t' (put_run r' db))"
  proof (rule units_put[OF _ keys_okD(1)[OF k] assms(4) tid])
    show "units_ok (event_keys db) db" using assms(1) by (simp add: inv_def)
    show "unit_runs (put_task t' (put_run r' db)) tid = unit_runs db tid" if "tid \<noteq> t_id t" for tid
      using that assms(5) unit_runs_put_run[OF keys_okD(2)[OF k] assms(2) ids] by simp
    show "unit_ok t' (unit_runs (put_task t' (put_run r' db)) (t_id t)) (event_keys db)"
      using unit_move[OF U live(2,1) assms(7,6,9-12)] assms(5)
        unit_runs_put_run[OF keys_okD(2)[OF k] assms(2) ids] by simp
  qed (simp_all add: put_task_def)
qed

lemma inv_move:
  assumes "inv db" "r \<in> set (runs db)" "live (r_state r)" "t \<in> set (tasks db)" "t_id t = r_task r"
    "same_run r r'" "live (r_state r')" "run_ok r'" "\<not> (r_state r' = Sleeping \<and> r_available r' = Null)"
    "same_task t t'" "same_counters t t'" "same_outcome t t'" "t_state t' = r_state r'"
  shows "inv (drop_waits (\<lambda>w. w_run w = r_id r \<and> True) (put_task t' (put_run r' db)))"
proof -
  note m = move_unit[OF assms(1-8,10-13)]
  have ids: "r_id r' = r_id r" using assms(6) by (simp add: same_run_def)
  have "waits_ok (event_keys db) (drop_waits (\<lambda>w. w_run w = r_id r \<and> True) (put_task t' (put_run r' db)))"
    by (rule waits_put_run_drop[OF _ keys_okD(2)[OF inv_keys[OF assms(1)]] assms(2) ids assms(9)])
      (use assms(1) in \<open>simp_all add: inv_def\<close>)
  then show ?thesis using m rows_drop_waits by (simp add: inv_def)
qed

text \<open>The live run is touched in place: its state and what it is parked on stay.\<close>

definition touched :: "run \<Rightarrow> run \<Rightarrow> bool" where
  "touched r r' =
     (same_run r r' \<and> r_state r' = r_state r \<and> r_wake_event r' = r_wake_event r \<and>
      r_wake_step r' = r_wake_step r \<and> r_available r' = r_available r)"

lemma inv_touch:
  assumes "inv db" "r \<in> set (runs db)" "touched r r'" "run_ok r'"
  shows "inv (put_run r' db)"
proof -
  have k: "keys_ok db" using assms(1) by (rule inv_keys)
  have ids: "r_id r' = r_id r" "r_task r' = r_task r" using assms(3) by (simp_all add: touched_def same_run_def)
  have "rows_ok (put_run r' db)"
    by (rule rows_put_run) (use assms in \<open>simp_all add: inv_def touched_def same_run_def\<close>)
  moreover have "unit_ok t (unit_runs (put_run r' db) (t_id t)) (event_keys db)"
    if t: "t \<in> set (tasks db)" for t
  proof -
    have U: "unit_ok t (unit_runs db (t_id t)) (event_keys db)" using inv_unit assms(1) t by blast
    show ?thesis
    proof (cases "t_id t = r_task r")
      case False
      then show ?thesis using U unit_runs_put_run[OF keys_okD(2)[OF k] assms(2) ids] by simp
    next
      case True
      have eq: "unit_runs (put_run r' db) (t_id t) = insert r' (unit_runs db (t_id t) - {r})"
        using True unit_runs_put_run[OF keys_okD(2)[OF k] assms(2) ids] by simp
      have mem: "r \<in> unit_runs db (t_id t)" using assms(2) True by (simp add: unit_runs_def)
      have c': "carries t (insert r' (V - {r})) (if c = r then r' else c)" if "carries t V c" "r \<in> V" for V c
        using that assms(3) by (auto simp: carries_def touched_def same_run_def storedCurrentRunAccounting_def)
      show ?thesis
      proof (cases "live (t_state t)")
        case True
        then obtain c where "carries t (unit_runs db (t_id t)) c" using U by (auto simp: unit_ok_def)
        then have "\<exists>c. carries t (unit_runs (put_run r' db) (t_id t)) c" using c' mem eq by metis
        then show ?thesis using U True assms(3) mem
          by (auto simp: unit_ok_def eq touched_def same_run_def)
      next
        case False
        then show ?thesis using U assms(3) mem by (auto simp: unit_ok_def eq touched_def same_run_def)
      qed
    qed
  qed
  moreover have "waits_ok (event_keys db) (put_run r' db)"
    by (rule waits_put_run_same[OF _ keys_okD(2)[OF k] assms(2)])
      (use assms in \<open>simp_all add: inv_def touched_def same_run_def\<close>)
  ultimately show ?thesis by (simp add: inv_def units_ok_def)
qed

lemma inv_touch_task:
  assumes "inv db" "t \<in> set (tasks db)" "same_task t t'" "same_counters t t'" "same_outcome t t'"
    "t_state t' = t_state t"
  shows "inv (put_task t' db)"
proof -
  have k: "keys_ok db" using assms(1) by (rule inv_keys)
  have tid: "t_id t' = t_id t" using assms(3) by (simp add: same_task_def)
  have U: "unit_ok t (unit_runs db (t_id t)) (event_keys db)" using inv_unit assms(1,2) by blast
  have "carries t' = carries t"
    using assms(4,6) by (intro ext) (simp add: carries_def same_counters_def storedCurrentRunAccounting_def)
  then have "unit_ok t' (unit_runs db (t_id t)) (event_keys db)"
    using U assms(3-6) by (simp add: unit_ok_def same_defs counters_ok_def outcome_ok_def)
  then have "units_ok (event_keys db) (put_task t' db)"
    using units_put[OF _ keys_okD(1)[OF k] assms(2) tid, of "event_keys db" "put_task t' db" "event_keys db"]
      assms(1) by (simp add: inv_def)
  moreover have "rows_ok (put_task t' db)"
    using rows_put_task assms(1-3) by (simp add: inv_def same_task_def)
  ultimately show ?thesis using assms(1) by (simp add: inv_def)
qed

end
