(* ===== verification/Effects.thy ===== *)
theory Effects
  imports Invariant
begin

text \<open>
  What the hand-written statements do when their fence is not there, and what the batches of the
  store amount to. A batch whose compare-and-set matches no row leaves the database as it was; one
  that matches replaces the rows of a single unit. The lemmas here are what the preservation of
  the invariant and the functional properties are proved from.
\<close>

section \<open>Statements that lose quietly\<close>

lemma custom_gated [simp]:
  "gated seed (checkpointWrite seed name fence rid cname state)"
  "gated seed (failureSuccessor seed name fence sid rid st delay adm)"
  "gated seed (wakeRunsUpdate seed queue name)"
  "gated seed (taskDoneEventInsert seed queue task terminal res)"
  "gated seed (revivalRunInsert seed rid task)"
  "gated seed (spawnRunInsert seed rid task)"
proof -
  show "gated seed (checkpointWrite seed name fence rid cname state)"
    by (auto simp: gated_def checkpointWrite_def)
  have "filter (\<lambda>(f, t). r_id f = rid \<and> r_stamp f = Some (stamp seed fence) \<and> adm db f t \<and>
          \<not> successorOwned db sid (r_task f) (cell_plus (r_attempt f) (Num 1))) (joined db) = []"
    if "fresh seed db" for db
    using that by (auto simp: filter_empty_conv joined_def fresh_def)
  then show "gated seed (failureSuccessor seed name fence sid rid st delay adm)"
    by (auto simp: gated_def failureSuccessor_def)
  have none: "recordedEvent seed name db r = None" if "fresh seed db" for db r
    using that by (auto simp: recordedEvent_def find_None_iff fresh_def)
  then show "gated seed (wakeRunsUpdate seed queue name)"
    by (auto simp: gated_def wakeRunsUpdate_def wake_admits_def intro!: upd_none)
  show "gated seed (taskDoneEventInsert seed queue task terminal res)"
    by (auto simp: gated_def taskDoneEventInsert_def)
  have "filter (\<lambda>(p, f). t_id f = task \<and> t_stamp f = Some (stamp seed ''revive'') \<and>
          r_attempt p = topOrdinal db f \<and> noLiveRunOf db f) (joined db) = []"
    if "fresh seed db" for db
    using that by (auto simp: filter_empty_conv joined_def fresh_def)
  then show "gated seed (revivalRunInsert seed rid task)"
    by (auto simp: gated_def revivalRunInsert_def)
  show "gated seed (spawnRunInsert seed rid task)"
    by (auto simp: gated_def spawnRunInsert_def)
qed

lemma custom_kind [simp]:
  "s_kind (checkpointWrite seed name fence rid cname state) = FollowOn"
  "s_kind (failureSuccessor seed name fence sid rid st delay adm) = FollowOn"
  "s_kind (wakeRunsUpdate seed queue ev) = FollowOn"
  "s_kind (taskDoneEventInsert seed queue task terminal res) = FollowOn"
  "s_kind (revivalRunInsert seed rid task) = FollowOn"
  "s_kind (spawnRunInsert seed rid task) = FollowOn"
  "s_name (checkpointWrite seed name fence rid cname state) = name"
  "s_name (failureSuccessor seed name fence sid rid st delay adm) = name"
  "s_name (wakeRunsUpdate seed queue ev) = ''wake-runs''"
  "s_name (taskDoneEventInsert seed queue task terminal res) = ''event''"
  "s_name (revivalRunInsert seed rid task) = ''run''"
  "s_name (spawnRunInsert seed rid task) = ''run''"
  "s_atmost (checkpointWrite seed name fence rid cname state) = Some 1"
  "s_atmost (failureSuccessor seed name fence sid rid st delay adm) = Some 1"
  "s_atmost (wakeRunsUpdate seed queue ev) = None"
  "s_atmost (taskDoneEventInsert seed queue task terminal res) = Some 1"
  "s_atmost (revivalRunInsert seed rid task) = Some 1"
  "s_atmost (spawnRunInsert seed rid task) = Some 1"
  by (simp_all add: checkpointWrite_def failureSuccessor_def wakeRunsUpdate_def
      taskDoneEventInsert_def revivalRunInsert_def spawnRunInsert_def)

lemma custom_quiet [simp]:
  "loses_quietly seed (checkpointWrite seed name fence rid cname state)"
  "loses_quietly seed (failureSuccessor seed name fence sid rid st delay adm)"
  "loses_quietly seed (wakeRunsUpdate seed queue ev)"
  "loses_quietly seed (taskDoneEventInsert seed queue task terminal res)"
  "loses_quietly seed (revivalRunInsert seed rid task)"
  "loses_quietly seed (spawnRunInsert seed rid task)"
  by (simp_all add: loses_quietly_def)

lemma insert_cas_quiet [simp]:
  "loses_quietly seed (emitEventCas seed now queue name payload)"
  "loses_quietly seed (registerWaitCas seed now queue task rid token step ev timeout)"
  "loses_quietly seed (materializeTaskDoneCas seed now queue task rid token child payload cstamp)"
  "loses_quietly seed (spawnTaskCas seed now task rq)"
  by (auto simp: loses_quietly_def silent_def emitEventCas_def registerWaitCas_def
      materializeTaskDoneCas_def spawnTaskCas_def Let_def count_where_0 update_where_none
      split: if_splits list.splits)

lemma suspension_quiet [simp]:
  "s \<in> set (finishSuspension seed queue rid) \<Longrightarrow> loses_quietly seed s"
  by (auto simp: finishSuspension_def taskMirrorsRun_def waitsGone_def)

lemma wake_quiet [simp]:
  "s \<in> set (wakeWaiters seed queue name wg) \<Longrightarrow> loses_quietly seed s"
  by (auto simp: wakeWaiters_def)

lemma task_done_quiet [simp]:
  "s \<in> set (taskDone seed queue task terminal res) \<Longrightarrow> loses_quietly seed s"
  by (auto simp: taskDone_def)

lemma saga_pass_quiet [simp]:
  "s \<in> set (sagaPass seed queue rid passId fence entering delay adm) \<Longrightarrow> loses_quietly seed s"
  by (auto simp: sagaPass_def split: option.splits)

lemma waits_gone_quiet [simp]: "loses_quietly seed (waitsGone seed rid after)"
  by (simp add: waitsGone_def)

lemma suspension_followons [simp]:
  "s \<in> set (finishSuspension seed queue rid) \<Longrightarrow> s_kind s = FollowOn"
  by (auto simp: finishSuspension_def taskMirrorsRun_def waitsGone_def)

lemma wake_followons [simp]:
  "s \<in> set (wakeWaiters seed queue name wg) \<Longrightarrow> s_kind s = FollowOn"
  by (auto simp: wakeWaiters_def)

lemma task_done_followons [simp]:
  "s \<in> set (taskDone seed queue task terminal res) \<Longrightarrow> s_kind s = FollowOn"
  by (auto simp: taskDone_def)

lemma saga_pass_followons [simp]:
  "s \<in> set (sagaPass seed queue rid passId fence entering delay adm) \<Longrightarrow> s_kind s = FollowOn"
  by (auto simp: sagaPass_def split: option.splits)

lemma waits_gone_followon [simp]: "s_kind (waitsGone seed rid after) = FollowOn"
  by (simp add: waitsGone_def)

section \<open>Executing a batch\<close>

lemma exec_all_append:
  "exec_all (xs @ ys) db =
     (case exec_all xs db of
        Inl e \<Rightarrow> Inl e
      | Inr (db', ns) \<Rightarrow>
          (case exec_all ys db' of Inl e \<Rightarrow> Inl e | Inr (db'', ms) \<Rightarrow> Inr (db'', ns @ ms)))"
  by (induction xs arbitrary: db) (auto split: sum.splits)

lemma exec_all_length: "exec_all ss db = Inr (db', ns) \<Longrightarrow> length ns = length ss"
  by (induction ss arbitrary: db ns) (auto split: sum.splits)

lemma exec_followons_fresh:
  assumes "fresh seed db" "\<forall>s\<in>set ss. s_kind s = FollowOn \<and> loses_quietly seed s"
  shows "exec_all ss db = Inr (db, replicate (length ss) 0)"
  using assms(2)
proof (induction ss)
  case (Cons s ss)
  have "s_kind s = FollowOn" "loses_quietly seed s" using Cons.prems by auto
  then have "s_exec s db = Inr (db, 0)" using assms(1) by (simp add: loses_quietly_def gated_def)
  then show ?case using Cons by simp
qed simp

lemma audit_zeros: "audit (zip ss (replicate (length ss) 0)) w n = Inr (w, n)"
  by (induction ss) (auto simp: over_def split: option.splits)

text \<open>A compare-and-set that matches no row, with follow-ons behind it.\<close>

lemma cas_lost_batch:
  assumes "fresh seed db" "\<not> (\<exists>r\<in>set (runs db). p db r)"
    "\<forall>s\<in>set ss. s_kind s = FollowOn \<and> loses_quietly seed s"
    "run_batch (cas_runs seed now name p f # ss) db = (db', ans)"
  shows "db' = db \<and> (\<exists>res. ans = Inr res \<and> won res = None)"
proof -
  have "exec_all (cas_runs seed now name p f # ss) db = Inr (db, 0 # replicate (length ss) 0)"
    using cas_runs_lost[of db p] assms(2) exec_followons_fresh[OF assms(1,3)] by simp
  then show ?thesis
    using assms(4) by (auto simp: run_batch_def over_def audit_zeros)
qed

lemma audit_followons:
  assumes "\<forall>s\<in>set ss. s_kind s = FollowOn" "audit (zip ss ns) w n = Inr (w', k)"
  shows "w' = w \<and> k = n"
  using assms
proof (induction ss arbitrary: ns)
  case (Cons s ss)
  then show ?case by (cases ns) (auto split: if_splits)
qed simp

lemma cas_won_batch:
  assumes "run_batch (cas_runs seed now name p f # ss) db = (db', Inr res)"
    "s_exec (cas_runs seed now name p f) db = Inr (db1, 1)" "\<forall>s\<in>set ss. s_kind s = FollowOn"
  shows "won res = Some name"
proof -
  obtain ns where "exec_all ss db1 = Inr (db', ns)"
    "audit (zip ss ns) (Some name) 1 = Inr (won res, won_count res)"
    using assms(1,2) by (auto simp: run_batch_def over_def split: sum.splits)
  then show ?thesis using audit_followons[OF assms(3)] by blast
qed

end
