(* ===== verification/Preserve.thy ===== *)
theory Preserve
  imports Effects
begin

text \<open>
  The invariant is kept by every batch of a worker that holds its run: heartbeat, checkpoint,
  activation, launch deferral, the two suspensions and the advisory expiry. Each proof reads off
  the batch's effect on the one run and task it touches and applies the lemma on that kind of
  replacement.
\<close>

section \<open>The shape of a batch over one run\<close>

lemma cas_batch_cases:
  assumes "run_batch (cas_runs seed now name p f # ss) db = (db', ans)" "keys_ok db" "fresh seed db"
    "\<forall>s\<in>set ss. s_kind s = FollowOn \<and> loses_quietly seed s"
    "\<And>s. p db s \<Longrightarrow> r_id s = rid" "\<And>s. r_id (f db s) = r_id s"
  obtains (lost) res where "db' = db" "ans = Inr res" "won res = None"
  | (won) r ns where "r \<in> set (runs db)" "p db r"
      "s_exec (cas_runs seed now name p f) db = Inr (put_run (stamp_run seed name (Num now) (f db r)) db, 1)"
      "exec_all ss (put_run (stamp_run seed name (Num now) (f db r)) db) = Inr (db', ns)"
  | (aborted) e where "db' = db" "ans = Inl e"
proof (cases "\<exists>r\<in>set (runs db). p db r")
  case False
  then show ?thesis using cas_lost_batch[of seed db p ss now name f db' ans] assms(1,3,4) lost by blast
next
  case True
  then obtain r where r: "r \<in> set (runs db)" "p db r" by blast
  have e: "s_exec (cas_runs seed now name p f) db = Inr (put_run (stamp_run seed name (Num now) (f db r)) db, 1)"
    using cas_runs_won[of db r p rid f seed now name] keys_okD(2)[OF assms(2)] r assms(5,6) by simp
  show ?thesis
  proof (cases "exec_all ss (put_run (stamp_run seed name (Num now) (f db r)) db)")
    case (Inl x)
    then have "db' = db" "ans = Inl x" using assms(1) e by (simp_all add: run_batch_def)
    then show ?thesis by (rule aborted)
  next
    case (Inr y)
    then obtain db2 ns where y: "y = (db2, ns)" by (cases y)
    then have "db' = db2" using assms(1) e Inr by (simp add: run_batch_def)
    then show ?thesis using won[OF r e] Inr y by simp
  qed
qed

section \<open>Checkpoints\<close>

lemma rows_checkpoint:
  assumes "rows_ok db" "f \<in> set (runs db)" "run_ok f"
    "\<And>y. y \<in> set (runs db) \<Longrightarrow> r_task y = r_task f \<Longrightarrow> r_queue y = r_queue f"
  shows "rows_ok (db\<lparr>checkpoints := upsert_checkpoint (checkpoint_row f name state) (checkpoints db)\<rparr>)"
proof -
  let ?c = "checkpoint_row f name state"
  let ?u = "\<lambda>x. x\<lparr>c_state := c_state ?c, c_owner_run := c_owner_run ?c,
    c_owner_attempt := c_owner_attempt ?c, c_updated_at := c_updated_at ?c\<rparr>"
  have k: "keyed c_key (checkpoints db)" using assms(1) by (simp add: rows_ok_def keys_ok_def)
  have owner: "checkpointOwnerMatches ?c f"
    using assms(3) by (simp add: checkpointOwnerMatches_def checkpoint_row_def run_ok_def)
  have taken: "checkpoint_ok (set (runs db)) (?u x)"
    if x: "x \<in> set (checkpoints db)" "c_key x = c_key ?c" for x
  proof -
    obtain y where y: "y \<in> set (runs db)" "checkpointOwnerMatches x y"
      using assms(1) x(1) by (auto simp: rows_ok_def checkpoint_ok_def)
    have task: "c_task x = r_task f" using x(2) by (simp add: c_key_def checkpoint_row_def)
    then have "c_queue x = r_queue f" using assms(4)[OF y(1)] y(2) by (simp add: checkpointOwnerMatches_def)
    then have "checkpointOwnerMatches (?u x) f"
      using owner task by (simp add: checkpointOwnerMatches_def checkpoint_row_def)
    moreover have "c_committed x" using assms(1) x(1) by (auto simp: rows_ok_def checkpoint_ok_def)
    ultimately show ?thesis using assms(2) by (auto simp: checkpoint_ok_def)
  qed
  have new: "c_committed ?c" by (simp add: checkpoint_row_def)
  have "keyed c_key (upsert_checkpoint ?c (checkpoints db))"
  proof (cases "c_key ?c \<in> c_key ` set (checkpoints db)")
    case True
    have "c_key (?u x) = c_key x" for x by (simp add: c_key_def)
    then show ?thesis
      using checkpoint_table.update_keyed[OF k] True by (simp add: upsert_checkpoint_def)
  next
    case False
    then show ?thesis using k by (simp add: upsert_checkpoint_def keyed_def)
  qed
  moreover have "checkpoint_ok (set (runs db)) x" if "x \<in> set (upsert_checkpoint ?c (checkpoints db))" for x
    using that taken assms(1,2) owner new
    by (auto simp: upsert_checkpoint_def rows_ok_def checkpoint_ok_def set_update_where split: if_splits)
  ultimately show ?thesis using assms(1) by (simp add: rows_ok_def keys_ok_def)
qed

lemma inv_checkpoint:
  assumes "inv db" "f \<in> set (runs db)" "run_ok f"
  shows "inv (db\<lparr>checkpoints := upsert_checkpoint (checkpoint_row f name state) (checkpoints db)\<rparr>)"
proof -
  obtain t where t: "t \<in> set (tasks db)" "t_id t = r_task f" using inv_owner assms(1,2) by blast
  have "r_queue y = t_queue t" if "y \<in> set (runs db)" "r_task y = r_task f" for y
    using inv_unit[OF assms(1) t(1)] that t(2) by (simp add: unit_ok_def unit_runs_def)
  then have "rows_ok (db\<lparr>checkpoints := upsert_checkpoint (checkpoint_row f name state) (checkpoints db)\<rparr>)"
    using assms by (intro rows_checkpoint) (simp_all add: inv_def)
  then show ?thesis using assms(1) by (simp add: inv_def event_keys_def)
qed

lemma checkpointWrite_exec:
  assumes "keyed r_id (runs db)" "f \<in> set (runs db)" "r_id f = rid"
    "r_stamp f = Some (stamp seed fence)" "stored_within run_attempt_bounds (r_attempt f)"
  shows "s_exec (checkpointWrite seed name fence rid cname state) db =
    Inr (db\<lparr>checkpoints := upsert_checkpoint (checkpoint_row f cname state) (checkpoints db)\<rparr>,
         upsert_count (checkpoint_row f cname state) (checkpoints db))"
proof -
  have "stamped_runs seed fence (\<lambda>f. r_id f = rid \<and> stored_within run_attempt_bounds (r_attempt f)) db = [f]"
    using stamped_run_one[of db f "\<lambda>f. r_id f = rid \<and> stored_within run_attempt_bounds (r_attempt f)"
        seed fence] assms by simp
  then show ?thesis by (simp add: checkpointWrite_def Let_def)
qed

section \<open>Lease writes\<close>

lemma epoch_sum: "addition_fits (Num now) d \<Longrightarrow> 0 \<le> d \<Longrightarrow> stored_within epoch_bounds (Num (now + d))"
  by (simp add: epoch_bounds_def)

lemma run_ok_lease:
  "run_ok r \<Longrightarrow> stored_within epoch_bounds e \<Longrightarrow>
   run_ok (stamp_run seed name x (r\<lparr>r_expires := e, r_heartbeat := h\<rparr>))"
  by (simp add: run_ok_def stamp_run_def storedPositiveClaimGeneration_def)

lemma touched_lease: "touched r (stamp_run seed name x (r\<lparr>r_expires := e, r_heartbeat := h\<rparr>))"
  by (simp add: touched_def same_run_def stamp_run_def)

lemma heartbeat_inv:
  assumes "inv db" "fresh seed db" "0 \<le> ext"
    "run_batch (heartbeat_batch seed now queue rid token ext) db = (db', ans)"
  shows "inv db'"
proof -
  let ?f = "\<lambda>db r. r\<lparr>r_expires := Num (now + ext), r_heartbeat := Num now\<rparr>"
  note b = assms(4)[unfolded heartbeat_batch_def]
  show ?thesis
  proof (cases rule: cas_batch_cases[OF b inv_keys[OF assms(1)] assms(2), of rid,
        case_names a1 a2 a3 lost won aborted])
    case (won r ns)
    have "inv (put_run (stamp_run seed ''extend'' (Num now) (?f db r)) db)"
    proof (rule inv_touch[OF assms(1) won(1) touched_lease run_ok_lease])
      show "run_ok r" using inv_run_ok assms(1) won(1) by blast
      show "stored_within epoch_bounds (Num (now + ext))"
        using won(2) assms(3) epoch_sum by (auto simp: heartbeat_admits_def)
    qed
    then show ?thesis using won(4) by simp
  qed (use assms(1) in \<open>auto simp: heartbeat_admits_def whereClaimedRun_def\<close>)
qed

lemma setCheckpoint_inv:
  assumes "inv db" "fresh seed db" "0 \<le> ext"
    "run_batch (setCheckpoint_batch seed now queue task rid token name state ext) db = (db', ans)"
  shows "inv db'"
proof -
  let ?f = "\<lambda>db r. r\<lparr>r_expires := Num (now + ext), r_heartbeat := Num now\<rparr>"
  note b = assms(4)[unfolded setCheckpoint_batch_def]
  show ?thesis
  proof (cases rule: cas_batch_cases[OF b inv_keys[OF assms(1)] assms(2), of rid,
        case_names a1 a2 a3 lost won aborted])
    case (won r ns)
    let ?r = "stamp_run seed ''lease'' (Num now) (?f db r)"
    let ?db = "put_run ?r db"
    have ok: "run_ok ?r"
      using run_ok_lease inv_run_ok[OF assms(1) won(1)] won(2) assms(3) epoch_sum
      by (auto simp: setCheckpoint_admits_def)
    have i: "inv ?db" by (rule inv_touch[OF assms(1) won(1) touched_lease ok])
    have mem: "?r \<in> set (runs ?db)"
      using won(1) by (auto simp: in_put_run)
    have "r_id r = rid" using won(2) by (simp add: setCheckpoint_admits_def whereClaimedRun_def)
    then have "db' = ?db\<lparr>checkpoints := upsert_checkpoint (checkpoint_row ?r name state) (checkpoints ?db)\<rparr>"
      using won(4) checkpointWrite_exec[of ?db ?r rid seed "''lease''" "''checkpoint''" name state]
        mem keys_okD(2)[OF inv_keys[OF i]] ok by (simp add: run_ok_def)
    then show ?thesis using inv_checkpoint[OF i mem ok] by simp
  qed (use assms(1) in \<open>auto simp: setCheckpoint_admits_def whereClaimedRun_def\<close>)
qed

lemma expireLeaseNow_inv:
  assumes "inv db" "valid_clock now"
  shows "inv (fst (expireLeaseNow now queue rid token db))"
proof -
  let ?p = "\<lambda>r. whereClaimedRun rid queue token r \<and> runClaimUnexpired r now \<and> owner_such db r (\<lambda>t. True)"
  let ?f = "\<lambda>r. r\<lparr>r_expires := Num now\<rparr>"
  have eq: "fst (expireLeaseNow now queue rid token db) = db\<lparr>runs := update_where ?p ?f (runs db)\<rparr>"
    by (simp add: expireLeaseNow_def Let_def)
  show ?thesis
  proof (cases "\<exists>r\<in>set (runs db). ?p r")
    case True
    then obtain r where r: "r \<in> set (runs db)" "?p r" by blast
    have same: "r_id s = r_id r" if "?p s" for s
      using that r(2) by (simp add: whereClaimedRun_def)
    have "db\<lparr>runs := update_where ?p ?f (runs db)\<rparr> = put_run (?f r) db"
      by (rule update_where_one_run(1)[where p = ?p and f = ?f,
            OF keys_okD(2)[OF inv_keys[OF assms(1)]] r same]) simp_all
    moreover have "run_ok (?f r)"
      using inv_run_ok[OF assms(1) r(1)] assms(2)
      by (simp add: run_ok_def valid_clock_def epoch_bounds_def storedPositiveClaimGeneration_def)
    moreover have "touched r (?f r)" by (simp add: touched_def same_run_def)
    ultimately show ?thesis using inv_touch[OF assms(1) r(1), of "?f r"] eq by simp
  next
    case False
    then have "update_where ?p ?f (runs db) = runs db" by (intro update_where_none) blast
    then show ?thesis using assms(1) eq by simp
  qed
qed

section \<open>Parking a claimed run\<close>

lemma find_stamped:
  assumes "keyed r_id (runs db)" "r \<in> set (runs db)" "r_id r = rid" "r_stamp r = Some (stamp seed fence)"
  shows "find (\<lambda>f. r_id f = rid \<and> r_stamp f = Some (stamp seed fence)) (runs db) = Some r"
proof -
  have "filter (\<lambda>f. r_id f = rid \<and> r_stamp f = Some (stamp seed fence)) (runs db) = [r]"
    by (rule filter_key_unique[of r_id]) (use assms in \<open>auto simp: keyed_def\<close>)
  moreover have "find p xs = (case filter p xs of [] \<Rightarrow> None | x # _ \<Rightarrow> Some x)" for p and xs :: "run list"
    by (induction xs) auto
  ultimately show ?thesis by simp
qed

lemma finishSuspension_exec:
  assumes "keyed t_id (tasks db)" "keyed r_id (runs db)" "r \<in> set (runs db)" "r_id r = rid"
    "r_queue r = queue" "r_stamp r = Some (stamp seed ''suspend'')" "t \<in> set (tasks db)"
    "t_id t = r_task r" "t_queue t = queue" "live (t_state t)"
  shows "\<exists>k. exec_all (finishSuspension seed queue rid) db =
    Inr (drop_waits (\<lambda>w. w_run w = rid \<and> True)
           (put_task (stamp_task seed ''task-mirror'' (r_fence_at r) (t\<lparr>t_state := r_state r\<rparr>)) db), [1, k])"
proof -
  let ?t = "stamp_task seed ''task-mirror'' (r_fence_at r) (t\<lparr>t_state := r_state r\<rparr>)"
  have src: "stamped_runs seed ''suspend'' (\<lambda>f. r_id f = rid \<and> r_queue f = queue) db = [r]"
    by (rule stamped_run_one[OF assms(2,3) _ assms(6)]) (use assms(4,5) in auto)
  have st: "stampedRunState seed ''suspend'' rid db t = r_state r"
    using find_stamped[OF assms(2,3,4,6)] by (simp add: stampedRunState_def)
  have "s_exec (taskMirrorsRun seed queue rid ''suspend'') db = Inr (put_task ?t db, 1)"
    unfolding taskMirrorsRun_def
    using runs_to_tasks_one[OF assms(1,7) src assms(8,9), of "\<lambda>db t. live (t_state t)"
        "\<lambda>db t. t\<lparr>t_state := stampedRunState seed ''suspend'' rid db t\<rparr>"] assms(10) st by simp
  moreover have "stamped_runs seed ''suspend'' (\<lambda>f. r_id f = rid) (put_task ?t db) = [r]"
    by (rule stamped_run_one[OF _ _ _ assms(6)]) (use assms(2-4) in auto)
  ultimately show ?thesis
    using runs_to_waits_one[of seed "''suspend''" "\<lambda>f. r_id f = rid" "put_task ?t db" r] assms(4)
    by (simp add: finishSuspension_def waitsGone_def)
qed

lemma park_fields [simp]:
  "r_id (park now w r) = r_id r" "r_queue (park now w r) = r_queue r" "r_task (park now w r) = r_task r"
  "r_attempt (park now w r) = r_attempt r" "r_available (park now w r) = Num w"
  "r_id (suspend_set now plan db r) = r_id r" "r_queue (suspend_set now plan db r) = r_queue r"
  "r_task (suspend_set now plan db r) = r_task r" "r_attempt (suspend_set now plan db r) = r_attempt r"
  "r_available (suspend_set now plan db r) = Num (wake_at now plan)"
  "r_state (suspend_set now plan db r) = r_state (park now (wake_at now plan) r)"
  by (simp_all add: park_def suspend_set_def)

lemma park_state: "r_state (park now w r) = Pending \<or> r_state (park now w r) = Sleeping"
  by (simp add: park_def)

lemma run_ok_park:
  assumes "run_ok r" "stored_within epoch_bounds (Num w)"
  shows "run_ok (stamp_run seed name x (park now w r))"
    "w = wake_at now plan \<Longrightarrow> run_ok (stamp_run seed name x (suspend_set now plan db r))"
  using assms by (simp_all add: run_ok_def park_def suspend_set_def stamp_run_def)

lemma wake_at_epoch:
  assumes "prepareWake wake = Inr plan" "wake_fits now plan"
  shows "stored_within epoch_bounds (Num (wake_at now plan))"
  using assms durationToMs_bounds[of "''wake.inSeconds''" _ False] requireEpochMs_bounds[of "''wake.atEpochMs''"]
  by (auto simp: prepareWake_def wake_fits_def wake_at_def epoch_bounds_def map_sum_def
      split: wake_spec.splits sum.splits)

text \<open>The rows a park leaves: the run parked, its task mirroring it, its waits gone.\<close>

definition parked_db :: "string \<Rightarrow> run \<Rightarrow> task \<Rightarrow> db \<Rightarrow> db" where
  "parked_db seed r' t db =
     drop_waits (\<lambda>w. w_run w = r_id r' \<and> True)
       (put_task (stamp_task seed ''task-mirror'' (r_fence_at r') (t\<lparr>t_state := r_state r'\<rparr>))
         (put_run r' db))"

lemma inv_parked:
  assumes "inv db" "r \<in> set (runs db)" "live (r_state r)" "t \<in> set (tasks db)" "t_id t = r_task r"
    "same_run r r'" "r_state r' = Pending \<or> r_state r' = Sleeping" "run_ok r'" "r_available r' \<noteq> Null"
  shows "inv (parked_db seed r' t db)"
proof -
  have "r_id r' = r_id r" using assms(6) by (simp add: same_run_def)
  moreover have "inv (drop_waits (\<lambda>w. w_run w = r_id r \<and> True)
    (put_task (stamp_task seed ''task-mirror'' (r_fence_at r') (t\<lparr>t_state := r_state r'\<rparr>)) (put_run r' db)))"
    by (rule inv_move[OF assms(1-6)]) (use assms(7-9) in \<open>auto simp: same_defs\<close>)
  ultimately show ?thesis by (simp add: parked_db_def)
qed

lemma claimed_live: "whereClaimedRun rid queue token r \<Longrightarrow> live (r_state r)"
  by (simp add: whereClaimedRun_def)

lemma suspension_inv:
  assumes "inv db" "fresh seed db"
    "run_batch (cas_runs seed now ''suspend'' p f # finishSuspension seed queue rid) db = (db', ans)"
    "\<And>s. p db s \<Longrightarrow> whereClaimedRun rid queue token s"
    "\<And>s. same_run s (f db s) \<and> r_available (f db s) = Num w \<and>
       (r_state (f db s) = Pending \<or> r_state (f db s) = Sleeping)"
    "\<And>s. p db s \<Longrightarrow> run_ok s \<Longrightarrow> run_ok (stamp_run seed ''suspend'' (Num now) (f db s))"
  shows "inv db'"
proof -
  have a: "\<And>s. p db s \<Longrightarrow> r_id s = rid" using assms(4) by (simp add: whereClaimedRun_def)
  have b: "\<And>s. r_id (f db s) = r_id s" using assms(5) by (simp add: same_run_def)
  show ?thesis
  proof (cases rule: cas_batch_cases[OF assms(3) inv_keys[OF assms(1)] assms(2), of rid,
        case_names a1 a2 a3 lost won aborted])
    case (won r ns)
    let ?r = "stamp_run seed ''suspend'' (Num now) (f db r)"
    obtain t where t: "t \<in> set (tasks db)" "t_id t = r_task r" "t_queue t = r_queue r"
      using inv_owner assms(1) won(1) by blast
    have c: "whereClaimedRun rid queue token r" using assms(4) won(2) by blast
    have s: "same_run r ?r" using assms(5)[of r] by (simp add: same_run_def)
    have l: "live (t_state t)" using inv_live_run(1)[OF assms(1) won(1) claimed_live[OF c] t(1,2)] .
    have "?r \<in> set (runs (put_run ?r db))"
      using won(1) s by (auto simp: in_put_run same_run_def)
    then have "db' = parked_db seed ?r t db"
      using finishSuspension_exec[of "put_run ?r db" ?r rid queue seed t] won(4) t l c s
        keys_okD(1,2)[OF inv_keys[OF assms(1)]]
      by (auto simp: parked_db_def same_run_def whereClaimedRun_def)
    moreover have "inv (parked_db seed ?r t db)"
      by (rule inv_parked[OF assms(1) won(1) claimed_live[OF c] t(1,2) s])
        (use assms(5)[of r] assms(6)[OF won(2)] inv_run_ok[OF assms(1) won(1)] in auto)
    ultimately show ?thesis by simp
  qed (use assms(1) a b in auto)
qed

lemma deferLaunch_inv:
  assumes "inv db" "fresh seed db" "prepareWake wake = Inr plan"
    "run_batch (deferLaunch_batch seed now queue rid token gen plan) db = (db', ans)"
  shows "inv db'"
  by (rule suspension_inv[OF assms(1,2) assms(4)[unfolded deferLaunch_batch_def], where w = "wake_at now plan"])
    (auto simp: deferLaunch_admits_def whereClaimReceipt_def same_run_def park_state
      intro!: run_ok_park(1) wake_at_epoch[OF assms(3)])

lemma reschedule_inv:
  assumes "inv db" "fresh seed db" "prepareWake wake = Inr plan"
    "run_batch (reschedule_batch seed now queue rid token plan) db = (db', ans)"
  shows "inv db'"
  by (rule suspension_inv[OF assms(1,2) assms(4)[unfolded reschedule_batch_def], where w = "wake_at now plan"])
    (auto simp: reschedule_admits_def same_run_def park_state
      intro!: run_ok_park(2) wake_at_epoch[OF assms(3)])

lemma suspendRun_inv:
  assumes "inv db" "fresh seed db" "prepareWake wake = Inr plan"
    "run_batch (suspendRun_batch seed now queue rid token plan key state) db = (db', ans)"
  shows "inv db'"
proof -
  let ?p = "suspendRun_admits now queue rid token plan key"
  have b: "run_batch (cas_runs seed now ''suspend'' ?p (suspend_set now plan) #
      (checkpointWrite seed ''marker'' ''suspend'' rid key state # finishSuspension seed queue rid)) db = (db', ans)"
    using assms(4) by (simp add: suspendRun_batch_def)
  show ?thesis
  proof (cases rule: cas_batch_cases[OF b inv_keys[OF assms(1)] assms(2), of rid,
        case_names a1 a2 a3 lost won aborted])
    case (won r ns)
    let ?r = "stamp_run seed ''suspend'' (Num now) (suspend_set now plan db r)"
    obtain t where t: "t \<in> set (tasks db)" "t_id t = r_task r" "t_queue t = r_queue r"
      using inv_owner assms(1) won(1) by blast
    have c: "whereClaimedRun rid queue token r" using won(2) by (simp add: suspendRun_admits_def)
    have id: "r_id r = rid" "r_queue r = queue" using c by (simp_all add: whereClaimedRun_def)
    have l: "live (t_state t)" using inv_live_run(1)[OF assms(1) won(1) claimed_live[OF c] t(1,2)] .
    have ok: "run_ok ?r"
      using inv_run_ok[OF assms(1) won(1)] won(2) wake_at_epoch[OF assms(3)]
      by (intro run_ok_park(2)) (auto simp: suspendRun_admits_def)
    let ?c = "upsert_checkpoint (checkpoint_row ?r key state) (checkpoints db)"
    let ?db = "(put_run ?r db)\<lparr>checkpoints := ?c\<rparr>"
    have mem: "?r \<in> set (runs (put_run ?r db))" using won(1) by (auto simp: in_put_run)
    have mk: "s_exec (checkpointWrite seed ''marker'' ''suspend'' rid key state) (put_run ?r db) =
        Inr (?db, upsert_count (checkpoint_row ?r key state) (checkpoints db))"
      using checkpointWrite_exec[of "put_run ?r db" ?r rid seed "''suspend''" "''marker''" key state]
        mem keys_okD(2)[OF inv_keys[OF assms(1)]] ok id by (simp add: run_ok_def)
    have "db' = drop_waits (\<lambda>w. w_run w = rid \<and> True)
        (put_task (stamp_task seed ''task-mirror'' (r_fence_at ?r) (t\<lparr>t_state := r_state ?r\<rparr>)) ?db)"
      using finishSuspension_exec[of ?db ?r rid queue seed t] won(4) mk t l id mem
        keys_okD(1,2)[OF inv_keys[OF assms(1)]] by auto
    then have eq: "db' = (parked_db seed ?r t db)\<lparr>checkpoints := ?c\<rparr>"
      using id by (simp add: parked_db_def drop_waits_def put_task_def)
    have i: "inv (parked_db seed ?r t db)"
      by (rule inv_parked[OF assms(1) won(1) claimed_live[OF c] t(1,2)])
        (use ok park_state in \<open>simp_all add: same_run_def\<close>)
    have "?r \<in> set (runs (parked_db seed ?r t db))" using mem by (simp add: parked_db_def)
    then show ?thesis
      using inv_checkpoint[OF i _ ok, of key state] eq by (simp add: parked_db_def)
  qed (use assms(1) in \<open>auto simp: suspendRun_admits_def whereClaimedRun_def\<close>)
qed

section \<open>Activation\<close>

lemma activate_inv:
  assumes "inv db" "fresh seed db" "requirePositiveClaimGeneration name gen = Inr g"
    "run_batch (activate_batch seed now queue rid token gen) db = (db', ans)"
  shows "inv db'"
proof -
  let ?f = "\<lambda>db r. r\<lparr>r_activated_gen := Num gen, r_started_at := coalesce (r_started_at r) (Num now),
    r_expires := Num (now + ival (r_lease r)), r_heartbeat := Num now\<rparr>"
  note b = assms(4)[unfolded activate_batch_def]
  show ?thesis
  proof (cases rule: cas_batch_cases[OF b inv_keys[OF assms(1)] assms(2), of rid,
        case_names a1 a2 a3 lost won aborted])
    case (won r ns)
    let ?r = "stamp_run seed ''activate'' (Num now) (?f db r)"
    let ?db = "put_run ?r db"
    obtain t where t: "t \<in> set (tasks db)" "t_id t = r_task r" "t_queue t = r_queue r"
      using inv_owner assms(1) won(1) by blast
    have c: "whereClaimedRun rid queue token r" and g: "cell_is (r_claim_gen r) gen"
      and fits: "addition_fits (Num now) (ival (r_lease r))"
      using won(2) by (simp_all add: activate_admits_def whereClaimReceipt_def)
    have id: "r_id r = rid" "r_queue r = queue" using c by (simp_all add: whereClaimedRun_def)
    have l: "live (t_state t)" using inv_live_run(1)[OF assms(1) won(1) claimed_live[OF c] t(1,2)] .
    have r: "run_ok r" using inv_run_ok[OF assms(1) won(1)] .
    then have "stored_within lease_ms_bounds (r_lease r)" using c by (simp add: run_ok_def whereClaimedRun_def)
    then have "0 \<le> ival (r_lease r)" by (auto simp: stored_within_iff lease_ms_bounds_def)
    then have "stored_within epoch_bounds (Num (now + ival (r_lease r)))" using epoch_sum fits by blast
    moreover have "r_claim_gen r = Num gen" using g by (cases "r_claim_gen r") auto
    ultimately have ok: "run_ok ?r"
      using r by (simp add: run_ok_def stamp_run_def storedPositiveClaimGeneration_def
          activated_gen_bounds_def claim_gen_bounds_def)
    have i: "inv ?db"
      by (rule inv_touch[OF assms(1) won(1) _ ok]) (simp add: touched_def same_run_def stamp_run_def)
    have mem: "?r \<in> set (runs ?db)" using won(1) by (auto simp: in_put_run)
    have src: "stamped_runs seed ''activate'' (\<lambda>f. r_id f = rid \<and> r_queue f = queue) ?db = [?r]"
      by (rule stamped_run_one[OF _ mem]) (use keys_okD(2)[OF inv_keys[OF i]] id in auto)
    let ?t = "stamp_task seed ''task-start'' (Num now)
      (t\<lparr>t_first_started := coalesce (t_first_started t) (fencedAt seed ''activate'' rid ?db),
         t_cancel_at := activated_deadline seed rid ?db t\<rparr>)"
    have "db' = put_task ?t ?db"
      using won(4) runs_to_tasks_one[OF _ _ src, of t "\<lambda>db t. live (t_state t)"] t l id
        keys_okD(1)[OF inv_keys[OF assms(1)]] by (auto split: sum.splits)
    then show ?thesis
      using inv_touch_task[OF i, of t ?t] t by (simp add: same_defs stamp_task_def)
  qed (use assms(1) in \<open>auto simp: activate_admits_def whereClaimReceipt_def whereClaimedRun_def\<close>)
qed

end
