(* ===== verification/Waking.thy ===== *)
theory Waking
  imports Preserve
begin

text \<open>
  The wake of every run parked on an event, as one replacement of many rows, and the invariant
  across it. Recording an event breaks one clause of the invariant for the waits parked on it,
  and the four statements of \<open>wakeWaiters\<close> restore it: every such run becomes pending with the
  event's payload, its task follows it and its wait is gone.
\<close>

section \<open>Many units at once\<close>

lemma unit_runs_map:
  assumes "runs db' = map f (runs db)" "\<And>r. r \<in> set (runs db) \<Longrightarrow> r_task (f r) = r_task r"
  shows "unit_runs db' tid = f ` unit_runs db tid"
  using assms by (auto simp: unit_runs_def)

lemma carries_unique:
  "carries t U c \<Longrightarrow> r \<in> U \<Longrightarrow> live (r_state r) \<Longrightarrow> r = c"
  by (auto simp: carries_def)

lemma carries_image:
  assumes "carries t U c" "\<And>r. r \<in> U \<Longrightarrow> same_run r (f r) \<and> live (r_state (f r)) = live (r_state r)"
    "same_counters t t'" "t_state t' = r_state (f c)"
  shows "carries t' (f ` U) (f c)"
proof -
  have c: "c \<in> U" using assms(1) by (simp add: carries_def)
  have "\<not> live (r_state (f s)) \<and> cell_lt (r_attempt (f s)) (r_attempt (f c))" if "s \<in> U" "f s \<noteq> f c" for s
    using assms(1) assms(2)[OF that(1)] assms(2)[OF c] that by (auto simp: carries_def same_run_def)
  then show ?thesis
    using assms(1,3,4) assms(2)[OF c] c
    by (auto simp: carries_def same_run_def same_counters_def storedCurrentRunAccounting_def)
qed

lemma unit_image:
  assumes "unit_ok t U E" "\<And>r. r \<in> U \<Longrightarrow> same_run r (f r) \<and> live (r_state (f r)) = live (r_state r)"
    "same_task t t'" "same_counters t t'" "same_outcome t t'" "E \<subseteq> E'"
    "\<And>c. live (t_state t) \<Longrightarrow> carries t U c \<Longrightarrow> t_state t' = r_state (f c)"
    "\<not> live (t_state t) \<Longrightarrow> t_state t' = t_state t"
  shows "unit_ok t' (f ` U) E'"
proof -
  have q: "\<forall>r\<in>f ` U. r_queue r = t_queue t'"
    using assms(1-3) by (auto simp: unit_ok_def same_run_def same_task_def)
  have k: "counters_ok t'" using assms(1,4) by (simp add: unit_ok_def counters_ok_def same_counters_def)
  show ?thesis
  proof (cases "live (t_state t)")
    case True
    then obtain c where c: "carries t U c" using assms(1) by (auto simp: unit_ok_def)
    have st: "t_state t' = r_state (f c)" using assms(7)[OF True c] .
    have "live (r_state c)" "c \<in> U" using c True by (auto simp: carries_def)
    then have l: "live (t_state t')" using st assms(2) by simp
    have "carries t' (f ` U) (f c)" by (rule carries_image[OF c assms(2) assms(4) st])
    moreover have "outcome_ok t'"
      using live_unit_outcome[OF assms(1) True] assms(5) live_outcome_ok[OF l] by (simp add: same_outcome_def)
    ultimately show ?thesis using q k l by (auto simp: unit_ok_def)
  next
    case False
    have st: "t_state t' = t_state t" using assms(8)[OF False] .
    have "\<forall>r\<in>f ` U. \<not> live (r_state r)" using assms(1,2) False by (auto simp: unit_ok_def)
    moreover have "outcome_ok t'" using assms(1,5) st by (simp add: unit_ok_def outcome_ok_def same_outcome_def)
    ultimately show ?thesis using q k False st assms(1,3,6) by (auto simp: unit_ok_def same_task_def)
  qed
qed

lemma units_image:
  assumes "units_ok E db" "runs db' = map f (runs db)" "tasks db' = map h (tasks db)" "E \<subseteq> E'"
    "\<And>r. r \<in> set (runs db) \<Longrightarrow> same_run r (f r) \<and> live (r_state (f r)) = live (r_state r)"
    "\<And>t. t \<in> set (tasks db) \<Longrightarrow> same_task t (h t) \<and> same_counters t (h t) \<and> same_outcome t (h t)"
    "\<And>t c. t \<in> set (tasks db) \<Longrightarrow> live (t_state t) \<Longrightarrow> carries t (unit_runs db (t_id t)) c \<Longrightarrow>
       t_state (h t) = r_state (f c)"
    "\<And>t. t \<in> set (tasks db) \<Longrightarrow> \<not> live (t_state t) \<Longrightarrow> t_state (h t) = t_state t"
  shows "units_ok E' db'"
  unfolding units_ok_def
proof
  fix s assume "s \<in> set (tasks db')"
  then obtain t where t: "t \<in> set (tasks db)" "s = h t" using assms(3) by auto
  have u: "unit_ok t (unit_runs db (t_id t)) E" using assms(1) t(1) by (simp add: units_ok_def)
  have eq: "unit_runs db' (t_id s) = f ` unit_runs db (t_id t)"
    using unit_runs_map[OF assms(2)] assms(5) assms(6)[OF t(1)] t(2) by (simp add: same_run_def same_task_def)
  have "unit_ok s (f ` unit_runs db (t_id t)) E'"
    unfolding t(2)
  proof (rule unit_image[OF u])
    show "same_run r (f r) \<and> live (r_state (f r)) = live (r_state r)" if "r \<in> unit_runs db (t_id t)" for r
      using assms(5) that by (simp add: unit_runs_def)
  qed (use assms(4) assms(6-8)[OF t(1)] in blast)+
  then show "unit_ok s (unit_runs db' (t_id s)) E'" using eq by simp
qed

lemma rows_image:
  assumes "rows_ok db" "runs db' = map f (runs db)" "tasks db' = map h (tasks db)"
    "events db' = events db" "checkpoints db' = checkpoints db" "keyed w_key (waits db')"
    "drivers db' = drivers db"
    "\<And>r. r \<in> set (runs db) \<Longrightarrow> same_run r (f r) \<and> run_ok (f r)"
    "\<And>t. t \<in> set (tasks db) \<Longrightarrow> same_task t (h t)"
  shows "rows_ok db'"
proof -
  have maps: "map r_id (map f (runs db)) = map r_id (runs db)"
    "map r_ordinal (map f (runs db)) = map r_ordinal (runs db)"
    "map t_id (map h (tasks db)) = map t_id (tasks db)"
    using assms(8,9) by (auto simp: same_run_def same_task_def r_ordinal_def)
  have "keys_ok db'"
    using assms(1) unfolding rows_ok_def keys_ok_def keyed_def assms(2-5,7) maps
    using assms(6)[unfolded keyed_def] by blast
  moreover have "idem_unique (tasks db')"
    unfolding idem_unique_def assms(3)
  proof (intro ballI impI)
    fix a b assume "a \<in> set (map h (tasks db))" "b \<in> set (map h (tasks db))"
      and e: "t_idem a \<noteq> None \<and> t_queue a = t_queue b \<and> t_idem a = t_idem b"
    then obtain t u where t: "t \<in> set (tasks db)" "a = h t" and u: "u \<in> set (tasks db)" "b = h u" by auto
    have "t = u" using assms(1) assms(9)[OF t(1)] assms(9)[OF u(1)] t u e
      unfolding rows_ok_def idem_unique_def same_task_def by metis
    then show "a = b" using t u by simp
  qed
  moreover have "run_ok r \<and> r_task r \<in> t_id ` set (tasks db')" if r: "r \<in> set (runs db')" for r
  proof -
    obtain s where s: "s \<in> set (runs db)" "r = f s" using r assms(2) by auto
    have "t_id ` set (tasks db') = t_id ` set (tasks db)"
      using maps(3) assms(3) by (metis list.set_map)
    then show ?thesis using s assms(1) assms(8)[OF s(1)] by (auto simp: rows_ok_def same_run_def)
  qed
  moreover have "checkpoint_ok (set (runs db')) c" if "c \<in> set (checkpoints db')" for c
  proof (rule checkpoint_ok_cong)
    show "checkpoint_ok (set (runs db)) c" using assms(1,5) that by (simp add: rows_ok_def)
    fix x assume "x \<in> set (runs db)"
    then show "\<exists>y\<in>set (runs db'). r_id y = r_id x \<and> r_task y = r_task x \<and> r_queue y = r_queue x \<and>
      r_attempt y = r_attempt x" using assms(2,8) by (auto simp: same_run_def)
  qed
  ultimately show ?thesis using assms(1,4) by (simp add: rows_ok_def)
qed

section \<open>The wake as one replacement\<close>

lemma exec_step:
  "s_exec s db = Inr (d, n) \<Longrightarrow> exec_all (s # ss) db = Inr (db', ns) \<Longrightarrow>
     \<exists>ms. exec_all ss d = Inr (db', ms) \<and> ns = n # ms"
  by (auto split: sum.splits)

lemma exec_nothing: "exec_all [] db = Inr (db', ns) \<Longrightarrow> db' = db"
  by simp

text \<open>No run carries the wake's stamp and no event the record's: what a batch's terminal part
  leaves behind it.\<close>

definition unwoken :: "string \<Rightarrow> db \<Rightarrow> bool" where
  "unwoken seed db =
     ((\<forall>r\<in>set (runs db). r_stamp r \<noteq> Some (stamp seed ''wake-runs'')) \<and>
      (\<forall>e\<in>set (events db). e_stamp e \<noteq> Some (stamp seed ''event'')))"

lemma fresh_unwoken: "fresh seed db \<Longrightarrow> unwoken seed db"
  by (auto simp: fresh_def unwoken_def)

definition woken_ids :: "string \<Rightarrow> string \<Rightarrow> string \<Rightarrow> db \<Rightarrow> string set" where
  "woken_ids seed queue name db = r_id ` {r \<in> set (runs db). wake_admits seed queue name db r}"

definition woken_tasks :: "string \<Rightarrow> string \<Rightarrow> string \<Rightarrow> db \<Rightarrow> string set" where
  "woken_tasks seed queue name db = r_task ` {r \<in> set (runs db). wake_admits seed queue name db r}"

definition wake_run :: "string \<Rightarrow> string \<Rightarrow> string \<Rightarrow> cell \<Rightarrow> db \<Rightarrow> run \<Rightarrow> run" where
  "wake_run seed queue name x db r =
     (if wake_admits seed queue name db r
      then stamp_run seed ''wake-finished'' x (wake_set seed name db r) else r)"

definition wake_task :: "string \<Rightarrow> string \<Rightarrow> string \<Rightarrow> cell \<Rightarrow> db \<Rightarrow> task \<Rightarrow> task" where
  "wake_task seed queue name y db t =
     (if t_id t \<in> woken_tasks seed queue name db \<and> t_queue t = queue \<and> live (t_state t)
      then stamp_task seed ''wake-tasks'' y (t\<lparr>t_state := Pending\<rparr>) else t)"

definition wake_gone :: "string \<Rightarrow> string \<Rightarrow> string \<Rightarrow> db \<Rightarrow> wait \<Rightarrow> bool" where
  "wake_gone seed queue name db w =
     (w_run w \<in> woken_ids seed queue name db \<and> w_event w = name \<and> w_status w = Waiting)"

definition woken_db :: "string \<Rightarrow> string \<Rightarrow> string \<Rightarrow> cell \<Rightarrow> cell \<Rightarrow> db \<Rightarrow> db" where
  "woken_db seed queue name x y db =
     db\<lparr>runs := map (wake_run seed queue name x db) (runs db),
        tasks := map (wake_task seed queue name y db) (tasks db),
        waits := delete_where (wake_gone seed queue name db) (waits db)\<rparr>"

lemma wake_set_fields [simp]:
  "r_id (wake_set seed name db r) = r_id r" "r_queue (wake_set seed name db r) = r_queue r"
  "r_task (wake_set seed name db r) = r_task r" "r_attempt (wake_set seed name db r) = r_attempt r"
  by (simp_all add: wake_set_def split: option.splits)

lemma wake_set_admitted:
  "wake_admits seed queue name db r \<Longrightarrow>
     r_state (wake_set seed name db r) = Pending \<and> r_wake_event (wake_set seed name db r) = Some name \<and>
     r_stamp (wake_set seed name db r) = Some (stamp seed ''wake-runs'')"
  by (auto simp: wake_admits_def wake_set_def split: option.splits)

lemma exec_wake:
  assumes "\<forall>r\<in>set (runs db). r_stamp r \<noteq> Some (stamp seed ''wake-runs'')" "keyed r_id (runs db)"
    "\<And>r. r \<in> set (runs db) \<Longrightarrow> wake_admits seed queue name db r \<Longrightarrow> r_queue r = queue"
    "exec_all (wakeWaiters seed queue name g) db = Inr (db', ns)"
  shows "\<exists>x y. db' = woken_db seed queue name x y db"
proof -
  let ?W = "wake_admits seed queue name db"
  let ?f1 = "\<lambda>r. if ?W r then wake_set seed name db r else r"
  let ?db1 = "db\<lparr>runs := map ?f1 (runs db)\<rparr>"
  let ?p = "\<lambda>f. r_queue f = queue \<and> woken name f"
  let ?src = "filter (\<lambda>f. ?p f \<and> r_stamp f = Some (stamp seed ''wake-runs'')) (map ?f1 (runs db))"
  have old: "r_stamp r \<noteq> Some (stamp seed ''wake-runs'')" if "r \<in> set (runs db)" for r
    using assms(1) that by blast
  have src: "set ?src = wake_set seed name db ` {r \<in> set (runs db). ?W r}"
    using assms(3) old wake_set_admitted[of seed queue name db] by (auto simp: woken_def)
  have s1: "s_exec (wakeRunsUpdate seed queue name) db = Inr (?db1, count_where ?W (runs db))"
    by (simp add: wakeRunsUpdate_def upd_runs_def update_where_def)
  let ?y = "sql_min (map r_fence_at ?src)"
  let ?db2 = "?db1\<lparr>tasks := map (wake_task seed queue name ?y db) (tasks db)\<rparr>"
  have ex: "(\<exists>f\<in>set ?src. t_id t = r_task f) = (t_id t \<in> woken_tasks seed queue name db)" for t
    unfolding src woken_tasks_def by auto
  have srcs: "stamped_runs seed ''wake-runs'' (\<lambda>f. woken name f \<and> r_queue f = queue) ?db1 = ?src"
    "\<And>d. runs d = runs ?db1 \<Longrightarrow>
       stamped_runs seed ''wake-runs'' (\<lambda>f. r_queue f = queue \<and> woken name f) d = ?src"
    by (simp_all add: stamped_runs_def conj_commute)
  have "\<exists>n. s_exec (runs_to_tasks seed ''wake-tasks'' ''wake-runs'' queue (woken name)
        (\<lambda>db t. t\<lparr>t_state := Pending\<rparr>) (\<lambda>db t. live (t_state t)) None) ?db1 = Inr (?db2, n)"
    unfolding runs_to_tasks_def upd_tasks_def Let_def stmt.simps srcs(1) ex
    by (simp add: update_where_def wake_task_def)
  then obtain n2 where s2: "s_exec (runs_to_tasks seed ''wake-tasks'' ''wake-runs'' queue (woken name)
        (\<lambda>db t. t\<lparr>t_state := Pending\<rparr>) (\<lambda>db t. live (t_state t)) None) ?db1 = Inr (?db2, n2)" ..
  let ?db3 = "?db2\<lparr>waits := delete_where (wake_gone seed queue name db) (waits db)\<rparr>"
  have src2: "stamped_runs seed ''wake-runs'' (\<lambda>f. r_queue f = queue \<and> woken name f) ?db2 = ?src"
    and src3: "stamped_runs seed ''wake-runs'' (\<lambda>f. r_queue f = queue \<and> woken name f) ?db3 = ?src"
    by (rule srcs(2), simp)+
  have ids: "(\<exists>f\<in>set ?src. i = r_id f) = (i \<in> woken_ids seed queue name db)" for i
    unfolding src woken_ids_def by auto
  have "\<exists>n. s_exec (runs_to_waits seed g ''wake-runs'' (\<lambda>f. r_queue f = queue \<and> woken name f)
        (\<lambda>db w. w_event w = name \<and> w_status w = Waiting)) ?db2 = Inr (?db3, n)"
    unfolding runs_to_waits_def del_waits_def Let_def stmt.simps src2 ids
    by (simp add: delete_where_def wake_gone_def)
  then obtain n3 where s3: "s_exec (runs_to_waits seed g ''wake-runs'' (\<lambda>f. r_queue f = queue \<and> woken name f)
        (\<lambda>db w. w_event w = name \<and> w_status w = Waiting)) ?db2 = Inr (?db3, n3)" ..
  have member: "(r_id (?f1 r) \<in> woken_ids seed queue name db) = ?W r" if r: "r \<in> set (runs db)" for r
  proof -
    have "?W r" if "s \<in> set (runs db)" "?W s" "r_id r = r_id s" for s
      using run_table.unique[OF assms(2) r that(1)] that by simp
    then show ?thesis using r by (auto simp: woken_ids_def)
  qed
  have seal: "\<exists>n. s_exec (seal_runs seed ''wake-finished'' ''wake-runs'' (\<lambda>f. r_queue f = queue \<and> woken name f)) ?db3 =
      Inr (woken_db seed queue name ?y ?y db, n)"
  proof -
    have m: "update_where (\<lambda>r. r_id r \<in> woken_ids seed queue name db)
        (\<lambda>r. stamp_run seed ''wake-finished'' ?y r) (map ?f1 (runs db)) =
      map (wake_run seed queue name ?y db) (runs db)"
      unfolding update_where_def map_map
    proof (rule map_cong[OF refl])
      fix r assume "r \<in> set (runs db)"
      from member[OF this] show "((\<lambda>r. if r_id r \<in> woken_ids seed queue name db
          then stamp_run seed ''wake-finished'' ?y r else r) \<circ> ?f1) r = wake_run seed queue name ?y db r"
        unfolding comp_def wake_run_def by presburger
    qed
    have r3: "runs ?db3 = map ?f1 (runs db)" by simp
    show ?thesis
      unfolding seal_runs_def upd_runs_def Let_def stmt.simps src3 ids r3 m
      by (simp add: woken_db_def)
  qed
  then obtain n4 where s4: "s_exec (seal_runs seed ''wake-finished'' ''wake-runs''
      (\<lambda>f. r_queue f = queue \<and> woken name f)) ?db3 = Inr (woken_db seed queue name ?y ?y db, n4)" ..
  have "db' = woken_db seed queue name ?y ?y db"
  proof -
    obtain m1 where "exec_all (tl (wakeWaiters seed queue name g)) ?db1 = Inr (db', m1)"
      using exec_step[OF s1 assms(4)[unfolded wakeWaiters_def]] by (auto simp only: wakeWaiters_def list.sel)
    then have "exec_all (tl (wakeWaiters seed queue name g)) ?db1 = Inr (db', m1)" .
    from exec_step[OF s2 this[unfolded wakeWaiters_def list.sel]] obtain m2 where
      m2: "exec_all (tl (tl (wakeWaiters seed queue name g))) ?db2 = Inr (db', m2)"
      by (auto simp only: wakeWaiters_def list.sel)
    from exec_step[OF s3 m2[unfolded wakeWaiters_def list.sel]] obtain m3 where
      m3: "exec_all (tl (tl (tl (wakeWaiters seed queue name g)))) ?db3 = Inr (db', m3)"
      by (auto simp only: wakeWaiters_def list.sel)
    from exec_step[OF s4 m3[unfolded wakeWaiters_def list.sel]] show ?thesis
      by (auto dest: exec_nothing)
  qed
  then show ?thesis by blast
qed

section \<open>The invariant across the wake\<close>

lemma admitted_queue:
  assumes "waits_ok E db" "keyed r_id (runs db)" "r \<in> set (runs db)" "wake_admits seed queue name db r"
  shows "r_queue r = queue"
proof -
  obtain w where w: "w \<in> set (waits db)" "w_run w = r_id r" "w_queue w = queue" "w_status w = Waiting"
    using assms(4) by (auto simp: wake_admits_def)
  then obtain p where p: "p \<in> set (runs db)" "parked_on p w"
    using assms(1) by (auto simp: waits_ok_def wait_ok_def)
  then have "r_id p = r_id r" using w(2) parked_on_id by metis
  then have "p = r" using run_table.unique[OF assms(2) p(1) assms(3)] by simp
  then show ?thesis using p(2) w(3) by (simp add: parked_on_def wait_witness_def)
qed

lemma parked_admitted:
  assumes "rows_ok db" "units_ok E db" "r \<in> set (runs db)" "w \<in> set (waits db)" "parked_on r w"
    "(w_queue w, w_event w) = (queue, name)"
    "e \<in> set (events db)" "e_key e = (queue, name)" "e_stamp e = Some (stamp seed ''event'')"
  shows "wake_admits seed queue name db r"
proof -
  have q: "r_queue r = queue" "r_state r = Sleeping" "r_wake_event r = Some name"
    using assms(5,6) by (auto simp: parked_on_def wait_witness_def)
  have "\<exists>w\<in>set (waits db). w_run w = r_id r \<and> w_queue w = queue \<and> w_event w = name \<and> w_status w = Waiting"
    using assms(4,5,6) by (auto simp: parked_on_def wait_witness_def)
  moreover have "wake_witness db r"
    using assms(4,5) by (auto simp: wake_witness_def registeredCurrent_def parked_on_def)
  moreover have "recordedEvent seed name db r \<noteq> None"
    using assms(7-9) q(1) unfolding recordedEvent_def find_None_iff by (auto simp: e_key_def)
  moreover have "owner_such db r (\<lambda>t. live (t_state t))"
  proof -
    obtain t where t: "t \<in> set (tasks db)" "t_id t = r_task r" using assms(1,3) by (metis imageE rows_ok_def)
    have u: "unit_ok t (unit_runs db (t_id t)) E" using assms(2) t(1) by (simp add: units_ok_def)
    have "r \<in> unit_runs db (t_id t)" using assms(3) t by (simp add: unit_runs_def)
    then have "r_queue r = t_queue t" "live (t_state t)"
      using u q(2) by (auto simp: unit_ok_def split: if_splits)
    then show ?thesis using t by (auto simp: owner_such_def runOwnedByTask_def)
  qed
  ultimately show ?thesis using q by (simp add: wake_admits_def)
qed

lemma run_ok_woken:
  assumes "run_ok r" "wake_admits seed queue name db r"
    "\<And>e. e \<in> set (events db) \<Longrightarrow> e_stamp e = Some (stamp seed ''event'') \<Longrightarrow> stored_within epoch_bounds (e_fence_at e)"
  shows "run_ok (stamp_run seed nm x (wake_set seed name db r))"
proof -
  obtain e where e: "recordedEvent seed name db r = Some e" using assms(2) by (auto simp: wake_admits_def)
  then have "e \<in> set (events db)" "e_stamp e = Some (stamp seed ''event'')"
    by (auto simp: recordedEvent_def find_Some_iff)
  then have "stored_within epoch_bounds (e_fence_at e)" by (rule assms(3))
  moreover have "r_claimed_by r = None" using assms(1,2) by (simp add: run_ok_def wake_admits_def)
  ultimately show ?thesis
    using assms(1) e by (simp add: run_ok_def wake_set_def stamp_run_def)
qed

lemma waits_woken:
  assumes "rows_ok db" "units_ok E db" "waits_ok E0 db" "E \<subseteq> insert (queue, name) E0"
    "(queue, name) \<in> E - E0 \<Longrightarrow>
       \<exists>e\<in>set (events db). e_key e = (queue, name) \<and> e_stamp e = Some (stamp seed ''event'')"
  shows "waits_ok E (woken_db seed queue name x y db)"
proof -
  let ?W = "wake_admits seed queue name db"
  let ?db = "woken_db seed queue name x y db"
  have k: "keyed r_id (runs db)" using assms(1) by (simp add: rows_ok_def keys_ok_def)
  have rs: "set (runs ?db) = wake_run seed queue name x db ` set (runs db)" by (simp add: woken_db_def)
  have ws: "set (waits ?db) = {w \<in> set (waits db). \<not> wake_gone seed queue name db w}" by (simp add: woken_db_def)
  have same: "\<not> ?W r \<Longrightarrow> wake_run seed queue name x db r = r" for r by (simp add: wake_run_def)
  have "wait_ok (set (runs ?db)) E w" if w: "w \<in> set (waits ?db)" for w
    unfolding wait_ok_def
  proof
    assume st: "w_status w = Waiting"
    have w': "w \<in> set (waits db)" "\<not> wake_gone seed queue name db w" using w ws by auto
    then obtain r where r: "r \<in> set (runs db)" "parked_on r w" and new: "(w_queue w, w_event w) \<notin> E0"
      using assms(3) st by (auto simp: waits_ok_def wait_ok_def)
    have nW: "\<not> ?W r"
    proof
      assume "?W r"
      then have "w_event w = name" using r(2) by (auto simp: wake_admits_def parked_on_def wait_witness_def)
      moreover have "w_run w \<in> woken_ids seed queue name db"
        using r(1) \<open>?W r\<close> parked_on_id[OF r(2)] by (auto simp: woken_ids_def)
      ultimately show False using w'(2) st by (simp add: wake_gone_def)
    qed
    have "(w_queue w, w_event w) \<notin> E"
    proof
      assume E: "(w_queue w, w_event w) \<in> E"
      then have "(w_queue w, w_event w) = (queue, name)" using assms(4) new by blast
      then show False using parked_admitted[OF assms(1,2) r(1) w'(1) r(2)] assms(5) E new nW by auto
    qed
    moreover have "r \<in> set (runs ?db)" using rs r(1) same[OF nW] by (metis imageI)
    ultimately show "(\<exists>r\<in>set (runs ?db). parked_on r w) \<and> (w_queue w, w_event w) \<notin> E" using r(2) by blast
  qed
  moreover have "sleeper_ok (set (waits ?db)) s" if s: "s \<in> set (runs ?db)" for s
    unfolding sleeper_ok_def
  proof
    assume a: "r_state s = Sleeping \<and> r_available s = Null"
    obtain r where r: "r \<in> set (runs db)" "s = wake_run seed queue name x db r" using s rs by auto
    have nW: "\<not> ?W r" using a wake_set_admitted[of seed queue name db r] r(2) by (auto simp: wake_run_def)
    then have "s = r" using r(2) same by simp
    then obtain w where w: "w \<in> set (waits db)" "parked_on r w"
      using a assms(3) r(1) by (auto simp: waits_ok_def sleeper_ok_def)
    have "\<not> wake_gone seed queue name db w"
    proof
      assume "wake_gone seed queue name db w"
      then obtain q where "q \<in> set (runs db)" "?W q" "r_id q = r_id r"
        using parked_on_id[OF w(2)] by (auto simp: wake_gone_def woken_ids_def)
      then show False using run_table.unique[OF k _ r(1)] nW by blast
    qed
    then show "\<exists>w\<in>set (waits ?db). parked_on s w" using w \<open>s = r\<close> ws by blast
  qed
  ultimately show ?thesis by (simp add: waits_ok_def)
qed

lemma units_woken:
  assumes "rows_ok db" "units_ok E db" "waits_ok E0 db"
  shows "units_ok E (woken_db seed queue name x y db)"
proof (rule units_image[OF assms(2)])
  let ?W = "wake_admits seed queue name db"
  have k: "keyed r_id (runs db)" using assms(1) by (simp add: rows_ok_def keys_ok_def)
  show "runs (woken_db seed queue name x y db) = map (wake_run seed queue name x db) (runs db)"
    "tasks (woken_db seed queue name x y db) = map (wake_task seed queue name y db) (tasks db)"
    by (simp_all add: woken_db_def)
  show "same_run r (wake_run seed queue name x db r) \<and>
      live (r_state (wake_run seed queue name x db r)) = live (r_state r)" for r
    using wake_set_admitted[of seed queue name db r] by (auto simp: wake_run_def same_run_def wake_admits_def)
  show "same_task t (wake_task seed queue name y db t) \<and> same_counters t (wake_task seed queue name y db t) \<and>
      same_outcome t (wake_task seed queue name y db t)" for t
    by (simp add: wake_task_def same_defs stamp_task_def)
  show "t_state (wake_task seed queue name y db t) = t_state t" if "\<not> live (t_state t)" for t
    using that by (simp add: wake_task_def)
  fix t c assume t: "t \<in> set (tasks db)" "live (t_state t)" and c: "carries t (unit_runs db (t_id t)) c"
  have mem: "c \<in> set (runs db)" "r_task c = t_id t" using c by (auto simp: carries_def unit_runs_def)
  have u: "unit_ok t (unit_runs db (t_id t)) E" using assms(2) t(1) by (simp add: units_ok_def)
  have iff: "(t_id t \<in> woken_tasks seed queue name db) = ?W c"
  proof
    assume "t_id t \<in> woken_tasks seed queue name db"
    then obtain r where r: "r \<in> set (runs db)" "?W r" "r_task r = t_id t" by (auto simp: woken_tasks_def)
    then have "r = c" using carries_unique[OF c, of r] by (simp add: unit_runs_def wake_admits_def)
    then show "?W c" using r by simp
  next
    assume "?W c"
    then show "t_id t \<in> woken_tasks seed queue name db"
      unfolding woken_tasks_def using mem by (intro image_eqI[of _ _ c]) auto
  qed
  show "t_state (wake_task seed queue name y db t) = r_state (wake_run seed queue name x db c)"
  proof (cases "?W c")
    case True
    then have "r_queue c = queue" using admitted_queue[OF assms(3) k mem(1)] by simp
    then have "t_queue t = queue" using u mem by (simp add: unit_ok_def unit_runs_def)
    then show ?thesis using iff True t(2) wake_set_admitted[OF True] by (simp add: wake_task_def wake_run_def)
  next
    case False
    then show ?thesis using iff c by (simp add: wake_task_def wake_run_def carries_def)
  qed
qed simp

lemma wake_inv:
  assumes "rows_ok db" "units_ok (event_keys db) db" "waits_ok E0 db"
    "event_keys db \<subseteq> insert (queue, name) E0"
    "(queue, name) \<in> event_keys db - E0 \<Longrightarrow>
       \<exists>e\<in>set (events db). e_key e = (queue, name) \<and> e_stamp e = Some (stamp seed ''event'')"
    "\<And>e. e \<in> set (events db) \<Longrightarrow> e_stamp e = Some (stamp seed ''event'') \<Longrightarrow> stored_within epoch_bounds (e_fence_at e)"
    "\<forall>r\<in>set (runs db). r_stamp r \<noteq> Some (stamp seed ''wake-runs'')"
    "exec_all (wakeWaiters seed queue name g) db = Inr (db', ns)"
  shows "inv db'"
proof -
  have k: "keys_ok db" using assms(1) by (simp add: rows_ok_def)
  have "\<exists>x y. db' = woken_db seed queue name x y db"
    by (rule exec_wake[OF assms(7) keys_okD(2)[OF k] _ assms(8)])
      (rule admitted_queue[OF assms(3) keys_okD(2)[OF k]])
  then obtain x y where eq: "db' = woken_db seed queue name x y db" by blast
  have "rows_ok db'"
  proof (rule rows_image[OF assms(1)])
    show "runs db' = map (wake_run seed queue name x db) (runs db)"
      "tasks db' = map (wake_task seed queue name y db) (tasks db)"
      "events db' = events db" "checkpoints db' = checkpoints db" "drivers db' = drivers db"
      using eq by (simp_all add: woken_db_def)
    show "keyed w_key (waits db')"
      using eq wait_table.delete_keyed[OF keys_okD(4)[OF k]] by (simp add: woken_db_def)
    show "same_run r (wake_run seed queue name x db r) \<and> run_ok (wake_run seed queue name x db r)"
      if "r \<in> set (runs db)" for r
      using assms(1) that run_ok_woken[OF _ _ assms(6), of r]
      by (auto simp: wake_run_def same_run_def rows_ok_def)
    show "same_task t (wake_task seed queue name y db t)" for t
      by (simp add: wake_task_def same_task_def)
  qed
  moreover have "event_keys db' = event_keys db" using eq by (simp add: woken_db_def event_keys_def)
  moreover have "units_ok (event_keys db) db'" using units_woken[OF assms(1-3)] eq by simp
  moreover have "waits_ok (event_keys db) db'" using waits_woken[OF assms(1-5)] eq by simp
  ultimately show ?thesis by (simp add: inv_def)
qed

lemma wake_nothing:
  assumes "unwoken seed db"
  shows "exec_all (wakeWaiters seed queue name g) db = Inr (db, [0, 0, 0, 0])"
proof -
  have none: "recordedEvent seed name db r = None" for r
    using assms by (auto simp: recordedEvent_def find_None_iff unwoken_def)
  have a: "s_exec (wakeRunsUpdate seed queue name) db = Inr (db, 0)"
    using none by (auto simp: wakeRunsUpdate_def wake_admits_def intro!: upd_none)
  have src: "stamped_runs seed ''wake-runs'' w db = []" for w
    using assms by (auto simp: stamped_runs_def unwoken_def filter_empty_conv)
  show ?thesis
    using a src by (simp add: wakeWaiters_def runs_to_tasks_def runs_to_waits_def seal_runs_def upd_none)
qed

end
