(* ===== verification/Ending.thy ===== *)
theory Ending
  imports Waking
begin

text \<open>
  The end of a run. A batch that ends a live task's run leaves the unit orphaned: the task is
  live and every run of it has ended. The unit is whole again once a run is placed at the next
  ordinal with the accounting that goes with it, or once the task has ended and its completion
  event is recorded. The lemmas of both ways are shared by completion, failure, the two sweeps
  and the cancellation.
\<close>

section \<open>Waits of runs that are not asleep\<close>

lemma waits_put_awake:
  assumes "waits_ok E db" "keyed r_id (runs db)" "r \<in> set (runs db)" "r_state r \<noteq> Sleeping"
    "r_id r' = r_id r" "r_state r' \<noteq> Sleeping"
  shows "waits_ok E (put_run r' db)"
proof -
  have set: "set (runs (put_run r' db)) = insert r' (set (runs db) - {r})"
    using set_put_run[OF assms(2,3,5)] .
  have "\<not> parked_on r w" for w using assms(4) by (simp add: parked_on_def)
  then have "wait_ok (set (runs (put_run r' db))) E w" if "wait_ok (set (runs db)) E w" for w
    using that unfolding wait_ok_def set by blast
  moreover have "sleeper_ok (set (waits db)) r'" using assms(6) by (simp add: sleeper_ok_def)
  ultimately show ?thesis using assms(1) by (simp add: waits_ok_def set)
qed

lemma waits_drop_dead:
  assumes "waits_ok E db" "keyed r_id (runs db)" "r \<in> set (runs db)" "r_state r \<noteq> Sleeping"
  shows "waits_ok E (drop_waits (\<lambda>w. w_run w = r_id r \<and> True) db)"
proof -
  have "sleeper_ok {w \<in> set (waits db). w_run w \<noteq> r_id r} x" if x: "x \<in> set (runs db)" for x
  proof (cases "x = r")
    case False
    then have "r_id x \<noteq> r_id r" using run_table.unique[OF assms(2) x assms(3)] by blast
    moreover have "sleeper_ok (set (waits db)) x" using assms(1) x by (simp add: waits_ok_def)
    ultimately show ?thesis using parked_on_id[of x] unfolding sleeper_ok_def by fastforce
  qed (use assms(4) in \<open>simp add: sleeper_ok_def\<close>)
  then show ?thesis using assms(1) by (auto simp: waits_ok_def)
qed

section \<open>An orphaned unit\<close>

definition orphaned :: "run \<Rightarrow> task \<Rightarrow> db \<Rightarrow> bool" where
  "orphaned r t db =
     (rows_ok db \<and> waits_ok (event_keys db) db \<and>
      r \<in> set (runs db) \<and> t \<in> set (tasks db) \<and> t_id t = r_task r \<and> t_queue t = r_queue r \<and>
      live (t_state t) \<and> outcome_ok t \<and> storedCurrentRunAccounting r t \<and>
      (\<forall>s\<in>unit_runs db (t_id t). r_queue s = t_queue t \<and> \<not> live (r_state s) \<and>
         (s \<noteq> r \<longrightarrow> cell_lt (r_attempt s) (r_attempt r))) \<and>
      (\<forall>u\<in>set (tasks db). t_id u \<noteq> t_id t \<longrightarrow> unit_ok u (unit_runs db (t_id u)) (event_keys db)))"

lemma orphanedD:
  assumes "orphaned r t db"
  shows "rows_ok db" "waits_ok (event_keys db) db" "keys_ok db" "r \<in> set (runs db)" "t \<in> set (tasks db)"
    "t_id t = r_task r" "t_queue t = r_queue r" "live (t_state t)" "storedCurrentRunAccounting r t"
    "r \<in> unit_runs db (t_id t)" "\<not> live (r_state r)" "run_ok r"
proof -
  show rows: "rows_ok db" and "waits_ok (event_keys db) db" and mem: "r \<in> set (runs db)"
    and "t \<in> set (tasks db)" and tid: "t_id t = r_task r" and "t_queue t = r_queue r" and "live (t_state t)"
    and "storedCurrentRunAccounting r t"
    using assms by (simp_all add: orphaned_def)
  show "keys_ok db" and "run_ok r" using rows mem by (simp_all add: rows_ok_def)
  show u: "r \<in> unit_runs db (t_id t)" using mem tid by (simp add: unit_runs_def)
  then show "\<not> live (r_state r)" using assms by (simp add: orphaned_def)
qed

lemma accounting_cong:
  "r_attempt r' = r_attempt r \<Longrightarrow> storedCurrentRunAccounting r' t = storedCurrentRunAccounting r t"
  by (simp add: storedCurrentRunAccounting_def)

lemma die:
  assumes "inv db" "r \<in> set (runs db)" "r_state r = Running" "t \<in> set (tasks db)" "t_id t = r_task r"
    "same_run r r'" "\<not> live (r_state r')" "run_ok r'"
  shows "orphaned r' t (put_run r' db)"
proof -
  have k: "keys_ok db" using assms(1) by (rule inv_keys)
  have ids: "r_id r' = r_id r" "r_task r' = r_task r" "r_queue r' = r_queue r" "r_attempt r' = r_attempt r"
    using assms(6) by (simp_all add: same_run_def)
  have l: "live (r_state r)" using assms(3) by simp
  note live = inv_live_run[OF assms(1,2) l assms(4,5)]
  have U: "unit_ok t (unit_runs db (t_id t)) (event_keys db)" using inv_unit assms(1,4) by blast
  have units: "unit_runs (put_run r' db) tid =
      (if tid = r_task r then insert r' (unit_runs db tid - {r}) else unit_runs db tid)" for tid
    using unit_runs_put_run[OF keys_okD(2)[OF k] assms(2) ids(1,2)] .
  have mem: "r \<in> unit_runs db (t_id t)" using assms(2,5) by (simp add: unit_runs_def)
  have f1: "rows_ok (put_run r' db)"
    by (rule rows_put_run) (use assms(1,2,8) ids in \<open>simp_all add: inv_def\<close>)
  have f2: "waits_ok (event_keys db) (put_run r' db)"
    by (rule waits_put_awake[OF _ keys_okD(2)[OF k] assms(2)])
      (use assms(1,3,7) ids in \<open>auto simp: inv_def\<close>)
  have f3: "r' \<in> set (runs (put_run r' db))" using assms(2) ids by (auto simp: in_put_run)
  have f4: "t_queue t = r_queue r'" "outcome_ok t" using U mem ids by (simp_all add: unit_ok_def)
  have f5: "storedCurrentRunAccounting r' t"
    using live(2) accounting_cong[OF ids(4)] by (simp add: carries_def)
  have f6: "r_queue s = t_queue t \<and> \<not> live (r_state s) \<and> (s \<noteq> r' \<longrightarrow> cell_lt (r_attempt s) (r_attempt r'))"
    if s: "s \<in> unit_runs (put_run r' db) (t_id t)" for s
  proof -
    have "s = r' \<or> (s \<in> unit_runs db (t_id t) \<and> s \<noteq> r)" using s assms(5) by (simp add: units)
    then show ?thesis
    proof
      assume "s = r'"
      then show ?thesis using U mem ids assms(7) by (simp add: unit_ok_def)
    next
      assume o: "s \<in> unit_runs db (t_id t) \<and> s \<noteq> r"
      then have "\<not> live (r_state s) \<and> cell_lt (r_attempt s) (r_attempt r)"
        using live(2) by (simp add: carries_def)
      then show ?thesis using U o ids by (simp add: unit_ok_def)
    qed
  qed
  have f7: "unit_ok u (unit_runs (put_run r' db) (t_id u)) (event_keys db)"
    if "u \<in> set (tasks db)" "t_id u \<noteq> t_id t" for u
    using inv_unit[OF assms(1) that(1)] that(2) assms(5) by (simp add: units)
  have f8: "t_id t = r_task r'" using assms(5) ids by simp
  show ?thesis
    unfolding orphaned_def event_keys_simps put_tables
    by (intro conjI ballI impI f1 f2 f3 f4 f5 f7 f8 assms(4) live(1)) (use f6 in simp_all)
qed

lemma orphaned_unit_queue:
  assumes "orphaned r t db" "y \<in> set (runs db)" "r_task y = r_task r"
  shows "r_queue y = r_queue r" "y = r \<or> cell_lt (r_attempt y) (r_attempt r)"
proof -
  have "y \<in> unit_runs db (t_id t)" using assms orphanedD(6)[OF assms(1)] by (simp add: unit_runs_def)
  then show "r_queue y = r_queue r" "y = r \<or> cell_lt (r_attempt y) (r_attempt r)"
    using assms(1) orphanedD(7)[OF assms(1)] by (auto simp only: orphaned_def)
qed

text \<open>The orphan is its unit's only candidate for a successor, which no run can hold yet.\<close>

lemma orphaned_no_next:
  assumes "orphaned r t db" "s \<in> set (runs db)" "r_task s = r_task r"
  shows "r_attempt s \<noteq> cell_plus (r_attempt r) (Num 1)"
proof -
  have "s = r \<or> cell_lt (r_attempt s) (r_attempt r)"
    using orphaned_unit_queue(2)[OF assms] .
  moreover obtain a where "r_attempt r = Num a" using accountingD[OF orphanedD(9)[OF assms(1)]] by blast
  ultimately show ?thesis by (cases "r_attempt s") auto
qed

lemma orphaned_successorOwned:
  assumes "orphaned r t db"
  shows "\<not> successorOwned db sid (r_task r) (cell_plus (r_attempt r) (Num 1))"
  using orphaned_no_next[OF assms] by (auto simp: successorOwned_def)

section \<open>Placing a successor\<close>

definition accounts_for :: "run \<Rightarrow> run \<Rightarrow> task \<Rightarrow> bool" where
  "accounts_for r n t' =
     (r_task n = r_task r \<and> r_queue n = r_queue r \<and>
      r_attempt n = cell_plus (r_attempt r) (Num 1) \<and> live (r_state n) \<and>
      \<not> (r_state n = Sleeping \<and> r_available n = Null) \<and> run_ok n \<and>
      t_state t' = r_state n \<and> storedCurrentRunAccounting n t')"

lemma place:
  assumes "orphaned r t db" "accounts_for r n t'" "same_task t t'" "same_outcome t t'"
    "r_id n \<notin> r_id ` set (runs db)"
  shows "inv (put_task t' (add_run n db))"
proof -
  note o = orphanedD[OF assms(1)]
  have n: "r_task n = r_task r" "r_queue n = r_queue r" "r_attempt n = cell_plus (r_attempt r) (Num 1)"
    "live (r_state n)" "run_ok n" "t_state t' = r_state n" "storedCurrentRunAccounting n t'"
    using assms(2) by (simp_all add: accounts_for_def)
  have tid: "t_id t' = t_id t" "t_queue t' = t_queue t" using assms(3) by (simp_all add: same_task_def)
  obtain a where a: "r_attempt r = Num a" using accountingD[OF o(9)] by blast
  have next_free: "r_ordinal n \<notin> r_ordinal ` set (runs db)"
  proof
    assume "r_ordinal n \<in> r_ordinal ` set (runs db)"
    then obtain s where "s \<in> set (runs db)" "r_task s = r_task n" "r_attempt s = r_attempt n"
      by (auto simp: r_ordinal_def)
    then show False using orphaned_no_next[OF assms(1), of s] n by simp
  qed
  have rows: "rows_ok (add_run n db)"
    by (rule rows_add_run[OF o(1) assms(5) next_free n(5)]) (use o n in force)
  have rows': "rows_ok (put_task t' (add_run n db))"
    by (rule rows_put_task[OF rows, of t]) (use o assms(3) in \<open>simp_all add: same_task_def\<close>)
  have ok: "unit_ok t' (insert n (unit_runs db (t_id t))) (event_keys db)"
  proof -
    have "carries t' (insert n (unit_runs db (t_id t))) n"
      unfolding carries_def
    proof (intro conjI ballI impI)
      fix s assume s: "s \<in> insert n (unit_runs db (t_id t))" "s \<noteq> n"
      then have "s \<in> unit_runs db (t_id t)" by simp
      then have "\<not> live (r_state s) \<and> (s = r \<or> cell_lt (r_attempt s) (r_attempt r))"
        using assms(1) by (auto simp: orphaned_def)
      then show "\<not> live (r_state s)" "cell_lt (r_attempt s) (r_attempt n)"
        using n(3) a by (cases "r_attempt s"; auto)+
    qed (use n in simp_all)
    moreover have "outcome_ok t'"
      using assms(1,4) n(4,6) live_outcome_ok[of t'] live_outcome_ok[of t]
      by (simp add: orphaned_def same_outcome_def)
    moreover have "counters_ok t'"
      using n(7) by (simp add: counters_ok_def storedCurrentRunAccounting_def)
    moreover have "\<forall>s\<in>insert n (unit_runs db (t_id t)). r_queue s = t_queue t'"
      using assms(1) n o(7) tid by (simp add: orphaned_def)
    ultimately show ?thesis using n(4,6) by (auto simp: unit_ok_def)
  qed
  have "units_ok (event_keys db) (put_task t' (add_run n db))"
    unfolding units_ok_def
  proof
    fix u assume "u \<in> set (tasks (put_task t' (add_run n db)))"
    then consider "u = t'" | "u \<in> set (tasks db)" "t_id u \<noteq> t_id t"
      using tid by (auto simp: in_put_task)
    then show "unit_ok u (unit_runs (put_task t' (add_run n db)) (t_id u)) (event_keys db)"
    proof cases
      case 1
      then show ?thesis using ok n(1) o(6) tid by simp
    next
      case 2
      then show ?thesis using assms(1) n(1) o(6) by (simp add: orphaned_def)
    qed
  qed
  moreover have "waits_ok (event_keys db) (put_task t' (add_run n db))"
    using waits_add_run[OF o(2), of n] assms(2) by (simp add: accounts_for_def)
  ultimately show ?thesis using rows' by (simp add: inv_def)
qed

section \<open>Ending the task\<close>

text \<open>The task has ended and its completion event is still owed.\<close>

definition owed :: "string \<Rightarrow> string \<Rightarrow> db \<Rightarrow> bool" where
  "owed queue tid db =
     (rows_ok db \<and> waits_ok (event_keys db) db \<and>
      units_ok (insert (queue, taskDoneEventName tid) (event_keys db)) db)"

lemma unit_ok_mono: "unit_ok t U E \<Longrightarrow> E \<subseteq> E' \<Longrightarrow> unit_ok t U E'"
  by (auto simp: unit_ok_def split: if_splits)

lemma end_unit:
  assumes "orphaned r t db" "\<not> live (t_state t')" "same_task t t'" "outcome_ok t'" "counters_ok t'"
  shows "owed (t_queue t) (t_id t) (put_task t' db)"
proof -
  note o = orphanedD[OF assms(1)]
  have tid: "t_id t' = t_id t" "t_queue t' = t_queue t" using assms(3) by (simp_all add: same_task_def)
  let ?E = "insert (t_queue t, taskDoneEventName (t_id t)) (event_keys db)"
  have "rows_ok (put_task t' db)"
    by (rule rows_put_task[OF o(1), of t]) (use o assms(3) in \<open>simp_all add: same_task_def\<close>)
  moreover have "units_ok ?E (put_task t' db)"
    unfolding units_ok_def
  proof
    fix u assume "u \<in> set (tasks (put_task t' db))"
    then consider "u = t'" | "u \<in> set (tasks db)" "t_id u \<noteq> t_id t"
      using tid by (auto simp: in_put_task)
    then show "unit_ok u (unit_runs (put_task t' db) (t_id u)) ?E"
    proof cases
      case 1
      then show ?thesis using assms tid by (simp add: unit_ok_def orphaned_def)
    next
      case 2
      then have "unit_ok u (unit_runs db (t_id u)) (event_keys db)" using assms(1) by (simp add: orphaned_def)
      then show ?thesis using unit_ok_mono by (metis subset_insertI unit_runs_other(1))
    qed
  qed
  ultimately show ?thesis using o(2) by (simp add: owed_def)
qed

lemma owed_drop:
  assumes "owed queue tid db" "r \<in> set (runs db)" "r_state r \<noteq> Sleeping"
  shows "owed queue tid (drop_waits (\<lambda>w. w_run w = r_id r \<and> True) db)"
proof -
  have "keyed r_id (runs db)" using assms(1) by (simp add: owed_def rows_ok_def keys_ok_def)
  then show ?thesis
    using assms waits_drop_dead[OF _ _ assms(2,3)] rows_drop_waits by (simp add: owed_def)
qed

lemma inv_drop:
  assumes "inv db" "r \<in> set (runs db)" "r_state r \<noteq> Sleeping"
  shows "inv (drop_waits (\<lambda>w. w_run w = r_id r \<and> True) db)"
  using assms waits_drop_dead[OF _ keys_okD(2)[OF inv_keys[OF assms(1)]] assms(2,3)] rows_drop_waits
  by (simp add: inv_def)

text \<open>The completion event pays what is owed: it is added, or was there, and its waiters wake.\<close>

lemma done_event_exec:
  assumes "keyed t_id (tasks db)" "t \<in> set (tasks db)" "t_id t = tid" "t_queue t = queue"
    "t_stamp t = Some (stamp seed terminal)" "(queue, taskDoneEventName tid) \<notin> event_keys db"
  shows "s_exec (taskDoneEventInsert seed queue tid terminal res) db =
    Inr (db\<lparr>events := events db @
      [\<lparr>e_queue = queue, e_name = taskDoneEventName tid, e_payload = Text (encodeTaskOutcome res),
        e_emitted_at = t_fence_at t, e_stamp = Some (stamp seed ''event''), e_fence_at = t_fence_at t\<rparr>]\<rparr>, 1)"
proof -
  have "stamped_tasks seed terminal (\<lambda>f. t_id f = tid \<and> t_queue f = queue \<and>
      (t_queue f, taskDoneEventName tid) \<notin> e_key ` set (events db)) db = [t]"
    by (rule stamped_task_one[OF assms(1,2) _ assms(5)]) (use assms(3,4,6) in \<open>auto simp: event_keys_def\<close>)
  then show ?thesis using assms(4) by (simp add: taskDoneEventInsert_def)
qed

lemma done_event_idle:
  assumes "\<And>t. t \<in> set (tasks db) \<Longrightarrow> t_id t = tid \<Longrightarrow> t_queue t = queue \<Longrightarrow>
      t_stamp t \<noteq> Some (stamp seed terminal) \<or> (queue, taskDoneEventName tid) \<in> event_keys db"
  shows "s_exec (taskDoneEventInsert seed queue tid terminal res) db = Inr (db, 0)"
proof -
  have "stamped_tasks seed terminal (\<lambda>f. t_id f = tid \<and> t_queue f = queue \<and>
      (t_queue f, taskDoneEventName tid) \<notin> e_key ` set (events db)) db = []"
    using assms by (auto simp: stamped_tasks_def filter_empty_conv event_keys_def)
  then show ?thesis by (simp add: taskDoneEventInsert_def)
qed

lemma task_done_idle:
  assumes "unwoken seed db" "\<And>t. t \<in> set (tasks db) \<Longrightarrow> t_id t = tid \<Longrightarrow> t_queue t = queue \<Longrightarrow>
      t_stamp t \<noteq> Some (stamp seed terminal) \<or> (queue, taskDoneEventName tid) \<in> event_keys db"
  shows "exec_all (taskDone seed queue tid terminal res) db = Inr (db, [0, 0, 0, 0, 0])"
proof -
  have "s_exec (taskDoneEventInsert seed queue tid terminal res) db = Inr (db, 0)"
    using assms(2) by (rule done_event_idle)
  then show ?thesis using wake_nothing[OF assms(1)] by (simp add: taskDone_def)
qed

lemma task_done_inv:
  assumes "owed queue tid db" "unwoken seed db" "t \<in> set (tasks db)" "t_id t = tid" "t_queue t = queue"
    "t_stamp t = Some (stamp seed terminal)" "stored_within epoch_bounds (t_fence_at t)"
    "exec_all (taskDone seed queue tid terminal res) db = Inr (db', ns)"
  shows "inv db'"
proof (cases "(queue, taskDoneEventName tid) \<in> event_keys db")
  case True
  then have "inv db" using assms(1) by (simp add: owed_def inv_def insert_absorb)
  moreover have "exec_all (taskDone seed queue tid terminal res) db = Inr (db, [0, 0, 0, 0, 0])"
    by (rule task_done_idle[OF assms(2)]) (use True in simp)
  then have "db' = db" using assms(8) by simp
  ultimately show ?thesis by simp
next
  case False
  let ?e = "\<lparr>e_queue = queue, e_name = taskDoneEventName tid, e_payload = Text (encodeTaskOutcome res),
        e_emitted_at = t_fence_at t, e_stamp = Some (stamp seed ''event''), e_fence_at = t_fence_at t\<rparr>"
  let ?db = "db\<lparr>events := events db @ [?e]\<rparr>"
  have key: "e_key ?e = (queue, taskDoneEventName tid)" by (simp add: e_key_def)
  have rows: "rows_ok db" using assms(1) by (simp add: owed_def)
  then have k: "keys_ok db" by (simp add: rows_ok_def)
  have E: "event_keys ?db = insert (queue, taskDoneEventName tid) (event_keys db)"
    by (auto simp: event_keys_def key)
  have e: "exec_all (wakeWaiters seed queue (taskDoneEventName tid) ''woken-waits-gone'') ?db = Inr (db', tl ns)"
    using exec_step[OF done_event_exec[OF keys_okD(1)[OF k] assms(3-6) False] assms(8)[unfolded taskDone_def]]
    by auto
  show ?thesis
  proof (rule wake_inv[OF _ _ _ _ _ _ _ e])
    show "rows_ok ?db"
      using rows False key assms(7)
      by (auto simp: rows_ok_def keys_ok_def keyed_def event_ok_def event_keys_def)
    show "units_ok (event_keys ?db) ?db" using assms(1) E by (simp add: owed_def)
    show "waits_ok (event_keys db) ?db" using assms(1) by (simp add: owed_def)
    show "event_keys ?db \<subseteq> insert (queue, taskDoneEventName tid) (event_keys db)" using E by simp
    show "\<exists>e\<in>set (events ?db). e_key e = (queue, taskDoneEventName tid) \<and> e_stamp e = Some (stamp seed ''event'')"
      using key by auto
    show "stored_within epoch_bounds (e_fence_at x)"
      if "x \<in> set (events ?db)" "e_stamp x = Some (stamp seed ''event'')" for x
      using that assms(2,7) by (auto simp: unwoken_def)
    show "\<forall>r\<in>set (runs ?db). r_stamp r \<noteq> Some (stamp seed ''wake-runs'')"
      using assms(2) by (simp add: unwoken_def)
  qed
qed

end
