(* ===== verification/Placing.thy ===== *)
theory Placing
  imports Ending
begin

text \<open>
  The statements that place a successor behind a run a batch has just ended, executed on an
  orphaned unit: the insert of the successor, the bookkeeping of its task, the saga's pass with
  its phase marker, and the same statements once a run holds the successor's identity.
\<close>

section \<open>What the batches share\<close>

text \<open>The task a terminal batch names is the task of the run it ends.\<close>

definition names_task :: "string \<Rightarrow> string \<Rightarrow> db \<Rightarrow> bool" where
  "names_task tid rid db = (\<forall>r\<in>set (runs db). r_id r = rid \<longrightarrow> r_task r = tid)"

lemma unwoken_keep [simp]:
  "unwoken seed (put_task t db) = unwoken seed db" "unwoken seed (drop_waits p db) = unwoken seed db"
  "unwoken seed (db\<lparr>checkpoints := cs\<rparr>) = unwoken seed db" "unwoken seed (db\<lparr>waits := ws\<rparr>) = unwoken seed db"
  by (simp_all add: unwoken_def)

lemma unwoken_put_run:
  "unwoken seed db \<Longrightarrow> r_stamp r \<noteq> Some (stamp seed ''wake-runs'') \<Longrightarrow> unwoken seed (put_run r db)"
  by (auto simp: unwoken_def in_put_run)

lemma unwoken_add_run:
  "unwoken seed db \<Longrightarrow> r_stamp r \<noteq> Some (stamp seed ''wake-runs'') \<Longrightarrow> unwoken seed (add_run r db)"
  by (auto simp: unwoken_def)

lemma exec_append:
  assumes "exec_all (xs @ ys) db = Inr (db', ns)"
  obtains db1 ms ks where "exec_all xs db = Inr (db1, ms)" "exec_all ys db1 = Inr (db', ks)"
  using assms by (auto simp: exec_all_append split: sum.splits)

lemma exec_cons:
  assumes "exec_all (s # ss) db = Inr (db', ns)"
  obtains d n ms where "s_exec s db = Inr (d, n)" "exec_all ss d = Inr (db', ms)" "ns = n # ms"
  using assms by (auto split: sum.splits)

lemma waitsGone_exec:
  assumes "keyed r_id (runs db)" "r \<in> set (runs db)" "r_stamp r = Some (stamp seed after)"
  shows "\<exists>n. s_exec (waitsGone seed (r_id r) after) db =
    Inr (drop_waits (\<lambda>w. w_run w = r_id r \<and> True) db, n)"
proof -
  have "stamped_runs seed after (\<lambda>f. r_id f = r_id r) db = [r]"
    by (rule stamped_run_one[OF assms(1,2) _ assms(3)]) simp_all
  then show ?thesis unfolding waitsGone_def using runs_to_waits_one by blast
qed

lemma dead_fields [simp]:
  "r_id (complete_set now res d r) = r_id r" "r_queue (complete_set now res d r) = r_queue r"
  "r_task (complete_set now res d r) = r_task r" "r_attempt (complete_set now res d r) = r_attempt r"
  "r_state (complete_set now res d r) = Completed"
  "r_id (fail_set now res d r) = r_id r" "r_queue (fail_set now res d r) = r_queue r"
  "r_task (fail_set now res d r) = r_task r" "r_attempt (fail_set now res d r) = r_attempt r"
  "r_state (fail_set now res d r) = Failed"
  "r_id (timeout_set now d r) = r_id r" "r_queue (timeout_set now d r) = r_queue r"
  "r_task (timeout_set now d r) = r_task r" "r_attempt (timeout_set now d r) = r_attempt r"
  "r_state (timeout_set now d r) = Failed"
  by (simp_all add: complete_set_def fail_set_def timeout_set_def)

lemma run_ok_dead:
  assumes "run_ok r"
  shows "run_ok (stamp_run seed name x (complete_set now res d r))"
    "run_ok (stamp_run seed name x (fail_set now res d r))"
    "run_ok (stamp_run seed name x (timeout_set now d r))"
  using assms by (simp_all add: run_ok_def complete_set_def fail_set_def timeout_set_def)

section \<open>Joins over one run\<close>

lemma distinct_pairs:
  "distinct rs \<Longrightarrow> (\<And>r. distinct (g r)) \<Longrightarrow> distinct (concat (map (\<lambda>r. map (Pair r) (g r)) rs))"
  by (induction rs) (auto simp: distinct_map inj_on_def)

lemma distinct_joined:
  assumes "keyed r_id (runs db)" "keyed t_id (tasks db)"
  shows "distinct (joined db)"
proof -
  have "distinct (runs db)" "distinct (tasks db)" using assms by (simp_all add: keyed_def distinct_map)
  then show ?thesis unfolding joined_def by (intro distinct_pairs) simp_all
qed

lemma in_joined [simp]:
  "(r, t) \<in> set (joined db) \<longleftrightarrow> r \<in> set (runs db) \<and> t \<in> set (tasks db) \<and> runOwnedByTask r t"
  by (auto simp: joined_def)

lemma distinct_single:
  assumes "distinct xs" "set xs = {x}"
  shows "xs = [x]"
proof -
  obtain y ys where xs: "xs = y # ys" using assms(2) by (cases xs) auto
  then have "y = x" "set ys \<subseteq> {x}" "x \<notin> set ys" using assms by auto
  then show ?thesis using xs by (cases ys) auto
qed

lemma joined_one:
  assumes "keyed r_id (runs db)" "keyed t_id (tasks db)" "r \<in> set (runs db)" "t \<in> set (tasks db)"
    "runOwnedByTask r t" "\<And>f u. P (f, u) \<Longrightarrow> r_id f = r_id r"
  shows "filter P (joined db) = (if P (r, t) then [(r, t)] else [])"
proof -
  have only: "f = r \<and> u = t" if "(f, u) \<in> set (joined db)" "P (f, u)" for f u
  proof -
    have f: "f = r" using that assms(6)[OF that(2)] run_table.unique[OF assms(1) _ assms(3)] by simp
    then have "t_id u = t_id t" using that(1) assms(5) by (simp add: runOwnedByTask_def)
    then show ?thesis using f that(1) task_table.unique[OF assms(2) _ assms(4)] by simp
  qed
  show ?thesis
  proof (cases "P (r, t)")
    case True
    have "set (filter P (joined db)) = {(r, t)}"
    proof (intro equalityI subsetI)
      fix x assume "x \<in> set (filter P (joined db))"
      then have "(fst x, snd x) \<in> set (joined db)" "P (fst x, snd x)" by simp_all
      then show "x \<in> {(r, t)}" using only[of "fst x" "snd x"] by (metis prod.collapse singletonI)
    qed (use True assms(3-5) in simp)
    then show ?thesis
      using distinct_single[OF distinct_filter[OF distinct_joined[OF assms(1,2)]]] True by simp
  next
    case False
    have "\<not> P x" if x: "x \<in> set (joined db)" for x
    proof (cases x)
      case (Pair f u)
      then show ?thesis using only[of f u] x False by blast
    qed
    then have "filter P (joined db) = []" by (simp add: filter_empty_conv)
    then show ?thesis using False by simp
  qed
qed

section \<open>The successor's insert\<close>

lemma orphaned_owned: "orphaned r t db \<Longrightarrow> runOwnedByTask r t"
  using orphanedD(6,7) by (simp add: runOwnedByTask_def)

lemma failureSuccessor_exec:
  assumes "orphaned r t db" "r_id r = rid" "r_stamp r = Some (stamp seed fence)"
  shows "s_exec (failureSuccessor seed nm fence sid rid st delay adm) db =
    (if adm db r t then ins_run (successor_run seed nm sid st delay r) db else Inr (db, 0))"
proof -
  note o = orphanedD[OF assms(1)]
  have "filter (\<lambda>(f, t). r_id f = rid \<and> r_stamp f = Some (stamp seed fence) \<and> adm db f t \<and>
      \<not> successorOwned db sid (r_task f) (cell_plus (r_attempt f) (Num 1))) (joined db) =
    (if adm db r t then [(r, t)] else [])"
    using joined_one[OF keys_okD(2,1)[OF o(3)] o(4,5) orphaned_owned[OF assms(1)],
        of "\<lambda>(f, t). r_id f = rid \<and> r_stamp f = Some (stamp seed fence) \<and> adm db f t \<and>
          \<not> successorOwned db sid (r_task f) (cell_plus (r_attempt f) (Num 1))"]
      assms(2,3) orphaned_successorOwned[OF assms(1)] by simp
  then show ?thesis by (simp add: failureSuccessor_def)
qed

text \<open>A run already holds the successor's identity.\<close>

lemma failureSuccessor_held:
  assumes "keyed r_id (runs db)" "r \<in> set (runs db)" "r_id r = rid" "n \<in> set (runs db)" "r_id n = sid"
    "r_task n = r_task r" "r_attempt n = cell_plus (r_attempt r) (Num 1)" "stored_integer (r_attempt r)"
  shows "s_exec (failureSuccessor seed nm fence sid rid st delay adm) db = Inr (db, 0)"
proof -
  have "successorOwned db sid (r_task f) (cell_plus (r_attempt f) (Num 1))"
    if "f \<in> set (runs db)" "r_id f = rid" for f
  proof -
    have "f = r" using run_table.unique[OF assms(1) that(1) assms(2)] that assms(3) by simp
    then show ?thesis using assms(4-8) by (cases "r_attempt r") (auto simp: successorOwned_def)
  qed
  then have "filter (\<lambda>(f, t). r_id f = rid \<and> r_stamp f = Some (stamp seed fence) \<and> adm db f t \<and>
      \<not> successorOwned db sid (r_task f) (cell_plus (r_attempt f) (Num 1))) (joined db) = []"
    by (auto simp: filter_empty_conv)
  then show ?thesis by (simp add: failureSuccessor_def)
qed

lemma runs_to_tasks_unstamped:
  assumes "\<And>s. s \<in> set (runs db) \<Longrightarrow> r_stamp s \<noteq> Some (stamp seed fence)"
  shows "s_exec (runs_to_tasks seed nm fence q w set_to narrow rows) db = Inr (db, 0)"
proof -
  have "stamped_runs seed fence (\<lambda>f. w f \<and> r_queue f = q) db = []"
    using assms by (auto simp: stamped_runs_def filter_empty_conv)
  then show ?thesis by (rule runs_to_tasks_none) simp
qed

lemma checkpointWrite_unstamped:
  assumes "\<And>s. s \<in> set (runs db) \<Longrightarrow> r_stamp s \<noteq> Some (stamp seed fence)"
  shows "s_exec (checkpointWrite seed nm fence rid cname state) db = Inr (db, 0)"
  using assms by (auto simp: checkpointWrite_def stamped_runs_def filter_empty_conv
      dest: filter_eq_ConsD split: list.splits)

section \<open>The bookkeeping behind a successor\<close>

text \<open>The rows of a batch that has stamped the ended run and nothing else.\<close>

definition solo :: "string \<Rightarrow> string \<Rightarrow> run \<Rightarrow> db \<Rightarrow> bool" where
  "solo seed fence r db =
     (r_stamp r = Some (stamp seed fence) \<and>
      (\<forall>s\<in>set (runs db). s \<noteq> r \<longrightarrow> \<not> stamped_by seed (r_stamp s)) \<and>
      (\<forall>t\<in>set (tasks db). \<not> stamped_by seed (t_stamp t)) \<and>
      (\<forall>e\<in>set (events db). \<not> stamped_by seed (e_stamp e)))"

lemma solo_stamps:
  assumes "solo seed fence r db"
  shows "s \<in> set (runs db) \<Longrightarrow> nm \<noteq> fence \<Longrightarrow> r_stamp s \<noteq> Some (stamp seed nm)"
    "t \<in> set (tasks db) \<Longrightarrow> t_stamp t \<noteq> Some (stamp seed nm)"
    "e \<in> set (events db) \<Longrightarrow> e_stamp e \<noteq> Some (stamp seed nm)"
proof -
  show "r_stamp s \<noteq> Some (stamp seed nm)" if "s \<in> set (runs db)" "nm \<noteq> fence"
  proof (cases "s = r")
    case True
    then show ?thesis using assms that(2) by (simp add: solo_def)
  next
    case False
    then have "\<not> stamped_by seed (r_stamp s)" using assms that(1) by (simp add: solo_def)
    then show ?thesis using stamped_byI by blast
  qed
  show "t_stamp t \<noteq> Some (stamp seed nm)" if "t \<in> set (tasks db)"
    using assms that stamped_byI unfolding solo_def by blast
  show "e_stamp e \<noteq> Some (stamp seed nm)" if "e \<in> set (events db)"
    using assms that stamped_byI unfolding solo_def by blast
qed

lemma solo_unwoken: "solo seed fence r db \<Longrightarrow> fence \<noteq> ''wake-runs'' \<Longrightarrow> unwoken seed db"
  using solo_stamps(1)[of seed fence r db _ "''wake-runs''"] solo_stamps(3)[of seed fence r db _ "''event''"]
  unfolding unwoken_def by metis

lemma solo_put:
  assumes "fresh seed db" "r_stamp r = Some (stamp seed fence)" "r_id r \<in> r_id ` set (runs db)"
  shows "solo seed fence r (put_run r db)"
proof -
  have "\<not> stamped_by seed (r_stamp s)" if "s \<in> set (runs (put_run r db))" "s \<noteq> r" for s
    using that assms(1) by (simp add: fresh_def in_put_run)
  then show ?thesis using assms(1,2) unfolding solo_def fresh_def put_tables by blast
qed

lemma solo_checkpoints [simp]: "solo seed fence r (db\<lparr>checkpoints := cs\<rparr>) = solo seed fence r db"
  by (simp add: solo_def)

lemma book_exec:
  assumes "orphaned r t db" "solo seed fence r db" "nm \<noteq> fence" "runs d = runs db @ [n]" "tasks d = tasks db"
    "r_id n \<notin> r_id ` set (runs db)" "r_id n = sid" "r_queue n = queue" "r_queue r = queue" "r_task n = r_task r"
    "r_stamp n = Some (stamp seed nm)" "t_id (set_to d t) = t_id t"
  shows "s_exec (runs_to_tasks seed tnm nm queue (\<lambda>f. r_id f = sid) set_to (\<lambda>db t. live (t_state t)) rows) d =
      Inr (put_task (stamp_task seed tnm (r_fence_at n) (set_to d t)) d, 1)"
proof -
  note o = orphanedD[OF assms(1)]
  have k: "keyed r_id (runs d)" using keys_okD(2)[OF o(3)] assms(4,6) by (auto simp: keyed_def)
  have src: "stamped_runs seed nm (\<lambda>f. r_id f = sid \<and> r_queue f = queue) d = [n]"
    by (rule stamped_run_one[OF k _ _ assms(11)]) (use assms(4,7,8) in auto)
  show ?thesis
    using runs_to_tasks_one[of d t seed nm "\<lambda>f. r_id f = sid" queue n "\<lambda>db t. live (t_state t)" set_to tnm rows]
      keys_okD(1)[OF o(3)] src o(5-8) assms(5,9,10,12) by simp
qed

lemma placed_reads:
  assumes "orphaned r t db" "solo seed fence r db" "nm \<noteq> fence" "runs d = runs db @ [n]"
    "r_id n \<notin> r_id ` set (runs db)" "r_stamp n = Some (stamp seed nm)"
  shows "USER_ATTEMPTS_FROM seed fence (r_id r) d t = cell_minus (r_attempt r) (t_infra t)"
    "stampedRunState seed nm (r_id n) d t = r_state n"
    "INFRA_RETRIES_FROM seed nm (r_id n) d t =
       cell_minus (cell_minus (r_attempt n) (Num 1)) (t_attempts t)"
proof -
  note o = orphanedD[OF assms(1)]
  have k: "keyed r_id (runs d)" using keys_okD(2)[OF o(3)] assms(4,5) by (auto simp: keyed_def)
  have "find (\<lambda>f. r_id f = r_id r \<and> r_stamp f = Some (stamp seed fence)) (runs d) = Some r"
    by (rule find_stamped[OF k]) (use o(4) assms(2,4) in \<open>auto simp: solo_def\<close>)
  then show "USER_ATTEMPTS_FROM seed fence (r_id r) d t = cell_minus (r_attempt r) (t_infra t)"
    by (simp add: USER_ATTEMPTS_FROM_def)
  have "find (\<lambda>f. r_id f = r_id n \<and> r_stamp f = Some (stamp seed nm)) (runs d) = Some n"
    by (rule find_stamped[OF k]) (use assms(4,6) in auto)
  then show "stampedRunState seed nm (r_id n) d t = r_state n"
    "INFRA_RETRIES_FROM seed nm (r_id n) d t =
       cell_minus (cell_minus (r_attempt n) (Num 1)) (t_attempts t)"
    by (simp_all add: stampedRunState_def INFRA_RETRIES_FROM_def)
qed

section \<open>The saga's pass\<close>

lemma successor_fields [simp]:
  "r_id (successor_run seed nm sid st delay f) = sid"
  "r_queue (successor_run seed nm sid st delay f) = r_queue f"
  "r_task (successor_run seed nm sid st delay f) = r_task f"
  "r_attempt (successor_run seed nm sid st delay f) = cell_plus (r_attempt f) (Num 1)"
  "r_state (successor_run seed nm sid st delay f) = st"
  "r_available (successor_run seed nm sid st delay f) = cell_plus (r_fence_at f) (Num delay)"
  "r_stamp (successor_run seed nm sid st delay f) = Some (stamp seed nm)"
  "r_fence_at (successor_run seed nm sid st delay f) = r_fence_at f"
  by (simp_all add: successor_run_def carried_def new_run_def)

lemma successor_run_ok:
  assumes "r_fence_at f = Num now" "stored_within epoch_bounds (Num (now + delay))"
    "stored_within run_attempt_bounds (cell_plus (r_attempt f) (Num 1))" "st = Pending \<or> st = Sleeping"
  shows "run_ok (successor_run seed nm sid st delay f)"
  using assms
  by (auto simp: run_ok_def successor_run_def carried_def new_run_def bounds_defs const_defs)

lemma queued_state_cases: "queued_state delay = Pending \<or> queued_state delay = Sleeping"
  by (simp add: queued_state_def)

text \<open>What a batch that placed a successor amounts to.\<close>

definition placed :: "string \<Rightarrow> string \<Rightarrow> string \<Rightarrow> string \<Rightarrow> run \<Rightarrow> task \<Rightarrow> db \<Rightarrow> db \<Rightarrow> bool" where
  "placed seed nm tnm sid r t db db' =
     (inv db' \<and> events db' = events db \<and>
      (\<exists>n. runs db' = runs db @ [n] \<and> r_id n = sid \<and> r_task n = r_task r \<and>
           r_attempt n = cell_plus (r_attempt r) (Num 1) \<and> r_stamp n = Some (stamp seed nm)) \<and>
      (\<exists>t'. tasks db' = tasks (put_task t' db) \<and> t_id t' = t_id t \<and> t_stamp t' = Some (stamp seed tnm)))"

lemma ins_successor:
  assumes "orphaned r t db" "s_exec s db = ins_run n db" "r_id n = sid" "s_exec s db = Inr (d, k)"
  shows "d = add_run n db" "k = 1" "sid \<notin> r_id ` set (runs db)"
  using ins_run_Inr[of n db d k] assms by simp_all

lemma sagaPass_exec:
  assumes "orphaned r t db" "solo seed fence r db" "fence \<noteq> ''rollback-pass''" "r_id r = rid" "r_queue r = queue"
    "r_fence_at r = Num now" "adm db r t \<Longrightarrow> stored_within epoch_bounds (Num (now + delay))"
    "exec_all (sagaPass seed queue rid sid fence entering delay adm) db = Inr (db', ns)"
  shows "if pass_admits adm db r t
    then placed seed ''rollback-pass'' ''task-rolling-back'' sid r t db db'
    else db' = db"
proof (cases "pass_admits adm db r t")
  case False
  have st: "r_stamp r = Some (stamp seed fence)" using assms(2) by (simp add: solo_def)
  have none: "r_stamp s \<noteq> Some (stamp seed ''rollback-pass'')" if "s \<in> set (runs db)" for s
    using solo_stamps(1)[OF assms(2) that] assms(3) by metis
  have "s_exec (failureSuccessor seed ''rollback-pass'' fence sid rid (queued_state delay) delay (pass_admits adm)) db = Inr (db, 0)"
    using failureSuccessor_exec[OF assms(1,4) st] False by simp
  then have "db' = db"
    using assms(8) none
    by (auto simp: sagaPass_def runs_to_tasks_unstamped checkpointWrite_unstamped split: option.splits)
  then show ?thesis using False by simp
next
  case True
  let ?n = "successor_run seed ''rollback-pass'' sid (queued_state delay) delay r"
  let ?d = "add_run ?n db"
  let ?fs = "failureSuccessor seed ''rollback-pass'' fence sid rid (queued_state delay) delay (pass_admits adm)"
  let ?set = "\<lambda>db t. t\<lparr>t_attempts := USER_ATTEMPTS_FROM seed fence rid db t,
      t_max_attempts := cell_plus (USER_ATTEMPTS_FROM seed fence rid db t) (Num 1),
      t_state := stampedRunState seed ''rollback-pass'' sid db t, t_last_run := Some sid\<rparr>"
  let ?book = "runs_to_tasks seed ''task-rolling-back'' ''rollback-pass'' queue (\<lambda>f. r_id f = sid) ?set
      (\<lambda>db t. live (t_state t)) (Some 1)"
  note o = orphanedD[OF assms(1)]
  have st: "r_stamp r = Some (stamp seed fence)" using assms(2) by (simp add: solo_def)
  have fs: "s_exec ?fs db = ins_run ?n db" using failureSuccessor_exec[OF assms(1,4) st] True by simp
  obtain d k ms where step: "s_exec ?fs db = Inr (d, k)"
    and tail: "exec_all (tl (sagaPass seed queue rid sid fence entering delay adm)) d = Inr (db', ms)"
    using assms(8) by (auto simp: sagaPass_def split: sum.splits)
  note ins = ins_successor[OF assms(1) fs _ step, of sid]
  have free: "sid \<notin> r_id ` set (runs db)" and d: "d = ?d" using ins by simp_all
  obtain a m i where acc: "t_attempts t = Num a" "t_max_attempts t = Num m" "t_infra t = Num i"
    "r_attempt r = Num (a + i + 1)" "0 \<le> a" "a < m" "m \<le> MAX_COUNT" "0 \<le> i" "i \<le> INFRA_RETRY_CAP"
    using accountingD[OF o(9)] by blast
  have room: "a + 1 < MAX_COUNT" using True acc by (simp add: pass_admits_def max_attempts_bounds_def)
  have n_ok: "run_ok ?n"
    by (rule successor_run_ok[OF assms(6) _ _ queued_state_cases])
      (use True assms(7) acc room in \<open>auto simp: pass_admits_def run_attempt_bounds_def MAX_RUN_ORDINAL_def\<close>)
  have book: "s_exec ?book dd = Inr (put_task (stamp_task seed ''task-rolling-back'' (Num now) (?set dd t)) dd, 1)"
    if "runs dd = runs db @ [?n]" "tasks dd = tasks db" for dd
    using book_exec[OF assms(1,2) _ that, of "''rollback-pass''" sid queue ?set "''task-rolling-back''" "Some 1"]
      assms(3,5,6) free by simp
  have reads: "?set dd t = t\<lparr>t_attempts := Num (a + 1), t_max_attempts := Num (a + 2),
      t_state := queued_state delay, t_last_run := Some sid\<rparr>"
    if "runs dd = runs db @ [?n]" for dd
    using placed_reads(1,2)[OF assms(1,2) _ that, of "''rollback-pass''"] assms(3,4) free acc by simp
  let ?t = "stamp_task seed ''task-rolling-back'' (Num now) (t\<lparr>t_attempts := Num (a + 1), t_max_attempts := Num (a + 2),
      t_state := queued_state delay, t_last_run := Some sid\<rparr>)"
  have "accounts_for r ?n ?t"
    using n_ok acc room queued_state_cases[of delay] assms(6)
    by (auto simp: accounts_for_def storedCurrentRunAccounting_def bounds_defs MAX_RUN_ORDINAL_def)
  then have i: "inv (put_task ?t ?d)"
    by (rule place[OF assms(1)]) (use free in \<open>simp_all add: same_defs\<close>)
  have mem: "?n \<in> set (runs (put_task ?t ?d))" by simp
  have "inv db' \<and> runs db' = runs db @ [?n] \<and> tasks db' = tasks (put_task ?t db) \<and> events db' = events db"
  proof (cases entering)
    case None
    then have "db' = put_task ?t ?d"
      using tail d book[of ?d] reads[of ?d] by (simp add: sagaPass_def)
    then show ?thesis using i by (simp add: put_task_def)
  next
    case (Some reason)
    let ?c = "upsert_checkpoint (checkpoint_row ?n SAGA_PHASE_CHECKPOINT reason) (checkpoints db)"
    have cw: "s_exec (checkpointWrite seed ''rolling-back'' ''rollback-pass'' sid SAGA_PHASE_CHECKPOINT reason) ?d =
        Inr (?d\<lparr>checkpoints := ?c\<rparr>, upsert_count (checkpoint_row ?n SAGA_PHASE_CHECKPOINT reason) (checkpoints db))"
      using checkpointWrite_exec[of ?d ?n sid seed "''rollback-pass''"] n_ok keys_okD(2)[OF inv_keys[OF i]]
      by (simp add: run_ok_def)
    have "db' = put_task ?t (?d\<lparr>checkpoints := ?c\<rparr>)"
      using tail d cw book[of "?d\<lparr>checkpoints := ?c\<rparr>"] reads[of "?d\<lparr>checkpoints := ?c\<rparr>"] Some
      by (simp add: sagaPass_def)
    then have "db' = (put_task ?t ?d)\<lparr>checkpoints := ?c\<rparr>" by (simp add: put_task_def)
    then show ?thesis using inv_checkpoint[OF i mem n_ok, of SAGA_PHASE_CHECKPOINT reason] by (simp add: put_task_def)
  qed
  moreover have "t_id ?t = t_id t" "t_stamp ?t = Some (stamp seed ''task-rolling-back'')" by simp_all
  ultimately show ?thesis using True unfolding placed_def by (metis successor_fields(1,3,4,7))
qed

section \<open>The tails of a batch that ended a run\<close>

text \<open>The terminal arm: the task ends, the run's waits go, the completion event is recorded.
  The statements between act on no row.\<close>

lemma terminal_tail:
  assumes "orphaned r t db" "solo seed fence r db" "fence \<noteq> ''wake-runs''" "r_id r = rid" "r_queue r = queue"
    "r_task r = task" "r_fence_at r = Num now" "valid_clock now"
    "narrow db t" "same_task t (set_to db t)" "\<not> live (t_state (set_to db t))" "outcome_ok (set_to db t)"
    "counters_ok (set_to db t)" "r_state r \<noteq> Sleeping"
    "\<And>d. runs d = runs db \<Longrightarrow> exec_all mid d = Inr (d, zs)"
    "exec_all (runs_to_tasks seed tname fence queue (\<lambda>f. r_id f = rid) set_to narrow (Some 1) #
       mid @ waitsGone seed rid fence # taskDone seed queue task tname res) db = Inr (db', ns)"
  shows "inv db'"
proof -
  note o = orphanedD[OF assms(1)]
  have st: "r_stamp r = Some (stamp seed fence)" using assms(2) by (simp add: solo_def)
  let ?t = "stamp_task seed tname (Num now) (set_to db t)"
  let ?d = "put_task ?t db"
  let ?e = "drop_waits (\<lambda>w. w_run w = rid \<and> True) ?d"
  have src: "stamped_runs seed fence (\<lambda>f. r_id f = rid \<and> r_queue f = queue) db = [r]"
    by (rule stamped_run_one[OF keys_okD(2)[OF o(3)] o(4) _ st]) (use assms(4,5) in auto)
  have s1: "s_exec (runs_to_tasks seed tname fence queue (\<lambda>f. r_id f = rid) set_to narrow (Some 1)) db = Inr (?d, 1)"
    using runs_to_tasks_one[OF keys_okD(1)[OF o(3)] o(5) src o(6), where narrow = narrow and set_to = set_to]
      o(7) assms(5,7,9,10) by (simp add: same_task_def)
  have "owed (t_queue t) (t_id t) ?d"
    by (rule end_unit[OF assms(1)])
      (use assms(10-13) in \<open>simp_all add: same_task_def outcome_ok_def counters_ok_def\<close>)
  then have ow: "owed queue task ?e"
    using owed_drop[of queue task ?d r] o(4,6,7) assms(4-6,14) by simp
  obtain n where s2: "s_exec (waitsGone seed rid fence) ?d = Inr (?e, n)"
    using waitsGone_exec[of ?d r seed fence] keys_okD(2)[OF o(3)] o(4) st assms(4) by auto
  obtain ms where m: "exec_all (mid @ waitsGone seed rid fence # taskDone seed queue task tname res) ?d = Inr (db', ms)"
    using exec_step[OF s1 assms(16)] by blast
  then obtain ks where "exec_all (waitsGone seed rid fence # taskDone seed queue task tname res) ?d = Inr (db', ks)"
    using assms(15)[of ?d] by (auto simp: exec_all_append simp del: exec_all.simps split: sum.splits)
  then obtain js where e: "exec_all (taskDone seed queue task tname res) ?e = Inr (db', js)"
    using exec_step[OF s2] by blast
  show ?thesis
  proof (rule task_done_inv[OF ow _ _ _ _ _ _ e, of ?t])
    show "unwoken seed ?e" using solo_unwoken[OF assms(2,3)] by simp
    show "?t \<in> set (tasks ?e)" using o(5) assms(10) by (auto simp: in_put_task same_task_def)
    show "stored_within epoch_bounds (t_fence_at ?t)"
      using assms(8) by (simp add: valid_clock_def epoch_bounds_def)
  qed (use o assms(5,6,10) in \<open>simp_all add: same_task_def\<close>)
qed

text \<open>A successor was placed: the terminal arm matches nothing and no event is recorded.\<close>

lemma placed_runs:
  assumes "placed seed nm tnm sid r t db d" "s \<in> set (runs d)"
  shows "s \<in> set (runs db) \<or> r_stamp s = Some (stamp seed nm)"
  using assms by (auto simp: placed_def)

lemma placed_tasks:
  assumes "placed seed nm tnm sid r t db d" "u \<in> set (tasks d)"
  shows "u \<in> set (tasks db) \<or> t_stamp u = Some (stamp seed tnm)"
  using assms by (auto simp: placed_def in_put_task)

lemma placed_unwoken:
  assumes "placed seed nm tnm sid r t db d" "unwoken seed db" "nm \<noteq> ''wake-runs''"
  shows "unwoken seed d"
proof -
  have "r_stamp s \<noteq> Some (stamp seed ''wake-runs'')" if "s \<in> set (runs d)" for s
    using placed_runs[OF assms(1) that] assms(2,3) by (auto simp: unwoken_def)
  then show ?thesis using assms(1,2) by (simp add: unwoken_def placed_def)
qed

lemma placed_tail:
  assumes "orphaned r t db" "solo seed fence r db" "fence \<noteq> ''wake-runs''" "r_id r = rid" "r_state r \<noteq> Sleeping"
    "placed seed nm tnm sid r t db d" "nm \<noteq> ''wake-runs''" "tname \<noteq> tnm"
    "exec_all (waitsGone seed rid fence # taskDone seed queue task tname res) d = Inr (db', ns)"
  shows "db' = drop_waits (\<lambda>w. w_run w = rid \<and> True) d" "inv db'"
proof -
  have st: "r_stamp r = Some (stamp seed fence)" using assms(2) by (simp add: solo_def)
  have i: "inv d" and mem: "r \<in> set (runs d)"
    using assms(6) orphanedD(4)[OF assms(1)] by (auto simp: placed_def)
  let ?e = "drop_waits (\<lambda>w. w_run w = rid \<and> True) d"
  obtain n where s: "s_exec (waitsGone seed rid fence) d = Inr (?e, n)"
    using waitsGone_exec[OF keys_okD(2)[OF inv_keys[OF i]] mem st] assms(4) by auto
  have u: "unwoken seed ?e"
    using placed_unwoken[OF assms(6) solo_unwoken[OF assms(2,3)] assms(7)] by simp
  have "exec_all (taskDone seed queue task tname res) ?e = Inr (?e, [0, 0, 0, 0, 0])"
  proof (rule task_done_idle[OF u])
    fix u assume "u \<in> set (tasks ?e)"
    then have "u \<in> set (tasks db) \<or> t_stamp u = Some (stamp seed tnm)"
      using placed_tasks[OF assms(6)] by simp
    then show "t_stamp u \<noteq> Some (stamp seed tname) \<or> (queue, taskDoneEventName task) \<in> event_keys ?e"
      using solo_stamps(2)[OF assms(2)] assms(8) by auto
  qed
  then show eq: "db' = ?e" using exec_step[OF s assms(9)] by auto
  show "inv db'" using inv_drop[OF i mem assms(5)] assms(4) eq by simp
qed

lemma placed_owned:
  assumes "placed seed nm tnm sid r t db d" "stored_integer (r_attempt r)"
  shows "successorOwned d sid (r_task r) (cell_plus (r_attempt r) (Num 1))"
  using assms by (cases "r_attempt r") (auto simp: placed_def successorOwned_def)

lemma orphaned_integer: "orphaned r t db \<Longrightarrow> stored_integer (r_attempt r)"
  using accountingD[OF orphanedD(9)] by fastforce

lemma placed_held:
  assumes "orphaned r t db" "placed seed nm tnm sid r t db d" "r_id r = rid"
  shows "s_exec (failureSuccessor seed nm2 fence sid rid st delay adm) d = Inr (d, 0)"
proof -
  obtain n where n: "runs d = runs db @ [n]" "r_id n = sid" "r_task n = r_task r"
    "r_attempt n = cell_plus (r_attempt r) (Num 1)" using assms(2) by (auto simp: placed_def)
  have "inv d" using assms(2) by (simp add: placed_def)
  then have k: "keyed r_id (runs d)" using keys_okD(2) inv_keys by blast
  show ?thesis
    by (rule failureSuccessor_held[OF k, of r rid n sid])
      (use n assms(3) orphanedD(4)[OF assms(1)] orphaned_integer[OF assms(1)] in simp_all)
qed

lemma placed_terminal_idle:
  assumes "orphaned r t db" "solo seed fence r db" "placed seed nm tnm sid r t db d" "r_id r = rid" "nm \<noteq> fence"
    "\<And>u. t_id u = r_task r \<Longrightarrow> \<not> narrow d u"
  shows "s_exec (runs_to_tasks seed tname fence queue (\<lambda>f. r_id f = rid) set_to narrow rows) d = Inr (d, 0)"
proof -
  have k: "keyed r_id (runs db)" using keys_okD(2)[OF orphanedD(3)[OF assms(1)]] .
  have "t_id u = r_task f \<Longrightarrow> \<not> narrow d u"
    if "f \<in> set (stamped_runs seed fence (\<lambda>f. r_id f = rid \<and> r_queue f = queue) d)" for f u
  proof -
    have f: "f \<in> set (runs d)" "r_id f = rid" "r_stamp f = Some (stamp seed fence)"
      using that by (auto simp: stamped_runs_def)
    then have "f \<in> set (runs db)" using placed_runs[OF assms(3) f(1)] assms(5) by auto
    then have "f = r" using run_table.unique[OF k _ orphanedD(4)[OF assms(1)]] f(2) assms(4) by simp
    then show "t_id u = r_task f \<Longrightarrow> \<not> narrow d u" using assms(6) by simp
  qed
  then show ?thesis by (intro runs_to_tasks_none[OF refl]) blast
qed

end
