(* ===== verification/Preserve_Finish.thy ===== *)
theory Preserve_Finish
  imports Placing
begin

text \<open>
  The invariant is kept by the batches that end a run by its own worker: completion, and failure
  with its retry, its entry to the saga's rollback phase, its further passes and its terminal arm.
\<close>

section \<open>Completion\<close>

lemma complete_inv:
  assumes "inv db" "fresh seed db" "valid_clock now" "names_task task rid db"
    "run_batch (complete_batch seed now queue task rid token result) db = (db', ans)"
  shows "inv db'"
proof -
  let ?mirror = "runs_to_tasks seed ''task'' ''complete'' queue (\<lambda>f. r_id f = rid)
        (\<lambda>db t. t\<lparr>t_state := Completed, t_completed := Some result, t_cancel_at := Null\<rparr>)
        (\<lambda>db t. live (t_state t)) (Some 1)"
  have b: "run_batch (cas_runs seed now ''complete'' (complete_admits queue rid token) (complete_set now result) #
      (?mirror # waitsGone seed rid ''complete'' # taskDone seed queue task ''task'' (completed_with result))) db = (db', ans)"
    using assms(5) by (simp add: complete_batch_def)
  show ?thesis
  proof (cases rule: cas_batch_cases[OF b inv_keys[OF assms(1)] assms(2), of rid,
        case_names a1 a2 a3 lost won aborted])
    case (won r ns)
    let ?r = "stamp_run seed ''complete'' (Num now) (complete_set now result db r)"
    let ?db = "put_run ?r db"
    obtain t where t: "t \<in> set (tasks db)" "t_id t = r_task r" "t_queue t = r_queue r"
      using inv_owner assms(1) won(1) by blast
    have c: "whereClaimedRun rid queue token r" using won(2) by (simp add: complete_admits_def)
    have id: "r_id r = rid" "r_queue r = queue" "r_state r = Running" using c by (simp_all add: whereClaimedRun_def)
    have task: "r_task r = task" using assms(4) won(1) id by (simp add: names_task_def)
    have same: "same_run r ?r" by (simp add: same_run_def)
    have o: "orphaned ?r t ?db"
      by (rule die[OF assms(1) won(1) id(3) t(1,2) same _ run_ok_dead(1)[OF inv_run_ok[OF assms(1) won(1)]]]) simp
    note od = orphanedD[OF o]
    have solo: "solo seed ''complete'' ?r ?db"
      by (rule solo_put[OF assms(2)]) (use won(1) in auto)
    show ?thesis
    proof (rule terminal_tail[OF o solo, where mid = "[]" and narrow = "\<lambda>db t. live (t_state t)" and
          set_to = "\<lambda>db t. t\<lparr>t_state := Completed, t_completed := Some result, t_cancel_at := Null\<rparr>"])
      show "exec_all (?mirror # [] @ waitsGone seed rid ''complete'' #
          taskDone seed queue task ''task'' (completed_with result)) ?db = Inr (db', ns)"
        using won(4) by simp
      show "live (t_state t)" "outcome_ok (t\<lparr>t_state := Completed, t_completed := Some result, t_cancel_at := Null\<rparr>)"
        "counters_ok (t\<lparr>t_state := Completed, t_completed := Some result, t_cancel_at := Null\<rparr>)"
        using o od(8,9) live_outcome_ok[OF od(8)]
        by (simp_all add: orphaned_def outcome_ok_def counters_ok_def storedCurrentRunAccounting_def)
    qed (use task id assms(3) in \<open>simp_all add: same_task_def\<close>)
  qed (use assms(1) in \<open>auto simp: complete_admits_def whereClaimedRun_def\<close>)
qed

section \<open>Failure\<close>

lemma orphaned_checkpoint:
  assumes "orphaned r t db"
  shows "orphaned r t (db\<lparr>checkpoints := upsert_checkpoint (checkpoint_row r name state) (checkpoints db)\<rparr>)"
proof -
  note o = orphanedD[OF assms]
  have "rows_ok (db\<lparr>checkpoints := upsert_checkpoint (checkpoint_row r name state) (checkpoints db)\<rparr>)"
    by (rule rows_checkpoint[OF o(1,4,12)]) (rule orphaned_unit_queue(1)[OF assms])
  then show ?thesis using assms by (simp add: orphaned_def event_keys_def)
qed

lemma user_attempts:
  assumes "orphaned r t db" "solo seed fence r db"
  shows "USER_ATTEMPTS_FROM seed fence (r_id r) db u = cell_minus (r_attempt r) (t_infra u)"
proof -
  note o = orphanedD[OF assms(1)]
  have "find (\<lambda>f. r_id f = r_id r \<and> r_stamp f = Some (stamp seed fence)) (runs db) = Some r"
    by (rule find_stamped[OF keys_okD(2)[OF o(3)] o(4)]) (use assms(2) in \<open>simp_all add: solo_def\<close>)
  then show ?thesis by (simp add: USER_ATTEMPTS_FROM_def)
qed

lemma find_run:
  assumes "keyed r_id (runs db)" "r \<in> set (runs db)" "r_id r = rid"
  shows "find (\<lambda>p. r_id p = rid) (runs db) = Some r"
  using assms find_unique[of r_id "runs db" r rid] by (simp add: keyed_def)

lemma no_successor_open:
  assumes "orphaned r t db" "r_id r = rid"
  shows "no_successor sid rid db t"
  using find_run[OF keys_okD(2)[OF orphanedD(3)[OF assms(1)]] orphanedD(4)[OF assms(1)] assms(2)]
    orphaned_successorOwned[OF assms(1)] orphanedD(6)[OF assms(1)] by (simp add: no_successor_def)

lemma no_successor_placed:
  assumes "orphaned r t db" "placed seed nm tnm sid r t db d" "r_id r = rid" "t_id u = r_task r"
  shows "\<not> no_successor sid rid d u"
proof -
  have "inv d" and mem: "r \<in> set (runs d)"
    using assms(2) orphanedD(4)[OF assms(1)] by (auto simp: placed_def)
  then have k: "keyed r_id (runs d)" using keys_okD(2) inv_keys by blast
  show ?thesis
    using find_run[OF k mem assms(3)] placed_owned[OF assms(2) orphaned_integer[OF assms(1)]] assms(4)
    by (simp add: no_successor_def)
qed

text \<open>The successor of a user failure and the task that books it: one attempt is charged.\<close>

definition retry_booked :: "string \<Rightarrow> instant \<Rightarrow> string \<Rightarrow> duration \<Rightarrow> task \<Rightarrow> task" where
  "retry_booked seed now sid delay t =
     stamp_task seed ''task-retrying'' (Num now) (t\<lparr>t_attempts := cell_plus (t_attempts t) (Num 1),
       t_state := queued_state delay, t_last_run := Some sid\<rparr>)"

lemma retry_placed_eq:
  assumes "orphaned r t db" "solo seed ''fail'' r db" "r_id r = rid" "r_queue r = queue" "r_fence_at r = Num now"
    "retry_admits db r t" "exec_all [failureSuccessor seed ''successor'' ''fail'' sid rid (queued_state delay) delay retry_admits,
        runs_to_tasks seed ''task-retrying'' ''successor'' queue (\<lambda>f. r_id f = sid)
          (\<lambda>db t. t\<lparr>t_attempts := USER_ATTEMPTS_FROM seed ''fail'' rid db t,
                    t_state := stampedRunState seed ''successor'' sid db t, t_last_run := Some sid\<rparr>)
          (\<lambda>db t. live (t_state t)) (Some 1)] db = Inr (db', ns)"
  shows "db' = put_task (retry_booked seed now sid delay t)
      (add_run (successor_run seed ''successor'' sid (queued_state delay) delay r) db)"
    "sid \<notin> r_id ` set (runs db)"
proof -
  let ?n = "successor_run seed ''successor'' sid (queued_state delay) delay r"
  let ?d = "add_run ?n db"
  let ?fs = "failureSuccessor seed ''successor'' ''fail'' sid rid (queued_state delay) delay retry_admits"
  let ?set = "\<lambda>db t. t\<lparr>t_attempts := USER_ATTEMPTS_FROM seed ''fail'' rid db t,
      t_state := stampedRunState seed ''successor'' sid db t, t_last_run := Some sid\<rparr>"
  note o = orphanedD[OF assms(1)]
  have st: "r_stamp r = Some (stamp seed ''fail'')" using assms(2) by (simp add: solo_def)
  have fs: "s_exec ?fs db = ins_run ?n db" using failureSuccessor_exec[OF assms(1,3) st] assms(6) by simp
  obtain d k where step: "s_exec ?fs db = Inr (d, k)"
    using assms(7) by (auto split: sum.splits)
  note ins = ins_successor[OF assms(1) fs _ step, of sid]
  show free: "sid \<notin> r_id ` set (runs db)" using ins by simp
  have d: "d = ?d" using ins by simp
  obtain a i where acc: "t_attempts t = Num a" "t_infra t = Num i" "r_attempt r = Num (a + i + 1)"
    using accountingD[OF o(9)] by blast
  have "?set ?d t = t\<lparr>t_attempts := Num (a + 1), t_state := queued_state delay, t_last_run := Some sid\<rparr>"
    using placed_reads(1,2)[OF assms(1,2), of "''successor''" ?d ?n] assms(3) free acc by simp
  then show "db' = put_task (retry_booked seed now sid delay t) ?d"
    using assms(7) step d book_exec[OF assms(1,2), of "''successor''" ?d ?n sid queue ?set "''task-retrying''" "Some 1"]
      assms(4,5) free acc by (simp add: retry_booked_def)
qed

lemma retry_exec:
  assumes "orphaned r t db" "solo seed ''fail'' r db" "r_id r = rid" "r_queue r = queue" "r_fence_at r = Num now"
    "retry_admits db r t \<Longrightarrow> stored_within epoch_bounds (Num (now + delay))"
    "exec_all [failureSuccessor seed ''successor'' ''fail'' sid rid (queued_state delay) delay retry_admits,
        runs_to_tasks seed ''task-retrying'' ''successor'' queue (\<lambda>f. r_id f = sid)
          (\<lambda>db t. t\<lparr>t_attempts := USER_ATTEMPTS_FROM seed ''fail'' rid db t,
                    t_state := stampedRunState seed ''successor'' sid db t, t_last_run := Some sid\<rparr>)
          (\<lambda>db t. live (t_state t)) (Some 1)] db = Inr (db', ns)"
  shows "if retry_admits db r t then placed seed ''successor'' ''task-retrying'' sid r t db db' else db' = db"
proof (cases "retry_admits db r t")
  case False
  have st: "r_stamp r = Some (stamp seed ''fail'')" using assms(2) by (simp add: solo_def)
  have none: "r_stamp s \<noteq> Some (stamp seed ''successor'')" if "s \<in> set (runs db)" for s
    using solo_stamps(1)[OF assms(2) that] by simp
  have "s_exec (failureSuccessor seed ''successor'' ''fail'' sid rid (queued_state delay) delay retry_admits) db = Inr (db, 0)"
    using failureSuccessor_exec[OF assms(1,3) st] False by simp
  then show ?thesis using assms(7) False none by (simp add: runs_to_tasks_unstamped)
next
  case True
  let ?n = "successor_run seed ''successor'' sid (queued_state delay) delay r"
  let ?d = "add_run ?n db"
  let ?t = "retry_booked seed now sid delay t"
  note o = orphanedD[OF assms(1)]
  note eq = retry_placed_eq[OF assms(1-5) True assms(7)]
  obtain a m i where acc: "t_attempts t = Num a" "t_max_attempts t = Num m" "t_infra t = Num i"
    "r_attempt r = Num (a + i + 1)" "0 \<le> a" "a < m" "m \<le> MAX_COUNT" "0 \<le> i" "i \<le> INFRA_RETRY_CAP"
    using accountingD[OF o(9)] by blast
  have room: "a + 1 < m" using True acc by (simp add: retry_admits_def)
  have n_ok: "run_ok ?n"
    by (rule successor_run_ok[OF assms(5) _ _ queued_state_cases])
      (use True assms(6) acc room in \<open>auto simp: run_attempt_bounds_def MAX_RUN_ORDINAL_def\<close>)
  have "accounts_for r ?n ?t"
    using n_ok acc room queued_state_cases[of delay] assms(5)
    by (auto simp: accounts_for_def storedCurrentRunAccounting_def bounds_defs MAX_RUN_ORDINAL_def retry_booked_def)
  then have "inv (put_task ?t ?d)"
    by (rule place[OF assms(1)]) (use eq(2) in \<open>simp_all add: same_defs retry_booked_def\<close>)
  then have "inv db' \<and> runs db' = runs db @ [?n] \<and> tasks db' = tasks (put_task ?t db) \<and> events db' = events db"
    using eq(1) by (simp add: put_task_def)
  moreover have "t_id ?t = t_id t" "t_stamp ?t = Some (stamp seed ''task-retrying'')" by (simp_all add: retry_booked_def)
  ultimately show ?thesis using True unfolding placed_def by (metis successor_fields(1,3,4,7))
qed

lemma fail_terminal_tail:
  assumes "orphaned r t db" "solo seed ''fail'' r db" "r_id r = f_run fl" "r_queue r = f_queue fl"
    "r_task r = f_task fl" "r_fence_at r = Num now" "valid_clock now" "r_state r = Failed"
    "exec_all (fail_terminal seed tname fl # waitsGone seed (f_run fl) ''fail'' #
       taskDone seed (f_queue fl) (f_task fl) tname res) db = Inr (db', ns)"
  shows "inv db'"
proof -
  obtain a m i where acc: "t_attempts t = Num a" "t_max_attempts t = Num m" "t_infra t = Num i"
    "r_attempt r = Num (a + i + 1)" "0 \<le> a" "a < m" "1 \<le> m" "m \<le> MAX_COUNT" "0 \<le> i" "i \<le> INFRA_RETRY_CAP"
    using accountingD[OF orphanedD(9)[OF assms(1)]] by force
  let ?set = "\<lambda>db t. t\<lparr>t_attempts := USER_ATTEMPTS_FROM seed ''fail'' (f_run fl) db t,
      t_state := Failed, t_failure := Some (f_json fl)\<rparr>"
  have at: "?set db t = t\<lparr>t_attempts := Num (a + 1), t_state := Failed, t_failure := Some (f_json fl)\<rparr>"
    using user_attempts[OF assms(1,2)] assms(3) acc by simp
  show ?thesis
  proof (rule terminal_tail[OF assms(1,2) _ assms(3-7), where mid = "[]" and zs = "[]" and set_to = ?set and
        narrow = "\<lambda>db t. live (t_state t) \<and> no_successor (f_successor fl) (f_run fl) db t"])
    show "live (t_state t) \<and> no_successor (f_successor fl) (f_run fl) db t"
      using orphanedD(8)[OF assms(1)] no_successor_open[OF assms(1,3)] by simp
    show "outcome_ok (?set db t)"
      using assms(1) live_outcome_ok[OF orphanedD(8)[OF assms(1)]] by (simp add: orphaned_def outcome_ok_def)
    show "counters_ok (?set db t)"
      unfolding at using acc by (simp add: counters_ok_def bounds_defs)
  qed (use assms(8,9) in \<open>simp_all add: same_task_def fail_terminal_def\<close>)
qed

lemma fail_terminal_placed:
  assumes "orphaned r t db" "solo seed ''fail'' r db" "r_id r = f_run fl" "r_state r = Failed"
    "placed seed nm tnm (f_successor fl) r t db d" "nm \<notin> {''fail'', ''wake-runs''}" "tname \<noteq> tnm"
    "exec_all (fail_terminal seed tname fl # waitsGone seed (f_run fl) ''fail'' #
       taskDone seed (f_queue fl) (f_task fl) tname res) d = Inr (db', ns)"
  shows "db' = drop_waits (\<lambda>w. w_run w = f_run fl \<and> True) d" "inv db'"
proof -
  have "s_exec (fail_terminal seed tname fl) d = Inr (d, 0)"
    unfolding fail_terminal_def
    by (rule placed_terminal_idle[OF assms(1,2,5,3)])
      (use assms(6) no_successor_placed[OF assms(1,5,3)] in auto)
  then obtain ms where "exec_all (waitsGone seed (f_run fl) ''fail'' #
       taskDone seed (f_queue fl) (f_task fl) tname res) d = Inr (db', ms)"
    using exec_step[OF _ assms(8)] by blast
  then show "db' = drop_waits (\<lambda>w. w_run w = f_run fl \<and> True) d" "inv db'"
    by (rule placed_tail[OF assms(1,2) _ assms(3) _ assms(5), rotated 4]; use assms(4,6,7) in auto)+
qed

text \<open>The three parts of the failure batch behind its compare-and-set.\<close>

definition fail_saga :: "string \<Rightarrow> failure \<Rightarrow> stmt list" where
  "fail_saga seed fl =
     (case f_rollback fl of
        None \<Rightarrow>
          sagaPass seed (f_queue fl) (f_run fl) (f_successor fl) ''fail'' (Some (f_json fl)) 0
            (\<lambda>db f t. enters_saga db f t \<and> (f_retry fl \<noteq> None \<longrightarrow> user_budget_spent f t))
      | Some ((key, state), passDelay) \<Rightarrow>
          checkpointWrite seed ''rollback-tried'' ''fail'' (f_run fl) key state #
          (case passDelay of
             None \<Rightarrow> []
           | Some delay \<Rightarrow>
               sagaPass seed (f_queue fl) (f_run fl) (f_successor fl) ''fail'' None delay
                 (\<lambda>db f t. addition_fits (r_fence_at f) delay)))"

definition fail_retry :: "string \<Rightarrow> failure \<Rightarrow> duration \<Rightarrow> stmt list" where
  "fail_retry seed fl delay =
     [failureSuccessor seed ''successor'' ''fail'' (f_successor fl) (f_run fl) (queued_state delay)
        delay retry_admits,
      runs_to_tasks seed ''task-retrying'' ''successor'' (f_queue fl) (\<lambda>f. r_id f = f_successor fl)
        (\<lambda>db t. t\<lparr>t_attempts := USER_ATTEMPTS_FROM seed ''fail'' (f_run fl) db t,
                  t_state := stampedRunState seed ''successor'' (f_successor fl) db t,
                  t_last_run := Some (f_successor fl)\<rparr>)
        (\<lambda>db t. live (t_state t)) (Some 1)]"

definition fail_end :: "string \<Rightarrow> string \<Rightarrow> failure \<Rightarrow> stmt list" where
  "fail_end seed tname fl =
     fail_terminal seed tname fl # waitsGone seed (f_run fl) ''fail'' #
     taskDone seed (f_queue fl) (f_task fl) tname (failed_with (f_json fl))"

lemma failInto_parts:
  "failInto_batch seed now fl =
     cas_runs seed now ''fail'' (fail_admits now fl) (fail_set now (f_json fl)) #
     fail_saga seed fl @
     (case f_retry fl of
        None \<Rightarrow> fail_end seed ''task'' fl
      | Some delay \<Rightarrow> fail_retry seed fl delay @ fail_end seed ''task-terminal'' fl)"
  by (auto simp: failInto_batch_def fail_saga_def fail_retry_def fail_end_def split: option.splits)

lemma fail_saga_exec:
  assumes "orphaned r t db" "solo seed ''fail'' r db" "r_id r = f_run fl" "r_queue r = f_queue fl"
    "r_fence_at r = Num now" "valid_clock now"
    "\<forall>tried delay. f_rollback fl = Some (tried, Some delay) \<longrightarrow> 0 \<le> delay"
    "exec_all (fail_saga seed fl) db = Inr (d, ns)"
  obtains base where "orphaned r t base" "solo seed ''fail'' r base"
    "d = base \<or> placed seed ''rollback-pass'' ''task-rolling-back'' (f_successor fl) r t base d"
proof (cases "f_rollback fl")
  case None
  have e: "exec_all (sagaPass seed (f_queue fl) (f_run fl) (f_successor fl) ''fail'' (Some (f_json fl)) 0
      (\<lambda>db f t. enters_saga db f t \<and> (f_retry fl \<noteq> None \<longrightarrow> user_budget_spent f t))) db = Inr (d, ns)"
    using assms(8) None by (simp add: fail_saga_def)
  have "stored_within epoch_bounds (Num (now + 0))"
    using assms(6) by (simp add: valid_clock_def epoch_bounds_def)
  from sagaPass_exec[OF assms(1,2) _ assms(3-5) this e]
  show ?thesis using that assms(1,2) by (auto split: if_splits)
next
  case (Some rb)
  obtain key state pass where rb: "rb = ((key, state), pass)" by (metis prod.collapse)
  note o = orphanedD[OF assms(1)]
  let ?base = "db\<lparr>checkpoints := upsert_checkpoint (checkpoint_row r key state) (checkpoints db)\<rparr>"
  have st: "r_stamp r = Some (stamp seed ''fail'')" using assms(2) by (simp add: solo_def)
  have cw: "s_exec (checkpointWrite seed ''rollback-tried'' ''fail'' (f_run fl) key state) db =
      Inr (?base, upsert_count (checkpoint_row r key state) (checkpoints db))"
    using checkpointWrite_exec[OF keys_okD(2)[OF o(3)] o(4) assms(3) st, of "''rollback-tried''" key state]
      o(12) by (simp add: run_ok_def)
  have base: "orphaned r t ?base" "solo seed ''fail'' r ?base"
    using orphaned_checkpoint[OF assms(1)] assms(2) by simp_all
  show ?thesis
  proof (cases pass)
    case None
    then have "d = ?base" using assms(8) Some rb cw by (simp add: fail_saga_def)
    then show ?thesis using that base by blast
  next
    case pass: (Some delay)
    have "exec_all (checkpointWrite seed ''rollback-tried'' ''fail'' (f_run fl) key state #
        sagaPass seed (f_queue fl) (f_run fl) (f_successor fl) ''fail'' None delay
          (\<lambda>db f t. addition_fits (r_fence_at f) delay)) db = Inr (d, ns)"
      using assms(8) Some rb pass by (simp add: fail_saga_def)
    then obtain ms where e: "exec_all (sagaPass seed (f_queue fl) (f_run fl) (f_successor fl) ''fail'' None delay
          (\<lambda>db f t. addition_fits (r_fence_at f) delay)) ?base = Inr (d, ms)"
      using exec_step[OF cw] by blast
    have "0 \<le> delay" using assms(7) Some rb pass by blast
    then have "addition_fits (r_fence_at r) delay \<Longrightarrow> stored_within epoch_bounds (Num (now + delay))"
      using assms(5) by (simp add: epoch_bounds_def)
    from sagaPass_exec[OF base _ assms(3-5) this e]
    show ?thesis using that base by (auto split: if_splits)
  qed
qed

text \<open>The failed run orphans its task: what the arms of the batch start from.\<close>

lemma failed_orphan:
  assumes "inv db" "fresh seed db" "r0 \<in> set (runs db)" "whereClaimedRun rid queue token r0"
    "t \<in> set (tasks db)" "t_id t = r_task r0" "r = stamp_run seed ''fail'' (Num now) (fail_set now json db r0)"
  shows "orphaned r t (put_run r db)" "solo seed ''fail'' r (put_run r db)" "r_id r = rid" "r_queue r = queue"
    "r_task r = r_task r0" "r_fence_at r = Num now" "r_state r = Failed" "r_attempt r = r_attempt r0"
proof -
  have id: "r_id r0 = rid" "r_queue r0 = queue" "r_state r0 = Running"
    using assms(4) by (simp_all add: whereClaimedRun_def)
  have same: "same_run r0 r" by (simp add: same_run_def assms(7))
  have ok: "run_ok r" unfolding assms(7) by (rule run_ok_dead(2)[OF inv_run_ok[OF assms(1,3)]])
  show "orphaned r t (put_run r db)"
    by (rule die[OF assms(1,3) id(3) assms(5,6) same _ ok]) (simp add: assms(7))
  show "solo seed ''fail'' r (put_run r db)"
    by (rule solo_put[OF assms(2)]) (use assms(3) in \<open>auto simp: assms(7)\<close>)
qed (use assms(4) in \<open>simp_all add: assms(7) whereClaimedRun_def\<close>)

text \<open>A retry that is placed has an instant to be available at.\<close>

lemma fail_fits:
  assumes "inv db" "r0 \<in> set (runs db)" "fail_admits now fl db r0" "f_retry fl = Some delay" "0 \<le> delay"
    "t \<in> set (tasks db)" "t_id t = r_task r0" "t_queue t = r_queue r0" "live (t_state t)"
    "storedCurrentRunAccounting r0 t" "r_attempt r = r_attempt r0" "retry_admits base r t"
  shows "stored_within epoch_bounds (Num (now + delay))"
proof -
  let ?P = "\<lambda>t. \<not> live (t_state t) \<or> (live (t_state t) \<and> soleLiveRun db r0 \<and> storedCurrentRunAccounting r0 t \<and>
         storedHighestOwnedOrdinal db r0 \<and>
         (case f_retry fl of None \<Rightarrow> True
          | Some delay \<Rightarrow> user_budget_spent r0 t \<or> addition_fits (Num now) delay))"
  have "owner_such db r0 ?P" using assms(3) by (simp add: fail_admits_def)
  then have "?P t" using owner_such_iff[OF inv_keys[OF assms(1)] assms(6-8), where p = ?P] by simp
  then have "user_budget_spent r0 t \<or> addition_fits (Num now) delay" using assms(4,9) by simp
  moreover have "\<not> user_budget_spent r0 t"
    using accountingD[OF assms(10)] assms(11,12) by (auto simp: retry_admits_def user_budget_spent_def)
  ultimately show ?thesis using epoch_sum assms(5) by blast
qed

text \<open>Behind the saga's arm, whether or not it placed a pass.\<close>

lemma fail_tail_inv:
  assumes "orphaned r t base" "solo seed ''fail'' r base" "r_id r = f_run fl" "r_queue r = f_queue fl"
    "r_task r = f_task fl" "r_fence_at r = Num now" "valid_clock now" "r_state r = Failed"
    "d = base \<or> placed seed ''rollback-pass'' ''task-rolling-back'' (f_successor fl) r t base d"
    "\<And>delay. f_retry fl = Some delay \<Longrightarrow> retry_admits base r t \<Longrightarrow> stored_within epoch_bounds (Num (now + delay))"
    "exec_all (case f_retry fl of None \<Rightarrow> fail_end seed ''task'' fl
        | Some delay \<Rightarrow> fail_retry seed fl delay @ fail_end seed ''task-terminal'' fl) d = Inr (db', ks)"
  shows "inv db'"
proof -
  note open_end = fail_terminal_tail[OF assms(1-8)]
  note placed_end = fail_terminal_placed[OF assms(1,2,3,8)]
  show ?thesis
  proof (cases "f_retry fl")
    case None
    then have e: "exec_all (fail_terminal seed ''task'' fl # waitsGone seed (f_run fl) ''fail'' #
        taskDone seed (f_queue fl) (f_task fl) ''task'' (failed_with (f_json fl))) d = Inr (db', ks)"
      using assms(11) by (simp add: fail_end_def)
    from assms(9) show ?thesis
    proof
      assume "d = base"
      then show ?thesis using open_end e by blast
    next
      assume p: "placed seed ''rollback-pass'' ''task-rolling-back'' (f_successor fl) r t base d"
      show ?thesis by (rule placed_end(2)[OF p _ _ e]) simp_all
    qed
  next
    case (Some delay)
    then have "exec_all (fail_retry seed fl delay @ fail_end seed ''task-terminal'' fl) d = Inr (db', ks)"
      using assms(11) by simp
    then obtain d2 k2 ms2 where e3: "exec_all (fail_retry seed fl delay) d = Inr (d2, k2)"
      and e4: "exec_all (fail_end seed ''task-terminal'' fl) d2 = Inr (db', ms2)"
      using exec_append by blast
    note e = e4[unfolded fail_end_def]
    from assms(9) show ?thesis
    proof
      assume "d = base"
      then have "if retry_admits base r t
          then placed seed ''successor'' ''task-retrying'' (f_successor fl) r t base d2 else d2 = base"
        by (intro retry_exec[OF assms(1-4,6) assms(10)[OF Some]]) (use e3 in \<open>simp_all add: fail_retry_def\<close>)
      then consider "d2 = base" | "placed seed ''successor'' ''task-retrying'' (f_successor fl) r t base d2"
        by (metis (full_types))
      then show ?thesis
      proof cases
        case 1
        then show ?thesis using open_end e by blast
      next
        case 2
        show ?thesis by (rule placed_end(2)[OF 2 _ _ e]) simp_all
      qed
    next
      assume p: "placed seed ''rollback-pass'' ''task-rolling-back'' (f_successor fl) r t base d"
      have "s_exec (failureSuccessor seed ''successor'' ''fail'' (f_successor fl) (f_run fl) (queued_state delay)
          delay retry_admits) d = Inr (d, 0)"
        by (rule placed_held[OF assms(1) p assms(3)])
      moreover have "r_stamp s \<noteq> Some (stamp seed ''successor'')" if "s \<in> set (runs d)" for s
        using placed_runs[OF p that] solo_stamps(1)[OF assms(2), of s "''successor''"] by auto
      ultimately have "d2 = d" using e3 by (simp add: fail_retry_def runs_to_tasks_unstamped)
      then show ?thesis by (intro placed_end(2)[OF p]) (use e in simp_all)
    qed
  qed
qed

lemma failInto_inv:
  assumes "inv db" "fresh seed db" "valid_clock now" "names_task (f_task fl) (f_run fl) db"
    "\<And>delay. f_retry fl = Some delay \<Longrightarrow> 0 \<le> delay"
    "\<forall>tried delay. f_rollback fl = Some (tried, Some delay) \<longrightarrow> 0 \<le> delay"
    "run_batch (failInto_batch seed now fl) db = (db', ans)"
  shows "inv db'"
proof -
  let ?tail = "fail_saga seed fl @ (case f_retry fl of None \<Rightarrow> fail_end seed ''task'' fl
      | Some delay \<Rightarrow> fail_retry seed fl delay @ fail_end seed ''task-terminal'' fl)"
  note b = assms(7)[unfolded failInto_parts]
  have quiet: "\<forall>s\<in>set ?tail. s_kind s = FollowOn \<and> loses_quietly seed s"
    by (auto simp: fail_saga_def fail_retry_def fail_end_def fail_terminal_def split: option.splits)
  show ?thesis
  proof (cases rule: cas_batch_cases[OF b inv_keys[OF assms(1)] assms(2) quiet, of "f_run fl",
        case_names a1 a2 lost won aborted])
    case (won r0 ns)
    obtain t where t: "t \<in> set (tasks db)" "t_id t = r_task r0" "t_queue t = r_queue r0"
      using inv_owner assms(1) won(1) by blast
    have c: "whereClaimedRun (f_run fl) (f_queue fl) (f_token fl) r0" using won(2) by (simp add: fail_admits_def)
    have task: "r_task r0 = f_task fl" using assms(4) won(1) c by (simp add: names_task_def whereClaimedRun_def)
    note f = failed_orphan[OF assms(1,2) won(1) c t(1,2) refl, of now "f_json fl"]
    have acc: "storedCurrentRunAccounting r0 t" "live (t_state t)"
      using orphanedD(8,9)[OF f(1)] accounting_cong[OF f(8)] by simp_all
    obtain d ms ks where e1: "exec_all (fail_saga seed fl)
        (put_run (stamp_run seed ''fail'' (Num now) (fail_set now (f_json fl) db r0)) db) = Inr (d, ms)"
      and e2: "exec_all (case f_retry fl of None \<Rightarrow> fail_end seed ''task'' fl
        | Some delay \<Rightarrow> fail_retry seed fl delay @ fail_end seed ''task-terminal'' fl) d = Inr (db', ks)"
      using exec_append[OF won(4)] by blast
    obtain base where base: "orphaned (stamp_run seed ''fail'' (Num now) (fail_set now (f_json fl) db r0)) t base"
      "solo seed ''fail'' (stamp_run seed ''fail'' (Num now) (fail_set now (f_json fl) db r0)) base"
      and d: "d = base \<or> placed seed ''rollback-pass'' ''task-rolling-back'' (f_successor fl)
        (stamp_run seed ''fail'' (Num now) (fail_set now (f_json fl) db r0)) t base d"
      using fail_saga_exec[OF f(1,2,3,4,6) assms(3,6) e1] by blast
    show ?thesis
      by (rule fail_tail_inv[OF base f(3,4) _ f(6) assms(3) f(7) d _ e2])
        (use task f(5) fail_fits[OF assms(1) won(1,2) _ _ t acc(2,1) f(8)] assms(5) in auto)
  qed (use assms(1) in \<open>auto simp: fail_admits_def whereClaimedRun_def\<close>)
qed

end
