(* ===== verification/Preserve_Sweep.thy ===== *)
theory Preserve_Sweep
  imports Preserve_Finish
begin

text \<open>
  The invariant is kept by the sweep's batches and by a cancellation: the reopening of a lost
  launch and its cap, the failure of an expired claim with its infrastructure successor, its saga
  and its cap, and the cancellation that ends a task from outside.
\<close>

section \<open>Batches of more than one compare-and-set\<close>

lemma run_batch_exec:
  assumes "run_batch ss db = (db', ans)"
  shows "db' = db \<or> (\<exists>ns. exec_all ss db = Inr (db', ns))"
  using assms by (auto simp: run_batch_def split: sum.splits)

lemma exec_quiet:
  assumes "fresh seed db" "\<forall>s\<in>set ss. s_kind s = FollowOn \<and> loses_quietly seed s"
    "exec_all ss db = Inr (db', ns)"
  shows "db' = db"
  using exec_followons_fresh[OF assms(1,2)] assms(3) by simp

lemma cas_exec_won:
  assumes "keys_ok db" "r \<in> set (runs db)" "p db r" "\<And>s. p db s \<Longrightarrow> r_id s = rid" "\<And>s. r_id (f db s) = r_id s"
    "exec_all (cas_runs seed now name p f # ss) db = Inr (db', ns)"
  obtains ms where "exec_all ss (put_run (stamp_run seed name (Num now) (f db r)) db) = Inr (db', ms)"
proof -
  have "s_exec (cas_runs seed now name p f) db = Inr (put_run (stamp_run seed name (Num now) (f db r)) db, 1)"
    using cas_runs_won[of db r p rid f seed now name] keys_okD(2)[OF assms(1)] assms(2-5) by simp
  from exec_step[OF this assms(6)] show ?thesis using that by blast
qed

lemma cas_exec_lost:
  assumes "\<not> (\<exists>r\<in>set (runs db). p db r)" "exec_all (cas_runs seed now name p f # ss) db = Inr (db', ns)"
  obtains ms where "exec_all ss db = Inr (db', ms)"
proof -
  have "s_exec (cas_runs seed now name p f) db = Inr (db, 0)"
    by (rule cas_runs_lost[where p = p, OF assms(1)])
  from exec_step[OF this assms(2)] show ?thesis using that by blast
qed

section \<open>A reopened launch\<close>

lemma reopen_fields [simp]:
  "r_id (reopen_set now d r) = r_id r" "r_queue (reopen_set now d r) = r_queue r"
  "r_task (reopen_set now d r) = r_task r" "r_attempt (reopen_set now d r) = r_attempt r"
  "r_state (reopen_set now d r) = Pending"
  by (simp_all add: reopen_set_def)

lemma waitsGone_none:
  assumes "\<And>s. s \<in> set (runs db) \<Longrightarrow> r_stamp s \<noteq> Some (stamp seed after)"
  shows "s_exec (waitsGone seed rid after) db = Inr (db, 0)"
proof -
  have "stamped_runs seed after (\<lambda>f. r_id f = rid) db = []"
    using assms by (auto simp: stamped_runs_def filter_empty_conv)
  then show ?thesis unfolding waitsGone_def by (rule runs_to_waits_none)
qed

lemma failureSuccessor_unstamped:
  assumes "\<And>s. s \<in> set (runs db) \<Longrightarrow> r_stamp s \<noteq> Some (stamp seed fence)"
  shows "s_exec (failureSuccessor seed nm fence sid rid st delay adm) db = Inr (db, 0)"
proof -
  have "filter (\<lambda>(f, t). r_id f = rid \<and> r_stamp f = Some (stamp seed fence) \<and> adm db f t \<and>
      \<not> successorOwned db sid (r_task f) (cell_plus (r_attempt f) (Num 1))) (joined db) = []"
    using assms by (auto simp: filter_empty_conv)
  then show ?thesis by (simp add: failureSuccessor_def)
qed

lemma sagaPass_unstamped:
  assumes "\<And>s. s \<in> set (runs db) \<Longrightarrow> r_stamp s \<noteq> Some (stamp seed fence)"
    "\<And>s. s \<in> set (runs db) \<Longrightarrow> r_stamp s \<noteq> Some (stamp seed ''rollback-pass'')"
  shows "\<exists>zs. exec_all (sagaPass seed queue rid sid fence entering delay adm) db = Inr (db, zs)"
  using failureSuccessor_unstamped[OF assms(1)] checkpointWrite_unstamped[OF assms(2)]
    runs_to_tasks_unstamped[OF assms(2)]
  by (simp add: sagaPass_def split: option.splits)

lemma inv_reopen:
  assumes "inv db" "r \<in> set (runs db)" "r_state r = Running" "t \<in> set (tasks db)" "t_id t = r_task r"
    "same_run r r'" "r_state r' = Pending" "run_ok r'"
    "same_task t t'" "same_counters t t'" "same_outcome t t'" "t_state t' = Pending"
  shows "inv (put_task t' (put_run r' db))"
proof -
  have l: "live (r_state r)" "live (r_state r')" using assms(3,7) by simp_all
  note m = move_unit[OF assms(1,2) l(1) assms(4-6) l(2) assms(8-11)]
  have "waits_ok (event_keys db) (put_task t' (put_run r' db))"
    using waits_put_awake[OF _ keys_okD(2)[OF inv_keys[OF assms(1)]] assms(2), of "event_keys db" r']
      assms(1,3,6,7) by (simp add: inv_def same_run_def)
  then show ?thesis using m assms(7,12) by (simp add: inv_def)
qed

lemma run_ok_reopen:
  assumes "run_ok r" "addition_fits (Num now) (relaunchDelayMs r)" "cell_lt (r_relaunch r) (Num RELAUNCH_CAP)"
  shows "run_ok (stamp_run seed name x (reopen_set now db r))"
proof -
  obtain n where n: "r_relaunch r = Num n" "0 \<le> n" "n < RELAUNCH_CAP"
    using assms(1,3) by (cases "r_relaunch r") (auto simp: run_ok_def relaunch_count_bounds_def)
  then have "0 \<le> relaunchDelayMs r"
    by (simp add: relaunchDelayMs_def const_defs)
  then have "stored_within epoch_bounds (Num (now + relaunchDelayMs r))" using epoch_sum assms(2) by blast
  then show ?thesis
    using assms(1) n by (simp add: run_ok_def reopen_set_def relaunch_count_bounds_def)
qed

lemma reopened_inv:
  assumes "inv db" "fresh seed db" "r \<in> set (runs db)" "reopen_admits now queue rid gen db r"
    "exec_all (tl (lostLaunch_batch seed sid now now2 queue task rid gen))
       (put_run (stamp_run seed ''reopen'' (Num now) (reopen_set now db r)) db) = Inr (db', ns)"
  shows "inv db'"
proof -
  let ?r = "stamp_run seed ''reopen'' (Num now) (reopen_set now db r)"
  let ?db = "put_run ?r db"
  have c: "r_id r = rid" "r_queue r = queue" "r_state r = Running"
    using assms(4) by (simp_all add: reopen_admits_def whereSweptClaim_def)
  have f: "r_id ?r = rid" "r_queue ?r = queue" "r_task ?r = r_task r" "r_state ?r = Pending" "same_run r ?r"
    using c by (simp_all add: same_run_def)
  obtain t where t: "t \<in> set (tasks db)" "t_id t = r_task r" "t_queue t = r_queue r"
    using inv_owner assms(1,3) by blast
  have lt: "live (t_state t)" using inv_live_run(1)[OF assms(1,3) _ t(1,2)] c by simp
  have k: "keys_ok db" using assms(1) by (rule inv_keys)
  have mem: "?r \<in> set (runs ?db)" using assms(3) f c by (auto simp: in_put_run)
  have solo: "solo seed ''reopen'' ?r ?db" by (rule solo_put[OF assms(2)]) (use assms(3) f c in auto)
  have free: "r_stamp s \<noteq> Some (stamp seed nm)" if "s \<in> set (runs ?db)" "nm \<noteq> ''reopen''" for s nm
    using solo_stamps(1)[OF solo that] .
  have kr: "keyed r_id (runs ?db)" using keys_okD(2)[OF k] by simp
  have "\<not> (\<exists>s\<in>set (runs ?db). cap_admits now2 queue rid gen ?db s)"
  proof
    assume "\<exists>s\<in>set (runs ?db). cap_admits now2 queue rid gen ?db s"
    then obtain s where s: "s \<in> set (runs ?db)" "r_id s = rid" "r_state s = Running"
      by (auto simp: cap_admits_def whereSweptClaim_def)
    then have "s = ?r" using run_table.unique[OF kr s(1) mem] f by simp
    then show False using s f by simp
  qed
  then have s1: "s_exec (cas_runs seed now2 ''cap'' (cap_admits now2 queue rid gen) (fail_set now2 REASON_RELAUNCH_CAP)) ?db = Inr (?db, 0)"
    by (rule cas_runs_lost)
  obtain zs where s2: "exec_all (sagaPass seed queue rid sid ''cap'' (Some REASON_RELAUNCH_CAP) 0 enters_saga) ?db = Inr (?db, zs)"
    using sagaPass_unstamped[of ?db seed "''cap''", OF free free] by blast
  let ?t = "stamp_task seed ''task-pending'' (Num now) (t\<lparr>t_state := Pending\<rparr>)"
  let ?d = "put_task ?t ?db"
  have src: "stamped_runs seed ''reopen'' (\<lambda>f. r_id f = rid \<and> r_queue f = queue) ?db = [?r]"
    by (rule stamped_run_one[OF kr mem]) (use f in auto)
  have s3: "s_exec (runs_to_tasks seed ''task-pending'' ''reopen'' queue (\<lambda>f. r_id f = rid)
        (\<lambda>db t. t\<lparr>t_state := Pending\<rparr>) (\<lambda>db t. live (t_state t)) (Some 1)) ?db = Inr (?d, 1)"
    using runs_to_tasks_one[of ?db t seed "''reopen''" "\<lambda>f. r_id f = rid" queue ?r "\<lambda>db t. live (t_state t)"
        "\<lambda>db t. t\<lparr>t_state := Pending\<rparr>" "''task-pending''" "Some 1"]
      keys_okD(1)[OF k] src t f lt c by simp
  have s4: "s_exec (runs_to_tasks seed ''task-fail'' ''cap'' queue (\<lambda>f. r_id f = rid)
        (\<lambda>db t. t\<lparr>t_state := Failed, t_failure := Some REASON_RELAUNCH_CAP\<rparr>)
        (\<lambda>db t. live (t_state t) \<and> no_pass seed ''cap'' sid rid db t) (Some 1)) ?d = Inr (?d, 0)"
    by (rule runs_to_tasks_unstamped) (use free in simp)
  have s5: "s_exec (waitsGone seed rid ''cap'') ?d = Inr (?d, 0)"
    by (rule waitsGone_none) (use free in simp)
  have u: "unwoken seed ?d" using solo_unwoken[OF solo] by simp
  have s6: "exec_all (taskDone seed queue task ''task-fail'' (failed_with REASON_RELAUNCH_CAP)) ?d = Inr (?d, [0,0,0,0,0])"
  proof (rule task_done_idle[OF u])
    fix v assume "v \<in> set (tasks ?d)"
    then have "v = ?t \<or> v \<in> set (tasks db)" by (auto simp: in_put_task)
    then show "t_stamp v \<noteq> Some (stamp seed ''task-fail'') \<or> (queue, taskDoneEventName task) \<in> event_keys ?d"
      using solo_stamps(2)[OF solo, of v "''task-fail''"] by auto
  qed
  have "db' = ?d"
    using assms(5) s1 s2 s3 s4 s5 s6 by (simp add: lostLaunch_batch_def exec_all_append)
  moreover have "inv ?d"
    by (rule inv_reopen[OF assms(1,3) c(3) t(1,2) f(5,4)])
      (use assms(4) in \<open>simp_all add: same_defs reopen_admits_def run_ok_reopen inv_run_ok[OF assms(1,3)]\<close>)
  ultimately show ?thesis by simp
qed

section \<open>A launch past its cap\<close>

lemma sole_pass_find:
  assumes "orphaned r t db" "solo seed fence r db" "r_id r = rid"
  shows "find (\<lambda>p. r_id p = rid \<and> r_stamp p = Some (stamp seed fence)) (runs db) = Some r"
  by (rule find_stamped[OF keys_okD(2)[OF orphanedD(3)[OF assms(1)]] orphanedD(4)[OF assms(1)] assms(3)])
    (use assms(2) in \<open>simp add: solo_def\<close>)

lemma no_pass_open:
  assumes "orphaned r t db" "solo seed fence r db" "r_id r = rid"
  shows "no_pass seed fence sid rid db t"
  using sole_pass_find[OF assms] orphaned_successorOwned[OF assms(1)] orphanedD(6)[OF assms(1)]
  by (simp add: no_pass_def)

lemma no_pass_placed:
  assumes "orphaned r t db" "solo seed fence r db" "placed seed nm tnm sid r t db d" "r_id r = rid"
    "t_id u = r_task r"
  shows "\<not> no_pass seed fence sid rid d u"
proof -
  have "inv d" and mem: "r \<in> set (runs d)"
    using assms(3) orphanedD(4)[OF assms(1)] by (auto simp: placed_def)
  then have k: "keyed r_id (runs d)" using keys_okD(2) inv_keys by blast
  have "find (\<lambda>p. r_id p = rid \<and> r_stamp p = Some (stamp seed fence)) (runs d) = Some r"
    by (rule find_stamped[OF k mem assms(4)]) (use assms(2) in \<open>simp add: solo_def\<close>)
  then show ?thesis
    using placed_owned[OF assms(3) orphaned_integer[OF assms(1)]] assms(5) by (simp add: no_pass_def)
qed

lemma failed_ok:
  assumes "orphaned r t db"
  shows "outcome_ok (t\<lparr>t_state := Failed, t_failure := Some reason\<rparr>)"
    "counters_ok (t\<lparr>t_state := Failed, t_failure := Some reason\<rparr>)"
  using assms live_outcome_ok[OF orphanedD(8)[OF assms]]
  by (simp_all add: orphaned_def outcome_ok_def counters_ok_def storedCurrentRunAccounting_def)

lemma capped_inv:
  assumes "inv db" "fresh seed db" "valid_clock now2" "names_task task rid db" "r \<in> set (runs db)"
    "cap_admits now2 queue rid gen db r"
    "exec_all (tl (tl (lostLaunch_batch seed sid now now2 queue task rid gen)))
       (put_run (stamp_run seed ''cap'' (Num now2) (fail_set now2 REASON_RELAUNCH_CAP db r)) db) = Inr (db', ns)"
  shows "inv db'"
proof -
  let ?r = "stamp_run seed ''cap'' (Num now2) (fail_set now2 REASON_RELAUNCH_CAP db r)"
  let ?db = "put_run ?r db"
  have c: "r_id r = rid" "r_queue r = queue" "r_state r = Running"
    using assms(6) by (simp_all add: cap_admits_def whereSweptClaim_def)
  have task: "r_task r = task" using assms(4,5) c by (simp add: names_task_def)
  obtain t where t: "t \<in> set (tasks db)" "t_id t = r_task r" "t_queue t = r_queue r"
    using inv_owner assms(1,5) by blast
  have same: "same_run r ?r" by (simp add: same_run_def)
  have o: "orphaned ?r t ?db"
    by (rule die[OF assms(1,5) c(3) t(1,2) same _ run_ok_dead(2)[OF inv_run_ok[OF assms(1,5)]]]) simp
  have solo: "solo seed ''cap'' ?r ?db" by (rule solo_put[OF assms(2)]) (use assms(5) in auto)
  have rid: "r_id ?r = rid" "r_queue ?r = queue" "r_task ?r = task" "r_fence_at ?r = Num now2"
    using c task by simp_all
  let ?pending = "runs_to_tasks seed ''task-pending'' ''reopen'' queue (\<lambda>f. r_id f = rid)
        (\<lambda>db t. t\<lparr>t_state := Pending\<rparr>) (\<lambda>db t. live (t_state t)) (Some 1)"
  let ?fail = "runs_to_tasks seed ''task-fail'' ''cap'' queue (\<lambda>f. r_id f = rid)
        (\<lambda>db t. t\<lparr>t_state := Failed, t_failure := Some REASON_RELAUNCH_CAP\<rparr>)
        (\<lambda>db t. live (t_state t) \<and> no_pass seed ''cap'' sid rid db t) (Some 1)"
  let ?rest = "waitsGone seed rid ''cap'' # taskDone seed queue task ''task-fail'' (failed_with REASON_RELAUNCH_CAP)"
  have "exec_all (sagaPass seed queue rid sid ''cap'' (Some REASON_RELAUNCH_CAP) 0 enters_saga @
      ?pending # ?fail # ?rest) ?db = Inr (db', ns)"
    using assms(7) by (simp add: lostLaunch_batch_def)
  from exec_append[OF this] obtain d ms ks where
    e1: "exec_all (sagaPass seed queue rid sid ''cap'' (Some REASON_RELAUNCH_CAP) 0 enters_saga) ?db = Inr (d, ms)"
    and e2: "exec_all (?pending # ?fail # ?rest) d = Inr (db', ks)" by blast
  have "stored_within epoch_bounds (Num (now2 + 0))"
    using assms(3) by (simp add: valid_clock_def epoch_bounds_def)
  from sagaPass_exec[OF o solo _ rid(1,2,4) this e1]
  have d: "d = ?db \<or> placed seed ''rollback-pass'' ''task-rolling-back'' sid ?r t ?db d" by (auto split: if_splits)
  have "s_exec ?pending d = Inr (d, 0)"
  proof (rule runs_to_tasks_unstamped)
    fix s assume "s \<in> set (runs d)"
    then have "s \<in> set (runs ?db) \<or> r_stamp s = Some (stamp seed ''rollback-pass'')"
      using d placed_runs by blast
    then show "r_stamp s \<noteq> Some (stamp seed ''reopen'')"
      using solo_stamps(1)[OF solo, of s "''reopen''"] by auto
  qed
  from exec_step[OF this e2] obtain js where e3: "exec_all (?fail # ?rest) d = Inr (db', js)" by blast
  show ?thesis
    using d
  proof
    assume "d = ?db"
    then have e4: "exec_all (?fail # [] @ ?rest) ?db = Inr (db', js)" using e3 by simp
    show ?thesis
    proof (rule terminal_tail[OF o solo _ rid assms(3) _ _ _ failed_ok[OF o] _ _ e4])
      show "live (t_state t) \<and> no_pass seed ''cap'' sid rid ?db t"
        using orphanedD(8)[OF o] no_pass_open[OF o solo rid(1)] by blast
    qed (simp_all add: same_task_def)
  next
    assume p: "placed seed ''rollback-pass'' ''task-rolling-back'' sid ?r t ?db d"
    have "s_exec ?fail d = Inr (d, 0)"
      by (rule placed_terminal_idle[OF o solo p rid(1)]) (use no_pass_placed[OF o solo p rid(1)] in auto)
    from exec_step[OF this e3] obtain hs where "exec_all ?rest d = Inr (db', hs)" by blast
    from placed_tail(2)[OF o solo _ rid(1) _ p _ _ this] show ?thesis by simp
  qed
qed

lemma lostLaunch_inv:
  assumes "inv db" "fresh seed db" "valid_clock now2" "names_task task rid db"
    "run_batch (lostLaunch_batch seed sid now now2 queue task rid gen) db = (db', ans)"
  shows "inv db'"
proof -
  let ?rest = "tl (tl (lostLaunch_batch seed sid now now2 queue task rid gen))"
  let ?cap = "cas_runs seed now2 ''cap'' (cap_admits now2 queue rid gen) (fail_set now2 REASON_RELAUNCH_CAP)"
  let ?reopen = "cas_runs seed now ''reopen'' (reopen_admits now queue rid gen) (reopen_set now)"
  have parts: "lostLaunch_batch seed sid now now2 queue task rid gen = ?reopen # ?cap # ?rest"
    by (simp add: lostLaunch_batch_def)
  have k: "keys_ok db" using assms(1) by (rule inv_keys)
  have quiet: "\<forall>s\<in>set ?rest. s_kind s = FollowOn \<and> loses_quietly seed s"
    by (auto simp: lostLaunch_batch_def)
  show ?thesis
  proof (cases "db' = db")
    case False
    then obtain ns where e: "exec_all (?reopen # ?cap # ?rest) db = Inr (db', ns)"
      using run_batch_exec[OF assms(5)] parts by auto
    show ?thesis
    proof (cases "\<exists>r\<in>set (runs db). reopen_admits now queue rid gen db r")
      case True
      then obtain r where r: "r \<in> set (runs db)" "reopen_admits now queue rid gen db r" by blast
      obtain ms where "exec_all (?cap # ?rest)
          (put_run (stamp_run seed ''reopen'' (Num now) (reopen_set now db r)) db) = Inr (db', ms)"
        by (rule cas_exec_won[OF k r(1), of "reopen_admits now queue rid gen" rid "reopen_set now" seed now "''reopen''"])
          (use r(2) e in \<open>auto simp: reopen_admits_def whereSweptClaim_def\<close>)
      then show ?thesis using reopened_inv[OF assms(1,2) r] parts by (metis list.sel(3))
    next
      case lost: False
      obtain ms where e2: "exec_all (?cap # ?rest) db = Inr (db', ms)"
        by (rule cas_exec_lost[OF lost e])
      show ?thesis
      proof (cases "\<exists>r\<in>set (runs db). cap_admits now2 queue rid gen db r")
        case True
        then obtain r where r: "r \<in> set (runs db)" "cap_admits now2 queue rid gen db r" by blast
        obtain ms where "exec_all ?rest
            (put_run (stamp_run seed ''cap'' (Num now2) (fail_set now2 REASON_RELAUNCH_CAP db r)) db) = Inr (db', ms)"
          by (rule cas_exec_won[OF k r(1), of "cap_admits now2 queue rid gen" rid
                "fail_set now2 REASON_RELAUNCH_CAP" seed now2 "''cap''"])
            (use r(2) e2 in \<open>auto simp: cap_admits_def whereSweptClaim_def\<close>)
        then show ?thesis by (rule capped_inv[OF assms(1-4) r])
      next
        case lost2: False
        obtain ms where "exec_all ?rest db = Inr (db', ms)" by (rule cas_exec_lost[OF lost2 e2])
        then show ?thesis using exec_quiet[OF assms(2) quiet] assms(1) by simp
      qed
    qed
  qed (use assms(1) in simp)
qed

section \<open>An expired claim\<close>

definition timeout_terminal :: "string \<Rightarrow> string \<Rightarrow> string \<Rightarrow> string \<Rightarrow> stmt" where
  "timeout_terminal seed sid queue rid =
     runs_to_tasks seed ''task-terminal'' ''fail'' queue (\<lambda>f. r_id f = rid)
       (\<lambda>db t. t\<lparr>t_state := Failed, t_failure := Some REASON_INFRA_CAP\<rparr>)
       (\<lambda>db t. live (t_state t) \<and> stored_within infra_retries_bounds (t_infra t) \<and>
               cell_is (t_infra t) INFRA_RETRY_CAP \<and> no_pass seed ''fail'' sid rid db t) (Some 1)"

definition timeout_book :: "string \<Rightarrow> string \<Rightarrow> string \<Rightarrow> stmt" where
  "timeout_book seed sid queue =
     runs_to_tasks seed ''bookkeeping'' ''successor'' queue (\<lambda>f. r_id f = sid)
       (\<lambda>db t. t\<lparr>t_infra := INFRA_RETRIES_FROM seed ''successor'' sid db t, t_state := Pending,
                 t_last_run := Some sid\<rparr>)
       (\<lambda>db t. live (t_state t)) (Some 1)"

definition timeout_rest :: "string \<Rightarrow> string \<Rightarrow> string \<Rightarrow> string \<Rightarrow> stmt list" where
  "timeout_rest seed queue task rid =
     waitsGone seed rid ''fail'' # taskDone seed queue task ''task-terminal'' (failed_with REASON_INFRA_CAP)"

lemma claimTimeout_parts:
  "claimTimeout_batch seed sid now queue task rid gen =
     cas_runs seed now ''fail'' (timeout_admits now queue rid gen) (timeout_set now) #
     failureSuccessor seed ''successor'' ''fail'' sid rid Pending (INFRA_BACKOFF_SECONDS * 1000) infra_successor_admits #
     sagaPass seed queue rid sid ''fail'' (Some REASON_INFRA_CAP) 0 enters_saga @
     timeout_terminal seed sid queue rid # timeout_book seed sid queue # timeout_rest seed queue task rid"
  by (simp add: claimTimeout_batch_def timeout_terminal_def timeout_book_def timeout_rest_def)

text \<open>The task that books a successor of the sweep: one infrastructure retry is charged.\<close>

definition timeout_booked :: "string \<Rightarrow> instant \<Rightarrow> string \<Rightarrow> task \<Rightarrow> task" where
  "timeout_booked seed now sid t =
     stamp_task seed ''bookkeeping'' (Num now)
       (t\<lparr>t_infra := cell_plus (t_infra t) (Num 1), t_state := Pending, t_last_run := Some sid\<rparr>)"

text \<open>Once the successor is there, the saga's arm and the terminal arm of the batch match nothing.\<close>

lemma held_pass_idle:
  assumes "orphaned r t db" "solo seed fence r db" "fence \<noteq> ''rollback-pass''" "r_id r = rid"
    "d = add_run n db" "r_id n = sid" "r_task n = r_task r" "r_attempt n = cell_plus (r_attempt r) (Num 1)"
    "r_stamp n \<noteq> Some (stamp seed ''rollback-pass'')" "sid \<notin> r_id ` set (runs db)"
  shows "exec_all (sagaPass seed queue rid sid fence entering delay adm) d =
    Inr (d, replicate (length (sagaPass seed queue rid sid fence entering delay adm)) 0)"
proof -
  note o = orphanedD[OF assms(1)]
  have kd: "keyed r_id (runs d)" using keys_okD(2)[OF o(3)] assms(5,6,10) by (auto simp: keyed_def)
  have held: "s_exec (failureSuccessor seed ''rollback-pass'' fence sid rid st2 dl ad) d = Inr (d, 0)" for st2 dl ad
    by (rule failureSuccessor_held[OF kd, of r rid n])
      (use o(4) assms(4-8) orphaned_integer[OF assms(1)] in simp_all)
  have unst: "r_stamp s \<noteq> Some (stamp seed ''rollback-pass'')" if "s \<in> set (runs d)" for s
    using that solo_stamps(1)[OF assms(2), of s "''rollback-pass''"] assms(3,5,9) by auto
  have "s_exec (checkpointWrite seed nm ''rollback-pass'' i2 cn js) d = Inr (d, 0)" for nm i2 cn js
    by (rule checkpointWrite_unstamped) (rule unst)
  moreover have "s_exec (runs_to_tasks seed nm ''rollback-pass'' q w set_to narrow rows) d = Inr (d, 0)"
    for nm q w set_to narrow rows
    by (rule runs_to_tasks_unstamped) (rule unst)
  ultimately show ?thesis using held by (simp add: sagaPass_def split: option.splits)
qed

lemma timeout_terminal_idle:
  assumes "orphaned r t db" "r_id r = rid" "d = add_run n db" "r_id n \<notin> r_id ` set (runs db)"
    "\<not> cell_is (t_infra t) INFRA_RETRY_CAP"
  shows "s_exec (timeout_terminal seed sid queue rid) d = Inr (d, 0)"
  unfolding timeout_terminal_def
proof (rule runs_to_tasks_none[OF refl])
  note o = orphanedD[OF assms(1)]
  have kd: "keyed r_id (runs d)" using keys_okD(2)[OF o(3)] assms(3,4) by (auto simp: keyed_def)
  fix u f assume u: "u \<in> set (tasks d)" "t_id u = r_task f"
    and f: "f \<in> set (stamped_runs seed ''fail'' (\<lambda>f. r_id f = rid \<and> r_queue f = queue) d)"
  have fm: "f \<in> set (runs d)" "r_id f = r_id r" using f assms(2) by (auto simp: stamped_runs_def simp del: put_tables)
  have rm: "r \<in> set (runs d)" using o(4) assms(3) by simp
  have "f = r" by (rule run_table.unique[OF kd fm(1) rm fm(2)])
  then have "u = t" using task_table.unique[OF keys_okD(1)[OF o(3)] _ o(5), of u] u o(6) assms(3) by simp
  then show "\<not> (live (t_state u) \<and> stored_within infra_retries_bounds (t_infra u) \<and>
      cell_is (t_infra u) INFRA_RETRY_CAP \<and> no_pass seed ''fail'' sid rid d u)"
    using assms(5) by simp
qed

text \<open>The successor and its booking, as the unit's rows.\<close>

lemma timeout_placed:
  assumes "orphaned r t db" "solo seed ''fail'' r db" "r_fence_at r = Num now" "infra_successor_admits db r t"
    "stored_within epoch_bounds (Num (now + INFRA_BACKOFF_SECONDS * 1000))"
    "n = successor_run seed ''successor'' sid Pending (INFRA_BACKOFF_SECONDS * 1000) r" "sid \<notin> r_id ` set (runs db)"
  shows "placed seed ''successor'' ''bookkeeping'' sid r t db (put_task (timeout_booked seed now sid t) (add_run n db))"
proof -
  note o = orphanedD[OF assms(1)]
  let ?t = "timeout_booked seed now sid t"
  obtain a m i where acc: "t_attempts t = Num a" "t_max_attempts t = Num m" "t_infra t = Num i"
    "r_attempt r = Num (a + i + 1)" "0 \<le> a" "a < m" "m \<le> MAX_COUNT" "0 \<le> i" "i \<le> INFRA_RETRY_CAP"
    using accountingD[OF o(9)] by blast
  have room: "i < INFRA_RETRY_CAP" using assms(4) acc by (simp add: infra_successor_admits_def)
  have n_ok: "run_ok n"
    unfolding assms(6) by (rule successor_run_ok[OF assms(3,5)])
      (use acc room in \<open>auto simp: run_attempt_bounds_def MAX_RUN_ORDINAL_def\<close>)
  have "accounts_for r n ?t"
    using n_ok acc room
    by (auto simp: assms(6) accounts_for_def storedCurrentRunAccounting_def bounds_defs MAX_RUN_ORDINAL_def timeout_booked_def)
  then have i: "inv (put_task ?t (add_run n db))"
    by (rule place[OF assms(1)]) (use assms(7) in \<open>simp_all add: assms(6) same_defs timeout_booked_def\<close>)
  show ?thesis
    unfolding placed_def
  proof (intro conjI)
    show "\<exists>x. runs (put_task ?t (add_run n db)) = runs db @ [x] \<and> r_id x = sid \<and> r_task x = r_task r \<and>
        r_attempt x = cell_plus (r_attempt r) (Num 1) \<and> r_stamp x = Some (stamp seed ''successor'')"
      by (intro exI[of _ n]) (simp add: assms(6))
    show "\<exists>t'. tasks (put_task ?t (add_run n db)) = tasks (put_task t' db) \<and> t_id t' = t_id t \<and>
        t_stamp t' = Some (stamp seed ''bookkeeping'')"
      by (intro exI[of _ ?t]) (simp add: put_task_def timeout_booked_def)
  qed (use i in simp_all)
qed

lemma timeout_successor:
  assumes "orphaned r t db" "solo seed ''fail'' r db" "r_id r = rid" "r_queue r = queue" "r_fence_at r = Num now"
    "r_state r \<noteq> Sleeping" "infra_successor_admits db r t"
    "stored_within epoch_bounds (Num (now + INFRA_BACKOFF_SECONDS * 1000))"
    "exec_all (failureSuccessor seed ''successor'' ''fail'' sid rid Pending (INFRA_BACKOFF_SECONDS * 1000)
         infra_successor_admits #
       sagaPass seed queue rid sid ''fail'' (Some REASON_INFRA_CAP) 0 enters_saga @
       timeout_terminal seed sid queue rid # timeout_book seed sid queue # timeout_rest seed queue task rid) db = Inr (db', ns)"
  shows "db' = drop_waits (\<lambda>w. w_run w = rid \<and> True) (put_task (timeout_booked seed now sid t)
      (add_run (successor_run seed ''successor'' sid Pending (INFRA_BACKOFF_SECONDS * 1000) r) db))"
    "sid \<notin> r_id ` set (runs db)" "inv db'"
proof -
  note o = orphanedD[OF assms(1)]
  let ?n = "successor_run seed ''successor'' sid Pending (INFRA_BACKOFF_SECONDS * 1000) r"
  let ?fs = "failureSuccessor seed ''successor'' ''fail'' sid rid Pending (INFRA_BACKOFF_SECONDS * 1000) infra_successor_admits"
  let ?d = "add_run ?n db"
  have st: "r_stamp r = Some (stamp seed ''fail'')" using assms(2) by (simp add: solo_def)
  have fs: "s_exec ?fs db = ins_run ?n db" using failureSuccessor_exec[OF assms(1,3) st] assms(7) by simp
  obtain d k where step: "s_exec ?fs db = Inr (d, k)" using assms(9) by (auto split: sum.splits)
  note ins = ins_successor[OF assms(1) fs _ step, of sid]
  show free: "sid \<notin> r_id ` set (runs db)" using ins by simp
  have d: "d = ?d" using ins by simp
  obtain ms where "exec_all (sagaPass seed queue rid sid ''fail'' (Some REASON_INFRA_CAP) 0 enters_saga @
       timeout_terminal seed sid queue rid # timeout_book seed sid queue # timeout_rest seed queue task rid) ?d = Inr (db', ms)"
    using exec_step[OF step assms(9)] d by blast
  then obtain d2 k2 ks where
    idle: "exec_all (sagaPass seed queue rid sid ''fail'' (Some REASON_INFRA_CAP) 0 enters_saga) ?d = Inr (d2, k2)" and
    e2: "exec_all (timeout_terminal seed sid queue rid # timeout_book seed sid queue #
      timeout_rest seed queue task rid) d2 = Inr (db', ks)" using exec_append by blast
  have "d2 = ?d"
    using idle held_pass_idle[OF assms(1,2) _ assms(3) refl, of ?n sid queue "Some REASON_INFRA_CAP" 0 enters_saga] free by simp
  note e2 = e2[unfolded this]
  obtain a i where acc: "t_attempts t = Num a" "t_infra t = Num i" "r_attempt r = Num (a + i + 1)"
    using accountingD[OF o(9)] by blast
  have room: "\<not> cell_is (t_infra t) INFRA_RETRY_CAP" using assms(7) acc by (simp add: infra_successor_admits_def)
  have "s_exec (timeout_terminal seed sid queue rid) ?d = Inr (?d, 0)"
    by (rule timeout_terminal_idle[OF assms(1,3) refl _ room]) (use free in simp)
  from exec_step[OF this e2] obtain js where
    e3: "exec_all (timeout_book seed sid queue # timeout_rest seed queue task rid) ?d = Inr (db', js)" by blast
  have ir: "INFRA_RETRIES_FROM seed ''successor'' sid ?d t = Num (i + 1)"
    using placed_reads(3)[OF assms(1,2), of "''successor''" ?d ?n] free acc by simp
  have s3: "s_exec (timeout_book seed sid queue) ?d = Inr (put_task (timeout_booked seed now sid t) ?d, 1)"
    unfolding timeout_book_def
    using book_exec[OF assms(1,2), of "''successor''" ?d ?n sid queue
        "\<lambda>db t. t\<lparr>t_infra := INFRA_RETRIES_FROM seed ''successor'' sid db t, t_state := Pending,
                 t_last_run := Some sid\<rparr>" "''bookkeeping''" "Some 1"] assms(4,5) free ir acc
    by (simp add: timeout_booked_def)
  from exec_step[OF s3 e3] obtain hs where
    e4: "exec_all (timeout_rest seed queue task rid) (put_task (timeout_booked seed now sid t) ?d) = Inr (db', hs)"
    by blast
  note p = timeout_placed[OF assms(1,2,5,7,8) refl free]
  show "db' = drop_waits (\<lambda>w. w_run w = rid \<and> True) (put_task (timeout_booked seed now sid t) ?d)"
    using placed_tail(1)[OF assms(1,2) _ assms(3,6) p _ _ e4[unfolded timeout_rest_def]] by simp
  show "inv db'"
    using placed_tail(2)[OF assms(1,2) _ assms(3,6) p _ _ e4[unfolded timeout_rest_def]] by simp
qed

lemma timeout_capped:
  assumes "orphaned r t db" "solo seed ''fail'' r db" "r_id r = rid" "r_queue r = queue" "r_task r = task"
    "r_fence_at r = Num now" "valid_clock now" "r_state r = Failed" "\<not> infra_successor_admits db r t"
    "exec_all (failureSuccessor seed ''successor'' ''fail'' sid rid Pending (INFRA_BACKOFF_SECONDS * 1000)
         infra_successor_admits #
       sagaPass seed queue rid sid ''fail'' (Some REASON_INFRA_CAP) 0 enters_saga @
       timeout_terminal seed sid queue rid # timeout_book seed sid queue # timeout_rest seed queue task rid) db = Inr (db', ns)"
  shows "inv db'"
proof -
  note o = orphanedD[OF assms(1)]
  let ?fs = "failureSuccessor seed ''successor'' ''fail'' sid rid Pending (INFRA_BACKOFF_SECONDS * 1000) infra_successor_admits"
  have st: "r_stamp r = Some (stamp seed ''fail'')" using assms(2) by (simp add: solo_def)
  have "s_exec ?fs db = Inr (db, 0)" using failureSuccessor_exec[OF assms(1,3) st] assms(9) by simp
  from exec_step[OF this assms(10)] obtain ns1 where
    e1: "exec_all (sagaPass seed queue rid sid ''fail'' (Some REASON_INFRA_CAP) 0 enters_saga @
       timeout_terminal seed sid queue rid # timeout_book seed sid queue # timeout_rest seed queue task rid) db = Inr (db', ns1)"
    by blast
  from exec_append[OF e1] obtain d ms ks where
    e2: "exec_all (sagaPass seed queue rid sid ''fail'' (Some REASON_INFRA_CAP) 0 enters_saga) db = Inr (d, ms)"
    and e3: "exec_all (timeout_terminal seed sid queue rid # timeout_book seed sid queue #
        timeout_rest seed queue task rid) d = Inr (db', ks)" by blast
  have "stored_within epoch_bounds (Num (now + 0))"
    using assms(7) by (simp add: valid_clock_def epoch_bounds_def)
  from sagaPass_exec[OF assms(1,2) _ assms(3,4,6) this e2]
  have d: "d = db \<or> placed seed ''rollback-pass'' ''task-rolling-back'' sid r t db d" by (auto split: if_splits)
  obtain a m i where acc: "t_attempts t = Num a" "t_max_attempts t = Num m" "t_infra t = Num i"
    "r_attempt r = Num (a + i + 1)" "0 \<le> a" "a < m" "m \<le> MAX_COUNT" "0 \<le> i" "i \<le> INFRA_RETRY_CAP"
    using accountingD[OF o(9)] by blast
  have cap: "i = INFRA_RETRY_CAP"
    using assms(9) acc o(8)
    by (auto simp: infra_successor_admits_def bounds_defs MAX_RUN_ORDINAL_def)
  have book: "s_exec (timeout_book seed sid queue) dd = Inr (dd, 0)"
    if "\<And>s. s \<in> set (runs dd) \<Longrightarrow> r_stamp s \<noteq> Some (stamp seed ''successor'')" for dd
    unfolding timeout_book_def by (rule runs_to_tasks_unstamped[OF that])
  have none: "r_stamp s \<noteq> Some (stamp seed ''successor'')" if "s \<in> set (runs db)" for s
    using solo_stamps(1)[OF assms(2) that] by simp
  show ?thesis
    using d
  proof
    assume "d = db"
    then have e4: "exec_all (timeout_terminal seed sid queue rid # [timeout_book seed sid queue] @
        waitsGone seed rid ''fail'' # taskDone seed queue task ''task-terminal'' (failed_with REASON_INFRA_CAP)) db = Inr (db', ks)"
      using e3 by (simp add: timeout_rest_def)
    show ?thesis
    proof (rule terminal_tail[OF assms(1,2) _ assms(3-7) _ _ _ failed_ok[OF assms(1)] _ _ e4[unfolded timeout_terminal_def]])
      show "live (t_state t) \<and> stored_within infra_retries_bounds (t_infra t) \<and>
          cell_is (t_infra t) INFRA_RETRY_CAP \<and> no_pass seed ''fail'' sid rid db t"
        using o(8) no_pass_open[OF assms(1-3)] acc cap by (simp add: infra_retries_bounds_def)
      show "exec_all [timeout_book seed sid queue] dd = Inr (dd, [0])" if "runs dd = runs db" for dd
        using book[of dd] none that by simp
    qed (use assms(8) in \<open>simp_all add: same_task_def\<close>)
  next
    assume p: "placed seed ''rollback-pass'' ''task-rolling-back'' sid r t db d"
    have "s_exec (timeout_terminal seed sid queue rid) d = Inr (d, 0)"
      unfolding timeout_terminal_def
      by (rule placed_terminal_idle[OF assms(1,2) p assms(3)])
        (use no_pass_placed[OF assms(1,2) p assms(3)] in auto)
    from exec_step[OF this e3] obtain js where
      e4: "exec_all (timeout_book seed sid queue # timeout_rest seed queue task rid) d = Inr (db', js)" by blast
    have "s_exec (timeout_book seed sid queue) d = Inr (d, 0)"
    proof (rule book)
      fix s assume "s \<in> set (runs d)"
      then show "r_stamp s \<noteq> Some (stamp seed ''successor'')"
        using placed_runs[OF p] none by fastforce
    qed
    from exec_step[OF this e4] obtain hs where "exec_all (timeout_rest seed queue task rid) d = Inr (db', hs)" by blast
    from placed_tail(2)[OF assms(1,2) _ assms(3) _ p _ _ this[unfolded timeout_rest_def]] show ?thesis
      using assms(8) by simp
  qed
qed

text \<open>The run whose claim expired orphans its task, and its successor has an instant.\<close>

lemma timeout_orphan:
  assumes "inv db" "fresh seed db" "r0 \<in> set (runs db)" "whereSweptClaim rid queue gen r0"
    "t \<in> set (tasks db)" "t_id t = r_task r0" "r = stamp_run seed ''fail'' (Num now) (timeout_set now db r0)"
  shows "orphaned r t (put_run r db)" "solo seed ''fail'' r (put_run r db)" "r_id r = rid" "r_queue r = queue"
    "r_task r = r_task r0" "r_fence_at r = Num now" "r_state r = Failed" "r_attempt r = r_attempt r0"
proof -
  have id: "r_id r0 = rid" "r_queue r0 = queue" "r_state r0 = Running"
    using assms(4) by (simp_all add: whereSweptClaim_def)
  have same: "same_run r0 r" by (simp add: same_run_def assms(7))
  have ok: "run_ok r" unfolding assms(7) by (rule run_ok_dead(3)[OF inv_run_ok[OF assms(1,3)]])
  show "orphaned r t (put_run r db)"
    by (rule die[OF assms(1,3) id(3) assms(5,6) same _ ok]) (simp add: assms(7))
  show "solo seed ''fail'' r (put_run r db)"
    by (rule solo_put[OF assms(2)]) (use assms(3) in \<open>auto simp: assms(7)\<close>)
qed (use assms(4) in \<open>simp_all add: assms(7) whereSweptClaim_def\<close>)

lemma timeout_fits:
  assumes "inv db" "timeout_admits now queue rid gen db r0" "t \<in> set (tasks db)" "t_id t = r_task r0"
    "t_queue t = r_queue r0" "live (t_state t)" "infra_successor_admits base r t"
  shows "stored_within epoch_bounds (Num (now + INFRA_BACKOFF_SECONDS * 1000))"
proof -
  have "owner_such db r0 (\<lambda>t. \<not> live (t_state t) \<or> cell_is (t_infra t) INFRA_RETRY_CAP \<or>
      addition_fits (Num now) (INFRA_BACKOFF_SECONDS * 1000))"
    using assms(2) by (auto simp: timeout_admits_def owner_such_def)
  then have "\<not> live (t_state t) \<or> cell_is (t_infra t) INFRA_RETRY_CAP \<or>
      addition_fits (Num now) (INFRA_BACKOFF_SECONDS * 1000)"
    using owner_such_iff[OF inv_keys[OF assms(1)] assms(3-5)] by simp
  moreover have "\<not> cell_is (t_infra t) INFRA_RETRY_CAP"
    using assms(7) by (cases "t_infra t") (auto simp: infra_successor_admits_def)
  ultimately have "addition_fits (Num now) (INFRA_BACKOFF_SECONDS * 1000)" using assms(6) by blast
  then show ?thesis by (rule epoch_sum) (simp add: const_defs)
qed

lemma claimTimeout_inv:
  assumes "inv db" "fresh seed db" "valid_clock now" "names_task task rid db"
    "run_batch (claimTimeout_batch seed sid now queue task rid gen) db = (db', ans)"
  shows "inv db'"
proof -
  let ?tail = "tl (claimTimeout_batch seed sid now queue task rid gen)"
  have b: "run_batch (cas_runs seed now ''fail'' (timeout_admits now queue rid gen) (timeout_set now) # ?tail) db = (db', ans)"
    using assms(5) by (simp add: claimTimeout_parts)
  have quiet: "\<forall>s\<in>set ?tail. s_kind s = FollowOn \<and> loses_quietly seed s"
    by (auto simp: claimTimeout_batch_def)
  show ?thesis
  proof (cases rule: cas_batch_cases[OF b inv_keys[OF assms(1)] assms(2) quiet, of rid,
        case_names a1 a2 lost won aborted])
    case (won r0 ns)
    let ?r = "stamp_run seed ''fail'' (Num now) (timeout_set now db r0)"
    let ?db = "put_run ?r db"
    obtain t where t: "t \<in> set (tasks db)" "t_id t = r_task r0" "t_queue t = r_queue r0"
      using inv_owner assms(1) won(1) by blast
    have c: "whereSweptClaim rid queue gen r0" using won(2) by (simp add: timeout_admits_def)
    note f = timeout_orphan[OF assms(1,2) won(1) c t(1,2) refl, of now]
    have task: "r_task ?r = task"
      using assms(4) won(1) c f(5) by (simp add: names_task_def whereSweptClaim_def)
    note e = won(4)[unfolded claimTimeout_parts list.sel]
    show ?thesis
    proof (cases "infra_successor_admits ?db ?r t")
      case True
      note fits = timeout_fits[OF assms(1) won(2) t orphanedD(8)[OF f(1)] True]
      from timeout_successor[OF f(1-4,6) _ True fits e] show ?thesis using f(7) by simp
    next
      case False
      show ?thesis by (rule timeout_capped[OF f(1-4) task f(6) assms(3) f(7) False e])
    qed
  qed (use assms(1) in \<open>auto simp: timeout_admits_def whereSweptClaim_def\<close>)
qed

section \<open>Cancellation\<close>

lemma cancelled_owed:
  assumes "inv db" "t \<in> set (tasks db)" "live (t_state t)" "c \<in> set (runs db)" "r_task c = t_id t"
    "live (r_state c)" "same_run c c'" "r_state c' = Cancelled" "run_ok c'"
    "same_task t t'" "t_state t' = Cancelled" "outcome_ok t'" "counters_ok t'"
  shows "owed (t_queue t) (t_id t) (drop_waits (\<lambda>w. w_run w = r_id c \<and> True) (put_run c' (put_task t' db)))"
proof -
  have k: "keys_ok db" using assms(1) by (rule inv_keys)
  have ids: "r_id c' = r_id c" "r_task c' = r_task c" "r_queue c' = r_queue c" "r_attempt c' = r_attempt c"
    using assms(7) by (simp_all add: same_run_def)
  have tid: "t_id t' = t_id t" "t_queue t' = t_queue t" using assms(10) by (simp_all add: same_task_def)
  let ?d = "put_run c' (put_task t' db)"
  let ?E = "insert (t_queue t, taskDoneEventName (t_id t)) (event_keys db)"
  have rows: "rows_ok (put_task t' db)"
    by (rule rows_put_task[of db t]) (use assms(1,2,10) in \<open>simp_all add: inv_def same_task_def\<close>)
  have "rows_ok ?d"
    by (rule rows_put_run[OF rows, of c]) (use assms(4,9) ids in simp_all)
  moreover have "waits_ok (event_keys db) (drop_waits (\<lambda>w. w_run w = r_id c \<and> True) ?d)"
    by (rule waits_put_run_drop[OF _ keys_okD(2)[OF k] assms(4) ids(1)])
      (use assms(1,8) in \<open>simp_all add: inv_def put_run_def\<close>)
  moreover have "units_ok ?E ?d"
    unfolding units_ok_def
  proof
    fix u assume "u \<in> set (tasks ?d)"
    then consider "u = t'" | "u \<in> set (tasks db)" "t_id u \<noteq> t_id t"
      using tid by (auto simp: in_put_task)
    then show "unit_ok u (unit_runs ?d (t_id u)) ?E"
    proof cases
      case 1
      have eq: "unit_runs ?d (t_id t) = insert c' (unit_runs db (t_id t) - {c})"
        using unit_runs_put_run[of "put_task t' db" c c' "t_id t"] keys_okD(2)[OF k] assms(4,5) ids by simp
      have U: "unit_ok t (unit_runs db (t_id t)) (event_keys db)" using inv_unit assms(1,2) by blast
      have cr: "carries t (unit_runs db (t_id t)) c"
        using inv_live_run(2)[OF assms(1,4,6,2)] assms(5) by simp
      have "\<not> live (r_state s) \<and> r_queue s = t_queue t'" if "s \<in> unit_runs ?d (t_id t)" for s
      proof -
        have "s = c' \<or> (s \<in> unit_runs db (t_id t) \<and> s \<noteq> c)" using that unfolding eq by blast
        then consider "s = c'" | "s \<in> unit_runs db (t_id t)" "s \<noteq> c" by blast
        then show ?thesis
        proof cases
          case 1
          have "c \<in> unit_runs db (t_id t)" using cr by (simp add: carries_def)
          then show ?thesis using 1 U assms(8) ids tid by (simp add: unit_ok_def)
        next
          case 2
          then show ?thesis using U cr tid by (simp add: unit_ok_def carries_def)
        qed
      qed
      then show ?thesis using 1 assms(11-13) tid by (simp add: unit_ok_def)
    next
      case 2
      have "unit_runs ?d (t_id u) = unit_runs db (t_id u)"
        using unit_runs_put_run[of "put_task t' db" c c' "t_id u"] keys_okD(2)[OF k] assms(4,5) ids 2(2) by simp
      then show ?thesis using inv_unit[OF assms(1) 2(1)] unit_ok_mono by (metis subset_insertI)
    qed
  qed
  ultimately show ?thesis using rows_drop_waits by (simp add: owed_def)
qed

definition cancelled_run :: "string \<Rightarrow> instant \<Rightarrow> run \<Rightarrow> run" where
  "cancelled_run seed now c =
     stamp_run seed ''runs'' (Num now) (c\<lparr>r_state := Cancelled, r_claimed_by := None, r_expires := Null\<rparr>)"

text \<open>The statement over the task's runs finds the one live run.\<close>

lemma cancel_runs_exec:
  assumes "keyed r_id (runs d)" "c \<in> set (runs d)" "r_task c = task" "r_queue c = queue" "live (r_state c)"
    "\<And>s. s \<in> set (runs d) \<Longrightarrow> r_task s = task \<Longrightarrow> live (r_state s) \<Longrightarrow> s = c"
    "stamped_tasks seed ''cancel'' (\<lambda>f. t_id f = task \<and> t_queue f = queue) d = [t']" "t_id t' = task" "t_fence_at t' = Num now"
  shows "s_exec (tasks_to_runs seed ''runs'' ''cancel'' queue (\<lambda>f. t_id f = task)
        (\<lambda>db r. r\<lparr>r_state := Cancelled, r_claimed_by := None, r_expires := Null\<rparr>)
        (\<lambda>db r. r_task r = task \<and> live (r_state r)) None) d = Inr (put_run (cancelled_run seed now c) d, 1)"
proof -
  let ?q = "\<lambda>r. r_task r = task \<and> r_queue r = queue \<and> r_task r = task \<and> live (r_state r)"
  let ?f = "\<lambda>r. stamp_run seed ''runs'' (Num now) (r\<lparr>r_state := Cancelled, r_claimed_by := None, r_expires := Null\<rparr>)"
  have one: "r_id s = r_id c" if "s \<in> set (runs d)" "?q s" for s
  proof -
    have "s = c" by (rule assms(6)) (use that in simp_all)
    then show ?thesis by simp
  qed
  have pre: "?q c" "r_id (?f c) = r_id c" using assms(3-5) by simp_all
  note upd = update_where_one_run[where p = ?q and f = ?f, OF assms(1,2) pre(1) one pre(2)]
  have "d\<lparr>runs := update_where ?q ?f (runs d)\<rparr> = put_run (?f c) d" "count_where ?q (runs d) = 1"
    by (rule upd(1), assumption+) (rule upd(2), assumption+)
  then show ?thesis
    using assms(7-9) by (simp add: tasks_to_runs_def upd_runs_def cancelled_run_def)
qed

text \<open>A cancellation that wins, up to its task's completion event.\<close>

lemma cancel_exec:
  assumes "inv db" "fresh seed db" "t \<in> set (tasks db)" "cancel_admits now queue task deadlineOnly unlessSaga db t"
    "exec_all (cancel_batch seed now queue task deadlineOnly unlessSaga) db = Inr (db', ns)"
  obtains c t' ms where "carries t (unit_runs db (t_id t)) c"
    "t' = stamp_task seed ''cancel'' (Num now) (cancel_set now db t)"
    "exec_all (taskDone seed queue task ''cancel'' (cancelled_with REASON_CANCELLED))
      (drop_waits (\<lambda>w. w_run w = r_id c \<and> True) (put_run (cancelled_run seed now c) (put_task t' db))) = Inr (db', ms)"
proof -
  let ?p = "cancel_admits now queue task deadlineOnly unlessSaga"
  let ?rs = "tasks_to_runs seed ''runs'' ''cancel'' queue (\<lambda>f. t_id f = task)
        (\<lambda>db r. r\<lparr>r_state := Cancelled, r_claimed_by := None, r_expires := Null\<rparr>)
        (\<lambda>db r. r_task r = task \<and> live (r_state r)) None"
  let ?ws = "runs_to_waits seed ''waits'' ''runs'' (\<lambda>f. r_task f = task \<and> r_state f = Cancelled) (\<lambda>db w. True)"
  let ?done = "taskDone seed queue task ''cancel'' (cancelled_with REASON_CANCELLED)"
  have k: "keys_ok db" using assms(1) by (rule inv_keys)
  have e: "exec_all (cas_tasks seed now ''cancel'' ?p (cancel_set now) # ?rs # ?ws # ?done) db = Inr (db', ns)"
    using assms(5) by (simp add: cancel_batch_def)
  have id: "t_id t = task" "t_queue t = queue" "live (t_state t)" using assms(4) by (simp_all add: cancel_admits_def)
  let ?t = "stamp_task seed ''cancel'' (Num now) (cancel_set now db t)"
  let ?d1 = "put_task ?t db"
  have tf: "t_id ?t = task" "t_queue ?t = queue" using id by (simp_all add: cancel_set_def)
  have "s_exec (cas_tasks seed now ''cancel'' ?p (cancel_set now)) db = Inr (?d1, 1)"
    by (rule cas_tasks_won[where p = ?p, OF keys_okD(1)[OF k] assms(3,4), of task])
      (simp_all add: cancel_admits_def cancel_set_def)
  from exec_step[OF this e] obtain m1 where e1: "exec_all (?rs # ?ws # ?done) ?d1 = Inr (db', m1)" by blast
  have U: "unit_ok t (unit_runs db (t_id t)) (event_keys db)" using inv_unit assms(1,3) by blast
  then obtain c where c: "carries t (unit_runs db (t_id t)) c" using id(3) by (auto simp: unit_ok_def)
  have cm: "c \<in> set (runs db)" "r_task c = task" "r_queue c = queue" "live (r_state c)"
    using c U id by (auto simp: carries_def unit_runs_def unit_ok_def)
  let ?c = "cancelled_run seed now c"
  let ?d2 = "put_run ?c ?d1"
  have tm: "?t \<in> set (tasks ?d1)" using assms(3) id tf by (auto simp: in_put_task)
  have src: "stamped_tasks seed ''cancel'' (\<lambda>f. t_id f = task \<and> t_queue f = queue) ?d1 = [?t]"
    by (rule stamped_task_one[OF _ tm]) (use keys_okD(1)[OF k] tf in auto)
  have "s_exec ?rs ?d1 = Inr (?d2, 1)"
    by (rule cancel_runs_exec[OF _ _ cm(2-4) _ src tf(1)])
      (use keys_okD(2)[OF k] cm(1) carries_unique[OF c] id(1) in \<open>simp_all add: unit_runs_def\<close>)
  from exec_step[OF this e1] obtain m2 where e2: "exec_all (?ws # ?done) ?d2 = Inr (db', m2)" by blast
  have cmem: "?c \<in> set (runs ?d2)" using cm(1) by (auto simp: in_put_run cancelled_run_def)
  have "stamped_runs seed ''runs'' (\<lambda>f. r_task f = task \<and> r_state f = Cancelled) ?d2 = [?c]"
    unfolding stamped_runs_def
  proof (rule filter_key_unique[of r_id])
    show "distinct (map r_id (runs ?d2))" using keys_okD(2)[OF k] by (simp add: keyed_def)
    show "(r_task ?c = task \<and> r_state ?c = Cancelled) \<and> r_stamp ?c = Some (stamp seed ''runs'')"
      using cm by (simp add: cancelled_run_def)
    fix s assume s: "s \<in> set (runs ?d2)"
      and p: "(r_task s = task \<and> r_state s = Cancelled) \<and> r_stamp s = Some (stamp seed ''runs'')"
    have "s = ?c \<or> s \<in> set (runs db)" using s by (auto simp: in_put_run)
    then show "r_id s = r_id ?c" using assms(2) p by (auto simp: fresh_def)
  qed (rule cmem)
  from runs_to_waits_one[OF this, of "''waits''" "\<lambda>db w. True"]
  obtain n3 where "s_exec ?ws ?d2 = Inr (drop_waits (\<lambda>w. w_run w = r_id c \<and> True) ?d2, n3)"
    by (simp add: cancelled_run_def)
  from exec_step[OF this e2] show ?thesis using that[OF c refl] by blast
qed

lemma cancel_lost:
  assumes "fresh seed db" "\<not> (\<exists>t\<in>set (tasks db). cancel_admits now queue task deadlineOnly unlessSaga db t)"
    "exec_all (cancel_batch seed now queue task deadlineOnly unlessSaga) db = Inr (db', ns)"
  shows "db' = db"
proof -
  let ?p = "cancel_admits now queue task deadlineOnly unlessSaga"
  let ?tail = "tl (cancel_batch seed now queue task deadlineOnly unlessSaga)"
  have s: "s_exec (cas_tasks seed now ''cancel'' ?p (cancel_set now)) db = Inr (db, 0)"
    by (rule cas_tasks_lost[where p = ?p, OF assms(2)])
  have e: "exec_all (cas_tasks seed now ''cancel'' ?p (cancel_set now) # ?tail) db = Inr (db', ns)"
    using assms(3) by (simp add: cancel_batch_def)
  obtain ms where "exec_all ?tail db = Inr (db', ms)" using exec_step[OF s e] by blast
  then show ?thesis by (rule exec_quiet[OF assms(1), rotated]) (auto simp: cancel_batch_def)
qed

lemma cancel_inv:
  assumes "inv db" "fresh seed db" "valid_clock now"
    "run_batch (cancel_batch seed now queue task deadlineOnly unlessSaga) db = (db', ans)"
  shows "inv db'"
proof (cases "db' = db")
  case False
  then obtain ns where e: "exec_all (cancel_batch seed now queue task deadlineOnly unlessSaga) db = Inr (db', ns)"
    using run_batch_exec[OF assms(4)] by auto
  then obtain t where t: "t \<in> set (tasks db)" "cancel_admits now queue task deadlineOnly unlessSaga db t"
    using cancel_lost[OF assms(2) _ e] False by blast
  have id: "t_id t = task" "t_queue t = queue" "live (t_state t)" using t(2) by (simp_all add: cancel_admits_def)
  obtain c t' ms where c: "carries t (unit_runs db (t_id t)) c"
    and t': "t' = stamp_task seed ''cancel'' (Num now) (cancel_set now db t)"
    and e3: "exec_all (taskDone seed queue task ''cancel'' (cancelled_with REASON_CANCELLED))
      (drop_waits (\<lambda>w. w_run w = r_id c \<and> True) (put_run (cancelled_run seed now c) (put_task t' db))) = Inr (db', ms)"
    by (rule cancel_exec[OF assms(1,2) t e])
  let ?c = "cancelled_run seed now c"
  let ?d = "drop_waits (\<lambda>w. w_run w = r_id c \<and> True) (put_run ?c (put_task t' db))"
  have tf: "t_id t' = task" "t_queue t' = queue" "t_state t' = Cancelled" "same_task t t'"
    using id by (simp_all add: t' cancel_set_def same_task_def)
  have U: "unit_ok t (unit_runs db (t_id t)) (event_keys db)" using inv_unit assms(1) t(1) by blast
  have cm: "c \<in> set (runs db)" "r_task c = t_id t" "live (r_state c)"
    using c id by (auto simp: carries_def unit_runs_def)
  have "owed (t_queue t) (t_id t) ?d"
  proof (rule cancelled_owed[OF assms(1) t(1) id(3) cm _ _ _ tf(4,3)])
    show "run_ok ?c" using inv_run_ok[OF assms(1) cm(1)] by (simp add: run_ok_def cancelled_run_def)
    show "outcome_ok t'" "counters_ok t'"
      using U live_outcome_ok[OF id(3)]
      by (simp_all add: t' unit_ok_def outcome_ok_def counters_ok_def cancel_set_def stamp_task_def)
  qed (use cm id in \<open>simp_all add: same_run_def cancelled_run_def\<close>)
  then have ow: "owed queue task ?d" using id by simp
  show ?thesis
  proof (rule task_done_inv[OF ow _ _ _ _ _ _ e3, of t'])
    show "unwoken seed ?d"
      using unwoken_put_run[of seed "put_task t' db" ?c] fresh_unwoken[OF assms(2)] by (simp add: cancelled_run_def)
    show "stored_within epoch_bounds (t_fence_at t')"
      using assms(3) by (simp add: t' valid_clock_def epoch_bounds_def)
    have "t_id t' \<in> t_id ` set (tasks db)" using t(1) tf(1) id(1) by (metis image_eqI)
    then show "t' \<in> set (tasks ?d)" by (simp add: in_put_task)
  qed (use tf t' in simp_all)
qed (use assms(1) in simp)

end
