(* ===== verification/Preserve_Spawn.thy ===== *)
theory Preserve_Spawn
  imports Preserve_Sweep
begin

text \<open>
  The invariant is kept by the batches that open a unit and by those that touch no run: the
  spawn, the revival of a failed task, the emit of an event, the materialization of a child's
  outcome and the driver's beat.
\<close>

section \<open>The driver's beat\<close>

lemma driverHeartbeat_inv:
  assumes "inv db" "driverHeartbeat now queue i ttl db = (db', ans)"
  shows "inv db'"
proof -
  have up: "keyed d_key (driver_upsert d ds)" if "keyed d_key ds" for d ds
    using that by (auto simp: keyed_def driver_upsert_def map_update_where d_key_def)
  have del: "keyed d_key (delete_where p ds)" if "keyed d_key ds" for p ds
    using that map_delete_where_distinct by (auto simp: keyed_def)
  have k: "keyed d_key (drivers db)" using inv_keys[OF assms(1)] by (simp add: keys_ok_def)
  have "\<exists>ds. db' = db\<lparr>drivers := ds\<rparr> \<and> keyed d_key ds"
  proof (cases "durationToMs ''ttlSeconds'' ttl True")
    case (Inl e)
    then have "db' = db" using assms(2) by (simp add: driverHeartbeat_def)
    then show ?thesis using k by (intro exI[of _ "drivers db"]) simp
  next
    case (Inr t)
    then show ?thesis
    proof (cases "addition_fits (Num now) t")
      case True
      then show ?thesis using assms(2) Inr del[OF up[OF k]]
        by (auto simp: driverHeartbeat_def Let_def simp del: addition_fits_Num)
    next
      case False
      then have "db' = db" using assms(2) Inr by (simp add: driverHeartbeat_def del: addition_fits_Num)
      then show ?thesis using k by (intro exI[of _ "drivers db"]) simp
    qed
  qed
  then show ?thesis using assms(1) by (auto simp: inv_def rows_ok_def keys_ok_def)
qed

section \<open>Emit\<close>

lemma emitEvent_inv:
  assumes "inv db" "fresh seed db" "valid_clock now"
    "run_batch (emitEvent_batch seed now queue name payload) db = (db', ans)"
  shows "inv db'"
proof (cases "db' = db")
  case False
  then obtain ns where e: "exec_all (emitEventCas seed now queue name payload #
      wakeWaiters seed queue name ''waits-gone'') db = Inr (db', ns)"
    using run_batch_exec[OF assms(4)] by (auto simp: emitEvent_batch_def)
  have k: "keys_ok db" using assms(1) by (rule inv_keys)
  have old: "e_stamp x \<noteq> Some (stamp seed ''event'')" if "x \<in> set (events db)" for x
    using assms(2) that stamped_byI unfolding fresh_def by blast
  have unw: "\<forall>r\<in>set (runs db). r_stamp r \<noteq> Some (stamp seed ''wake-runs'')"
    using fresh_unwoken[OF assms(2)] by (simp add: unwoken_def)
  have clock: "stored_within epoch_bounds (Num now)" using assms(3) by (simp add: valid_clock_def epoch_bounds_def)
  show ?thesis
  proof (cases "(queue, name) \<in> event_keys db")
    case True
    let ?p = "\<lambda>x. e_key x = (queue, name) \<and> e_stamp x \<noteq> Some (stamp seed ''event'') \<and>
      is_text_cell (e_payload x) \<and> stored_within epoch_bounds (e_emitted_at x)"
    let ?f = "\<lambda>x. x\<lparr>e_stamp := Some (stamp seed ''event''), e_fence_at := e_emitted_at x\<rparr>"
    let ?d = "db\<lparr>events := update_where ?p ?f (events db)\<rparr>"
    have s: "s_exec (emitEventCas seed now queue name payload) db = Inr (?d, count_where ?p (events db))"
      using True by (simp add: emitEventCas_def event_keys_def Let_def)
    obtain ms where e2: "exec_all (wakeWaiters seed queue name ''waits-gone'') ?d = Inr (db', ms)"
      using exec_step[OF s e] by blast
    have key: "e_key (?f x) = e_key x" for x by (simp add: e_key_def)
    have E: "event_keys ?d = event_keys db"
    proof -
      have "map e_key (update_where ?p ?f (events db)) = map e_key (events db)"
        by (rule map_update_where) (rule key)
      from arg_cong[OF this, of set] have "e_key ` set (update_where ?p ?f (events db)) = e_key ` set (events db)"
        by (simp only: list.set_map)
      then show ?thesis by (simp add: event_keys_def)
    qed
    have ok: "event_ok x \<and> (e_stamp x = Some (stamp seed ''event'') \<longrightarrow> stored_within epoch_bounds (e_fence_at x))"
      if "x \<in> set (events ?d)" for x
    proof -
      have o: "event_ok y" if "y \<in> set (events db)" for y using assms(1) that by (simp add: inv_def rows_ok_def)
      have "x \<in> set (update_where ?p ?f (events db))" using that by simp
      then show ?thesis
      proof (rule in_update_whereE)
        fix y assume "y \<in> set (events db)" "?p y" "x = ?f y"
        then show ?thesis using o[of y] by (simp add: event_ok_def)
      next
        assume "x \<in> set (events db)"
        then show ?thesis using o[of x] old[of x] by simp
      qed
    qed
    have ek: "keyed e_key (update_where ?p ?f (events db))"
      by (rule event_table.update_keyed[OF keys_okD(5)[OF k]]) (rule key)
    show ?thesis
    proof (rule wake_inv[OF _ _ _ _ _ _ _ e2, of "event_keys db"])
      show "rows_ok ?d" using assms(1) ok ek by (simp add: inv_def rows_ok_def keys_ok_def)
    qed (use assms(1) E ok unw in \<open>auto simp: inv_def\<close>)
  next
    case False
    let ?e = "\<lparr>e_queue = queue, e_name = name, e_payload = Text payload, e_emitted_at = Num now,
      e_stamp = Some (stamp seed ''event''), e_fence_at = Num now\<rparr>"
    let ?d = "db\<lparr>events := events db @ [?e]\<rparr>"
    have s: "s_exec (emitEventCas seed now queue name payload) db = Inr (?d, 1)"
      using False by (simp add: emitEventCas_def event_keys_def)
    obtain ms where e2: "exec_all (wakeWaiters seed queue name ''waits-gone'') ?d = Inr (db', ms)"
      using exec_step[OF s e] by blast
    have key: "e_key ?e = (queue, name)" by (simp add: e_key_def)
    have E: "event_keys ?d = insert (queue, name) (event_keys db)" by (auto simp: event_keys_def key)
    show ?thesis
    proof (rule wake_inv[OF _ _ _ _ _ _ _ e2, of "event_keys db"])
      show "rows_ok ?d"
        using assms(1) False key clock
        by (auto simp: inv_def rows_ok_def keys_ok_def keyed_def event_ok_def event_keys_def)
      show "units_ok (event_keys ?d) ?d" unfolding units_ok_def
      proof
        fix t assume "t \<in> set (tasks ?d)"
        then have "unit_ok t (unit_runs db (t_id t)) (event_keys db)" using inv_unit[OF assms(1)] by simp
        then have "unit_ok t (unit_runs db (t_id t)) (insert (queue, name) (event_keys db))"
          by (rule unit_ok_mono) (rule subset_insertI)
        then show "unit_ok t (unit_runs ?d (t_id t)) (event_keys ?d)" by (simp only: E unit_runs_events)
      qed
      show "\<exists>x\<in>set (events ?d). e_key x = (queue, name) \<and> e_stamp x = Some (stamp seed ''event'')"
        using key by auto
      show "stored_within epoch_bounds (e_fence_at x)"
        if "x \<in> set (events ?d)" "e_stamp x = Some (stamp seed ''event'')" for x
        using that old clock by auto
    qed (use assms(1) E unw in \<open>auto simp: inv_def\<close>)
  qed
qed (use assms(1) in simp)

section \<open>Materialization\<close>

text \<open>A child that has ended has its event already, so the statement finds nothing to record.\<close>

lemma materialize_same:
  assumes "inv db" "\<And>c. c \<in> set (tasks db) \<Longrightarrow> t_id c = child \<Longrightarrow> t_stamp c = cstamp \<Longrightarrow> \<not> live (t_state c)"
    "run_batch [materializeTaskDoneCas seed now queue task rid token child payload cstamp] db = (db', ans)"
  shows "db' = db"
proof -
  have "filter (\<lambda>c. t_id c = child \<and> t_stamp c = cstamp \<and>
      (t_queue c, taskDoneEventName child) \<notin> e_key ` set (events db) \<and>
      stillClaimed queue rid task token (\<lambda>t. live (t_state t)) db) (tasks db) = []"
  proof (unfold filter_empty_conv, intro ballI notI)
    fix c assume c: "c \<in> set (tasks db)" "t_id c = child \<and> t_stamp c = cstamp \<and>
      (t_queue c, taskDoneEventName child) \<notin> e_key ` set (events db) \<and>
      stillClaimed queue rid task token (\<lambda>t. live (t_state t)) db"
    then have "\<not> live (t_state c)" using assms(2) by blast
    then have "(t_queue c, taskDoneEventName (t_id c)) \<in> event_keys db"
      using inv_unit[OF assms(1) c(1)] by (simp add: unit_ok_def)
    then show False using c(2) by (simp add: event_keys_def)
  qed
  then show ?thesis using assms(3) by (simp add: run_batch_def materializeTaskDoneCas_def)
qed

section \<open>Spawn\<close>

text \<open>A request as the port has validated it.\<close>

definition valid_request :: "spawn_request \<Rightarrow> bool" where
  "valid_request rq =
     (1 \<le> sp_max_attempts rq \<and> sp_max_attempts rq \<le> MAX_COUNT \<and> 0 \<le> sp_delay rq)"

text \<open>A new task with its first run is a unit of its own.\<close>

lemma open_unit:
  assumes "inv db" "t_id t \<notin> t_id ` set (tasks db)" "t_id t \<notin> r_task ` set (runs db)"
    "\<not> idem_taken (tasks db) (t_queue t) (t_idem t)" "r_id n \<notin> r_id ` set (runs db)"
    "r_task n = t_id t" "r_queue n = t_queue t" "live (r_state n)" "t_state t = r_state n"
    "\<not> (r_state n = Sleeping \<and> r_available n = Null)" "run_ok n"
    "storedCurrentRunAccounting n t" "t_completed t = None" "t_failure t = None"
  shows "inv (add_run n (db\<lparr>tasks := tasks db @ [t]\<rparr>))"
proof -
  let ?d = "db\<lparr>tasks := tasks db @ [t]\<rparr>"
  have k: "keys_ok db" using assms(1) by (rule inv_keys)
  have rows: "rows_ok db" using assms(1) by (simp add: inv_def)
  have ord: "r_ordinal n \<notin> r_ordinal ` set (runs db)"
    using assms(3,6) by (auto simp: r_ordinal_def)
  have idem: "idem_unique (tasks ?d)"
    using rows assms(4) unfolding rows_ok_def idem_unique_def idem_taken_def by auto
  have "keys_ok ?d" using k assms(2) by (auto simp: keys_ok_def keyed_def)
  then have "rows_ok ?d" using rows idem by (auto simp: rows_ok_def)
  then have R: "rows_ok (add_run n ?d)"
    by (rule rows_add_run) (use assms(5,6,11) ord in simp_all)
  have U: "unit_runs (add_run n ?d) tid = (if tid = t_id t then {n} else unit_runs db tid)" for tid
    using assms(3,6) by (auto simp: unit_runs_def image_iff)
  have own: "unit_ok t {n} (event_keys db)"
  proof -
    have "carries t {n} n" using assms(9,12) by (simp add: carries_def)
    moreover have "counters_ok t" using assms(12) by (simp add: counters_ok_def storedCurrentRunAccounting_def)
    moreover have "outcome_ok t" using live_outcome_ok[of t] assms(8,9,13,14) by simp
    ultimately show ?thesis using assms(7-9) by (auto simp: unit_ok_def)
  qed
  have "unit_ok u (unit_runs (add_run n ?d) (t_id u)) (event_keys db)" if u: "u \<in> set (tasks ?d)" for u
  proof (cases "u = t")
    case True
    then show ?thesis using own U by simp
  next
    case False
    then have "u \<in> set (tasks db)" using u by simp
    moreover from this have "t_id u \<noteq> t_id t" using assms(2) by (metis imageI)
    ultimately show ?thesis using inv_unit[OF assms(1)] U by simp
  qed
  then have "units_ok (event_keys db) (add_run n ?d)" by (simp add: units_ok_def)
  moreover have "waits_ok (event_keys db) (add_run n ?d)"
    by (rule waits_add_run[OF _ assms(10)]) (use assms(1) in \<open>simp add: inv_def\<close>)
  ultimately show ?thesis using R by (simp add: inv_def)
qed

lemma spawn_inv:
  assumes "inv db" "fresh seed db" "valid_clock now" "valid_request rq"
    "run_batch (spawn_batch seed now task rid rq) db = (db', ans)"
  shows "inv db'"
proof (cases "db' = db")
  case False
  let ?t = "spawned_task seed now task rq"
  let ?d = "db\<lparr>tasks := tasks db @ [?t]\<rparr>"
  obtain ns where e: "exec_all (spawn_batch seed now task rid rq) db = Inr (db', ns)"
    using run_batch_exec[OF assms(5)] False by auto
  obtain d1 n1 ms where c: "s_exec (spawnTaskCas seed now task rq) db = Inr (d1, n1)"
    "exec_all [spawnRunInsert seed rid task] d1 = Inr (db', ms)"
    using exec_cons[OF e[unfolded spawn_batch_def]] by metis
  have "d1 \<noteq> db"
  proof
    assume "d1 = db"
    then have "db' = db" using c(2) exec_quiet[OF assms(2), of "[spawnRunInsert seed rid task]"] by simp
    then show False using False by simp
  qed
  then have adm: "spawn_admits now task rq db" "\<not> idem_taken (tasks db) (sp_queue rq) (sp_key rq)"
    "task \<notin> t_id ` set (tasks db)" "d1 = ?d"
    using c(1) by (auto simp: spawnTaskCas_def split: if_splits)
  have free: "task \<notin> r_task ` set (runs db)" using adm(1) by (simp add: spawn_admits_def identity_free_def)
  have fit: "stored_within epoch_bounds (t_enqueue_at ?t)"
    using adm(1) assms(4) by (simp add: spawn_admits_def spawned_task_def valid_request_def epoch_bounds_def)
  let ?n = "new_run rid (sp_queue rq) task (Num 1) Pending (t_enqueue_at ?t) (Some (stamp seed ''run'')) (Num now)"
  have src: "stamped_tasks seed ''task'' (\<lambda>f. t_id f = task \<and> stored_within epoch_bounds (t_enqueue_at f) \<and>
      t_id f \<notin> r_task ` set (runs ?d)) ?d = [?t]"
  proof -
    have "filter (\<lambda>f. (t_id f = task \<and> stored_within epoch_bounds (t_enqueue_at f) \<and>
      t_id f \<notin> r_task ` set (runs ?d)) \<and> t_stamp f = Some (stamp seed ''task'')) (tasks db) = []"
      using adm(3) by (auto simp: filter_empty_conv)
    then show ?thesis using fit free by (simp add: stamped_tasks_def spawned_task_def)
  qed
  have "s_exec (spawnRunInsert seed rid task) ?d = ins_run ?n ?d"
    unfolding spawnRunInsert_def stmt.simps src by (simp add: spawned_task_def)
  then obtain k where i: "ins_run ?n ?d = Inr (db', k)"
    using c(2) adm(4) by (auto split: sum.splits)
  have n: "db' = add_run ?n ?d" "r_id ?n \<notin> r_id ` set (runs db)" using ins_run_Inr[OF i] by simp_all
  show ?thesis unfolding n(1)
  proof (rule open_unit[OF assms(1)])
    show "r_id ?n \<notin> r_id ` set (runs db)" by (rule n(2))
    show "run_ok ?n" using fit by (simp add: run_ok_def new_run_def bounds_defs const_defs)
    show "storedCurrentRunAccounting ?n ?t"
      using assms(4)
      by (simp add: storedCurrentRunAccounting_def new_run_def spawned_task_def valid_request_def bounds_defs const_defs)
  qed (use adm free in \<open>simp_all add: spawned_task_def new_run_def\<close>)
qed (use assms(1) in simp)

section \<open>Revival\<close>

lemma topOrdinal_unit:
  assumes "inv db" "t \<in> set (tasks db)" "r \<in> set (runs db)" "runOwnedByTask r t"
  shows "\<exists>p\<in>unit_runs db (t_id t). r_attempt p = topOrdinal db t"
    "\<forall>s\<in>unit_runs db (t_id t). cell_le (r_attempt s) (topOrdinal db t)"
proof -
  let ?rs = "filter (\<lambda>r. runOwnedByTask r t) (runs db)"
  have u: "unit_ok t (unit_runs db (t_id t)) (event_keys db)" using inv_unit assms(1,2) by blast
  have q: "\<forall>r\<in>unit_runs db (t_id t). r_queue r = t_queue t" using u by (simp add: unit_ok_def)
  have "set ?rs = {r \<in> unit_runs db (t_id t). r_queue r = t_queue t}"
    unfolding unit_runs_def runOwnedByTask_def by auto
  then have set: "set ?rs = unit_runs db (t_id t)" using q by auto
  have num: "\<exists>a. c = Num a" if "c \<in> set (map r_attempt ?rs)" for c
  proof -
    obtain s where "s \<in> set (runs db)" "c = r_attempt s" using \<open>c \<in> set (map r_attempt ?rs)\<close> by auto
    then show ?thesis using inv_run_ok[OF assms(1)] by (auto simp: run_ok_def stored_within_iff)
  qed
  have "?rs \<noteq> []" using assms(3,4) by (auto simp: filter_empty_conv)
  then have ne: "map r_attempt ?rs \<noteq> []" by simp
  have top: "topOrdinal db t = sql_max (map r_attempt ?rs)" by (simp add: topOrdinal_def)
  have "topOrdinal db t \<in> r_attempt ` set ?rs"
    unfolding top using sql_max_Num(1)[OF ne num] by simp
  then show "\<exists>p\<in>unit_runs db (t_id t). r_attempt p = topOrdinal db t" unfolding set by auto
  have "\<forall>s\<in>set ?rs. cell_le (r_attempt s) (topOrdinal db t)"
    unfolding top using sql_max_Num(2)[OF ne num] by simp
  then show "\<forall>s\<in>unit_runs db (t_id t). cell_le (r_attempt s) (topOrdinal db t)" unfolding set .
qed

text \<open>A dead unit is reopened by a run one past its top ordinal.\<close>

lemma reopen_unit:
  assumes "inv db" "t \<in> set (tasks db)" "\<not> live (t_state t)" "same_task t t'"
    "t_completed t' = None" "t_failure t' = None" "r_id n \<notin> r_id ` set (runs db)"
    "r_task n = t_id t" "r_queue n = t_queue t" "live (r_state n)" "t_state t' = r_state n"
    "\<not> (r_state n = Sleeping \<and> r_available n = Null)" "run_ok n" "storedCurrentRunAccounting n t'"
    "\<forall>s\<in>unit_runs db (t_id t). cell_lt (r_attempt s) (r_attempt n)"
  shows "inv (add_run n (put_task t' db))"
proof -
  have k: "keys_ok db" using assms(1) by (rule inv_keys)
  have tid: "t_id t' = t_id t" "t_queue t' = t_queue t" using assms(4) by (simp_all add: same_task_def)
  have u: "unit_ok t (unit_runs db (t_id t)) (event_keys db)" using inv_unit assms(1,2) by blast
  have ord: "r_ordinal n \<notin> r_ordinal ` set (runs db)"
  proof
    assume "r_ordinal n \<in> r_ordinal ` set (runs db)"
    then obtain s where "s \<in> set (runs db)" "r_task s = r_task n" "r_attempt s = r_attempt n"
      by (auto simp: r_ordinal_def)
    then have "cell_lt (r_attempt n) (r_attempt n)" using assms(8,15) by (auto simp: unit_runs_def)
    then show False by (cases "r_attempt n") auto
  qed
  have "rows_ok (put_task t' db)"
    by (rule rows_put_task[of db t]) (use assms(1,2,4) in \<open>simp_all add: inv_def same_task_def\<close>)
  then have R: "rows_ok (add_run n (put_task t' db))"
  proof (rule rows_add_run)
    show "r_task n \<in> t_id ` set (tasks (put_task t' db))"
      using assms(2,8) map_put_id(2)[of t' db] by (metis image_eqI list.set_map)
  qed (use assms(7,13) ord in simp_all)
  have "unit_ok t' (insert n (unit_runs db (t_id t))) (event_keys db)"
  proof -
    have "carries t' (insert n (unit_runs db (t_id t))) n"
      using u assms(3,11,14,15) by (auto simp: carries_def unit_ok_def)
    moreover have "counters_ok t'" using assms(14) by (simp add: counters_ok_def storedCurrentRunAccounting_def)
    moreover have "outcome_ok t'" using live_outcome_ok[of t'] assms(5,6,10,11) by simp
    ultimately show ?thesis using u tid assms(9-11) by (auto simp: unit_ok_def)
  qed
  then have "units_ok (event_keys db) (add_run n (put_task t' db))"
    using units_put[OF _ keys_okD(1)[OF k] assms(2) tid(1), of "event_keys db" "add_run n (put_task t' db)"]
      assms(1,8) by (simp add: inv_def)
  moreover have "waits_ok (event_keys db) (add_run n (put_task t' db))"
    by (rule waits_add_run[OF _ assms(12)]) (use assms(1) in \<open>simp add: inv_def\<close>)
  ultimately show ?thesis using R by (simp add: inv_def)
qed

text \<open>The charge a revival takes up, and the ordinal it leads to.\<close>

lemma revive_counts:
  assumes "RETRY_ADMITS db t"
  obtains a i m where "t_infra t = Num i" "retry_charged db t = Num a" "t_max_attempts t = Num m"
    "topOrdinal db t = Num (a + i)" "0 \<le> a" "a \<le> m" "m < MAX_COUNT" "1 \<le> m" "0 \<le> i" "i \<le> INFRA_RETRY_CAP"
proof -
  obtain i where i: "t_infra t = Num i" "0 \<le> i" "i \<le> INFRA_RETRY_CAP"
    using assms by (auto simp: RETRY_ADMITS_def stored_within_iff bounds_defs)
  obtain m where m: "t_max_attempts t = Num m" "1 \<le> m" "m < MAX_COUNT"
    using assms by (auto simp: RETRY_ADMITS_def incrementable_iff max_attempts_bounds_def)
  obtain b where b: "t_attempts t = Num b" "0 \<le> b"
    using assms by (auto simp: RETRY_ADMITS_def stored_within_iff bounds_defs)
  obtain a where a: "retry_charged db t = Num a" "a \<le> m" "a = b \<or> a = b + 1"
    using assms m(1) b(1) by (cases "retry_charged db t") (auto simp: RETRY_ADMITS_def)
  have "topOrdinal db t = Num (a + i)"
    using a(1) i(1) by (cases "topOrdinal db t") (auto simp: retry_charged_def)
  then show ?thesis using that[of i a m] i m a b by auto
qed

abbreviation revived_run :: "string \<Rightarrow> string \<Rightarrow> task \<Rightarrow> run \<Rightarrow> run" where
  "revived_run seed rid t p \<equiv>
     carried p (new_run rid (t_queue t) (t_id t) (cell_plus (r_attempt p) (Num 1)) Pending
       (t_fence_at t) (Some (stamp seed ''run'')) (t_fence_at t))"

text \<open>A revival that wins replaces the task and places the run after its top one.\<close>

lemma revive_exec:
  assumes "inv db" "t \<in> set (tasks db)" "revive_admits queue task db t"
    "exec_all (retryTask_batch seed rid now queue task) db = Inr (db', ns)"
  obtains p t' where "t' = stamp_task seed ''revive'' (Num now) (revive_set rid db t)"
    "p \<in> unit_runs db (t_id t)" "r_attempt p = topOrdinal db t"
    "db' = add_run (revived_run seed rid t' p) (put_task t' db)" "rid \<notin> r_id ` set (runs db)"
    "\<forall>s\<in>unit_runs db (t_id t). cell_le (r_attempt s) (topOrdinal db t)"
proof -
  have k: "keys_ok db" using assms(1) by (rule inv_keys)
  have A: "RETRY_ADMITS db t" "t_id t = task" using assms(3) by (simp_all add: revive_admits_def)
  obtain d1 n1 ms where c: "s_exec (cas_tasks seed now ''revive'' (revive_admits queue task) (revive_set rid)) db = Inr (d1, n1)"
    "exec_all [revivalRunInsert seed rid task] d1 = Inr (db', ms)"
    using exec_cons[OF assms(4)[unfolded retryTask_batch_def]] by metis
  let ?t = "stamp_task seed ''revive'' (Num now) (revive_set rid db t)"
  let ?d = "put_task ?t db"
  have "s_exec (cas_tasks seed now ''revive'' (revive_admits queue task) (revive_set rid)) db = Inr (?d, 1)"
    by (rule cas_tasks_won[where p = "revive_admits queue task" and tid = task])
      (use keys_okD(1)[OF k] assms(2,3) in \<open>simp_all add: revive_admits_def revive_set_def\<close>)
  then have d1: "d1 = ?d" using c(1) by simp
  have tset: "set (tasks ?d) = insert ?t (set (tasks db) - {t})"
    by (rule set_put_task[OF keys_okD(1)[OF k] assms(2)]) (simp add: revive_set_def)
  have topd: "topOrdinal ?d ?t = topOrdinal db t" "noLiveRunOf ?d ?t = noLiveRunOf db t"
    by (simp_all add: topOrdinal_def noLiveRunOf_def runOwnedByTask_def revive_set_def)
  obtain o1 where o1: "o1 \<in> set (runs db)" "runOwnedByTask o1 t" using A(1) by (auto simp: RETRY_ADMITS_def)
  note top = topOrdinal_unit[OF assms(1,2) o1]
  obtain p0 where p0: "p0 \<in> unit_runs db (t_id t)" "r_attempt p0 = topOrdinal db t" using top(1) by blast
  let ?F = "filter (\<lambda>(p, f). t_id f = task \<and> t_stamp f = Some (stamp seed ''revive'') \<and>
      r_attempt p = topOrdinal ?d f \<and> noLiveRunOf ?d f) (joined ?d)"
  have own: "runOwnedByTask p0 ?t"
    using p0(1) inv_unit[OF assms(1,2)] by (auto simp: unit_ok_def unit_runs_def runOwnedByTask_def revive_set_def)
  have mem0: "(p0, ?t) \<in> set ?F"
    using p0 own A topd tset by (simp add: unit_runs_def revive_set_def RETRY_ADMITS_def)
  have only: "f = ?t" if "(p, f) \<in> set ?F" for p f
  proof (rule ccontr)
    assume "f \<noteq> ?t"
    then have f: "f \<in> set (tasks db)" "f \<noteq> t" "t_id f = t_id t" using that tset A(2) by auto
    from task_table.unique[OF keys_okD(1)[OF k] f(1) assms(2) f(3)] f(2) show False by contradiction
  qed
  obtain p f rest where F: "?F = (p, f) # rest" using mem0 by (cases ?F) auto
  then have "(p, f) \<in> set ?F" by simp
  moreover from this have f: "f = ?t" by (rule only)
  ultimately have p: "p \<in> unit_runs db (t_id t)" "r_attempt p = topOrdinal db t"
    using topd(1) A(2) by (auto simp: unit_runs_def runOwnedByTask_def revive_set_def)
  have "s_exec (revivalRunInsert seed rid task) ?d = ins_run (revived_run seed rid ?t p) ?d"
    unfolding revivalRunInsert_def stmt.simps F using f by simp
  then obtain j where "ins_run (revived_run seed rid ?t p) ?d = Inr (db', j)"
    using c(2) d1 by (auto split: sum.splits)
  from ins_run_Inr[OF this] show ?thesis
    using that[OF refl p] top(2) by (simp add: carried_def new_run_def)
qed

lemma retryTask_quiet:
  assumes "fresh seed db" "\<not> (\<exists>t\<in>set (tasks db). revive_admits queue task db t)"
    "exec_all (retryTask_batch seed rid now queue task) db = Inr (db', ns)"
  shows "db' = db"
proof -
  obtain d1 n1 ms where c: "s_exec (cas_tasks seed now ''revive'' (revive_admits queue task) (revive_set rid)) db = Inr (d1, n1)"
    "exec_all [revivalRunInsert seed rid task] d1 = Inr (db', ms)"
    using exec_cons[OF assms(3)[unfolded retryTask_batch_def]] by metis
  have "d1 = db" using c(1) cas_tasks_lost[of db "revive_admits queue task"] assms(2) by simp
  then show ?thesis using c(2) exec_quiet[OF assms(1), of "[revivalRunInsert seed rid task]"] by simp
qed

lemma retryTask_inv:
  assumes "inv db" "fresh seed db" "valid_clock now"
    "run_batch (retryTask_batch seed rid now queue task) db = (db', ans)"
  shows "inv db'"
proof (cases "db' = db")
  case False
  obtain ns where e: "exec_all (retryTask_batch seed rid now queue task) db = Inr (db', ns)"
    using run_batch_exec[OF assms(4)] False by auto
  then obtain t where t: "t \<in> set (tasks db)" "revive_admits queue task db t"
    using retryTask_quiet[OF assms(2) _ e] False by blast
  have A: "RETRY_ADMITS db t" "t_state t = Failed" using t(2) by (simp_all add: revive_admits_def)
  obtain a i m where q: "t_infra t = Num i" "retry_charged db t = Num a" "t_max_attempts t = Num m"
    "topOrdinal db t = Num (a + i)" "0 \<le> a" "a \<le> m" "m < MAX_COUNT" "1 \<le> m" "0 \<le> i" "i \<le> INFRA_RETRY_CAP"
    by (rule revive_counts[OF A(1)])
  obtain p t' where p: "t' = stamp_task seed ''revive'' (Num now) (revive_set rid db t)"
    "r_attempt p = topOrdinal db t"
    "db' = add_run (revived_run seed rid t' p) (put_task t' db)" "rid \<notin> r_id ` set (runs db)"
    "\<forall>s\<in>unit_runs db (t_id t). cell_le (r_attempt s) (topOrdinal db t)"
    by (rule revive_exec[OF assms(1) t e])
  let ?n = "revived_run seed rid t' p"
  have st: "same_task t t'" by (simp add: same_task_def revive_set_def p(1))
  have pa: "r_attempt p = Num (a + i)" using p(2) q(4) by simp
  show ?thesis unfolding p(3)
  proof (rule reopen_unit[OF assms(1) t(1) _ st])
    show "\<forall>s\<in>unit_runs db (t_id t). cell_lt (r_attempt s) (r_attempt ?n)"
    proof
      fix s assume "s \<in> unit_runs db (t_id t)"
      then have "cell_le (r_attempt s) (Num (a + i))" using p(5) q(4) by auto
      then show "cell_lt (r_attempt s) (r_attempt ?n)"
        using pa by (cases "r_attempt s") (auto simp: carried_def new_run_def)
    qed
    show "run_ok ?n"
      using q pa assms(3)
      by (simp add: p(1) run_ok_def carried_def new_run_def bounds_defs const_defs valid_clock_def)
    show "storedCurrentRunAccounting ?n t'"
      using q pa
      by (simp add: p(1) storedCurrentRunAccounting_def carried_def new_run_def revive_set_def bounds_defs const_defs)
    show "t_completed t' = None" using A(1) by (simp add: p(1) RETRY_ADMITS_def revive_set_def)
  qed (use A(2) p(4) in \<open>simp_all add: p(1) carried_def new_run_def revive_set_def\<close>)
qed (use assms(1) in simp)

end
