(* ===== verification/Preserve_Claim.thy ===== *)
theory Preserve_Claim
  imports Preserve_Spawn
begin

text \<open>
  The two batches that move runs by the many or park one on an event: the claim, whose single
  statement takes every candidate and whose follow-ons book the tasks and drop the waits that
  timed out, and the await that registers a wait and puts its run to sleep on it.
\<close>

section \<open>Waits when many runs move\<close>

lemma waits_image:
  assumes "waits_ok E db" "keyed r_id (runs db)" "runs db' = map f (runs db)"
    "waits db' = delete_where gone (waits db)"
    "\<And>r. r \<in> set (runs db) \<Longrightarrow> \<not> W r \<Longrightarrow> f r = r"
    "\<And>r. r \<in> set (runs db) \<Longrightarrow> W r \<Longrightarrow> r_state (f r) \<noteq> Sleeping"
    "\<And>w r. w \<in> set (waits db) \<Longrightarrow> r \<in> set (runs db) \<Longrightarrow> W r \<Longrightarrow> parked_on r w \<Longrightarrow> gone w"
    "\<And>w. w \<in> set (waits db) \<Longrightarrow> gone w \<Longrightarrow> \<exists>r\<in>set (runs db). W r \<and> w_run w = r_id r"
  shows "waits_ok E db'"
proof -
  have "wait_ok (set (runs db')) E w" if w: "w \<in> set (waits db)" "\<not> gone w" for w
    unfolding wait_ok_def
  proof
    assume "w_status w = Waiting"
    then obtain r where r: "r \<in> set (runs db)" "parked_on r w" and E: "(w_queue w, w_event w) \<notin> E"
      using assms(1) w(1) by (auto simp: waits_ok_def wait_ok_def)
    have "f r = r" using assms(5,7) r w by blast
    then have "r \<in> set (runs db')" using r(1) assms(3) by force
    then show "(\<exists>r\<in>set (runs db'). parked_on r w) \<and> (w_queue w, w_event w) \<notin> E" using r(2) E by blast
  qed
  moreover have "sleeper_ok (set (waits db')) s" if s: "s \<in> set (runs db')" for s
    unfolding sleeper_ok_def
  proof
    assume a: "r_state s = Sleeping \<and> r_available s = Null"
    obtain r where r: "r \<in> set (runs db)" "s = f r" using s assms(3) by auto
    have nW: "\<not> W r" using a r assms(6) by blast
    then have eq: "s = r" using assms(5) r by simp
    then obtain w where w: "w \<in> set (waits db)" "parked_on r w"
      using a assms(1) r(1) by (auto simp: waits_ok_def sleeper_ok_def)
    have "\<not> gone w"
    proof
      assume "gone w"
      then obtain q where "q \<in> set (runs db)" "W q" "r_id q = r_id r"
        using assms(8)[OF w(1)] parked_on_id[OF w(2)] by auto
      then show False using run_table.unique[OF assms(2) _ r(1)] nW by blast
    qed
    then show "\<exists>w\<in>set (waits db'). parked_on s w" using w eq assms(4) by auto
  qed
  ultimately show ?thesis using assms(4) by (simp add: waits_ok_def)
qed

section \<open>The candidates of a claim\<close>

lemma in_leg:
  "r \<in> set (claim_leg s now queue limit db) \<Longrightarrow>
     r \<in> set (runs db) \<and> dueRuns s now queue r \<and> owner_such db r (claimEligibility now db r)"
  unfolding claim_leg_def by (drule in_set_takeD) simp

lemma claim_admitsD:
  assumes "keyed r_id (runs db)" "r \<in> set (runs db)" "claim_admits now queue token lease limit db r"
  shows "dueRuns Pending now queue r \<or> dueRuns Sleeping now queue r"
    "owner_such db r (claimEligibility now db r)" "addition_fits (Num now) lease"
proof -
  have "r_id r \<in> set (candidateRunIds now queue limit db)"
    using assms(3) by (simp add: claim_admits_def)
  then obtain c where c: "r_id c = r_id r"
    "c \<in> set (claim_leg Pending now queue limit db @ claim_leg Sleeping now queue limit db)"
    unfolding candidateRunIds_def by (auto dest!: in_set_takeD)
  have leg: "c \<in> set (claim_leg Pending now queue limit db) \<or> c \<in> set (claim_leg Sleeping now queue limit db)"
    using c(2) by simp
  then have "c \<in> set (runs db)" using in_leg by blast
  then have "c = r" using run_table.unique[OF assms(1) _ assms(2) c(1)] by simp
  then show "dueRuns Pending now queue r \<or> dueRuns Sleeping now queue r"
    "owner_such db r (claimEligibility now db r)" using leg in_leg by blast+
  show "addition_fits (Num now) lease" using assms(3) unfolding claim_admits_def by blast
qed

section \<open>The claim as one replacement\<close>

definition taken_run :: "string \<Rightarrow> instant \<Rightarrow> string \<Rightarrow> string \<Rightarrow> duration \<Rightarrow> nat \<Rightarrow> db \<Rightarrow> run \<Rightarrow> run" where
  "taken_run seed now queue token lease limit db r =
     (if claim_admits now queue token lease limit db r
      then stamp_run seed ''claim'' (Num now) (claim_set now token lease db r) else r)"

definition taken_runs :: "instant \<Rightarrow> string \<Rightarrow> string \<Rightarrow> duration \<Rightarrow> nat \<Rightarrow> db \<Rightarrow> run set" where
  "taken_runs now queue token lease limit db =
     {r \<in> set (runs db). claim_admits now queue token lease limit db r}"

definition booked_task ::
  "string \<Rightarrow> string \<Rightarrow> run set \<Rightarrow> cell \<Rightarrow> db \<Rightarrow> task \<Rightarrow> task" where
  "booked_task seed queue taken x d t =
     (if t_id t \<in> r_task ` taken \<and> t_queue t = queue \<and> live (t_state t)
      then stamp_task seed ''task-book'' x
        (t\<lparr>t_state := Running, t_last_run := claimed_run_of seed d t\<rparr>)
      else t)"

definition timed_out :: "instant \<Rightarrow> run set \<Rightarrow> wait \<Rightarrow> bool" where
  "timed_out now taken w =
     (w_run w \<in> r_id ` taken \<and> w_status w = Waiting \<and> stored_within epoch_bounds (w_timeout w) \<and>
      cell_le (w_timeout w) (Num now))"

lemma claim_set_fields [simp]:
  "r_id (claim_set now token lease db r) = r_id r" "r_queue (claim_set now token lease db r) = r_queue r"
  "r_task (claim_set now token lease db r) = r_task r"
  "r_attempt (claim_set now token lease db r) = r_attempt r"
  "r_state (claim_set now token lease db r) = Running"
  "r_claimed_by (claim_set now token lease db r) = Some token"
  by (simp_all add: claim_set_def)

lemma taken_run_fields [simp]:
  "r_id (taken_run seed now queue token lease limit db r) = r_id r"
  "r_queue (taken_run seed now queue token lease limit db r) = r_queue r"
  "r_task (taken_run seed now queue token lease limit db r) = r_task r"
  "r_attempt (taken_run seed now queue token lease limit db r) = r_attempt r"
  by (simp_all add: taken_run_def)

lemma exec_claim:
  assumes "fresh seed db" "keyed r_id (runs db)"
    "\<And>r. r \<in> set (runs db) \<Longrightarrow> claim_admits now queue token lease limit db r \<Longrightarrow> r_queue r = queue"
    "exec_all (claim_batch seed now queue token lease limit) db = Inr (db', ns)"
  shows "\<exists>x d. db' = db\<lparr>runs := map (taken_run seed now queue token lease limit db) (runs db),
      tasks := map (booked_task seed queue (taken_runs now queue token lease limit db) x d) (tasks db),
      waits := delete_where (timed_out now (taken_runs now queue token lease limit db)) (waits db)\<rparr>"
proof -
  let ?C = "claim_admits now queue token lease limit db"
  let ?T = "taken_runs now queue token lease limit db"
  let ?f = "taken_run seed now queue token lease limit db"
  let ?d = "db\<lparr>runs := map ?f (runs db)\<rparr>"
  have old: "r_stamp r \<noteq> Some (stamp seed ''claim'')" if "r \<in> set (runs db)" for r
    using assms(1) that stamped_byI unfolding fresh_def by blast
  have new: "(r_stamp (?f r) = Some (stamp seed ''claim'')) = ?C r" if "r \<in> set (runs db)" for r
    using old[OF that] by (simp add: taken_run_def)
  have s1: "s_exec (cas_many_runs seed now ''claim'' limit (claim_admits now queue token lease limit)
      (claim_set now token lease)) db = Inr (?d, count_where ?C (runs db))"
    by (simp add: cas_many_runs_def upd_runs_def update_where_def taken_run_def)
  obtain ms where e1: "exec_all (tl (claim_batch seed now queue token lease limit)) ?d = Inr (db', ms)"
    using exec_step[OF s1 assms(4)[unfolded claim_batch_def]] by (auto simp: claim_batch_def)
  have src: "set (stamped_runs seed ''claim'' w d) = ?f ` ?T"
    if "runs d = map ?f (runs db)" "\<And>r. r \<in> ?T \<Longrightarrow> w (?f r)" for w d
    using that new unfolding stamped_runs_def taken_runs_def by auto
  have taken: "claim_taken queue token (?f r)" "r_queue (?f r) = queue" if "r \<in> ?T" for r
    using that assms(3) by (simp_all add: claim_taken_def taken_run_def taken_runs_def)
  let ?S = "\<lambda>d. stamped_runs seed ''claim'' (\<lambda>f. claim_taken queue token f \<and> r_queue f = queue) d"
  let ?x = "sql_min (map r_fence_at (?S ?d))"
  let ?d2 = "?d\<lparr>tasks := map (booked_task seed queue ?T ?x ?d) (tasks db)\<rparr>"
  have S: "set (?S ?d) = ?f ` ?T" by (rule src) (use taken in simp_all)
  have ex: "(\<exists>f\<in>set (?S ?d). t_id t = r_task f) = (t_id t \<in> r_task ` ?T)" for t
    unfolding S by auto
  have "\<exists>n. s_exec (runs_to_tasks seed ''task-book'' ''claim'' queue (claim_taken queue token)
      (\<lambda>db t. t\<lparr>t_state := Running, t_last_run := claimed_run_of seed db t\<rparr>)
      (\<lambda>db t. live (t_state t)) None) ?d = Inr (?d2, n)"
    unfolding runs_to_tasks_def upd_tasks_def Let_def stmt.simps ex
    by (simp add: update_where_def booked_task_def)
  then obtain ks where e2: "exec_all (tl (tl (claim_batch seed now queue token lease limit))) ?d2 = Inr (db', ks)"
    using exec_step e1 unfolding claim_batch_def list.sel by blast
  have S2: "set (stamped_runs seed ''claim'' (claim_taken queue token) ?d2) = ?f ` ?T"
    by (rule src) (use taken in simp_all)
  have ids: "(\<exists>f\<in>set (stamped_runs seed ''claim'' (claim_taken queue token) ?d2). w_run w = r_id f) =
    (w_run w \<in> r_id ` ?T)" for w
    unfolding S2 by auto
  have at: "fencedAt seed ''claim'' i ?d2 = Num now" if i: "i \<in> r_id ` ?T" for i
  proof -
    obtain r where r: "r \<in> ?T" "i = r_id r" using i by auto
    have "find (\<lambda>f. r_id f = i \<and> r_stamp f = Some (stamp seed ''claim'')) (map ?f (runs db)) \<noteq> None"
      using r new unfolding find_None_iff taken_runs_def by auto
    then obtain g where g: "find (\<lambda>f. r_id f = i \<and> r_stamp f = Some (stamp seed ''claim'')) (map ?f (runs db)) = Some g"
      by blast
    then obtain q where "q \<in> set (runs db)" "g = ?f q" "r_stamp g = Some (stamp seed ''claim'')"
      by (auto simp: find_Some_iff) (metis nth_mem)
    then have "r_fence_at g = Num now" using new by (simp add: taken_run_def)
    then show ?thesis using g by (simp add: fencedAt_def)
  qed
  have gone: "(\<lambda>w. (\<exists>f\<in>set (stamped_runs seed ''claim'' (claim_taken queue token) ?d2). w_run w = r_id f) \<and>
      w_status w = Waiting \<and> stored_within epoch_bounds (w_timeout w) \<and>
      cell_le (w_timeout w) (fencedAt seed ''claim'' (w_run w) ?d2)) = timed_out now ?T"
    unfolding ids using at by (auto simp: timed_out_def fun_eq_iff)
  have "db' = ?d2\<lparr>waits := delete_where (timed_out now ?T) (waits ?d2)\<rparr>"
    using e2 unfolding claim_batch_def list.sel exec_all.simps runs_to_waits_def stmt.simps Let_def del_waits_def
    by (simp add: gone)
  then show ?thesis by (intro exI[of _ ?x] exI[of _ ?d]) simp
qed

section \<open>The claim keeps the invariant\<close>

lemma taken_run_ok:
  assumes "run_ok r" "keyed r_id (runs db)" "r \<in> set (runs db)" "valid_clock now"
    "1 \<le> lease" "lease \<le> MAX_DURATION_MS"
  shows "run_ok (taken_run seed now queue token lease limit db r)"
proof (cases "claim_admits now queue token lease limit db r")
  case True
  note c = claim_admitsD[OF assms(2,3) True]
  obtain t where "claimEligibility now db r t" using c(2) by (auto simp: owner_such_def)
  then obtain g a where g: "r_claim_gen r = Num g" "0 \<le> g" "g < MAX_COUNT"
    and a: "r_activated_gen r = Num a" "a \<le> g"
    by (cases "r_activated_gen r")
      (auto simp: claimEligibility_def storedIncrementableClaimGeneration_def incrementable_iff claim_gen_bounds_def)
  have e: "stored_within epoch_bounds (Num (now + lease))"
    using c(3) assms(5) by (simp add: epoch_bounds_def)
  show ?thesis
    using True assms(1,5,6) g a e
    by (simp add: taken_run_def run_ok_def claim_set_def storedPositiveClaimGeneration_def bounds_defs)
qed (use assms(1) in \<open>simp add: taken_run_def\<close>)

lemma claim_inv:
  assumes "inv db" "fresh seed db" "valid_clock now" "1 \<le> lease" "lease \<le> MAX_DURATION_MS"
    "run_batch (claim_batch seed now queue token lease limit) db = (db', ans)"
  shows "inv db'"
proof (cases "db' = db")
  case False
  let ?C = "claim_admits now queue token lease limit db"
  let ?T = "taken_runs now queue token lease limit db"
  let ?f = "taken_run seed now queue token lease limit db"
  have k: "keys_ok db" using assms(1) by (rule inv_keys)
  note kr = keys_okD(2)[OF k]
  note adm = claim_admitsD[OF kr]
  have q: "r_queue r = queue" if "r \<in> set (runs db)" "?C r" for r
    using adm(1)[OF that] by (auto simp: dueRuns_def)
  have lv: "live (r_state r)" if "r \<in> set (runs db)" "?C r" for r
    using adm(1)[OF that] by (auto simp: dueRuns_def)
  obtain ns where "exec_all (claim_batch seed now queue token lease limit) db = Inr (db', ns)"
    using run_batch_exec[OF assms(6)] False by auto
  then obtain x d where eq: "db' = db\<lparr>runs := map ?f (runs db),
      tasks := map (booked_task seed queue ?T x d) (tasks db), waits := delete_where (timed_out now ?T) (waits db)\<rparr>"
    using exec_claim[OF assms(2) kr q] by blast
  let ?h = "booked_task seed queue ?T x d"
  have E: "event_keys db' = event_keys db" unfolding eq by (simp add: event_keys_def)
  have same: "same_task t (?h t) \<and> same_counters t (?h t) \<and> same_outcome t (?h t)" for t
    by (simp add: booked_task_def same_defs)
  have "rows_ok db'"
  proof (rule rows_image[where db = db and f = ?f and h = ?h])
    show "keyed w_key (waits db')" using wait_table.delete_keyed[OF keys_okD(4)[OF k]] eq by simp
    show "same_run r (?f r) \<and> run_ok (?f r)" if "r \<in> set (runs db)" for r
      using taken_run_ok[OF inv_run_ok[OF assms(1) that] kr that assms(3-5)] by (simp add: same_run_def)
  qed (use assms(1) eq same in \<open>simp_all add: inv_def\<close>)
  moreover have "units_ok (event_keys db) db'"
  proof (rule units_image[where db = db and f = ?f and h = ?h and E = "event_keys db"])
    show "same_run r (?f r) \<and> live (r_state (?f r)) = live (r_state r)" if "r \<in> set (runs db)" for r
      using lv[OF that] by (simp add: same_run_def taken_run_def)
    fix t c assume t: "t \<in> set (tasks db)" "live (t_state t)" and c: "carries t (unit_runs db (t_id t)) c"
    have mem: "c \<in> set (runs db)" "r_task c = t_id t" using c by (auto simp: carries_def unit_runs_def)
    have iff: "(t_id t \<in> r_task ` ?T) = ?C c"
    proof
      assume "t_id t \<in> r_task ` ?T"
      then obtain r where r: "r \<in> set (runs db)" "?C r" "r_task r = t_id t" by (auto simp: taken_runs_def)
      then have "r = c" using carries_unique[OF c, of r] lv by (simp add: unit_runs_def)
      then show "?C c" using r by simp
    next
      assume "?C c"
      then show "t_id t \<in> r_task ` ?T" using mem by (intro image_eqI[of _ _ c]) (simp_all add: taken_runs_def)
    qed
    show "t_state (?h t) = r_state (?f c)"
    proof (cases "?C c")
      case True
      have "t_queue t = queue"
        using q[OF mem(1) True] inv_unit[OF assms(1) t(1)] mem by (auto simp: unit_ok_def unit_runs_def)
      then show ?thesis using iff True t(2) by (simp add: booked_task_def taken_run_def)
    next
      case False
      then show ?thesis using iff c by (simp add: booked_task_def taken_run_def carries_def)
    qed
  qed (use assms(1) eq same in \<open>simp_all add: inv_def booked_task_def\<close>)
  moreover have "waits_ok (event_keys db) db'"
  proof (rule waits_image[where W = ?C and gone = "timed_out now ?T" and f = ?f and db = db])
    fix w r assume w: "w \<in> set (waits db)" "r \<in> set (runs db)" "?C r" "parked_on r w"
    have "runAvailableDue r now" using adm(1)[OF w(2,3)] by (auto simp: dueRuns_def)
    then show "timed_out now ?T w"
      using w by (auto simp: timed_out_def taken_runs_def parked_on_def wait_witness_def runAvailableDue_def)
  qed (use assms(1) kr eq in \<open>auto simp: inv_def taken_run_def timed_out_def taken_runs_def\<close>)
  ultimately show ?thesis unfolding inv_def E by simp
qed (use assms(1) in simp)

section \<open>The await\<close>

definition sleep_on :: "string \<Rightarrow> wait \<Rightarrow> run \<Rightarrow> run" where
  "sleep_on seed w r =
     stamp_run seed ''park'' (w_fence_at w)
       (r\<lparr>r_state := Sleeping, r_available := w_timeout w, r_wake_event := Some (w_event w),
          r_payload := Null, r_wake_step := Some (w_step w), r_claimed_by := None,
          r_expires := Null, r_heartbeat := Null\<rparr>)"

text \<open>What a won await amounts to.\<close>

definition awaited :: "string \<Rightarrow> wait \<Rightarrow> run \<Rightarrow> task \<Rightarrow> db \<Rightarrow> db" where
  "awaited seed w r t db =
     (put_task (stamp_task seed ''task-mirror'' (w_fence_at w) (t\<lparr>t_state := Sleeping\<rparr>))
       (put_run (sleep_on seed w r) db))\<lparr>waits := waits db @ [w]\<rparr>"

lemma exec_await:
  assumes "inv db" "fresh seed db"
    "register_admits now queue task rid token name timeout db" "(rid, step) \<notin> w_key ` set (waits db)"
    "exec_all (awaitEvent_batch seed now queue task rid token step name timeout) db = Inr (db', ns)"
  shows "\<exists>r t. r \<in> set (runs db) \<and> t \<in> set (tasks db) \<and> whereClaimedRun rid queue token r \<and>
    r_task r = task \<and> runOwnedByTask r t \<and> ns = [1, 1, 1] \<and>
    db' = awaited seed (registered_wait seed now queue task rid step name timeout) r t db"
proof -
  let ?w = "registered_wait seed now queue task rid step name timeout"
  let ?d = "db\<lparr>waits := waits db @ [?w]\<rparr>"
  have k: "keys_ok db" using assms(1) by (rule inv_keys)
  obtain r where r: "r \<in> set (runs db)" "whereClaimedRun rid queue token r" "r_task r = task"
    "owner_such db r (\<lambda>t. eligibleTask t now)"
    using assms(3) by (auto simp: register_admits_def stillClaimed_def)
  then obtain t where t: "t \<in> set (tasks db)" "runOwnedByTask r t" "eligibleTask t now"
    by (auto simp: owner_such_def)
  have c: "r_id r = rid" "r_queue r = queue" "r_state r = Running" "r_claimed_by r = Some token"
    using r(2) by (simp_all add: whereClaimedRun_def)
  have s1: "s_exec (registerWaitCas seed now queue task rid token step name timeout) db = Inr (?d, 1)"
    using assms(3,4) by (simp add: registerWaitCas_def)
  obtain ms where m: "exec_all (tl (awaitEvent_batch seed now queue task rid token step name timeout)) ?d = Inr (db', ms)"
    "ns = 1 # ms"
    using exec_step[OF s1 assms(5)[unfolded awaitEvent_batch_def]] unfolding awaitEvent_batch_def by auto
  have old: "w_stamp w \<noteq> Some (stamp seed ''register'')" if "w \<in> set (waits db)" for w
    using assms(2) that stamped_byI unfolding fresh_def by blast
  have none: "filter (\<lambda>f. p f \<and> w_stamp f = Some (stamp seed ''register'')) (waits db) = []" for p
    using old by (simp add: filter_empty_conv)
  have src: "stamped_waits seed ''register'' p ?d = [?w]" if "p ?w" for p
    using that none by (simp add: stamped_waits_def registered_wait_def)
  let ?f = "\<lambda>r. stamp_run seed ''park'' (w_fence_at ?w) (r\<lparr>r_state := Sleeping,
      r_available := fenced_timeout seed rid step ?d, r_wake_event := Some (event_value name),
      r_payload := Null, r_wake_step := Some step, r_claimed_by := None, r_expires := Null, r_heartbeat := Null\<rparr>)"
  let ?p = "\<lambda>r. r_id r = rid \<and> r_queue r = queue \<and> r_task r = task \<and> whereClaimedRun rid queue token r \<and>
      owner_such ?d r (\<lambda>t. live (t_state t))"
  have fr: "?f r = sleep_on seed ?w r"
    using src[of "\<lambda>f. w_run f = rid \<and> w_step f = step"]
    by (simp add: fenced_timeout_def sleep_on_def registered_wait_def)
  have pr: "?p r"
    using r c t by (auto simp: owner_such_def eligible_live)
  have one: "?d\<lparr>runs := update_where ?p ?f (runs ?d)\<rparr> = put_run (?f r) ?d" "count_where ?p (runs ?d) = 1"
    using update_where_one_run[of ?d r ?p ?f] keys_okD(2)[OF k] r(1) pr c(1) by simp_all
  have srcq: "stamped_waits seed ''register'' (\<lambda>f. (w_run f = rid \<and> w_step f = step \<and> w_status f = Waiting) \<and>
      w_queue f = queue) ?d = [?w]"
    by (rule src) (simp add: registered_wait_def)
  have wr: "w_run ?w = rid" by (simp add: registered_wait_def)
  let ?d2 = "put_run (sleep_on seed ?w r) ?d"
  have s2: "s_exec (waits_to_runs seed ''park'' ''register'' queue
        (\<lambda>f. w_run f = rid \<and> w_step f = step \<and> w_status f = Waiting)
        (\<lambda>db r. r\<lparr>r_state := Sleeping, r_available := fenced_timeout seed rid step db,
                  r_wake_event := Some (event_value name), r_payload := Null,
                  r_wake_step := Some step, r_claimed_by := None, r_expires := Null,
                  r_heartbeat := Null\<rparr>)
        (\<lambda>db r. r_task r = task \<and> whereClaimedRun rid queue token r \<and>
                owner_such db r (\<lambda>t. live (t_state t))) (Some 1)) ?d = Inr (?d2, 1)"
    unfolding waits_to_runs_def stmt.simps Let_def srcq upd_runs_def
    using one[unfolded fr] wr by simp
  let ?r = "sleep_on seed ?w r"
  have in2: "?r \<in> set (runs ?d2)" using r(1) by (auto simp: in_put_run sleep_on_def)
  have s3: "s_exec (runs_to_tasks seed ''task-mirror'' ''park'' queue (\<lambda>f. r_id f = rid \<and> r_state f = Sleeping)
        (\<lambda>db t. t\<lparr>t_state := Sleeping\<rparr>) (\<lambda>db t. live (t_state t)) (Some 1)) ?d2 =
      Inr (put_task (stamp_task seed ''task-mirror'' (r_fence_at ?r) (t\<lparr>t_state := Sleeping\<rparr>)) ?d2, 1)"
  proof (rule runs_to_tasks_one)
    show "stamped_runs seed ''park'' (\<lambda>f. (r_id f = rid \<and> r_state f = Sleeping) \<and> r_queue f = queue) ?d2 = [?r]"
      by (rule stamped_run_one[OF _ in2]) (use keys_okD(2)[OF k] c in \<open>auto simp: sleep_on_def\<close>)
  qed (use keys_okD(1)[OF k] t c r(3) in \<open>auto simp: runOwnedByTask_def sleep_on_def eligible_live\<close>)
  have "db' = put_task (stamp_task seed ''task-mirror'' (r_fence_at ?r) (t\<lparr>t_state := Sleeping\<rparr>)) ?d2 \<and> ms = [1, 1]"
    using m(1) unfolding awaitEvent_batch_def list.sel exec_all.simps s2 sum.case prod.case s3 by simp
  then show ?thesis using r t m(2)
    by (intro exI[of _ r] exI[of _ t]) (auto simp: awaited_def put_task_def put_run_def sleep_on_def)
qed

lemma await_inv:
  assumes "inv db" "fresh seed db" "valid_clock now" "\<And>d. timeout = Some d \<Longrightarrow> 0 \<le> d"
    "run_batch (awaitEvent_batch seed now queue task rid token step name timeout) db = (db', ans)"
  shows "inv db'"
proof (cases "register_admits now queue task rid token name timeout db \<and> (rid, step) \<notin> w_key ` set (waits db)")
  case False
  then have s1: "s_exec (registerWaitCas seed now queue task rid token step name timeout) db = Inr (db, 0)"
    by (auto simp: registerWaitCas_def)
  have "db' = db" if e: "exec_all (awaitEvent_batch seed now queue task rid token step name timeout) db = Inr (db', ns)" for ns
  proof -
    obtain ms where "exec_all (tl (awaitEvent_batch seed now queue task rid token step name timeout)) db = Inr (db', ms)"
      using exec_step[OF s1 e[unfolded awaitEvent_batch_def]] unfolding awaitEvent_batch_def by auto
    then show ?thesis by (rule exec_quiet[OF assms(2), rotated]) (simp add: awaitEvent_batch_def)
  qed
  then show ?thesis using run_batch_exec[OF assms(5)] assms(1) by blast
next
  case True
  let ?w = "registered_wait seed now queue task rid step name timeout"
  show ?thesis
  proof (cases "db' = db")
    case False
    then obtain ns where "exec_all (awaitEvent_batch seed now queue task rid token step name timeout) db = Inr (db', ns)"
      using run_batch_exec[OF assms(5)] by blast
    then obtain r t where r: "r \<in> set (runs db)" "t \<in> set (tasks db)" "whereClaimedRun rid queue token r"
      "r_task r = task" "runOwnedByTask r t" and eq: "db' = awaited seed ?w r t db"
      using exec_await[OF assms(1,2)] True by blast
    have c: "r_id r = rid" "r_queue r = queue" "r_state r = Running" using r(3) by (simp_all add: whereClaimedRun_def)
    let ?r = "sleep_on seed ?w r"
    let ?t = "stamp_task seed ''task-mirror'' (w_fence_at ?w) (t\<lparr>t_state := Sleeping\<rparr>)"
    let ?d = "put_task ?t (put_run ?r db)"
    have timeout: "w_timeout ?w = Null \<or> stored_within epoch_bounds (w_timeout ?w)"
      using True assms(3,4)
      by (cases timeout) (auto simp: registered_wait_def register_admits_def valid_clock_def epoch_bounds_def)
    have ok: "run_ok ?r"
      using inv_run_ok[OF assms(1) r(1)] timeout by (auto simp: run_ok_def sleep_on_def)
    have m: "rows_ok ?d" "units_ok (event_keys db) ?d"
      by (rule move_unit[OF assms(1) r(1) _ r(2)];
          use r c ok in \<open>simp add: same_defs sleep_on_def runOwnedByTask_def\<close>)+
    have E: "event_keys db' = event_keys db" unfolding eq awaited_def event_keys_simps ..
    have k: "keyed r_id (runs db)" using keys_okD(2)[OF inv_keys[OF assms(1)]] .
    have rs: "set (runs db') = insert ?r (set (runs db) - {r})"
      unfolding eq awaited_def using set_put_run[OF k r(1), of ?r] by (simp add: sleep_on_def)
    have ws: "set (waits db') = insert ?w (set (waits db))" unfolding eq awaited_def by auto
    have parked: "parked_on ?r ?w"
      using c r(4) timeout by (simp add: parked_on_def wait_witness_def sleep_on_def registered_wait_def)
    have "rows_ok db'"
      unfolding eq awaited_def using m(1) True
      by (auto simp: rows_ok_def keys_ok_def keyed_def registered_wait_def w_key_def)
    moreover have "units_ok (event_keys db) db'" unfolding eq awaited_def using m(2) by simp
    moreover have "waits_ok (event_keys db) db'"
      unfolding waits_ok_def rs ws
    proof (intro conjI ballI)
      fix w assume "w \<in> insert ?w (set (waits db))"
      then show "wait_ok (insert ?r (set (runs db) - {r})) (event_keys db) w"
      proof
        assume "w = ?w"
        then show ?thesis using parked True
          by (auto simp: wait_ok_def register_admits_def event_keys_def registered_wait_def)
      next
        assume w: "w \<in> set (waits db)"
        have "\<not> parked_on r w" using c(3) by (simp add: parked_on_def)
        moreover have "wait_ok (set (runs db)) (event_keys db) w" using assms(1) w by (simp add: inv_def waits_ok_def)
        ultimately show ?thesis unfolding wait_ok_def by blast
      qed
    next
      fix x assume "x \<in> insert ?r (set (runs db) - {r})"
      then show "sleeper_ok (insert ?w (set (waits db))) x"
      proof
        assume "x = ?r"
        then show ?thesis using parked by (auto simp: sleeper_ok_def)
      next
        assume "x \<in> set (runs db) - {r}"
        then have "sleeper_ok (set (waits db)) x" using assms(1) by (simp add: inv_def waits_ok_def)
        then show ?thesis by (auto simp: sleeper_ok_def)
      qed
    qed
    ultimately show ?thesis unfolding inv_def E by simp
  qed (use assms(1) in simp)
qed

end
