(* ===== verification/History.thy ===== *)
theory History
  imports Preserve_Claim
begin

text \<open>
  What no batch ever undoes. Runs, tasks, events and checkpoints are never deleted and keep their
  identity, an event keeps the payload and the instant of its first write, and a task that completed or was
  cancelled is never written again. The relation is shown of every statement once, and a batch
  inherits it from its statements, whichever of them win.
\<close>

section \<open>The relation\<close>

definition run_ident :: "run \<Rightarrow> string \<times> string \<times> string \<times> cell" where
  "run_ident r = (r_id r, r_queue r, r_task r, r_attempt r)"

definition task_ident :: "task \<Rightarrow> string \<times> string \<times> string option" where
  "task_ident t = (t_id t, t_queue t, t_idem t)"

definition event_ident :: "event \<Rightarrow> (string \<times> string) \<times> cell \<times> cell" where
  "event_ident e = (e_key e, e_payload e, e_emitted_at e)"

definition settled :: "task \<Rightarrow> bool" where
  "settled t = (t_state t = Completed \<or> t_state t = Cancelled)"

definition extends :: "db \<Rightarrow> db \<Rightarrow> bool" where
  "extends db db' =
     (prefix (map run_ident (runs db)) (map run_ident (runs db')) \<and>
      prefix (map task_ident (tasks db)) (map task_ident (tasks db')) \<and>
      prefix (map event_ident (events db)) (map event_ident (events db')) \<and>
      prefix (map c_key (checkpoints db)) (map c_key (checkpoints db')) \<and>
      (\<forall>t\<in>set (tasks db). settled t \<longrightarrow> t \<in> set (tasks db')))"

lemma extends_refl [simp]: "extends db db"
  by (simp add: extends_def)

lemma extends_trans: "extends a b \<Longrightarrow> extends b c \<Longrightarrow> extends a c"
  unfolding extends_def by (meson prefix_order.trans)

lemma prefix_image:
  assumes "prefix (map k xs) (map k ys)"
  shows "k ` set xs \<subseteq> k ` set ys"
proof -
  have "set (map k xs) \<subseteq> set (map k ys)" by (rule set_mono_prefix[OF assms])
  then show ?thesis by simp
qed

lemma extends_runs:
  assumes "extends db db'" "r \<in> set (runs db)"
  obtains r' where "r' \<in> set (runs db')" "run_ident r' = run_ident r"
proof -
  have "run_ident ` set (runs db) \<subseteq> run_ident ` set (runs db')"
    using assms(1) by (intro prefix_image) (simp add: extends_def)
  then have "run_ident r \<in> run_ident ` set (runs db')" using assms(2) by blast
  then show ?thesis using that by auto
qed

lemma extends_events:
  assumes "extends db db'" "e \<in> set (events db)"
  obtains e' where "e' \<in> set (events db')" "event_ident e' = event_ident e"
proof -
  have "event_ident ` set (events db) \<subseteq> event_ident ` set (events db')"
    using assms(1) by (intro prefix_image) (simp add: extends_def)
  then have "event_ident e \<in> event_ident ` set (events db')" using assms(2) by blast
  then show ?thesis using that by auto
qed

text \<open>A task keeps the checkpoints it has, and so a saga that began has begun for good.\<close>

lemma extends_checkpoints:
  assumes "extends db db'" "c \<in> set (checkpoints db)"
  obtains c' where "c' \<in> set (checkpoints db')" "c_key c' = c_key c"
proof -
  have "c_key ` set (checkpoints db) \<subseteq> c_key ` set (checkpoints db')"
    using assms(1) by (intro prefix_image) (simp add: extends_def)
  then have "c_key c \<in> c_key ` set (checkpoints db')" using assms(2) by blast
  then show ?thesis using that by auto
qed

lemma extends_saga:
  assumes "extends db db'" "sagaBeganOf db task"
  shows "sagaBeganOf db' task"
proof -
  obtain c where c: "c \<in> set (checkpoints db)" "c_task c = task" "c_name c = SAGA_PHASE_CHECKPOINT"
    using assms(2) by (auto simp: sagaBeganOf_def)
  obtain c' where "c' \<in> set (checkpoints db')" "c_key c' = c_key c" using extends_checkpoints[OF assms(1) c(1)] .
  then show ?thesis using c(2,3) by (auto simp: sagaBeganOf_def c_key_def)
qed

section \<open>Statements\<close>

named_theorems grow_intros "statements that keep the history"

definition grows :: "stmt \<Rightarrow> bool" where
  "grows s = (\<forall>db db' n. s_exec s db = Inr (db', n) \<longrightarrow> extends db db')"

lemma extends_upd_runs:
  "(\<And>r. run_ident (f r) = run_ident r) \<Longrightarrow> extends db (db\<lparr>runs := update_where p f (runs db)\<rparr>)"
  by (simp add: extends_def map_update_where)

lemma extends_upd_tasks:
  assumes "\<And>t. task_ident (f t) = task_ident t" "\<And>t. p t \<Longrightarrow> \<not> settled t"
  shows "extends db (db\<lparr>tasks := update_where p f (tasks db)\<rparr>)"
proof -
  have "t \<in> set (update_where p f (tasks db))" if "t \<in> set (tasks db)" "settled t" for t
    using that assms(2) by (force simp: set_update_where)
  then show ?thesis using assms(1) by (simp add: extends_def map_update_where)
qed

lemma extends_other [simp]:
  "extends db (db\<lparr>waits := ws\<rparr>)" "extends db (db\<lparr>drivers := ds\<rparr>)"
  "extends db (db\<lparr>runs := runs db @ rs\<rparr>)" "extends db (db\<lparr>tasks := tasks db @ ts\<rparr>)"
  "extends db (db\<lparr>events := events db @ es\<rparr>)"
  by (simp_all add: extends_def)

lemma settled_not_live: "settled t \<Longrightarrow> \<not> live (t_state t)"
  by (auto simp: settled_def)

lemma ident_stamp [simp]:
  "run_ident (stamp_run seed name x r) = run_ident r" "task_ident (stamp_task seed name x t) = task_ident t"
  by (simp_all add: run_ident_def task_ident_def)

lemma grows_cas [grow_intros]:
  "(\<And>db r. run_ident (f db r) = run_ident r) \<Longrightarrow> grows (cas_runs seed now name p f)"
  "(\<And>db r. run_ident (f db r) = run_ident r) \<Longrightarrow> grows (cas_many_runs seed now name k p f)"
  "(\<And>db t. task_ident (g db t) = task_ident t) \<Longrightarrow> (\<And>db t. q db t \<Longrightarrow> \<not> settled t) \<Longrightarrow>
     grows (cas_tasks seed now name q g)"
  by (auto simp: grows_def cas_runs_def cas_many_runs_def cas_tasks_def upd_runs_def upd_tasks_def
      intro!: extends_upd_runs extends_upd_tasks)

lemma grows_generated [grow_intros]:
  "(\<And>db t. task_ident (g db t) = task_ident t) \<Longrightarrow> (\<And>db t. nar db t \<Longrightarrow> live (t_state t)) \<Longrightarrow>
     grows (runs_to_tasks seed name fence q w g nar rows)"
  "(\<And>db r. run_ident (f db r) = run_ident r) \<Longrightarrow> grows (tasks_to_runs seed name fence q w2 f nar2 rows)"
  "(\<And>db r. run_ident (f db r) = run_ident r) \<Longrightarrow> grows (waits_to_runs seed name fence q w3 f nar3 rows)"
  "grows (runs_to_waits seed name fence w4 nar4)"
  "grows (seal_runs seed name fence w5)"
  by (auto simp: grows_def runs_to_tasks_def tasks_to_runs_def waits_to_runs_def runs_to_waits_def
      seal_runs_def Let_def upd_runs_def upd_tasks_def del_waits_def
      intro!: extends_upd_runs extends_upd_tasks dest!: settled_not_live)

lemma extends_ins_run: "ins_run r db = Inr (db', n) \<Longrightarrow> extends db db'"
  by (auto simp: ins_run_def split: if_splits)

lemma grows_custom [grow_intros]:
  "grows (checkpointWrite seed name fence rid cname state)"
  "grows (failureSuccessor seed name fence sid rid st delay adm)"
  "grows (wakeRunsUpdate seed queue ev)"
  "grows (taskDoneEventInsert seed queue task terminal res)"
  "grows (emitEventCas seed now queue ev payload)"
  "grows (registerWaitCas seed now queue task rid token step name2 timeout)"
  "grows (materializeTaskDoneCas seed now queue task rid token child payload cstamp)"
  "grows (spawnTaskCas seed now task rq)"
  "grows (spawnRunInsert seed rid task)"
  "grows (revivalRunInsert seed rid task)"
proof -
  have "extends db (db\<lparr>checkpoints := upsert_checkpoint c (checkpoints db)\<rparr>)" for db c
    by (simp add: extends_def upsert_checkpoint_def map_update_where c_key_def)
  then show "grows (checkpointWrite seed name fence rid cname state)"
    by (auto simp: grows_def checkpointWrite_def Let_def split: list.splits)
  show "grows (failureSuccessor seed name fence sid rid st delay adm)"
    "grows (spawnRunInsert seed rid task)" "grows (revivalRunInsert seed rid task)"
    by (auto simp: grows_def failureSuccessor_def spawnRunInsert_def revivalRunInsert_def
        split: list.splits prod.splits dest: extends_ins_run)
  show "grows (wakeRunsUpdate seed queue ev)"
    by (auto simp: grows_def wakeRunsUpdate_def upd_runs_def run_ident_def intro!: extends_upd_runs)
  show "grows (taskDoneEventInsert seed queue task terminal res)"
    "grows (registerWaitCas seed now queue task rid token step name2 timeout)"
    "grows (materializeTaskDoneCas seed now queue task rid token child payload cstamp)"
    "grows (spawnTaskCas seed now task rq)"
    by (auto simp: grows_def taskDoneEventInsert_def registerWaitCas_def materializeTaskDoneCas_def
        spawnTaskCas_def split: list.splits if_splits)
  have "extends db (db\<lparr>events := update_where p (\<lambda>e. e\<lparr>e_stamp := x, e_fence_at := e_emitted_at e\<rparr>) (events db)\<rparr>)"
    for db p x
    by (simp add: extends_def map_update_where event_ident_def e_key_def)
  then show "grows (emitEventCas seed now queue ev payload)"
    by (auto simp: grows_def emitEventCas_def Let_def)
qed

lemma exec_grows:
  "exec_all ss db = Inr (db', ns) \<Longrightarrow> \<forall>s\<in>set ss. grows s \<Longrightarrow> extends db db'"
proof (induction ss arbitrary: db ns)
  case (Cons s ss)
  obtain d n ms where "s_exec s db = Inr (d, n)" "exec_all ss d = Inr (db', ms)"
    using exec_cons[OF Cons.prems(1)] by metis
  then show ?case using Cons.IH Cons.prems(2) extends_trans by (force simp: grows_def)
qed simp

lemma batch_grows:
  assumes "run_batch ss db = (db', ans)" "list_all grows ss"
  shows "extends db db'"
  using run_batch_exec[OF assms(1)] exec_grows assms(2) by (auto simp: list_all_iff)

section \<open>Batches\<close>

lemma grows_groups [grow_intros]:
  "list_all grows (finishSuspension seed queue rid)"
  "list_all grows (wakeWaiters seed queue name wg)"
  "list_all grows (taskDone seed queue task terminal res)"
  "list_all grows (sagaPass seed queue rid passId fence entering delay adm)"
  "grows (waitsGone seed rid after)"
  "grows (fail_terminal seed name fl)"
  by (auto simp: finishSuspension_def taskMirrorsRun_def waitsGone_def wakeWaiters_def taskDone_def
      sagaPass_def fail_terminal_def task_ident_def split: option.splits intro!: grow_intros)

lemma batches_grow:
  "list_all grows (heartbeat_batch seed now queue rid token ext)"
  "list_all grows (setCheckpoint_batch seed now queue task rid token name state ext)"
  "list_all grows (claim_batch seed now queue token lease limit)"
  "list_all grows (activate_batch seed now queue rid token gen)"
  "list_all grows (deferLaunch_batch seed now queue rid token gen plan)"
  "list_all grows (reschedule_batch seed now queue rid token plan)"
  "list_all grows (suspendRun_batch seed now queue rid token plan name state)"
  "list_all grows (emitEvent_batch seed now queue name payload)"
  "list_all grows (awaitEvent_batch seed now queue task rid token step ev timeout)"
  "list_all grows (complete_batch seed now queue task rid token res)"
  "list_all grows (failInto_batch seed now fl)"
  "list_all grows (lostLaunch_batch seed sid now now2 queue task rid gen)"
  "list_all grows (claimTimeout_batch seed sid now queue task rid gen)"
  "list_all grows (cancel_batch seed now queue task dl us)"
  "list_all grows (retryTask_batch seed rid now queue task)"
  "list_all grows (spawn_batch seed now task rid rq)"
  by (auto simp: heartbeat_batch_def setCheckpoint_batch_def claim_batch_def activate_batch_def
      deferLaunch_batch_def reschedule_batch_def suspendRun_batch_def emitEvent_batch_def
      awaitEvent_batch_def complete_batch_def failInto_batch_def lostLaunch_batch_def
      claimTimeout_batch_def cancel_batch_def retryTask_batch_def spawn_batch_def run_ident_def
      task_ident_def park_def suspend_set_def complete_set_def fail_set_def reopen_set_def
      timeout_set_def cancel_set_def revive_set_def claim_set_def settled_def cancel_admits_def
      revive_admits_def list_all_append split: option.splits intro!: grow_intros)

end
