(* ===== verification/Purge.thy ===== *)
theory Purge
  imports Retry Child_Tasks
begin

text \<open>
  Retention (core \<open>retention.ts\<close>, \<open>statements/purge.ts\<close>; store-libsql \<open>retention.ts\<close>): the windows of a
  policy, the listing of the ended tasks a purge may take, and the purge of one unit. A unit is a
  task with its runs, their waits, its checkpoints and its completion event. One batch stamps the
  task if the barrier admits it, reads how much the unit holds and deletes all of it.
\<close>

section \<open>The policy\<close>

definition MIN_RETENTION_SECONDS :: int where "MIN_RETENTION_SECONDS = 3600"
definition MAX_PURGE_UNIT_CHECKPOINTS :: int where "MAX_PURGE_UNIT_CHECKPOINTS = 200000"
definition OPERATOR_LIST_CAP :: int where "OPERATOR_LIST_CAP = 1000"
definition MAX_RETENTION_SECONDS :: int where "MAX_RETENTION_SECONDS = MAX_DURATION_MS div 1000"

text \<open>For each ended state its window in milliseconds, or none for a state the policy keeps.\<close>

record windows =
  completed_ms :: "int option"
  failed_ms :: "int option"
  cancelled_ms :: "int option"

fun window_of :: "windows \<Rightarrow> lstate \<Rightarrow> int option" where
  "window_of ws Completed = completed_ms ws"
| "window_of ws Failed = failed_ms ws"
| "window_of ws Cancelled = cancelled_ms ws"
| "window_of ws _ = None"

definition required_window :: "js_value \<Rightarrow> int checked" where
  "required_window v =
     (case v of
        JsNumber (Finite q) \<Rightarrow>
          if \<not> safe_integer (Finite q) \<or> q < of_int MIN_RETENTION_SECONDS \<or> q > of_int MAX_RETENTION_SECONDS
          then Inl (PortRefusal ''retention policy'') else Inr (floor q * 1000)
      | _ \<Rightarrow> Inl (PortRefusal ''retention policy''))"

definition retentionWindowsMs :: "js_value \<Rightarrow> windows checked" where
  "retentionWindowsMs policy =
     (case policy of
        JsObject props \<Rightarrow>
          (case required_window (readRetryField props ''completedSeconds'') of
             Inl e \<Rightarrow> Inl e
           | Inr c \<Rightarrow>
               let failedSeconds = readRetryField props ''failedSeconds'' in
               (case (if failedSeconds = JsUndefined then Inr None
                      else map_sum id Some (required_window failedSeconds)) of
                  Inl e \<Rightarrow> Inl e
                | Inr f \<Rightarrow>
                    map_sum id (\<lambda>x. \<lparr>completed_ms = Some c, failed_ms = f, cancelled_ms = Some x\<rparr>)
                      (required_window (readRetryField props ''cancelledSeconds''))))
      | _ \<Rightarrow> Inl (PortRefusal ''retention policy''))"

text \<open>Database time less no window is no instant, and no stamp is at or before that.\<close>

definition atLeastAWindowOld :: "instant \<Rightarrow> int option \<Rightarrow> cell \<Rightarrow> bool" where
  "atLeastAWindowOld now window stampedAt =
     (case window of None \<Rightarrow> False | Some w \<Rightarrow> cell_le stampedAt (Num (now - w)))"

section \<open>The listing of candidates\<close>

type_synonym purge_cursor = "int \<times> string"

record purge_candidate =
  pc_task :: string
  pc_name :: string
  pc_state :: lstate
  pc_ended :: int
  pc_key :: "string option"

definition endedTask :: "lstate \<Rightarrow> string \<Rightarrow> task \<Rightarrow> bool" where
  "endedTask st queue t =
     (t_queue t = queue \<and> \<not> live (t_state t) \<and> t_state t = st \<and> t_fence_at t \<noteq> Null \<and>
      stored_within epoch_bounds (t_fence_at t))"

definition past_cursor :: "purge_cursor \<Rightarrow> task \<Rightarrow> bool" where
  "past_cursor after t =
     (cell_le (Num (fst after)) (t_fence_at t) \<and> (cell_lt (Num (fst after)) (t_fence_at t) \<or> snd after < t_id t))"

definition purgeCandidatesRead ::
  "instant \<Rightarrow> nat \<Rightarrow> (task \<Rightarrow> bool) \<Rightarrow> int option \<Rightarrow> purge_cursor \<Rightarrow> db \<Rightarrow> task list" where
  "purgeCandidatesRead now limit ended window after db =
     take limit (sort_key (\<lambda>t. (t_fence_at t, t_id t))
       (filter (\<lambda>t. ended t \<and> atLeastAWindowOld now window (t_fence_at t) \<and> past_cursor after t) (tasks db)))"

definition startAfter :: "(number \<times> string) option \<Rightarrow> purge_cursor checked" where
  "startAfter after =
     (case after of
        None \<Rightarrow> Inr (-1, '''')
      | Some (n, task) \<Rightarrow>
          (case n of
             Finite q \<Rightarrow>
               if \<not> safe_integer n \<or> q < 0 \<or> q > of_int MAX_EPOCH_MS
               then Inl (PortRefusal ''purgeCandidates after.endedAtMs'') else Inr (floor q, task)
           | NotFinite \<Rightarrow> Inl (PortRefusal ''purgeCandidates after.endedAtMs'')))"

definition candidateOf :: "lstate \<Rightarrow> task \<Rightarrow> purge_candidate checked" where
  "candidateOf st t =
     (if \<not> stored_within epoch_bounds (t_fence_at t) \<or> t_state t \<noteq> st
      then Inl (TypeError ''purge-candidates'')
      else Inr \<lparr>pc_task = t_id t, pc_name = t_name t, pc_state = st, pc_ended = ival (t_fence_at t), pc_key = t_idem t\<rparr>)"

definition requireListLimit :: "number \<Rightarrow> nat checked" where
  "requireListLimit limit =
     (case requirePositiveInt ''limit'' limit 1 of
        Inl e \<Rightarrow> Inl e
      | Inr n \<Rightarrow> if n > OPERATOR_LIST_CAP then Inl (RangeError ''limit'') else Inr (nat n))"

text \<open>The rows of a leg as candidates; the first that is none is thrown.\<close>

fun all_of :: "('a \<Rightarrow> 'b checked) \<Rightarrow> 'a list \<Rightarrow> 'b list checked" where
  "all_of f [] = Inr []"
| "all_of f (x # xs) =
     (case f x of
        Inl e \<Rightarrow> Inl e
      | Inr y \<Rightarrow> (case all_of f xs of Inl e \<Rightarrow> Inl e | Inr ys \<Rightarrow> Inr (y # ys)))"

definition candidate_leg ::
  "(lstate \<Rightarrow> instant) \<Rightarrow> string \<Rightarrow> windows \<Rightarrow> nat \<Rightarrow> purge_cursor \<Rightarrow> db \<Rightarrow> lstate \<Rightarrow> task list" where
  "candidate_leg clock queue ws limit after db st =
     purgeCandidatesRead (clock st) (if window_of ws st = None then 0 else limit + 1)
       (endedTask st queue) (window_of ws st) after db"

definition TERMINAL_STATES :: "lstate list" where
  "TERMINAL_STATES = [Completed, Failed, Cancelled]"

text \<open>Each leg is a statement of its own and reads the clock again.\<close>

definition purgeCandidates ::
  "(lstate \<Rightarrow> instant) \<Rightarrow> string \<Rightarrow> js_value \<Rightarrow> (number \<times> (number \<times> string) option) option \<Rightarrow> db \<Rightarrow>
   (purge_candidate list \<times> purge_cursor option) checked" where
  "purgeCandidates clock queue policy options db =
     (case retentionWindowsMs policy of
        Inl e \<Rightarrow> Inl e
      | Inr ws \<Rightarrow>
          (case options of
             None \<Rightarrow> Inl (InvalidDurableString ''purgeCandidates[2]'')
           | Some (wanted, cursor) \<Rightarrow>
               (case requireListLimit wanted of
                  Inl e \<Rightarrow> Inl e
                | Inr limit \<Rightarrow>
                    (case startAfter cursor of
                       Inl e \<Rightarrow> Inl e
                     | Inr after \<Rightarrow>
                         (case all_of (\<lambda>st. all_of (candidateOf st) (candidate_leg clock queue ws limit after db st))
                                 TERMINAL_STATES of
                            Inl e \<Rightarrow> Inl e
                          | Inr legs \<Rightarrow>
                              let listed = sort_key (\<lambda>c. (pc_ended c, pc_task c)) (concat legs);
                                  candidates = take limit listed
                              in Inr (candidates,
                                   if limit < length listed \<and> candidates \<noteq> []
                                   then Some (pc_ended (last candidates), pc_task (last candidates)) else None))))))"

section \<open>The barrier\<close>

definition endedAWindowAgo :: "instant \<Rightarrow> windows \<Rightarrow> task \<Rightarrow> bool" where
  "endedAWindowAgo now ws t =
     (\<exists>st\<in>set TERMINAL_STATES. t_state t = st \<and> atLeastAWindowOld now (window_of ws st) (t_fence_at t))"

definition noRunHoldsTheOutcome :: "string \<Rightarrow> string \<Rightarrow> db \<Rightarrow> bool" where
  "noRunHoldsTheOutcome queue task db =
     (\<not> (\<exists>h\<in>set (runs db). r_queue h = queue \<and> r_wake_event h \<noteq> None \<and> r_payload h \<noteq> Null \<and>
            r_wake_event h = Some (taskDoneEventName task) \<and> r_task h \<noteq> task))"

definition noWaitOnTheOutcome :: "string \<Rightarrow> string \<Rightarrow> db \<Rightarrow> bool" where
  "noWaitOnTheOutcome queue task db =
     (\<not> (\<exists>w\<in>set (waits db). w_queue w = queue \<and> w_event w = taskDoneEventName task))"

definition parentCannotRunAgain :: "string option \<Rightarrow> db \<Rightarrow> bool" where
  "parentCannotRunAgain parent db =
     (\<not> (\<exists>p\<in>set (tasks db). Some (t_id p) = parent \<and> (live (t_state p) \<or> t_state p = Failed)))"

definition withinTheCheckpointCap :: "string \<Rightarrow> db \<Rightarrow> bool" where
  "withinTheCheckpointCap task db =
     (min (int (count_where (\<lambda>c. c_task c = task) (checkpoints db))) (MAX_PURGE_UNIT_CHECKPOINTS + 1)
        \<le> MAX_PURGE_UNIT_CHECKPOINTS)"

text \<open>\<open>PURGE_BARRIER\<close>, in the order the statement holds it.\<close>

definition purge_admits ::
  "instant \<Rightarrow> string \<Rightarrow> string \<Rightarrow> string option \<Rightarrow> string option \<Rightarrow> windows \<Rightarrow> db \<Rightarrow> task \<Rightarrow> bool" where
  "purge_admits now queue task key parent ws db t =
     (t_id t = task \<and> t_queue t = queue \<and>
      endedAWindowAgo now ws t \<and>
      stored_within epoch_bounds (t_fence_at t) \<and>
      \<not> (\<exists>r\<in>set (runs db). r_task r = task \<and> live (r_state r)) \<and>
      noRunHoldsTheOutcome queue task db \<and>
      noWaitOnTheOutcome queue task db \<and>
      parentCannotRunAgain parent db \<and>
      t_idem t = key \<and>
      \<not> (\<exists>r\<in>set (runs db). r_task r = task \<and> r_queue r \<noteq> queue) \<and>
      withinTheCheckpointCap task db)"

section \<open>The batch\<close>

definition del_runs :: "(db \<Rightarrow> run \<Rightarrow> bool) \<Rightarrow> db \<Rightarrow> exn + (db \<times> nat)" where
  "del_runs p db = Inr (db\<lparr>runs := delete_where (p db) (runs db)\<rparr>, count_where (p db) (runs db))"

definition del_checkpoints :: "(db \<Rightarrow> checkpoint \<Rightarrow> bool) \<Rightarrow> db \<Rightarrow> exn + (db \<times> nat)" where
  "del_checkpoints p db =
     Inr (db\<lparr>checkpoints := delete_where (p db) (checkpoints db)\<rparr>, count_where (p db) (checkpoints db))"

definition del_events :: "(db \<Rightarrow> event \<Rightarrow> bool) \<Rightarrow> db \<Rightarrow> exn + (db \<times> nat)" where
  "del_events p db = Inr (db\<lparr>events := delete_where (p db) (events db)\<rparr>, count_where (p db) (events db))"

definition del_tasks :: "(db \<Rightarrow> task \<Rightarrow> bool) \<Rightarrow> db \<Rightarrow> exn + (db \<times> nat)" where
  "del_tasks p db = Inr (db\<lparr>tasks := delete_where (p db) (tasks db)\<rparr>, count_where (p db) (tasks db))"

text \<open>A generated DELETE over \<open>tasks-to-checkpoints\<close>, \<open>tasks-to-runs\<close> and \<open>tasks-to-events\<close>. The queue a
  purge binds is compared on the source alone, and the event is the one whose lock the batch holds.\<close>

definition tasks_to_checkpoints :: "string \<Rightarrow> string \<Rightarrow> string \<Rightarrow> (task \<Rightarrow> bool) \<Rightarrow> stmt" where
  "tasks_to_checkpoints seed name fence w =
     \<lparr>s_name = name, s_kind = FollowOn, s_atmost = None,
      s_exec = (\<lambda>db. let src = stamped_tasks seed fence w db in
        del_checkpoints (\<lambda>db c. \<exists>f\<in>set src. c_task c = t_id f) db)\<rparr>"

definition tasks_to_runs_gone :: "string \<Rightarrow> string \<Rightarrow> string \<Rightarrow> string \<Rightarrow> (task \<Rightarrow> bool) \<Rightarrow> stmt" where
  "tasks_to_runs_gone seed name fence q w =
     \<lparr>s_name = name, s_kind = FollowOn, s_atmost = None,
      s_exec = (\<lambda>db. let src = stamped_tasks seed fence (\<lambda>f. w f \<and> t_queue f = q) db in
        del_runs (\<lambda>db r. \<exists>f\<in>set src. r_task r = t_id f) db)\<rparr>"

definition tasks_to_events :: "string \<Rightarrow> string \<Rightarrow> string \<Rightarrow> string \<Rightarrow> (task \<Rightarrow> bool) \<Rightarrow> stmt" where
  "tasks_to_events seed name fence held w =
     \<lparr>s_name = name, s_kind = FollowOn, s_atmost = Some 1,
      s_exec = (\<lambda>db. let src = stamped_tasks seed fence w db in
        del_events (\<lambda>db e. (\<exists>f\<in>set src. e_queue e = t_queue f) \<and> e_name e = held) db)\<rparr>"

definition purgedTaskDelete :: "string \<Rightarrow> string \<Rightarrow> string \<Rightarrow> stmt" where
  "purgedTaskDelete seed queue task =
     \<lparr>s_name = ''task'', s_kind = FollowOn, s_atmost = Some 1,
      s_exec = del_tasks (\<lambda>db t. t_id t = task \<and> t_queue t = queue \<and> t_stamp t = Some (stamp seed ''purge''))\<rparr>"

definition purgeCas ::
  "string \<Rightarrow> instant \<Rightarrow> string \<Rightarrow> string \<Rightarrow> string option \<Rightarrow> string option \<Rightarrow> windows \<Rightarrow> stmt" where
  "purgeCas seed now queue task key parent ws =
     cas_tasks seed now ''purge'' (purge_admits now queue task key parent ws) (\<lambda>db t. t)"

text \<open>\<open>addUnitPurge\<close>. The read of the unit stands after the compare-and-set and writes nothing.\<close>

definition unit_deletes :: "string \<Rightarrow> string \<Rightarrow> string \<Rightarrow> stmt list" where
  "unit_deletes seed queue task =
     [tasks_to_checkpoints seed ''checkpoints'' ''purge'' (\<lambda>f. t_id f = task),
      tasks_to_runs seed ''runs'' ''purge'' queue (\<lambda>f. t_id f = task)
        (\<lambda>db r. r\<lparr>r_claimed_by := None\<rparr>) (\<lambda>db r. r_task r = task) None,
      runs_to_waits seed ''waits'' ''runs'' (\<lambda>f. r_task f = task) (\<lambda>db w. True),
      tasks_to_runs_gone seed ''runs-gone'' ''purge'' queue (\<lambda>f. t_id f = task),
      tasks_to_events seed ''event'' ''purge'' (taskDoneEventName task) (\<lambda>f. t_id f = task),
      purgedTaskDelete seed queue task]"

definition purge_batch ::
  "string \<Rightarrow> instant \<Rightarrow> string \<Rightarrow> string \<Rightarrow> string option \<Rightarrow> string option \<Rightarrow> windows \<Rightarrow> stmt list" where
  "purge_batch seed now queue task key parent ws =
     purgeCas seed now queue task key parent ws # unit_deletes seed queue task"

record unit_rows =
  held_tasks :: nat
  held_runs :: nat
  held_checkpoints :: nat
  held_events :: nat
  held_waits :: nat

text \<open>The tail read, on the database the compare-and-set left.\<close>

definition purgedUnitRowsRead :: "string \<Rightarrow> string \<Rightarrow> string \<Rightarrow> db \<Rightarrow> unit_rows option" where
  "purgedUnitRowsRead seed queue task db =
     (case stamped_tasks seed ''purge'' (\<lambda>f. t_id f = task) db of
        [] \<Rightarrow> None
      | f # _ \<Rightarrow> Some \<lparr>held_tasks = 1,
          held_runs = count_where (\<lambda>r. r_task r = task \<and> r_queue r = queue) (runs db),
          held_checkpoints = count_where (\<lambda>c. c_task c = task) (checkpoints db),
          held_events = count_where (\<lambda>e. e_queue e = queue \<and> e_name e = taskDoneEventName task) (events db),
          held_waits = count_where
            (\<lambda>w. \<exists>r\<in>set (runs db). r_task r = task \<and> r_queue r = queue \<and> w_run w = r_id r) (waits db)\<rparr>)"

definition purgedRows :: "fenced_result \<Rightarrow> unit_rows option \<Rightarrow> unit_rows checked" where
  "purgedRows res unit =
     (case unit of
        None \<Rightarrow> Inl (TypeError ''purgeUnit: the purge won and its batch read no unit'')
      | Some held \<Rightarrow>
          if affected_of ''task'' res \<noteq> held_tasks held \<or> affected_of ''runs-gone'' res \<noteq> held_runs held \<or>
             affected_of ''checkpoints'' res \<noteq> held_checkpoints held \<or>
             affected_of ''event'' res \<noteq> held_events held \<or> affected_of ''waits'' res \<noteq> held_waits held
          then Inl (InternalError ''purgeUnit: a delete took other rows than the unit held'')
          else Inr held)"

definition purgeUnit ::
  "string \<Rightarrow> instant \<Rightarrow> string \<Rightarrow> string \<Rightarrow> string option \<Rightarrow> js_value \<Rightarrow> db \<Rightarrow> unit_rows option reply" where
  "purgeUnit seed now queue task key policy db =
     (case retentionWindowsMs policy of
        Inl e \<Rightarrow> (db, Inl e)
      | Inr ws \<Rightarrow>
          (case spawningParent key of
             Unknown \<Rightarrow> (db, Inr None)
           | Known parent \<Rightarrow>
               (case run_batch (purge_batch seed now queue task key parent ws) db of
                  (db', Inl e) \<Rightarrow> (db', Inl e)
                | (db', Inr res) \<Rightarrow>
                    if won res \<noteq> Some ''purge'' then (db', Inr None)
                    else let stamped = fst (run_batch [purgeCas seed now queue task key parent ws] db) in
                      (db', map_sum id Some (purgedRows res (purgedUnitRowsRead seed queue task stamped))))))"

end
