(* ===== verification/Preserve_Purge.thy ===== *)
theory Preserve_Purge
  imports Purge Preserve
begin

text \<open>
  What a purge does. A batch whose compare-and-set the barrier refuses leaves the database as it
  was, and one it admits deletes the rows of that unit and no others: the deletes reach the runs and
  the checkpoints through the stamped task and the waits through the stamped runs. What is left
  satisfies the invariant, because rows of other units name none of what went.
\<close>

section \<open>A unit that is gone\<close>

definition unit_gone :: "string \<Rightarrow> string \<Rightarrow> db \<Rightarrow> db" where
  "unit_gone queue task db =
     db\<lparr>tasks := delete_where (\<lambda>t. t_id t = task) (tasks db),
        runs := delete_where (\<lambda>r. r_task r = task) (runs db),
        checkpoints := delete_where (\<lambda>c. c_task c = task) (checkpoints db),
        events := delete_where (\<lambda>e. e_queue e = queue \<and> e_name e = taskDoneEventName task) (events db),
        waits := delete_where (\<lambda>w. \<exists>r\<in>set (runs db). r_task r = task \<and> w_run w = r_id r) (waits db)\<rparr>"

lemma unit_gone_tables [simp]:
  "tasks (unit_gone queue task db) = delete_where (\<lambda>t. t_id t = task) (tasks db)"
  "runs (unit_gone queue task db) = delete_where (\<lambda>r. r_task r = task) (runs db)"
  "checkpoints (unit_gone queue task db) = delete_where (\<lambda>c. c_task c = task) (checkpoints db)"
  "events (unit_gone queue task db) =
     delete_where (\<lambda>e. e_queue e = queue \<and> e_name e = taskDoneEventName task) (events db)"
  "waits (unit_gone queue task db) =
     delete_where (\<lambda>w. \<exists>r\<in>set (runs db). r_task r = task \<and> w_run w = r_id r) (waits db)"
  "drivers (unit_gone queue task db) = drivers db"
  by (simp_all add: unit_gone_def)

lemma unit_gone_keys: "keys_ok db \<Longrightarrow> keys_ok (unit_gone queue task db)"
  by (simp add: keys_ok_def keyed_def map_delete_where_distinct)

lemma unit_gone_unit:
  assumes "tid \<noteq> task"
  shows "unit_runs (unit_gone queue task db) tid = unit_runs db tid"
  using assms by (auto simp: unit_runs_def)

lemma unit_gone_events:
  assumes "tid \<noteq> task"
  shows "(q, taskDoneEventName tid) \<in> event_keys (unit_gone queue task db) \<longleftrightarrow> (q, taskDoneEventName tid) \<in> event_keys db"
  using assms by (force simp: event_keys_def e_key_def)

lemma checkpoint_okI: "x \<in> R \<Longrightarrow> checkpointOwnerMatches c x \<Longrightarrow> c_committed c \<Longrightarrow> checkpoint_ok R c"
  by (auto simp: checkpoint_ok_def)

text \<open>An ended unit parks nothing, so no wait that is still open goes with it.\<close>

lemma unit_gone_inv:
  assumes "inv db" "\<not> (\<exists>r\<in>set (runs db). r_task r = task \<and> live (r_state r))"
  shows "inv (unit_gone queue task db)"
proof -
  let ?d = "unit_gone queue task db"
  have k: "keys_ok db" using assms(1) by (rule inv_keys)
  have same: "x = y" if "x \<in> set (runs db)" "y \<in> set (runs db)" "r_id x = r_id y" for x y
    using run_table.unique[OF keys_okD(2)[OF k]] that by blast
  have "checkpoint_ok (set (runs ?d)) c" if c: "c \<in> set (checkpoints ?d)" for c
  proof -
    have "checkpoint_ok (set (runs db)) c" using assms(1) c by (simp add: inv_def rows_ok_def)
    then obtain x where "x \<in> set (runs db)" "checkpointOwnerMatches c x" "c_committed c"
      by (auto simp: checkpoint_ok_def)
    then show ?thesis using c by (intro checkpoint_okI[of x]) (auto simp: checkpointOwnerMatches_def)
  qed
  then have "rows_ok ?d"
    using assms(1) unit_gone_keys[OF k] by (auto simp: inv_def rows_ok_def idem_unique_def)
  moreover have "units_ok (event_keys ?d) ?d"
    unfolding units_ok_def
  proof
    fix t assume t: "t \<in> set (tasks ?d)"
    then have o: "t_id t \<noteq> task" by simp
    have "unit_ok t (unit_runs db (t_id t)) (event_keys db)" using inv_unit[OF assms(1)] t by simp
    then show "unit_ok t (unit_runs ?d (t_id t)) (event_keys ?d)"
      using unit_gone_unit[OF o] unit_gone_events[OF o] by (simp add: unit_ok_def)
  qed
  moreover have "wait_ok (set (runs ?d)) (event_keys ?d) w" if w: "w \<in> set (waits ?d)" for w
  proof -
    have i: "wait_ok (set (runs db)) (event_keys db) w" using assms(1) w by (simp add: inv_def waits_ok_def)
    have "r_task r \<noteq> task" if "r \<in> set (runs db)" "parked_on r w" for r
      using that assms(2) by (auto simp: parked_on_def)
    moreover have "event_keys ?d \<subseteq> event_keys db" by (auto simp: event_keys_def)
    ultimately show ?thesis using i by (auto simp: wait_ok_def)
  qed
  moreover have "sleeper_ok (set (waits ?d)) r" if r: "r \<in> set (runs ?d)" for r
  proof -
    have i: "sleeper_ok (set (waits db)) r" using assms(1) r by (simp add: inv_def waits_ok_def)
    have "w \<in> set (waits ?d)" if "w \<in> set (waits db)" "parked_on r w" for w
      using that r same parked_on_id[OF that(2)] by auto
    then show ?thesis using i by (auto simp: sleeper_ok_def)
  qed
  ultimately show ?thesis by (simp add: inv_def waits_ok_def)
qed

section \<open>The statements\<close>

lemma delete_updated:
  "(\<And>r. p r \<Longrightarrow> q r \<and> q (f r)) \<Longrightarrow>
     delete_where q (update_where p f rows) = delete_where q rows \<and> count_where q (update_where p f rows) = count_where q rows"
  by (induction rows) (auto simp: delete_where_def count_where_def update_where_def)

lemma stamped_tasks_cong: "tasks d = tasks d' \<Longrightarrow> stamped_tasks seed fence w d = stamped_tasks seed fence w d'"
  by (simp add: stamped_tasks_def)

lemma purge_gated [simp]:
  "gated seed (tasks_to_checkpoints seed name fence w)" "gated seed (tasks_to_runs_gone seed name fence q w)"
  "gated seed (tasks_to_events seed name fence held w)" "gated seed (purgedTaskDelete seed queue task)"
proof -
  have "delete_where (\<lambda>t. t_id t = task \<and> t_queue t = queue \<and> t_stamp t = Some (stamp seed ''purge'')) (tasks db) = tasks db \<and>
    count_where (\<lambda>t. t_id t = task \<and> t_queue t = queue \<and> t_stamp t = Some (stamp seed ''purge'')) (tasks db) = 0"
    if "fresh seed db" for db
    using that by (auto simp: fresh_def count_where_0 intro!: delete_where_none)
  then show "gated seed (purgedTaskDelete seed queue task)"
    by (auto simp: gated_def purgedTaskDelete_def del_tasks_def)
qed (simp_all add: gated_def tasks_to_checkpoints_def tasks_to_runs_gone_def tasks_to_events_def
      del_checkpoints_def del_runs_def del_events_def delete_where_none count_where_0)

lemma unit_deletes_quiet:
  "\<forall>s\<in>set (unit_deletes seed queue task). s_kind s = FollowOn \<and> loses_quietly seed s"
proof -
  have k: "s_kind (tasks_to_checkpoints seed name fence w) = FollowOn" "s_kind (tasks_to_runs_gone seed name fence q w) = FollowOn"
    "s_kind (tasks_to_events seed name fence held w) = FollowOn" "s_kind (purgedTaskDelete seed queue task) = FollowOn"
    for name fence held q w
    by (simp_all add: tasks_to_checkpoints_def tasks_to_runs_gone_def tasks_to_events_def purgedTaskDelete_def)
  show ?thesis by (simp add: unit_deletes_def k loses_quietly_def)
qed

text \<open>The batch on a unit the barrier admits, statement by statement.\<close>

lemma purge_exec:
  assumes "keys_ok db" "t \<in> set (tasks db)" "purge_admits now queue task key parent ws db t"
  shows "exec_all (purge_batch seed now queue task key parent ws) db =
    Inr (unit_gone queue task db,
      [1, count_where (\<lambda>c. c_task c = task) (checkpoints db), count_where (\<lambda>r. r_task r = task) (runs db),
       count_where (\<lambda>w. \<exists>r\<in>set (runs db). r_task r = task \<and> w_run w = r_id r) (waits db),
       count_where (\<lambda>r. r_task r = task) (runs db),
       count_where (\<lambda>e. e_queue e = queue \<and> e_name e = taskDoneEventName task) (events db), 1])"
    "s_exec (purgeCas seed now queue task key parent ws) db = Inr (put_task (stamp_task seed ''purge'' (Num now) t) db, 1)"
proof -
  have a: "t_id t = task" "t_queue t = queue" "\<And>r. r \<in> set (runs db) \<Longrightarrow> r_task r = task \<Longrightarrow> r_queue r = queue"
    using assms(3) by (auto simp: purge_admits_def)
  have kt: "keyed t_id (tasks db)" using keys_okD(1)[OF assms(1)] .
  let ?t = "stamp_task seed ''purge'' (Num now) t"
  let ?d1 = "put_task ?t db"
  show cas: "s_exec (purgeCas seed now queue task key parent ws) db = Inr (?d1, 1)"
    unfolding purgeCas_def
    by (rule cas_tasks_won[where p = "purge_admits now queue task key parent ws" and tid = task and f = "\<lambda>db t. t", OF kt assms(2,3)]) (auto simp: a purge_admits_def)
  have one_src: "stamped_tasks seed ''purge'' w ?d1 = [?t]" if "w ?t" "\<And>s. w s \<Longrightarrow> t_id s = task" for w
    by (rule stamped_task_one) (use kt assms(2) a that in \<open>auto simp: in_put_task\<close>)
  have "stamped_tasks seed ''purge'' (\<lambda>f. t_id f = task) ?d1 = [?t]"
    "stamped_tasks seed ''purge'' (\<lambda>f. t_id f = task \<and> t_queue f = queue) ?d1 = [?t]"
    by (rule one_src; simp add: a(1,2))+
  then have src: "stamped_tasks seed ''purge'' (\<lambda>f. t_id f = task) d = [?t]"
    "stamped_tasks seed ''purge'' (\<lambda>f. t_id f = task \<and> t_queue f = queue) d = [?t]" if "tasks d = tasks ?d1" for d
    using stamped_tasks_cong[OF that] by metis+
  let ?d2 = "?d1\<lparr>checkpoints := delete_where (\<lambda>c. c_task c = task) (checkpoints db)\<rparr>"
  have 2: "s_exec (tasks_to_checkpoints seed ''checkpoints'' ''purge'' (\<lambda>f. t_id f = task)) ?d1 =
      Inr (?d2, count_where (\<lambda>c. c_task c = task) (checkpoints db))"
    using src[of ?d1] a(1) by (simp add: tasks_to_checkpoints_def del_checkpoints_def)
  let ?f = "\<lambda>r. stamp_run seed ''runs'' (Num now) (r\<lparr>r_claimed_by := None\<rparr>)"
  let ?p = "\<lambda>r. r_task r = task \<and> r_queue r = queue \<and> r_task r = task"
  let ?d3 = "?d2\<lparr>runs := update_where ?p ?f (runs db)\<rparr>"
  have cnt: "count_where ?p (runs db) = count_where (\<lambda>r. r_task r = task) (runs db)"
    using a(3) unfolding count_where_def by (intro arg_cong[where f = length] filter_cong) auto
  have 3: "s_exec (tasks_to_runs seed ''runs'' ''purge'' queue (\<lambda>f. t_id f = task)
        (\<lambda>db r. r\<lparr>r_claimed_by := None\<rparr>) (\<lambda>db r. r_task r = task) None) ?d2 =
      Inr (?d3, count_where (\<lambda>r. r_task r = task) (runs db))"
    using src[of ?d2] a(1,2) cnt by (simp add: tasks_to_runs_def upd_runs_def Let_def)
  have ids: "(\<exists>f\<in>set (stamped_runs seed ''runs'' (\<lambda>f. r_task f = task) ?d3). w_run w = r_id f) =
      (\<exists>r\<in>set (runs db). r_task r = task \<and> w_run w = r_id r)" for w
  proof
    assume "\<exists>f\<in>set (stamped_runs seed ''runs'' (\<lambda>f. r_task f = task) ?d3). w_run w = r_id f"
    then obtain f where f: "f \<in> set (update_where ?p ?f (runs db))" "r_task f = task" "w_run w = r_id f"
      by (auto simp: stamped_runs_def)
    from f(1) show "\<exists>r\<in>set (runs db). r_task r = task \<and> w_run w = r_id r"
    proof (cases rule: in_update_whereE)
      case (1 r)
      then show ?thesis using f(2,3) by (intro bexI[of _ r]) simp_all
    qed (use f a(3) in blast)
  next
    assume "\<exists>r\<in>set (runs db). r_task r = task \<and> w_run w = r_id r"
    then obtain r where r: "r \<in> set (runs db)" "r_task r = task" "w_run w = r_id r" by blast
    then have "?f r \<in> set (update_where ?p ?f (runs db))" using a(3) unfolding set_update_where by (intro image_eqI[of _ _ r]) simp_all
    then show "\<exists>f\<in>set (stamped_runs seed ''runs'' (\<lambda>f. r_task f = task) ?d3). w_run w = r_id f"
      using r by (intro bexI[of _ "?f r"]) (simp_all add: stamped_runs_def)
  qed
  let ?d4 = "?d3\<lparr>waits := delete_where (\<lambda>w. \<exists>r\<in>set (runs db). r_task r = task \<and> w_run w = r_id r) (waits db)\<rparr>"
  have 4: "s_exec (runs_to_waits seed ''waits'' ''runs'' (\<lambda>f. r_task f = task) (\<lambda>db w. True)) ?d3 =
      Inr (?d4, count_where (\<lambda>w. \<exists>r\<in>set (runs db). r_task r = task \<and> w_run w = r_id r) (waits db))"
    unfolding runs_to_waits_def by (simp only: stmt.simps Let_def del_waits_def ids simp_thms) simp
  let ?d5 = "?d4\<lparr>runs := delete_where (\<lambda>r. r_task r = task) (runs db)\<rparr>"
  have gone: "delete_where (\<lambda>r. r_task r = task) (update_where ?p ?f (runs db)) = delete_where (\<lambda>r. r_task r = task) (runs db)"
    "count_where (\<lambda>r. r_task r = task) (update_where ?p ?f (runs db)) = count_where (\<lambda>r. r_task r = task) (runs db)"
    using delete_updated[of ?p "\<lambda>r. r_task r = task" ?f "runs db"] by simp_all
  have 5: "s_exec (tasks_to_runs_gone seed ''runs-gone'' ''purge'' queue (\<lambda>f. t_id f = task)) ?d4 =
      Inr (?d5, count_where (\<lambda>r. r_task r = task) (runs db))"
    using src[of ?d4] a(1,2) gone by (simp add: tasks_to_runs_gone_def del_runs_def)
  let ?d6 = "?d5\<lparr>events := delete_where (\<lambda>e. e_queue e = queue \<and> e_name e = taskDoneEventName task) (events db)\<rparr>"
  have 6: "s_exec (tasks_to_events seed ''event'' ''purge'' (taskDoneEventName task) (\<lambda>f. t_id f = task)) ?d5 =
      Inr (?d6, count_where (\<lambda>e. e_queue e = queue \<and> e_name e = taskDoneEventName task) (events db))"
    using src[of ?d5] a(1,2) by (simp add: tasks_to_events_def del_events_def)
  have own: "(s \<in> set (tasks ?d1) \<and> t_id s = task) = (s = ?t)" for s
    using a(1) assms(2) by (auto simp: in_put_task)
  let ?q = "\<lambda>s. t_id s = task \<and> t_queue s = queue \<and> t_stamp s = Some (stamp seed ''purge'')"
  have q: "?q s = (t_id s = task)" if "s \<in> set (tasks ?d1)" for s using own[of s] that a by auto
  have "delete_where ?q (tasks ?d1) = delete_where (\<lambda>s. t_id s = task) (tasks ?d1)"
    unfolding delete_where_def by (intro filter_cong) (use q in auto)
  also have "\<dots> = delete_where (\<lambda>s. t_id s = task) (tasks db)"
    using delete_updated[of "\<lambda>s. t_id s = task" "\<lambda>s. t_id s = task" "\<lambda>s. ?t" "tasks db"] a(1)
    by (simp add: put_task_def update_where_def)
  finally have del: "delete_where ?q (tasks ?d1) = delete_where (\<lambda>s. t_id s = task) (tasks db)" .
  have one: "filter ?q (tasks ?d1) = [?t]"
    by (rule filter_key_unique[of t_id]) (use kt own[of ?t] a in \<open>auto simp: keyed_def\<close>)
  have 7: "s_exec (purgedTaskDelete seed queue task) ?d6 = Inr (unit_gone queue task db, 1)"
    using del one by (simp add: purgedTaskDelete_def del_tasks_def count_where_def unit_gone_def put_task_def)
  show "exec_all (purge_batch seed now queue task key parent ws) db =
    Inr (unit_gone queue task db,
      [1, count_where (\<lambda>c. c_task c = task) (checkpoints db), count_where (\<lambda>r. r_task r = task) (runs db),
       count_where (\<lambda>w. \<exists>r\<in>set (runs db). r_task r = task \<and> w_run w = r_id r) (waits db),
       count_where (\<lambda>r. r_task r = task) (runs db),
       count_where (\<lambda>e. e_queue e = queue \<and> e_name e = taskDoneEventName task) (events db), 1])"
    unfolding purge_batch_def unit_deletes_def by (simp only: exec_all.simps cas 2 3 4 5 6 7 sum.case prod.case)
qed

section \<open>The purge\<close>

lemma completion_event_once:
  "keys_ok db \<Longrightarrow> count_where (\<lambda>e. e_queue e = q \<and> e_name e = n) (events db) \<le> 1"
  by (rule count_where_key_le_1[where k = e_key and x = "(q, n)"]) (auto simp: keys_ok_def keyed_def e_key_def)

lemma purge_batch_cases:
  assumes "keys_ok db" "fresh seed db" "run_batch (purge_batch seed now queue task key parent ws) db = (db', ans)"
  obtains (kept) res where "\<not> (\<exists>t\<in>set (tasks db). purge_admits now queue task key parent ws db t)"
      "db' = db" "ans = Inr res" "won res = None"
  | (purged) t res where "t \<in> set (tasks db)" "purge_admits now queue task key parent ws db t"
      "db' = unit_gone queue task db" "ans = Inr res" "won res = Some ''purge''"
      "affected_of ''task'' res = 1" "affected_of ''runs-gone'' res = count_where (\<lambda>r. r_task r = task) (runs db)"
      "affected_of ''checkpoints'' res = count_where (\<lambda>c. c_task c = task) (checkpoints db)"
      "affected_of ''event'' res = count_where (\<lambda>e. e_queue e = queue \<and> e_name e = taskDoneEventName task) (events db)"
      "affected_of ''waits'' res =
         count_where (\<lambda>w. \<exists>r\<in>set (runs db). r_task r = task \<and> w_run w = r_id r) (waits db)"
proof (cases "\<exists>t\<in>set (tasks db). purge_admits now queue task key parent ws db t")
  case False
  have "exec_all (purge_batch seed now queue task key parent ws) db =
      Inr (db, 0 # replicate (length (unit_deletes seed queue task)) 0)"
    using exec_followons_fresh[OF assms(2) unit_deletes_quiet[of seed queue task]] cas_tasks_lost[where p = "purge_admits now queue task key parent ws", OF False]
    by (simp add: purge_batch_def purgeCas_def)
  then have "db' = db" "\<exists>res. ans = Inr res \<and> won res = None"
    using assms(3) audit_zeros[of "unit_deletes seed queue task"]
    by (auto simp: run_batch_def purge_batch_def purgeCas_def over_def)
  then show ?thesis using kept[OF False] by blast
next
  case True
  then obtain t where t: "t \<in> set (tasks db)" "purge_admits now queue task key parent ws db t" by blast
  have e: "\<not> Suc 0 < count_where (\<lambda>e. e_queue e = queue \<and> e_name e = taskDoneEventName task) (events db)"
    using completion_event_once[OF assms(1)] by (simp add: not_less)
  define res where "res = \<lparr>won = Some ''purge'', won_count = 1, affected =
    zip (map s_name (purge_batch seed now queue task key parent ws))
      [1, count_where (\<lambda>c. c_task c = task) (checkpoints db), count_where (\<lambda>r. r_task r = task) (runs db),
       count_where (\<lambda>w. \<exists>r\<in>set (runs db). r_task r = task \<and> w_run w = r_id r) (waits db),
       count_where (\<lambda>r. r_task r = task) (runs db),
       count_where (\<lambda>e. e_queue e = queue \<and> e_name e = taskDoneEventName task) (events db), 1]\<rparr>"
  note shapes = purge_batch_def purgeCas_def unit_deletes_def tasks_to_checkpoints_def tasks_to_runs_gone_def
    tasks_to_events_def purgedTaskDelete_def
  have r: "db' = unit_gone queue task db" "ans = Inr res"
    using assms(3) purge_exec(1)[OF assms(1) t, of seed] e
    by (simp_all add: run_batch_def res_def) (simp_all add: shapes over_def)
  show ?thesis
    by (rule purged[OF t r]) (simp_all add: res_def affected_of_def shapes)
qed

lemma purge_inv:
  assumes "inv db" "fresh seed db" "run_batch (purge_batch seed now queue task key parent ws) db = (db', ans)"
  shows "inv db'"
  by (rule purge_batch_cases[OF inv_keys[OF assms(1)] assms(2,3)])
    (use assms(1) unit_gone_inv[OF assms(1)] in \<open>auto simp: purge_admits_def\<close>)

end
