(* ===== verification/Engine.thy ===== *)
theory Engine
  imports History Preserve_Purge
begin

text \<open>
  The engine as a transition system. Every batch is one transaction, whichever worker, driver or
  caller sends it, so the reachable databases are those any interleaving of batches can lead to
  from an empty one. A batch draws a seed no row carries yet and reads a clock in range. A batch
  that may end a task is given the task its run belongs to, which its caller read earlier. The
  locales say what it is for a relation to keep an invariant and a history, and the engine
  interprets them. A purge is apart from the engine: it deletes, so it keeps the invariant and not
  the history. The reachable databases are those of any interleaving of transactions and purges.
\<close>

section \<open>Interfaces\<close>

locale invariant_system =
  fixes init :: 's and step :: "'s \<Rightarrow> 's \<Rightarrow> bool" and good :: "'s \<Rightarrow> bool"
  assumes init_good: "good init"
    and step_good: "good s \<Longrightarrow> step s s' \<Longrightarrow> good s'"
begin

lemma steps_good: "step\<^sup>*\<^sup>* s s' \<Longrightarrow> good s \<Longrightarrow> good s'"
  by (induction rule: rtranclp_induct) (auto intro: step_good)

lemma reachable_good: "step\<^sup>*\<^sup>* init s \<Longrightarrow> good s"
  using steps_good init_good by blast

end

locale history_system = invariant_system +
  fixes grown :: "'a \<Rightarrow> 'a \<Rightarrow> bool"
  assumes grown_refl: "grown s s"
    and grown_trans: "grown s s' \<Longrightarrow> grown s' s'' \<Longrightarrow> grown s s''"
    and step_grown: "step s s' \<Longrightarrow> grown s s'"
begin

lemma steps_grown: "step\<^sup>*\<^sup>* s s' \<Longrightarrow> grown s s'"
  by (induction rule: rtranclp_induct) (auto intro: grown_refl grown_trans step_grown)

text \<open>What growth keeps, every later state keeps.\<close>

lemma stable:
  assumes "\<And>s s'. grown s s' \<Longrightarrow> known s \<Longrightarrow> known s'" "step\<^sup>*\<^sup>* s s'" "known s"
  shows "known s'"
  using assms(1)[OF steps_grown[OF assms(2)] assms(3)] .

end

section \<open>Transactions\<close>

inductive txn :: "db \<Rightarrow> db \<Rightarrow> bool" where
  heartbeat: "fresh seed db \<Longrightarrow> 0 \<le> ext \<Longrightarrow>
    run_batch (heartbeat_batch seed now queue rid token ext) db = (db', ans) \<Longrightarrow> txn db db'"
| checkpoint: "fresh seed db \<Longrightarrow> 0 \<le> ext \<Longrightarrow>
    run_batch (setCheckpoint_batch seed now queue task rid token name state ext) db = (db', ans) \<Longrightarrow> txn db db'"
| expire: "valid_clock now \<Longrightarrow> txn db (fst (expireLeaseNow now queue rid token db))"
| beat: "driverHeartbeat now queue driver ttl db = (db', reply) \<Longrightarrow> txn db db'"
| claim: "fresh seed db \<Longrightarrow> valid_clock now \<Longrightarrow> 1 \<le> lease \<Longrightarrow> lease \<le> MAX_DURATION_MS \<Longrightarrow>
    run_batch (claim_batch seed now queue token lease limit) db = (db', ans) \<Longrightarrow> txn db db'"
| activate: "fresh seed db \<Longrightarrow> requirePositiveClaimGeneration name gen = Inr g \<Longrightarrow>
    run_batch (activate_batch seed now queue rid token gen) db = (db', ans) \<Longrightarrow> txn db db'"
| defer_launch: "fresh seed db \<Longrightarrow> prepareWake wake = Inr plan \<Longrightarrow>
    run_batch (deferLaunch_batch seed now queue rid token gen plan) db = (db', ans) \<Longrightarrow> txn db db'"
| reschedule: "fresh seed db \<Longrightarrow> prepareWake wake = Inr plan \<Longrightarrow>
    run_batch (reschedule_batch seed now queue rid token plan) db = (db', ans) \<Longrightarrow> txn db db'"
| suspend: "fresh seed db \<Longrightarrow> prepareWake wake = Inr plan \<Longrightarrow>
    run_batch (suspendRun_batch seed now queue rid token plan name state) db = (db', ans) \<Longrightarrow> txn db db'"
| emit: "fresh seed db \<Longrightarrow> valid_clock now \<Longrightarrow> \<not> prefix RESERVED_EVENT_PREFIX name \<Longrightarrow>
    run_batch (emitEvent_batch seed now queue name payload) db = (db', ans) \<Longrightarrow> txn db db'"
| await: "fresh seed db \<Longrightarrow> valid_clock now \<Longrightarrow> pred_option ((\<le>) 0) timeout \<Longrightarrow>
    run_batch (awaitEvent_batch seed now queue task rid token step ev timeout) db = (db', ans) \<Longrightarrow> txn db db'"
| materialize: "fresh seed db \<Longrightarrow>
    \<forall>c\<in>set (tasks db). t_id c = child \<and> t_stamp c = cstamp \<longrightarrow> \<not> live (t_state c) \<Longrightarrow>
    run_batch [materializeTaskDoneCas seed now queue task rid token child payload cstamp] db = (db', ans) \<Longrightarrow>
    txn db db'"
| complete: "fresh seed db \<Longrightarrow> valid_clock now \<Longrightarrow> names_task task rid db \<Longrightarrow>
    run_batch (complete_batch seed now queue task rid token res) db = (db', ans) \<Longrightarrow> txn db db'"
| fail: "fresh seed db \<Longrightarrow> valid_clock now \<Longrightarrow> names_task (f_task fl) (f_run fl) db \<Longrightarrow>
    pred_option ((\<le>) 0) (f_retry fl) \<Longrightarrow> pred_option (\<lambda>(_, d). pred_option ((\<le>) 0) d) (f_rollback fl) \<Longrightarrow>
    run_batch (failInto_batch seed now fl) db = (db', ans) \<Longrightarrow> txn db db'"
| lost_launch: "fresh seed db \<Longrightarrow> valid_clock now2 \<Longrightarrow> names_task task rid db \<Longrightarrow>
    run_batch (lostLaunch_batch seed sid now now2 queue task rid gen) db = (db', ans) \<Longrightarrow> txn db db'"
| claim_timeout: "fresh seed db \<Longrightarrow> valid_clock now \<Longrightarrow> names_task task rid db \<Longrightarrow>
    run_batch (claimTimeout_batch seed sid now queue task rid gen) db = (db', ans) \<Longrightarrow> txn db db'"
| cancel: "fresh seed db \<Longrightarrow> valid_clock now \<Longrightarrow>
    run_batch (cancel_batch seed now queue task deadline_only unless_saga) db = (db', ans) \<Longrightarrow> txn db db'"
| retry: "fresh seed db \<Longrightarrow> valid_clock now \<Longrightarrow>
    run_batch (retryTask_batch seed rid now queue task) db = (db', ans) \<Longrightarrow> txn db db'"
| spawn: "fresh seed db \<Longrightarrow> valid_clock now \<Longrightarrow> valid_request rq \<Longrightarrow>
    run_batch (spawn_batch seed now task rid rq) db = (db', ans) \<Longrightarrow> txn db db'"

lemma inv_empty: "inv empty_db"
  by (simp add: inv_def rows_ok_def units_ok_def waits_ok_def keys_ok_def keyed_def idem_unique_def empty_db_def)

lemma txn_inv:
  assumes "txn db db'" "inv db"
  shows "inv db'"
  using assms
proof (induction rule: txn.induct)
  case heartbeat then show ?case using heartbeat_inv by blast
next
  case checkpoint then show ?case using setCheckpoint_inv by blast
next
  case expire then show ?case using expireLeaseNow_inv by blast
next
  case beat then show ?case using driverHeartbeat_inv by blast
next
  case claim then show ?case using claim_inv by blast
next
  case activate then show ?case using activate_inv by blast
next
  case defer_launch then show ?case using deferLaunch_inv by blast
next
  case reschedule then show ?case using reschedule_inv by blast
next
  case suspend then show ?case using suspendRun_inv by blast
next
  case emit then show ?case using emitEvent_inv by blast
next
  case (await seed db now timeout)
  then have "0 \<le> d" if "timeout = Some d" for d using that by simp
  then show ?case using await_inv await by blast
next
  case materialize then show ?case using materialize_same by blast
next
  case complete then show ?case using complete_inv by blast
next
  case (fail seed db now fl)
  have "0 \<le> d" if "f_retry fl = Some d" for d using fail(4) that by simp
  moreover have "\<forall>tried d. f_rollback fl = Some (tried, Some d) \<longrightarrow> 0 \<le> d" using fail(5) by auto
  ultimately show ?case using failInto_inv fail by blast
next
  case lost_launch then show ?case using lostLaunch_inv by blast
next
  case claim_timeout then show ?case using claimTimeout_inv by blast
next
  case cancel then show ?case using cancel_inv by blast
next
  case retry then show ?case using retryTask_inv by blast
next
  case spawn then show ?case using spawn_inv by blast
qed

lemma expire_grows: "extends db (fst (expireLeaseNow now queue rid token db))"
  by (simp add: expireLeaseNow_def Let_def extends_upd_runs run_ident_def)

lemma beat_grows: "driverHeartbeat now queue driver ttl db = (db', reply) \<Longrightarrow> extends db db'"
  by (auto simp: driverHeartbeat_def Let_def split: sum.splits if_splits)

lemma txn_extends: "txn db db' \<Longrightarrow> extends db db'"
proof (induction rule: txn.induct)
  case expire then show ?case by (rule_tac expire_grows)
next
  case beat then show ?case by (rule beat_grows)
next
  case materialize
  show ?case by (rule batch_grows[OF materialize(3)]) (simp add: grows_custom)
qed (erule batch_grows, rule batches_grow)+

interpretation engine: history_system empty_db txn inv extends
proof
  show "inv empty_db" by (rule inv_empty)
  show "inv db'" if "inv db" "txn db db'" for db db' using txn_inv that by blast
  show "extends db db''" if "extends db db'" "extends db' db''" for db db' db'' using extends_trans that .
  show "extends db db'" if "txn db db'" for db db' using txn_extends that .
qed simp

text \<open>The databases an interleaving of transactions and purges can lead to from an empty one, and what
  transactions lead to from one of them.\<close>

inductive store_step :: "db \<Rightarrow> db \<Rightarrow> bool" where
  transaction: "txn db db' \<Longrightarrow> store_step db db'"
| purge: "fresh seed db \<Longrightarrow> spawningParent key = Known parent \<Longrightarrow>
    run_batch (purge_batch seed now queue task key parent ws) db = (db', ans) \<Longrightarrow> store_step db db'"

lemma store_step_inv: "inv db \<Longrightarrow> store_step db db' \<Longrightarrow> inv db'"
  by (auto elim!: store_step.cases intro: txn_inv purge_inv)

interpretation retained: invariant_system empty_db store_step inv
  by unfold_locales (auto intro: inv_empty store_step_inv)

abbreviation leads_to :: "db \<Rightarrow> db \<Rightarrow> bool" where
  "leads_to \<equiv> txn\<^sup>*\<^sup>*"

abbreviation reachable :: "db \<Rightarrow> bool" where
  "reachable \<equiv> store_step\<^sup>*\<^sup>* empty_db"

lemma reachable_inv: "reachable db \<Longrightarrow> inv db"
  by (rule retained.reachable_good)

lemma leads_steps: "leads_to db db' \<Longrightarrow> store_step\<^sup>*\<^sup>* db db'"
  by (induction rule: rtranclp_induct) (auto intro: store_step.transaction rtranclp.rtrancl_into_rtrancl)

lemma reachable_leads: "reachable db \<Longrightarrow> leads_to db db' \<Longrightarrow> reachable db'"
  using leads_steps by (meson rtranclp_trans)

section \<open>What a caller read stays true\<close>

definition knows_run :: "string \<Rightarrow> string \<Rightarrow> db \<Rightarrow> bool" where
  "knows_run rid task db = (\<exists>r\<in>set (runs db). r_id r = rid \<and> r_task r = task)"

lemma knows_names: "inv db \<Longrightarrow> knows_run rid task db \<Longrightarrow> names_task task rid db"
  unfolding knows_run_def names_task_def
  using run_table.unique[OF keys_okD(2)[OF inv_keys]] by blast

lemma knows_extends:
  assumes "extends db db'" "knows_run rid task db"
  shows "knows_run rid task db'"
proof -
  obtain r where r: "r \<in> set (runs db)" "r_id r = rid" "r_task r = task" using assms(2) by (auto simp: knows_run_def)
  obtain r' where "r' \<in> set (runs db')" "run_ident r' = run_ident r" using extends_runs[OF assms(1) r(1)] .
  then show ?thesis using r by (auto simp: knows_run_def run_ident_def)
qed

lemma knows_stable: "leads_to db db' \<Longrightarrow> knows_run rid task db \<Longrightarrow> knows_run rid task db'"
  by (rule engine.stable[where known = "knows_run rid task"]) (rule knows_extends)

text \<open>The memo holds runs the store handed out, with the tasks they named then.\<close>

definition memo_ok :: "memo \<Rightarrow> db \<Rightarrow> bool" where
  "memo_ok m db = (\<forall>(rid, task)\<in>set m. knows_run rid task db)"

lemma memo_stable: "leads_to db db' \<Longrightarrow> memo_ok m db \<Longrightarrow> memo_ok m db'"
  using knows_stable unfolding memo_ok_def by fast

lemma memo_remember_ok:
  assumes "memo_ok m db" "knows_run rid task db"
  shows "memo_ok (memo_remember capacity rid task m) db"
proof -
  let ?m = "memo_forget rid m @ [(rid, task)]"
  have "set (memo_remember capacity rid task m) \<subseteq> set ?m"
    using list.set_sel(2)[of ?m] by (auto simp: memo_remember_def Let_def)
  moreover have "set ?m \<subseteq> insert (rid, task) (set m)" by (auto simp: memo_forget_def)
  ultimately show ?thesis using assms unfolding memo_ok_def by fast
qed

lemma endingTask_knows:
  assumes "memo_ok m db" "endingTask m operation queue rid db = Inr task"
  shows "knows_run rid task db"
proof (cases "memo_recall rid m")
  case None
  then obtain r where "find (\<lambda>r. r_id r = rid \<and> r_queue r = queue) (runs db) = Some r" "task = r_task r"
    using assms(2) by (auto simp: endingTask_def split: option.splits)
  then show ?thesis by (auto simp: knows_run_def find_Some_iff)
next
  case (Some t)
  then have "(rid, t) \<in> set m" by (auto simp: memo_recall_def dest: map_of_SomeD)
  moreover have "t = task" using Some assms(2) by (simp add: endingTask_def)
  ultimately show ?thesis using assms(1) by (auto simp: memo_ok_def)
qed

end
