(* ===== verification/Operations.thy ===== *)
theory Operations
  imports Engine
begin

text \<open>
  The store's operations as their callers see them. Each validates its arguments, perhaps reads,
  sends at most one batch and reads the answer, so each is a transaction of the engine or leaves
  the database alone. A call with a fresh seed and a clock in range therefore leads from a
  reachable database to a reachable one.
\<close>

text \<open>One call. The memo is the one the store keeps of the runs it handed out. A sweep's item
  names a run the scan read. A child await is a call for each of its batches; the row it records
  the ending of is the one it read, so under that stamp the child has ended.\<close>

inductive call :: "memo \<Rightarrow> db \<Rightarrow> db \<Rightarrow> bool" where
  call_heartbeat: "call m db (fst (heartbeat seed now queue rid token n db))"
    if "fresh seed db"
| call_checkpoint: "call m db (fst (setCheckpoint seed now queue task rid token name state n db))"
    if "fresh seed db"
| call_expire: "call m db (fst (expireLeaseNow now queue rid token db))"
    if "valid_clock now"
| call_beat: "call m db (fst (driverHeartbeat now queue driver ttl db))"
| call_claim: "call m db (fst (claim seed now short queue token lease limit db))"
    if "fresh seed db" "valid_clock now"
| call_activate: "call m db (fst (activate seed now queue rid token gen db))"
    if "fresh seed db"
| call_defer: "call m db (fst (deferLaunch seed now queue rid token gen delay db))"
    if "fresh seed db"
| call_reschedule: "call m db (fst (reschedule seed now queue rid token wake db))"
    if "fresh seed db"
| call_suspend: "call m db (fst (suspendRun seed now queue rid token wake name state db))"
    if "fresh seed db"
| call_emit: "call m db (fst (emitEvent seed now queue name payload db))"
    if "fresh seed db" "valid_clock now"
| call_await: "call m db (fst (awaitEvent seed now queue task rid token step name timeout db))"
    if "fresh seed db" "valid_clock now"
| call_await_child: "call m db (fst (awaitNamedEvent seed now queue task rid token step (TaskDone child) timeout db))"
    if "fresh seed db" "valid_clock now"
| call_record_child: "call m db (fst (recordTaskDone seed now queue task rid token child cstamp res db))"
    if "fresh seed db" "\<forall>c\<in>set (tasks db). t_id c = child \<and> t_stamp c = cstamp \<longrightarrow> \<not> live (t_state c)"
| call_complete: "call m db (fst (complete seed now m queue rid token res db))"
    if "fresh seed db" "valid_clock now"
| call_fail: "call m db (fst (fail seed sid now m queue rid token json delay db))"
    if "fresh seed db" "valid_clock now"
| call_fail_rollback: "call m db (fst (failRollback enc dec seed sid now m queue rid token json delay tried db))"
    if "fresh seed db" "valid_clock now"
| call_sweep: "call m db (fst (sweep_one seed sid now now2 queue item db))"
    if "fresh seed db" "valid_clock now" "valid_clock now2"
      "case item of CancelItem _ _ \<Rightarrow> True | LostLaunchItem rid task _ _ \<Rightarrow> knows_run rid task db
       | ClaimTimeoutItem rid task _ \<Rightarrow> knows_run rid task db"
| call_cancel: "call m db (fst (cancelTask seed now queue task unless_saga db))"
    if "fresh seed db" "valid_clock now"
| call_retry: "call m db (fst (retryTask seed rid now queue task db))"
    if "fresh seed db" "valid_clock now"
| call_spawn: "call m db (fst (spawnOnce seed now task rid rq db))"
    if "fresh seed db" "valid_clock now" "valid_request rq"

lemmas one_txn = r_into_rtranclp[of txn]

lemma require_won_fst [simp]: "fst (require_won operation rid winner x) = fst x"
  by (cases x; cases "snd x") (auto simp: require_won_def)

lemma batch_fst: "run_batch ss db = (db', ans) \<Longrightarrow> fst (run_batch ss db) = db'"
  by simp

lemma run_batch_pair: "run_batch ss db = (fst (run_batch ss db), snd (run_batch ss db))"
  by simp

lemmas reply_splits = sum.splits prod.splits option.splits

lemma activate_txn:
  "fresh seed db \<Longrightarrow> requirePositiveClaimGeneration name gen = Inr g \<Longrightarrow>
     run_batch (activate_batch seed now queue rid token g) db = (db', ans) \<Longrightarrow> txn db db'"
  using txn.activate[of seed db name g g]
  by (simp add: requirePositiveClaimGeneration_def split: if_splits)

lemma lease_calls:
  assumes "fresh seed db"
  shows "leads_to db (fst (heartbeat seed now queue rid token n db))"
    "leads_to db (fst (setCheckpoint seed now queue task rid token name state n db))"
    "leads_to db (fst (activate seed now queue rid token gen db))"
  using assms
  by (auto simp: heartbeat_def setCheckpoint_def activate_def split: reply_splits
      dest: durationToMs_bounds intro: one_txn txn.heartbeat activate_txn
      intro!: one_txn[OF txn.checkpoint[OF _ _ run_batch_pair]])

lemma park_calls:
  assumes "fresh seed db"
  shows "leads_to db (fst (deferLaunch seed now queue rid token gen delay db))"
    "leads_to db (fst (reschedule seed now queue rid token wake db))"
    "leads_to db (fst (suspendRun seed now queue rid token wake name state db))"
  using assms
  by (auto simp: deferLaunch_def reschedule_def suspendRun_def split: reply_splits
      intro: one_txn[OF txn.defer_launch[OF _ _ run_batch_pair]] one_txn[OF txn.reschedule[OF _ _ run_batch_pair]]
        one_txn[OF txn.suspend[OF _ _ run_batch_pair]])

lemma some_duration:
  "map_sum id Some (durationToMs name s positive) = Inr x \<Longrightarrow> pred_option ((\<le>) 0) x"
  by (cases "durationToMs name s positive") (auto dest: durationToMs_bounds)

lemma claim_call:
  assumes "fresh seed db" "valid_clock now"
  shows "leads_to db (fst (claim seed now short queue token lease limit db))"
  using assms
  by (auto simp: claim_def Let_def split: reply_splits dest: durationToMs_bounds intro!: one_txn
      intro: txn.claim)

lemma await_named_call:
  assumes "fresh seed db" "valid_clock now"
  shows "leads_to db (fst (awaitNamedEvent seed now queue task rid token step ev timeout db))"
proof (cases timeout)
  case None
  then show ?thesis using assms txn.await[OF assms, of None]
    by (auto simp: awaitNamedEvent_def split: reply_splits intro!: one_txn)
next
  case (Some s)
  then show ?thesis using assms
    by (auto simp: awaitNamedEvent_def split: reply_splits dest: some_duration intro: one_txn txn.await)
qed

lemma event_calls:
  assumes "fresh seed db" "valid_clock now"
  shows "leads_to db (fst (emitEvent seed now queue name payload db))"
    "leads_to db (fst (awaitEvent seed now queue task rid token step name timeout db))"
proof -
  show "leads_to db (fst (emitEvent seed now queue name payload db))"
    using assms by (auto simp: emitEvent_def fromPort_def split: reply_splits if_splits intro!: one_txn intro: txn.emit)
  have a: "leads_to db d" if "awaitNamedEvent seed now queue task rid token step ev timeout db = (d, x)" for ev d x
    using that await_named_call[OF assms] by (metis fst_conv)
  show "leads_to db (fst (awaitEvent seed now queue task rid token step name timeout db))"
    by (auto simp: awaitEvent_def split: reply_splits dest: a)
qed

lemma record_child_call:
  assumes "fresh seed db" "\<forall>c\<in>set (tasks db). t_id c = child \<and> t_stamp c = cstamp \<longrightarrow> \<not> live (t_state c)"
  shows "leads_to db (fst (recordTaskDone seed now queue task rid token child cstamp res db))"
  using txn.materialize[OF assms] by (auto simp: recordTaskDone_def split: reply_splits intro!: one_txn)

lemma failInto_call:
  assumes "fresh seed db" "valid_clock now" "names_task (f_task fl) (f_run fl) db"
    "pred_option ((\<le>) 0) (f_retry fl)" "pred_option (\<lambda>(_, d). pred_option ((\<le>) 0) d) (f_rollback fl)"
  shows "leads_to db (fst (failInto operation seed now fl db))"
  using assms by (auto simp: failInto_def split: reply_splits intro: one_txn txn.fail)

lemma ending_calls:
  assumes "inv db" "memo_ok m db" "fresh seed db" "valid_clock now"
  shows "leads_to db (fst (complete seed now m queue rid token res db))"
    "leads_to db (fst (fail seed sid now m queue rid token json delay db))"
    "leads_to db (fst (failRollback enc dec seed sid now m queue rid token json delay tried db))"
proof -
  have names: "names_task task rid db" if "endingTask m operation queue rid db = Inr task" for task operation
    using knows_names[OF assms(1) endingTask_knows[OF assms(2) that]] .
  show "leads_to db (fst (complete seed now m queue rid token res db))"
    using assms(3,4)
    by (auto simp: complete_def split: reply_splits
        intro: one_txn[OF txn.complete[OF _ _ _ run_batch_pair]] names)
  show "leads_to db (fst (fail seed sid now m queue rid token json delay db))"
    using assms(3,4)
    by (auto simp: fail_def split: reply_splits dest: some_duration names intro!: failInto_call)
  show "leads_to db (fst (failRollback enc dec seed sid now m queue rid token json delay tried db))"
    using assms(3,4)
    by (auto simp: failRollback_def Let_def split: reply_splits dest: some_duration names
        intro!: failInto_call)
qed

lemma sweep_call:
  assumes "inv db" "fresh seed db" "valid_clock now" "valid_clock now2"
    "case item of CancelItem _ _ \<Rightarrow> True | LostLaunchItem rid task _ _ \<Rightarrow> knows_run rid task db
     | ClaimTimeoutItem rid task _ \<Rightarrow> knows_run rid task db"
  shows "leads_to db (fst (sweep_one seed sid now now2 queue item db))"
proof (cases item)
  case CancelItem
  then show ?thesis using assms(2,3)
    by (auto simp: sweep_one_def cancelTransition_def split: reply_splits intro: one_txn txn.cancel)
next
  case (LostLaunchItem rid task gen n)
  then have "names_task task rid db" using assms(1,5) knows_names by simp
  then show ?thesis using assms(2,4) LostLaunchItem
    by (auto simp: sweep_one_def sweepLostLaunch_def split: reply_splits intro: one_txn txn.lost_launch)
next
  case (ClaimTimeoutItem rid task gen)
  then have "names_task task rid db" using assms(1,5) knows_names by simp
  then show ?thesis using assms(2,3) ClaimTimeoutItem
    by (auto simp: sweep_one_def sweepClaimTimeout_def split: reply_splits intro: one_txn txn.claim_timeout)
qed

lemma unit_calls:
  assumes "fresh seed db" "valid_clock now"
  shows "leads_to db (fst (cancelTask seed now queue task unless_saga db))"
    "leads_to db (fst (retryTask seed rid now queue task db))"
    "valid_request rq \<Longrightarrow> leads_to db (fst (spawnOnce seed now task rid rq db))"
  using assms
  by (auto simp: cancelTask_def cancelTransition_def retryTask_def spawnOnce_def split: reply_splits
      intro: one_txn txn.cancel txn.retry txn.spawn)

lemma call_leads:
  assumes "call m db db'" "inv db" "memo_ok m db"
  shows "leads_to db db'"
  using assms
proof (induction rule: call.induct)
  case call_expire then show ?case by (intro one_txn txn.expire)
next
  case (call_beat m db now queue driver ttl)
  show ?case by (rule one_txn[OF txn.beat[OF prod.collapse[symmetric]]])
qed (rule lease_calls park_calls claim_call event_calls await_named_call record_child_call ending_calls sweep_call unit_calls; assumption)+

end
