(* ===== verification/Answers.thy ===== *)
theory Answers
  imports Operations
begin

text \<open>
  The audit of the batch primitive is unreachable. Every statement keeps the keys of the schema,
  and over keyed tables none of the bounded ones touches more rows than its bound, so the counts
  the primitive checks after the commit are within what it allows. A write that is refused has
  therefore written nothing, and an error after the commit is never a broken count.
\<close>

section \<open>Statements within their bounds\<close>

named_theorems bounded_intros "statements that keep the keys and stay within their bound"

definition bounded :: "stmt \<Rightarrow> bool" where
  "bounded s =
     (\<forall>db db' n. keys_ok db \<and> s_exec s db = Inr (db', n) \<longrightarrow> keys_ok db' \<and> \<not> over n (s_atmost s))"

lemma boundedI:
  "(\<And>db db' n. keys_ok db \<Longrightarrow> s_exec s db = Inr (db', n) \<Longrightarrow> keys_ok db' \<and> \<not> over n (s_atmost s)) \<Longrightarrow>
     bounded s"
  unfolding bounded_def by blast

lemma over_simps [simp]: "\<not> over n None" "over n (Some k) = (k < n)"
  by (simp_all add: over_def)

lemma keys_upd_runs:
  assumes "keys_ok db" "\<And>r. run_ident (f r) = run_ident r"
  shows "keys_ok (db\<lparr>runs := update_where p f (runs db)\<rparr>)"
proof -
  have "map r_id (update_where p f (runs db)) = map r_id (runs db)"
    "map r_ordinal (update_where p f (runs db)) = map r_ordinal (runs db)"
    using assms(2) by (intro map_update_where; simp add: run_ident_def r_ordinal_def)+
  then show ?thesis using assms(1) by (simp add: keys_ok_def keyed_def)
qed

lemma keys_upd_tasks:
  assumes "keys_ok db" "\<And>t. task_ident (f t) = task_ident t"
  shows "keys_ok (db\<lparr>tasks := update_where p f (tasks db)\<rparr>)"
proof -
  have "map t_id (update_where p f (tasks db)) = map t_id (tasks db)"
    using assms(2) by (intro map_update_where) (simp add: task_ident_def)
  then show ?thesis using assms(1) by (simp add: keys_ok_def keyed_def)
qed

lemma keys_waits: "keys_ok db \<Longrightarrow> keys_ok (db\<lparr>waits := delete_where p (waits db)\<rparr>)"
  by (simp add: keys_ok_def wait_table.delete_keyed)

lemma keys_ins_run: "keys_ok db \<Longrightarrow> ins_run r db = Inr (db', n) \<Longrightarrow> keys_ok db' \<and> n = 1"
  by (auto simp: ins_run_def keys_ok_def keyed_def split: if_splits)

lemma one_run: "keys_ok db \<Longrightarrow> (\<And>r. p r \<Longrightarrow> r_id r = rid) \<Longrightarrow> count_where p (runs db) \<le> 1"
  using run_table.update_one_count[OF keys_okD(2)] by blast

lemma one_task: "keys_ok db \<Longrightarrow> (\<And>t. p t \<Longrightarrow> t_id t = tid) \<Longrightarrow> count_where p (tasks db) \<le> 1"
  using task_table.update_one_count[OF keys_okD(1)] by blast

lemma bounded_cas [bounded_intros]:
  "(\<And>db r. p db r \<Longrightarrow> r_id r = rid) \<Longrightarrow> (\<And>db r. run_ident (f db r) = run_ident r) \<Longrightarrow>
     bounded (cas_runs seed now name p f)"
  "(\<And>db t. q db t \<Longrightarrow> t_id t = tid) \<Longrightarrow> (\<And>db t. task_ident (g db t) = task_ident t) \<Longrightarrow>
     bounded (cas_tasks seed now name q g)"
proof -
  assume a: "\<And>db r. p db r \<Longrightarrow> r_id r = rid" "\<And>db r. run_ident (f db r) = run_ident r"
  have "count_where (p db) (runs db) \<le> 1" if "keys_ok db" for db
    using one_run[OF that, of "p db" rid] a(1) by blast
  moreover have "keys_ok (db\<lparr>runs := update_where (p db) (\<lambda>r. stamp_run seed name (Num now) (f db r)) (runs db)\<rparr>)"
    if "keys_ok db" for db by (rule keys_upd_runs[OF that]) (simp add: a(2))
  ultimately show "bounded (cas_runs seed now name p f)"
    by (auto simp: bounded_def cas_runs_def upd_runs_def not_less)
next
  assume a: "\<And>db t. q db t \<Longrightarrow> t_id t = tid" "\<And>db t. task_ident (g db t) = task_ident t"
  have "count_where (q db) (tasks db) \<le> 1" if "keys_ok db" for db
    using one_task[OF that, of "q db" tid] a(1) by blast
  moreover have "keys_ok (db\<lparr>tasks := update_where (q db) (\<lambda>t. stamp_task seed name (Num now) (g db t)) (tasks db)\<rparr>)"
    if "keys_ok db" for db by (rule keys_upd_tasks[OF that]) (simp add: a(2))
  ultimately show "bounded (cas_tasks seed now name q g)"
    by (auto simp: bounded_def cas_tasks_def upd_tasks_def not_less)
qed

lemma bounded_runs_to_tasks [bounded_intros]:
  assumes "rows = None \<or> (rows = Some 1 \<and> (\<forall>f. w f \<longrightarrow> r_id f = rid))"
    "\<And>db t. task_ident (g db t) = task_ident t"
  shows "bounded (runs_to_tasks seed name fence q w g nar rows)"
proof (rule boundedI)
  fix db db' n
  assume k: "keys_ok db" and e: "s_exec (runs_to_tasks seed name fence q w g nar rows) db = Inr (db', n)"
  let ?src = "stamped_runs seed fence (\<lambda>f. w f \<and> r_queue f = q) db"
  let ?p = "\<lambda>t. (\<exists>f\<in>set ?src. t_id t = r_task f) \<and> t_queue t = q \<and> nar db t"
  let ?g = "\<lambda>t. stamp_task seed name (sql_min (map r_fence_at ?src)) (g db t)"
  have n: "n = count_where ?p (tasks db)" and d: "db' = db\<lparr>tasks := update_where ?p ?g (tasks db)\<rparr>"
    using e by (simp_all add: runs_to_tasks_def upd_tasks_def Let_def)
  have "keys_ok db'" unfolding d by (rule keys_upd_tasks[OF k]) (simp add: assms(2))
  moreover have "\<not> over n rows"
  proof (cases "rows = None")
    case False
    then have rows: "rows = Some 1" "\<And>f. w f \<Longrightarrow> r_id f = rid" using assms(1) by auto
    have "n \<le> 1"
    proof (cases ?src)
      case Nil
      then show ?thesis using n by (simp add: count_where_def)
    next
      case (Cons x xs)
      have only: "f = x" if "f \<in> set ?src" for f
      proof -
        have "x \<in> set ?src" using Cons by simp
        then show ?thesis using that rows(2) run_table.unique[OF keys_okD(2)[OF k], of f x]
          by (simp add: stamped_runs_def)
      qed
      have "t_id t = r_task x" if "?p t" for t using that only by metis
      then show ?thesis unfolding n by (rule one_task[OF k])
    qed
    then show ?thesis using rows(1) by simp
  qed simp
  ultimately show "keys_ok db' \<and> \<not> over n (s_atmost (runs_to_tasks seed name fence q w g nar rows))" by simp
qed

lemma bounded_generated [bounded_intros]:
  "(\<And>db r. run_ident (f db r) = run_ident r) \<Longrightarrow> bounded (tasks_to_runs seed name fence q w f nar None)"
  "bounded (runs_to_waits seed name fence w2 nar2)"
  "bounded (seal_runs seed name fence w3)"
  by (auto simp: bounded_def tasks_to_runs_def runs_to_waits_def seal_runs_def Let_def upd_runs_def
      del_waits_def intro: keys_upd_runs keys_waits)

lemma bounded_park [bounded_intros]:
  assumes "\<And>db r. nar db r \<Longrightarrow> r_id r = rid" "\<And>db r. run_ident (f db r) = run_ident r" "rows = Some 1"
  shows "bounded (waits_to_runs seed name fence q w f nar rows)"
  unfolding assms(3)
proof (rule boundedI)
  fix db db' n
  assume k: "keys_ok db" and e: "s_exec (waits_to_runs seed name fence q w f nar (Some 1)) db = Inr (db', n)"
  let ?src = "stamped_waits seed fence (\<lambda>f. w f \<and> w_queue f = q) db"
  let ?p = "\<lambda>r. (\<exists>x\<in>set ?src. r_id r = w_run x) \<and> r_queue r = q \<and> nar db r"
  have n: "n = count_where ?p (runs db)"
    and d: "db' = db\<lparr>runs := update_where ?p (\<lambda>r. stamp_run seed name (sql_min (map w_fence_at ?src)) (f db r)) (runs db)\<rparr>"
    using e by (simp_all add: waits_to_runs_def upd_runs_def Let_def)
  have "keys_ok db'" unfolding d by (rule keys_upd_runs[OF k]) (simp add: assms(2))
  moreover have "n \<le> 1" unfolding n by (rule one_run[OF k, where rid = rid]) (use assms(1) in blast)
  ultimately show "keys_ok db' \<and> \<not> over n (s_atmost (waits_to_runs seed name fence q w f nar (Some 1)))" by simp
qed

lemma upsert_bounds:
  assumes "keyed c_key cs"
  shows "keyed c_key (upsert_checkpoint c cs) \<and> upsert_count c cs \<le> 1"
proof -
  let ?p = "\<lambda>x. c_key x = c_key c \<and> cell_le (c_owner_attempt x) (c_owner_attempt c)"
  have "count_where ?p cs \<le> 1" by (rule checkpoint_table.update_one_count[OF assms]) blast
  moreover have "keyed c_key (update_where ?p g cs)" if "\<And>x. c_key (g x) = c_key x" for g
    by (rule checkpoint_table.update_keyed[OF assms]) (rule that)
  ultimately show ?thesis
    using assms by (auto simp: upsert_checkpoint_def upsert_count_def c_key_def keyed_def)
qed

lemma bounded_custom [bounded_intros]:
  "bounded (checkpointWrite seed name fence rid cname state)"
  "bounded (failureSuccessor seed name fence sid rid st delay adm)"
  "bounded (wakeRunsUpdate seed queue ev)"
  "bounded (taskDoneEventInsert seed queue task terminal res)"
  "bounded (emitEventCas seed now queue ev payload)"
  "bounded (registerWaitCas seed now queue task rid token step name2 timeout)"
  "bounded (spawnTaskCas seed now task rq)"
  "bounded (spawnRunInsert seed rid task)"
  "bounded (revivalRunInsert seed rid task)"
proof -
  show "bounded (checkpointWrite seed name fence rid cname state)"
    by (auto simp: bounded_def checkpointWrite_def keys_ok_def Let_def not_less
        split: list.splits dest: upsert_bounds)
  show "bounded (failureSuccessor seed name fence sid rid st delay adm)"
    "bounded (spawnRunInsert seed rid task)" "bounded (revivalRunInsert seed rid task)"
    by (auto simp: bounded_def failureSuccessor_def spawnRunInsert_def revivalRunInsert_def
        split: list.splits prod.splits dest: keys_ins_run)
  show "bounded (wakeRunsUpdate seed queue ev)"
    by (auto simp: bounded_def wakeRunsUpdate_def upd_runs_def run_ident_def intro: keys_upd_runs)
  show "bounded (registerWaitCas seed now queue task rid token step name2 timeout)"
    by (auto simp: bounded_def registerWaitCas_def keys_ok_def keyed_def w_key_def registered_wait_def split: if_splits)
  show "bounded (spawnTaskCas seed now task rq)"
    by (auto simp: bounded_def spawnTaskCas_def keys_ok_def keyed_def spawned_task_def split: if_splits)
  show "bounded (taskDoneEventInsert seed queue task terminal res)"
  proof (rule boundedI)
    fix db db' n
    assume k: "keys_ok db" and e: "s_exec (taskDoneEventInsert seed queue task terminal res) db = Inr (db', n)"
    let ?src = "stamped_tasks seed terminal (\<lambda>f. t_id f = task \<and> t_queue f = queue \<and>
                    (t_queue f, taskDoneEventName task) \<notin> e_key ` set (events db)) db"
    show "keys_ok db' \<and> \<not> over n (s_atmost (taskDoneEventInsert seed queue task terminal res))"
    proof (cases ?src)
      case Nil
      then show ?thesis using e k by (simp add: taskDoneEventInsert_def)
    next
      case (Cons f fs)
      then have "f \<in> set ?src" by simp
      then have f: "(t_queue f, taskDoneEventName task) \<notin> e_key ` set (events db)"
        unfolding stamped_tasks_def by auto
      show ?thesis using e k f unfolding taskDoneEventInsert_def stmt.simps Cons
        by (auto simp: keys_ok_def keyed_def e_key_def)
    qed
  qed
  show "bounded (emitEventCas seed now queue ev payload)"
  proof (rule boundedI)
    fix db db' n
    assume k: "keys_ok db" and e: "s_exec (emitEventCas seed now queue ev payload) db = Inr (db', n)"
    have "count_where (\<lambda>e. e_key e = (queue, ev) \<and> p e) (events db) \<le> 1" for p
      by (rule event_table.update_one_count[OF keys_okD(5)[OF k]]) blast
    moreover have "keyed e_key (update_where p (\<lambda>e. e\<lparr>e_stamp := x, e_fence_at := e_emitted_at e\<rparr>) (events db))" for p x
      by (rule event_table.update_keyed[OF keys_okD(5)[OF k]]) (simp add: e_key_def)
    ultimately show "keys_ok db' \<and> \<not> over n (s_atmost (emitEventCas seed now queue ev payload))"
      using e k by (auto simp: emitEventCas_def keys_ok_def keyed_def e_key_def Let_def not_less split: if_splits)
  qed
qed

section \<open>Batches with one compare-and-set\<close>

lemma exec_bounded:
  assumes "exec_all ss db = Inr (db', ns)" "keys_ok db" "list_all bounded ss"
  shows "keys_ok db' \<and> (\<forall>(s, n)\<in>set (zip ss ns). \<not> over n (s_atmost s))"
  using assms
proof (induction ss arbitrary: db ns)
  case (Cons s ss)
  obtain d n ms where e: "s_exec s db = Inr (d, n)" "exec_all ss d = Inr (db', ms)" "ns = n # ms"
    using exec_cons[OF Cons.prems(1)] .
  have "keys_ok d" "\<not> over n (s_atmost s)" using e(1) Cons.prems(2,3) by (auto simp: bounded_def)
  then show ?case using Cons.IH[OF e(2)] Cons.prems(3) e(3) by simp
qed simp

lemma audit_bounded:
  "\<forall>(s, n)\<in>set (zip ss ns). \<not> over n (s_atmost s) \<Longrightarrow> \<forall>s\<in>set ss. s_kind s = FollowOn \<Longrightarrow>
     audit (zip ss ns) w k = Inr (w, k)"
proof (induction ss arbitrary: ns)
  case (Cons s ss)
  then show ?case by (cases ns) simp_all
qed simp

lemma single_cas:
  assumes "run_batch (c # fs) db = (db', ans)" "keys_ok db" "list_all bounded (c # fs)"
    "s_kind c \<noteq> FollowOn" "\<forall>s\<in>set fs. s_kind s = FollowOn"
  shows "(\<exists>e. ans = Inl e \<and> db' = db \<and> exec_all (c # fs) db = Inl e) \<or>
    (\<exists>res n ms. ans = Inr res \<and> exec_all (c # fs) db = Inr (db', n # ms) \<and>
       won res = (if n = 0 then None else Some (s_name c)))"
proof (cases "exec_all (c # fs) db")
  case (Inl e)
  then show ?thesis using assms(1) by (simp add: run_batch_def)
next
  case (Inr y)
  then obtain d ns where e: "exec_all (c # fs) db = Inr (d, ns)" by (cases y) auto
  obtain n ms where ns: "ns = n # ms" using exec_cons[OF e] by metis
  have ok: "\<forall>(s, k)\<in>set (zip (c # fs) (n # ms)). \<not> over k (s_atmost s)"
    using exec_bounded[OF e assms(2,3)] ns by blast
  then have a: "audit (zip fs ms) w k = Inr (w, k)" for w k
    using audit_bounded[of fs ms] assms(5) by simp
  have "\<not> over n (s_atmost c)" using ok by simp
  then have "audit (zip (c # fs) ns) None 0 = Inr (if n = 0 then None else Some (s_name c), n)"
    using a assms(4) ns by simp
  then show ?thesis using assms(1) e ns by (auto simp: run_batch_def)
qed

text \<open>A refused write is a batch that won nothing, and it leaves the database as it was.\<close>

lemma refused_unchanged:
  assumes "require_won operation rid winner (run_batch (c # fs) db) = (db', Inl e)"
    "keys_ok db" "fresh seed db" "list_all bounded (c # fs)" "s_kind c \<noteq> FollowOn" "s_name c = winner"
    "\<forall>s\<in>set fs. s_kind s = FollowOn" "\<forall>s\<in>set (c # fs). loses_quietly seed s"
  shows "db' = db"
proof -
  obtain d ans where b: "run_batch (c # fs) db = (d, ans)" by (cases "run_batch (c # fs) db")
  show ?thesis
  proof (cases ans)
    case (Inl x)
    then show ?thesis using single_cas[OF b assms(2,4,5,7)] assms(1) b by (auto simp: require_won_def)
  next
    case (Inr res)
    then have "won res \<noteq> Some winner" "d = db'" using assms(1) b by (auto simp: require_won_def split: if_splits)
    then have "won res = None" using single_cas[OF b assms(2,4,5,7)] Inr assms(6) by (auto split: if_splits)
    then show ?thesis using lost_batch_unchanged[OF assms(3,8)] b Inr \<open>d = db'\<close> by simp
  qed
qed

section \<open>The batches of the store\<close>

inductive store_batch :: "stmt list \<Rightarrow> bool" where
  "store_batch (heartbeat_batch seed now queue rid token ext)"
| "store_batch (setCheckpoint_batch seed now queue task rid token name state ext)"
| "store_batch (activate_batch seed now queue rid token gen)"
| "store_batch (deferLaunch_batch seed now queue rid token gen plan)"
| "store_batch (reschedule_batch seed now queue rid token plan)"
| "store_batch (suspendRun_batch seed now queue rid token plan name state)"
| "store_batch (emitEvent_batch seed now queue ev payload)"
| "store_batch (awaitEvent_batch seed now queue task rid token step name2 timeout)"
| "store_batch (complete_batch seed now queue task rid token res)"
| "store_batch (failInto_batch seed now fl)"
| "store_batch (claimTimeout_batch seed sid now queue task rid gen)"
| "store_batch (cancel_batch seed now queue task deadline unless)"
| "store_batch (retryTask_batch seed rid now queue task)"
| "store_batch (spawn_batch seed now task rid rq)"

lemma bounded_groups [bounded_intros]:
  "list_all bounded (finishSuspension seed queue rid)"
  "list_all bounded (wakeWaiters seed queue name wg)"
  "list_all bounded (taskDone seed queue task terminal res)"
  "list_all bounded (sagaPass seed queue rid passId fence entering delay adm)"
  "bounded (waitsGone seed rid fence)"
  "bounded (fail_terminal seed name fl)"
proof -
  show "list_all bounded (finishSuspension seed queue rid)" "bounded (waitsGone seed rid fence)"
    "bounded (fail_terminal seed name fl)"
    "list_all bounded (sagaPass seed queue rid passId fence entering delay adm)"
    unfolding finishSuspension_def taskMirrorsRun_def waitsGone_def sagaPass_def fail_terminal_def
    by (auto simp: task_ident_def split: option.splits
        intro: bounded_intros bounded_runs_to_tasks[where rid = rid]
          bounded_runs_to_tasks[where rid = "f_run fl"] bounded_runs_to_tasks[where rid = passId])
  have w: "list_all bounded (wakeWaiters seed queue name wg)" for name wg
    by (auto simp: wakeWaiters_def task_ident_def intro!: bounded_intros)
  show "list_all bounded (wakeWaiters seed queue name wg)" by (rule w)
  show "list_all bounded (taskDone seed queue task terminal res)"
    using w by (auto simp: taskDone_def intro!: bounded_intros)
qed

lemmas batch_shapes = heartbeat_batch_def setCheckpoint_batch_def activate_batch_def
  deferLaunch_batch_def reschedule_batch_def suspendRun_batch_def emitEvent_batch_def
  awaitEvent_batch_def complete_batch_def failInto_batch_def claimTimeout_batch_def
  cancel_batch_def retryTask_batch_def spawn_batch_def

lemmas ident_defs = run_ident_def task_ident_def park_def suspend_set_def complete_set_def
  fail_set_def timeout_set_def cancel_set_def revive_set_def

lemma lease_batches_bounded:
  "list_all bounded (heartbeat_batch seed now queue rid token ext)"
  "list_all bounded (setCheckpoint_batch seed now queue task rid token name state ext)"
  "list_all bounded (activate_batch seed now queue rid token gen)"
  "list_all bounded (deferLaunch_batch seed now queue rid token gen plan)"
  "list_all bounded (reschedule_batch seed now queue rid token plan)"
  "list_all bounded (suspendRun_batch seed now queue rid token plan name state)"
  "list_all bounded (awaitEvent_batch seed now queue task rid token step ev timeout)"
  "list_all bounded (emitEvent_batch seed now queue ev2 payload)"
  by (auto simp: batch_shapes ident_defs list_all_append heartbeat_admits_def setCheckpoint_admits_def
      activate_admits_def deferLaunch_admits_def reschedule_admits_def suspendRun_admits_def
      whereClaimReceipt_def whereClaimedRun_def
      intro: bounded_cas(1)[where rid = rid] bounded_runs_to_tasks[where rid = rid]
        bounded_park[where rid = rid] bounded_intros)

lemma ending_batches_bounded:
  "list_all bounded (complete_batch seed now queue task rid token res)"
  "list_all bounded (failInto_batch seed now fl)"
  "list_all bounded (claimTimeout_batch seed sid now queue task rid gen)"
  "list_all bounded (cancel_batch seed now queue task deadline unless)"
  "list_all bounded (retryTask_batch seed nid now queue task)"
  "list_all bounded (spawn_batch seed now task nid rq)"
proof -
  show "list_all bounded (complete_batch seed now queue task rid token res)"
    by (auto simp: batch_shapes ident_defs list_all_append complete_admits_def whereClaimedRun_def
        intro: bounded_cas(1)[where rid = rid] bounded_runs_to_tasks[where rid = rid] bounded_intros)
  show "list_all bounded (failInto_batch seed now fl)"
    by (auto simp: batch_shapes ident_defs list_all_append fail_admits_def whereClaimedRun_def
        split: option.splits
        intro: bounded_cas(1)[where rid = "f_run fl"] bounded_runs_to_tasks[where rid = "f_successor fl"]
          bounded_intros)
  show "list_all bounded (claimTimeout_batch seed sid now queue task rid gen)"
    by (auto simp: batch_shapes ident_defs list_all_append timeout_admits_def whereSweptClaim_def
        intro: bounded_cas(1)[where rid = rid] bounded_runs_to_tasks[where rid = rid]
          bounded_runs_to_tasks[where rid = sid] bounded_intros)
  show "list_all bounded (cancel_batch seed now queue task deadline unless)"
    "list_all bounded (retryTask_batch seed nid now queue task)"
    "list_all bounded (spawn_batch seed now task nid rq)"
    by (auto simp: batch_shapes ident_defs list_all_append cancel_admits_def revive_admits_def
        intro: bounded_cas(2)[where tid = task] bounded_intros)
qed

lemma store_batch_shape:
  assumes "store_batch ss"
  shows "list_all bounded ss \<and> s_kind (hd ss) \<noteq> FollowOn \<and> (\<forall>s\<in>set (tl ss). s_kind s = FollowOn) \<and> ss \<noteq> []"
  using assms
proof cases
qed (simp_all only: lease_batches_bounded ending_batches_bounded, auto simp: batch_shapes fail_terminal_def
    emitEventCas_def registerWaitCas_def spawnTaskCas_def split: option.splits)

text \<open>The only error a statement of the store raises is a violated key.\<close>

definition raises_keys :: "stmt \<Rightarrow> bool" where
  "raises_keys s = (\<forall>db e. s_exec s db = Inl e \<longrightarrow> (\<exists>col. e = UniqueViolation col))"

lemma exec_raises:
  "exec_all ss db = Inl e \<Longrightarrow> list_all raises_keys ss \<Longrightarrow> \<exists>col. e = UniqueViolation col"
  by (induction ss arbitrary: db) (auto simp: raises_keys_def split: sum.splits)

lemma raises_generated [simp]:
  "raises_keys (cas_runs seed now name p f)" "raises_keys (cas_tasks seed now name p2 f2)"
  "raises_keys (runs_to_tasks seed name fence q w g nar rows)"
  "raises_keys (tasks_to_runs seed name fence q w2 g2 nar2 rows)"
  "raises_keys (waits_to_runs seed name fence q w3 g3 nar3 rows)"
  "raises_keys (runs_to_waits seed name fence w4 nar4)" "raises_keys (seal_runs seed name fence w5)"
  "raises_keys (checkpointWrite seed name fence rid cname state)"
  "raises_keys (wakeRunsUpdate seed queue ev)" "raises_keys (taskDoneEventInsert seed queue task terminal res)"
  "raises_keys (emitEventCas seed now queue ev payload)"
  "raises_keys (registerWaitCas seed now queue task rid token step ev2 timeout)"
  by (auto simp: raises_keys_def cas_runs_def cas_tasks_def runs_to_tasks_def tasks_to_runs_def
      waits_to_runs_def runs_to_waits_def seal_runs_def checkpointWrite_def wakeRunsUpdate_def
      taskDoneEventInsert_def emitEventCas_def registerWaitCas_def upd_runs_def upd_tasks_def
      del_waits_def Let_def split: list.splits if_splits)

lemma raises_inserts [simp]:
  "raises_keys (failureSuccessor seed name fence sid rid st delay adm)"
  "raises_keys (spawnTaskCas seed now task rq)" "raises_keys (spawnRunInsert seed nid task)"
  "raises_keys (revivalRunInsert seed nid task)"
  by (auto simp: raises_keys_def failureSuccessor_def spawnTaskCas_def spawnRunInsert_def
      revivalRunInsert_def ins_run_def split: list.splits prod.splits if_splits)

lemma store_batch_raises: "store_batch ss \<Longrightarrow> list_all raises_keys ss"
  by (induction rule: store_batch.induct)
    (auto simp: batch_shapes finishSuspension_def taskMirrorsRun_def waitsGone_def wakeWaiters_def
      taskDone_def sagaPass_def fail_terminal_def list_all_append split: option.splits)

lemma store_batch_answers:
  assumes "store_batch ss" "keys_ok db" "run_batch ss db = (db', ans)"
  shows "(\<exists>col. ans = Inl (UniqueViolation col) \<and> db' = db) \<or>
    (\<exists>res. ans = Inr res \<and> (won res = None \<or> won res = Some (s_name (hd ss))))"
proof -
  note sh = store_batch_shape[OF assms(1)]
  then obtain c fs where ss: "ss = c # fs" by (cases ss) auto
  have "(\<exists>e. ans = Inl e \<and> db' = db \<and> exec_all (c # fs) db = Inl e) \<or>
    (\<exists>res n ms. ans = Inr res \<and> exec_all (c # fs) db = Inr (db', n # ms) \<and>
       won res = (if n = 0 then None else Some (s_name c)))"
    by (rule single_cas) (use assms(2,3) sh ss in simp_all)
  then show ?thesis using exec_raises[OF _ store_batch_raises[OF assms(1)]] ss by (auto split: if_splits)
qed

end
