(* ===== verification/Candidates.thy ===== *)
theory Candidates
  imports Answers "HOL-Library.Multiset"
begin

text \<open>
  The candidates of a claim. The query reads two legs, one per state, each sorted and limited on
  its own, and merges what they give. It is shown equal to the one scan it stands for: every due
  run whose task admits it, oldest first, up to the limit. From that come the bound on how many
  runs a claim takes and the order it takes them in.
\<close>

section \<open>Limited scans\<close>

lemma take_filter_mem: "x \<in> set (take n xs) \<Longrightarrow> Q x \<Longrightarrow> x \<in> set (take n (filter Q xs))"
proof (induction xs arbitrary: n)
  case (Cons a xs)
  show ?case
  proof (cases n)
    case (Suc m)
    have up: "set (take m ys) \<subseteq> set (take (Suc m) ys)" for ys :: "'a list" by (rule set_take_subset_set_take) simp
    show ?thesis
    proof (cases "x = a")
      case True
      then show ?thesis using Suc Cons.prems(2) by simp
    next
      case False
      then have "x \<in> set (take m (filter Q xs))" using Cons Suc by simp
      then show ?thesis using Suc up by (cases "Q a") auto
    qed
  qed (use Cons.prems in simp)
qed simp

lemma take_filter_all: "(\<And>x. x \<in> set (take n xs) \<Longrightarrow> P x) \<Longrightarrow> take n (filter P xs) = take n xs"
proof (induction xs arbitrary: n)
  case (Cons a xs)
  then show ?case by (cases n) auto
qed simp

lemma sort_distinct_set:
  assumes "distinct xs" "distinct ys" "set xs = set ys" "inj_on k (set xs)"
  shows "sort_key k xs = sort_key k ys"
proof (rule sort_key_inj_key_eq)
  have "mset xs = mset ys" using assms(1-3) by (simp add: set_eq_iff_mset_eq_distinct)
  then show "mset xs = mset (sort_key k ys)" by simp
qed (use assms(4) in simp_all)

text \<open>Limited legs hold between them whatever the limited whole holds.\<close>

lemma merged_scan:
  assumes "distinct xs" "inj_on k (set xs)" "distinct is"
    "\<And>x i j. i \<in> set is \<Longrightarrow> j \<in> set is \<Longrightarrow> P i x \<Longrightarrow> P j x \<Longrightarrow> i = j"
  shows "take n (sort_key k (concat (map (\<lambda>i. take n (sort_key k (filter (P i) xs))) is))) =
    take n (sort_key k (filter (\<lambda>x. \<exists>i\<in>set is. P i x) xs))"
proof -
  let ?any = "\<lambda>x. \<exists>i\<in>set is. P i x"
  let ?S = "sort_key k (filter ?any xs)" and ?L = "\<lambda>i. take n (sort_key k (filter (P i) xs))"
  let ?C = "concat (map ?L is)"
  have leg: "sort_key k (filter (P i) xs) = filter (P i) ?S" if "i \<in> set is" for i
    using that by (simp add: filter_sort) (meson filter_cong)
  have sub: "set (?L i) \<subseteq> {x \<in> set xs. P i x}" for i by (auto dest: in_set_takeD)
  have dC: "distinct (concat (map ?L js))" if "set js \<subseteq> set is" "distinct js" for js
    using that
  proof (induction js)
    case (Cons j js)
    have "set (?L j) \<inter> set (?L i) = {}" if "i \<in> set js" for i
    proof -
      have "i \<noteq> j" "i \<in> set is" "j \<in> set is" using Cons.prems that by auto
      then show ?thesis using sub[of i] sub[of j] assms(4) by blast
    qed
    then show ?case using Cons assms(1) by auto
  qed simp
  let ?F = "filter (\<lambda>x. x \<in> set ?C) (filter ?any xs)"
  have CS: "set ?C \<subseteq> {x \<in> set xs. ?any x}" using sub by fastforce
  have "sort_key k ?C = sort_key k ?F"
  proof (rule sort_distinct_set)
    show "distinct ?C" using dC assms(3) by blast
    show "distinct ?F" using assms(1) by simp
    show "set ?C = set ?F" using CS by auto
    show "inj_on k (set ?C)" by (rule inj_on_subset[OF assms(2)]) (use CS in auto)
  qed
  also have "\<dots> = filter (\<lambda>x. x \<in> set ?C) ?S" by (simp only: filter_sort)
  finally have eq: "sort_key k ?C = filter (\<lambda>x. x \<in> set ?C) ?S" .
  have "x \<in> set ?C" if x: "x \<in> set (take n ?S)" for x
  proof -
    obtain i where i: "i \<in> set is" "P i x" using in_set_takeD[OF x] by auto
    then have "x \<in> set (?L i)" unfolding leg[OF i(1)] using take_filter_mem[OF x] by blast
    then show ?thesis using i(1) by auto
  qed
  then show ?thesis unfolding eq by (rule take_filter_all)
qed

lemma take_sort_le:
  assumes "x \<in> set (take n (sort_key k xs))" "y \<in> set xs" "y \<notin> set (take n (sort_key k xs))"
  shows "k x \<le> k y"
proof -
  have "y \<in> set (drop n (sort_key k xs))"
    using assms(2,3) append_take_drop_id[of n "sort_key k xs"] by (metis Un_iff set_append set_sort)
  moreover have "sorted (map k (take n (sort_key k xs) @ drop n (sort_key k xs)))" by simp
  ultimately show ?thesis using assms(1) unfolding map_append sorted_append by auto
qed

section \<open>The one scan\<close>

definition due_eligible :: "instant \<Rightarrow> string \<Rightarrow> db \<Rightarrow> run \<Rightarrow> bool" where
  "due_eligible now queue db r =
     ((dueRuns Pending now queue r \<or> dueRuns Sleeping now queue r) \<and>
      owner_such db r (claimEligibility now db r))"

definition claim_scan :: "instant \<Rightarrow> string \<Rightarrow> nat \<Rightarrow> db \<Rightarrow> run list" where
  "claim_scan now queue limit db =
     take limit (sort_key (\<lambda>r. (r_available r, r_id r)) (filter (due_eligible now queue db) (runs db)))"

lemma key_inj: "keyed r_id (runs db) \<Longrightarrow> inj_on (\<lambda>r. (r_available r, r_id r)) (set (runs db))"
  by (auto simp: inj_on_def dest: run_table.unique)

lemma candidates_scan:
  assumes "keys_ok db"
  shows "candidateRunIds now queue limit db = map r_id (claim_scan now queue limit db)"
proof -
  have k: "keyed r_id (runs db)" using keys_okD(2)[OF assms] .
  have d: "distinct (runs db)" using k by (simp add: keyed_def distinct_map)
  let ?k = "\<lambda>r. (r_available r, r_id r)"
  let ?P = "\<lambda>s r. dueRuns s now queue r \<and> owner_such db r (claimEligibility now db r)"
  have one: "filter (due_eligible now queue db) (runs db) = filter (\<lambda>r. \<exists>s\<in>set [Pending, Sleeping]. ?P s r) (runs db)"
    by (rule filter_cong) (auto simp: due_eligible_def)
  have "take limit (sort_key ?k (concat (map (\<lambda>s. take limit (sort_key ?k (filter (?P s) (runs db)))) [Pending, Sleeping]))) =
      claim_scan now queue limit db"
    unfolding claim_scan_def one by (rule merged_scan[OF d key_inj[OF k]]) (auto simp: dueRuns_def)
  then show ?thesis by (simp add: candidateRunIds_def claim_leg_def)
qed

lemma scan_members:
  assumes "keys_ok db" "r \<in> set (runs db)"
  shows "(r_id r \<in> set (candidateRunIds now queue limit db)) = (r \<in> set (claim_scan now queue limit db))"
proof -
  have "set (claim_scan now queue limit db) \<subseteq> set (runs db)"
    unfolding claim_scan_def by (auto dest: in_set_takeD)
  then show ?thesis
    unfolding candidates_scan[OF assms(1)]
    using run_table.unique[OF keys_okD(2)[OF assms(1)] _ assms(2)] by force
qed

lemma taken_scan:
  assumes "keys_ok db" "\<not> token_holds queue token db" "addition_fits (Num now) lease"
  shows "taken_runs now queue token lease limit db = set (claim_scan now queue limit db)"
proof -
  have "set (claim_scan now queue limit db) \<subseteq> set (runs db)"
    unfolding claim_scan_def by (auto dest: in_set_takeD)
  then show ?thesis
    using assms(2,3) scan_members[OF assms(1)] unfolding taken_runs_def claim_admits_def by blast
qed

lemma claim_count:
  assumes "keys_ok db"
  shows "count_where (claim_admits now queue token lease limit db) (runs db) \<le> limit"
proof -
  have d: "distinct (runs db)" using keys_okD(2)[OF assms] by (simp add: keyed_def distinct_map)
  have "set (filter (claim_admits now queue token lease limit db) (runs db)) \<subseteq> set (claim_scan now queue limit db)"
    using scan_members[OF assms] unfolding claim_admits_def by auto
  then have "card (set (filter (claim_admits now queue token lease limit db) (runs db))) \<le>
      card (set (claim_scan now queue limit db))" by (rule card_mono[rotated]) simp
  also have "\<dots> \<le> length (claim_scan now queue limit db)" by (rule card_length)
  also have "\<dots> \<le> limit" by (simp add: claim_scan_def)
  finally have "card (set (filter (claim_admits now queue token lease limit db) (runs db))) \<le> limit" .
  then show ?thesis unfolding count_where_def using distinct_card[OF distinct_filter[OF d]] by metis
qed

section \<open>The batch\<close>

lemma claim_answers:
  assumes "keys_ok db" "run_batch (claim_batch seed now queue token lease limit) db = (db', ans)"
  shows "\<exists>res. ans = Inr res \<and>
    won_count res = count_where (claim_admits now queue token lease limit db) (runs db)"
proof -
  let ?n = "count_where (claim_admits now queue token lease limit db) (runs db)"
  have "\<exists>d k l. exec_all (claim_batch seed now queue token lease limit) db = Inr (d, [?n, k, l])"
    by (auto simp: claim_batch_def cas_many_runs_def runs_to_tasks_def runs_to_waits_def upd_runs_def
        upd_tasks_def del_waits_def Let_def)
  then obtain d k l where "exec_all (claim_batch seed now queue token lease limit) db = Inr (d, [?n, k, l])"
    by blast
  moreover have "\<not> limit < ?n" using claim_count[OF assms(1), of now queue token lease limit] by simp
  ultimately show ?thesis using assms(2)
    by (cases "1 \<le> ?n") (auto simp: run_batch_def claim_batch_def)
qed

end
