(* ===== verification/Worker_Facts.thy ===== *)
theory Worker_Facts
  imports Candidates
begin

text \<open>
  What a worker that holds its run gets from each operation, in full: the lease it asked for, the
  checkpoint it reads back, the event or the place in the queue of its waiters, and for a worker
  that lost its run the refusal and nothing written.
\<close>

section \<open>The claim a worker holds\<close>

lemma holder:
  assumes "inv db" "r \<in> set (runs db)" "whereClaimedRun rid queue token r"
  obtains t where "t \<in> set (tasks db)" "runOwnedByTask r t" "t_state t = Running"
    "carries t (unit_runs db (r_task r)) r" "\<And>p. owner_such db r p = p t"
proof -
  have st: "r_state r = Running" using assms(3) by (simp add: whereClaimedRun_def)
  obtain t where t: "t \<in> set (tasks db)" "t_id t = r_task r" "t_queue t = r_queue r"
    using inv_owner[OF assms(1,2)] .
  have l: "live (r_state r)" using st by simp
  note live = inv_live_run[OF assms(1,2) l t(1,2)]
  show ?thesis
  proof (rule that[OF t(1)])
    show "runOwnedByTask r t" using t by (simp add: runOwnedByTask_def)
    show "t_state t = Running" using live(3) st by simp
    show "carries t (unit_runs db (r_task r)) r" using live(2) t(2) by simp
    show "owner_such db r p = p t" for p using owner_such_iff[OF inv_keys[OF assms(1)] t] .
  qed
qed

lemma claimed_unique:
  assumes "keyed r_id (runs db)" "r \<in> set (runs db)" "whereClaimedRun rid queue token r" "s \<in> set (runs db)" "r_id s = rid"
  shows "s = r"
  using run_table.unique[OF assms(1,4,2)] assms(3,5) by (simp add: whereClaimedRun_def)

lemma single_answer:
  assumes "s_exec c db = Inr (d, 1)" "exec_all fs d = Inr (db', ns)" "s_kind c \<noteq> FollowOn"
    "\<forall>s\<in>set fs. s_kind s = FollowOn" "keys_ok db" "list_all bounded (c # fs)"
  shows "\<exists>res. run_batch (c # fs) db = (db', Inr res) \<and> won res = Some (s_name c)"
proof -
  have e: "exec_all (c # fs) db = Inr (db', 1 # ns)" using assms(1,2) by simp
  obtain d ans where b: "run_batch (c # fs) db = (d, ans)" by (cases "run_batch (c # fs) db")
  show ?thesis using single_cas[OF b assms(5,6,3,4)] e b by auto
qed

section \<open>Heartbeat\<close>

lemma heartbeat_held:
  assumes "inv db" "r \<in> set (runs db)" "whereClaimedRun rid queue token r"
    "durationToMs ''extendLeaseSeconds'' n True = Inr ext" "addition_fits (Num now) ext"
  shows "heartbeat seed now queue rid token n db =
    (put_run (stamp_run seed ''extend'' (Num now) (r\<lparr>r_expires := Num (now + ext), r_heartbeat := Num now\<rparr>)) db,
     Inr (Held ext))"
proof -
  let ?r = "stamp_run seed ''extend'' (Num now) (r\<lparr>r_expires := Num (now + ext), r_heartbeat := Num now\<rparr>)"
  have k: "keyed r_id (runs db)" using keys_okD(2)[OF inv_keys[OF assms(1)]] .
  obtain t where t: "t_state t = Running" "\<And>p. owner_such db r p = p t" using holder[OF assms(1-3)] by metis
  have c: "s_exec (hd (heartbeat_batch seed now queue rid token ext)) db = Inr (put_run ?r db, 1)"
    unfolding heartbeat_batch_def list.sel
    by (rule cas_runs_won[where p = "heartbeat_admits now queue rid token ext" and rid = rid
          and f = "\<lambda>db r. r\<lparr>r_expires := Num (now + ext), r_heartbeat := Num now\<rparr>"])
      (use k assms t in \<open>auto simp: heartbeat_admits_def whereClaimedRun_def\<close>)
  then have b: "\<exists>res. run_batch (heartbeat_batch seed now queue rid token ext) db = (put_run ?r db, Inr res) \<and>
      won res = Some ''extend''"
    using single_answer[OF c, of "[]"] inv_keys[OF assms(1)]
      lease_batches_bounded(1)[of seed now queue rid token ext]
    by (simp add: heartbeat_batch_def)
  have "find (\<lambda>x. r_id x = rid \<and> r_stamp x = Some (stamp seed ''extend'')) (runs (put_run ?r db)) = Some ?r"
  proof -
    have "filter (\<lambda>x. r_id x = rid \<and> r_stamp x = Some (stamp seed ''extend'')) (runs (put_run ?r db)) = [?r]"
    proof (rule filter_key_unique[of r_id])
      show "distinct (map r_id (runs (put_run ?r db)))" using k by (simp add: keyed_def)
    qed (use assms(2,3) in \<open>auto simp: in_put_run whereClaimedRun_def\<close>)
    then show ?thesis by (simp add: find_filter)
  qed
  then have "heartbeatRemaining seed rid (put_run ?r db) = Some (Num ext)" by (simp add: heartbeatRemaining_def)
  moreover have "persisted_integer ''heartbeat.remaining_ms'' duration_bounds (Num ext) = Inr ext"
    using durationToMs_bounds[OF assms(4)] by (simp add: persisted_integer_def duration_bounds_def)
  ultimately show ?thesis using b assms(4) by (auto simp: heartbeat_def)
qed

section \<open>Checkpoints\<close>

lemma require_won_Inr:
  "require_won operation rid winner x = (db', Inr ()) \<Longrightarrow> \<exists>res. x = (db', Inr res) \<and> won res = Some winner"
  by (cases x; cases "snd x") (auto simp: require_won_def split: if_splits)

lemma setCheckpoint_won:
  assumes "inv db" "fresh seed db"
    "setCheckpoint seed now queue task rid token name state n db = (db', Inr ())"
  obtains r ext where "r \<in> set (runs db)" "setCheckpoint_admits now queue task rid token name ext db r"
    "durationToMs ''extendLeaseSeconds'' n True = Inr ext"
    "db' = (put_run (stamp_run seed ''lease'' (Num now) (r\<lparr>r_expires := Num (now + ext), r_heartbeat := Num now\<rparr>)) db)
      \<lparr>checkpoints := upsert_checkpoint (checkpoint_row (stamp_run seed ''lease'' (Num now)
         (r\<lparr>r_expires := Num (now + ext), r_heartbeat := Num now\<rparr>)) name state) (checkpoints db)\<rparr>"
proof -
  obtain ext where ext: "durationToMs ''extendLeaseSeconds'' n True = Inr ext"
    "require_won ''setCheckpoint'' rid ''lease''
       (run_batch (setCheckpoint_batch seed now queue task rid token name state ext) db) = (db', Inr ())"
    using assms(3) by (auto simp: setCheckpoint_def split: sum.splits)
  then obtain res where b: "run_batch (setCheckpoint_batch seed now queue task rid token name state ext) db = (db', Inr res)"
    "won res = Some ''lease''" using require_won_Inr by blast
  show ?thesis
  proof (rule cas_batch_cases[OF b(1)[unfolded setCheckpoint_batch_def] inv_keys[OF assms(1)] assms(2), of rid])
    fix r ns
    assume r: "r \<in> set (runs db)" "setCheckpoint_admits now queue task rid token name ext db r"
      and e: "exec_all [checkpointWrite seed ''checkpoint'' ''lease'' rid name state]
        (put_run (stamp_run seed ''lease'' (Num now) (r\<lparr>r_expires := Num (now + ext), r_heartbeat := Num now\<rparr>)) db) = Inr (db', ns)"
    let ?r = "stamp_run seed ''lease'' (Num now) (r\<lparr>r_expires := Num (now + ext), r_heartbeat := Num now\<rparr>)"
    have "s_exec (checkpointWrite seed ''checkpoint'' ''lease'' rid name state) (put_run ?r db) =
      Inr ((put_run ?r db)\<lparr>checkpoints := upsert_checkpoint (checkpoint_row ?r name state) (checkpoints (put_run ?r db))\<rparr>,
         upsert_count (checkpoint_row ?r name state) (checkpoints (put_run ?r db)))"
      by (rule checkpointWrite_exec)
        (use r keys_okD(2)[OF inv_keys[OF assms(1)]] in \<open>auto simp: in_put_run setCheckpoint_admits_def whereClaimedRun_def\<close>)
    then show thesis using that[OF r ext(1)] e by simp
  qed (use b(2) in \<open>auto simp: setCheckpoint_admits_def whereClaimedRun_def\<close>)
qed

lemma upsert_takes:
  assumes "keyed c_key cs" "\<And>x. x \<in> set cs \<Longrightarrow> c_key x = c_key c \<Longrightarrow> cell_le (c_owner_attempt x) (c_owner_attempt c)"
  shows "\<exists>x\<in>set (upsert_checkpoint c cs). c_key x = c_key c \<and> c_state x = c_state c \<and>
    c_owner_run x = c_owner_run c \<and> c_owner_attempt x = c_owner_attempt c \<and>
    (x = c \<or> (\<exists>y\<in>set cs. c_queue x = c_queue y \<and> c_committed x = c_committed y \<and> c_key y = c_key c))"
proof (cases "c_key c \<in> c_key ` set cs")
  case True
  then obtain y where y: "y \<in> set cs" "c_key y = c_key c" by auto
  then have le: "cell_le (c_owner_attempt y) (c_owner_attempt c)" using assms(2) by blast
  let ?u = "\<lambda>x. x\<lparr>c_state := c_state c, c_owner_run := c_owner_run c,
                     c_owner_attempt := c_owner_attempt c, c_updated_at := c_updated_at c\<rparr>"
  have "?u y \<in> set (upsert_checkpoint c cs)"
    using True y le by (force simp: upsert_checkpoint_def set_update_where)
  then show ?thesis using y by (intro bexI[of _ "?u y"]) (auto simp: c_key_def)
next
  case False
  then show ?thesis by (simp add: upsert_checkpoint_def)
qed

lemma checkpoint_readback:
  assumes "inv db" "fresh seed db"
    "setCheckpoint seed now queue task rid token name state n db = (db', Inr ())"
  shows "\<exists>a. (\<exists>r\<in>set (runs db'). r_id r = rid \<and> r_attempt r = Num a) \<and>
    (\<exists>c\<in>set (getCheckpoints queue task a db'). c_name c = name \<and> c_state c = state)"
proof -
  obtain r ext where r: "r \<in> set (runs db)" "setCheckpoint_admits now queue task rid token name ext db r"
    and eq: "db' = (put_run (stamp_run seed ''lease'' (Num now) (r\<lparr>r_expires := Num (now + ext), r_heartbeat := Num now\<rparr>)) db)
      \<lparr>checkpoints := upsert_checkpoint (checkpoint_row (stamp_run seed ''lease'' (Num now)
         (r\<lparr>r_expires := Num (now + ext), r_heartbeat := Num now\<rparr>)) name state) (checkpoints db)\<rparr>"
    by (rule setCheckpoint_won[OF assms])
  let ?r = "stamp_run seed ''lease'' (Num now) (r\<lparr>r_expires := Num (now + ext), r_heartbeat := Num now\<rparr>)"
  let ?c = "checkpoint_row ?r name state"
  have w: "whereClaimedRun rid queue token r" "r_task r = task" using r(2) by (simp_all add: setCheckpoint_admits_def)
  then have f: "r_id r = rid" "r_queue r = queue" by (simp_all add: whereClaimedRun_def)
  obtain a where a: "r_attempt r = Num a" "stored_within run_attempt_bounds (Num a)"
    using inv_run_ok[OF assms(1) r(1)] by (cases "r_attempt r") (auto simp: run_ok_def run_attempt_bounds_def)
  obtain t where t: "t \<in> set (tasks db)" "carries t (unit_runs db (r_task r)) r" "t_id t = r_task r"
    using holder[OF assms(1) r(1) w(1)] unfolding runOwnedByTask_def by metis
  have low: "cell_le (c_owner_attempt x) (c_owner_attempt ?c)" "c_queue x = queue" "c_committed x"
    if x: "x \<in> set (checkpoints db)" "c_key x = c_key ?c" for x
  proof -
    obtain y where y: "y \<in> set (runs db)" "checkpointOwnerMatches x y" and com: "c_committed x"
      using assms(1) x(1) by (auto simp: inv_def rows_ok_def checkpoint_ok_def)
    have ty: "r_task y = r_task r" "r_attempt y = c_owner_attempt x" "r_queue y = c_queue x"
      using y(2) x(2) by (simp_all add: checkpointOwnerMatches_def c_key_def checkpoint_row_def)
    have "\<not> cell_lt (r_attempt r) (r_attempt y)" "stored_within run_attempt_bounds (r_attempt y)"
      using carries_highest[OF assms(1) t(2)] y(1) ty(1) by (auto simp: storedHighestOwnedOrdinal_def)
    then show "cell_le (c_owner_attempt x) (c_owner_attempt ?c)"
      using ty(2) a by (cases "c_owner_attempt x") (auto simp: checkpoint_row_def)
    have "y \<in> unit_runs db (t_id t) \<and> r \<in> unit_runs db (t_id t)"
      using y(1) r(1) ty(1) t(3) by (simp add: unit_runs_def)
    then show "c_queue x = queue" using inv_unit[OF assms(1) t(1)] ty(3) f(2) by (auto simp: unit_ok_def)
    show "c_committed x" by (rule com)
  qed
  obtain x where x: "x \<in> set (upsert_checkpoint ?c (checkpoints db))" "c_key x = c_key ?c" "c_state x = c_state ?c"
    "c_owner_run x = c_owner_run ?c" "c_owner_attempt x = c_owner_attempt ?c"
    "x = ?c \<or> (\<exists>y\<in>set (checkpoints db). c_queue x = c_queue y \<and> c_committed x = c_committed y \<and> c_key y = c_key ?c)"
    using upsert_takes[OF keys_okD(6)[OF inv_keys[OF assms(1)]] low(1)] by blast
  have xs: "c_queue x = queue" "c_committed x"
    using x(6) low(2,3) f by (auto simp: checkpoint_row_def)
  have mem: "?r \<in> set (runs db')" using r(1) eq by (auto simp: in_put_run)
  have fields: "c_task x = task" "c_name x = name" "c_state x = state" "c_owner_run x = rid" "c_owner_attempt x = Num a"
    using x(2-5) f w(2) a(1) by (simp_all add: checkpoint_row_def c_key_def)
  have own: "checkpointOwnerMatches x ?r" using fields xs(1) f w(2) a by (simp add: checkpointOwnerMatches_def)
  have "x \<in> set (getCheckpoints queue task a db')"
    using x(1) own mem fields xs eq by (auto simp: getCheckpoints_def)
  then show ?thesis using mem f(1) a(1) fields by (intro exI[of _ a] conjI) (auto intro!: bexI[of _ ?r] bexI[of _ x])
qed

end
