(* ===== verification/Scenario.thy ===== *)
theory Scenario
  imports Worker_Facts
begin

text \<open>
  A short life of two tasks, batch by batch, that the witnesses of the properties are evaluated
  on: a parent is spawned, claimed and activated, then its run completes, fails, sleeps on an
  event or expires. Each database is what a batch of the model leaves of the one before, so each
  is reachable.
\<close>

definition demo_request :: "string \<Rightarrow> string option \<Rightarrow> spawn_request" where
  "demo_request queue key =
     \<lparr>sp_queue = queue, sp_name = ''email'', sp_params = ''{}'', sp_headers = NoDoc,
      sp_retry = Doc (JObject [(''kind'', JText ''none'')]), sp_max_attempts = 3, sp_delay = 0,
      sp_max_delay = None, sp_cancellation = NoDoc, sp_key = key, sp_parent = None\<rparr>"

definition after :: "stmt list \<Rightarrow> db \<Rightarrow> db" where
  "after ss db = fst (run_batch ss db)"

definition db_spawned :: db where
  "db_spawned = after (spawn_batch ''a'' 1000 ''t1'' ''r1'' (demo_request ''q'' (Some ''k''))) empty_db"

definition db_claimed :: db where
  "db_claimed = after (claim_batch ''b'' 2000 ''q'' ''w'' 30000 10) db_spawned"

definition db_active :: db where
  "db_active = after (activate_batch ''c'' 2100 ''q'' ''r1'' ''w'' 1) db_claimed"

text \<open>The active run started a step that owes a rollback, or sleeps on an event.\<close>

definition db_started :: db where
  "db_started = after (setCheckpoint_batch ''d'' 2200 ''q'' ''t1'' ''r1'' ''w'' ''$started:pay'' ''{}'' 30000) db_active"

definition db_parked :: db where
  "db_parked = after (awaitEvent_batch ''e'' 2300 ''q'' ''t1'' ''r1'' ''w'' ''step'' (UserEvent ''go'') None) db_active"

definition demo_failure :: "duration option \<Rightarrow> failure" where
  "demo_failure retry =
     \<lparr>f_queue = ''q'', f_run = ''r1'', f_token = ''w'', f_json = ''boom'', f_task = ''t1'',
      f_successor = ''r2'', f_retry = retry, f_rollback = None\<rparr>"

definition db_failed :: db where
  "db_failed = after (failInto_batch ''f'' 2400 (demo_failure None)) db_active"

definition db_rolling :: db where
  "db_rolling = after (failInto_batch ''g'' 2500 (demo_failure None)) db_started"

definition db_done :: db where
  "db_done = after (complete_batch ''h'' 2600 ''q'' ''t1'' ''r1'' ''w'' ''42'') db_active"

definition db_woken :: db where
  "db_woken = after (emitEvent_batch ''i'' 2700 ''q'' ''go'' ''7'') db_parked"

definition db_again :: db where
  "db_again = after (emitEvent_batch ''j'' 2800 ''q'' ''go'' ''8'') db_woken"

text \<open>A second task, whose active run awaits the first.\<close>

definition db_second :: db where
  "db_second = after (spawn_batch ''k'' 2700 ''t2'' ''s1'' (demo_request ''q'' None)) db_done"

definition db_second_claimed :: db where
  "db_second_claimed = after (claim_batch ''l'' 2800 ''q'' ''v'' 30000 10) db_second"

definition db_parent :: db where
  "db_parent = after (activate_batch ''m'' 2900 ''q'' ''s1'' ''v'' 1) db_second_claimed"

text \<open>The completed task's unit, purged an hour later.\<close>

definition demo_policy :: js_value where
  "demo_policy = JsObject [(''completedSeconds'', JsNumber (Finite 3600)), (''cancelledSeconds'', JsNumber (Finite 3600))]"

definition demo_windows :: windows where
  "demo_windows = \<lparr>completed_ms = Some 3600000, failed_ms = None, cancelled_ms = Some 3600000\<rparr>"

definition db_purged :: db where
  "db_purged = after (purge_batch ''n'' 3602600 ''q'' ''t1'' (Some ''k'') None demo_windows) db_done"

text \<open>Whether a call answered, and what it did when it did.\<close>

definition answered :: "'a reply \<Rightarrow> bool" where
  "answered x = (case snd x of Inl e \<Rightarrow> False | Inr a \<Rightarrow> True)"

lemma answered_reply: "answered x \<Longrightarrow> \<exists>a. x = (fst x, Inr a)"
  by (cases x) (auto simp: answered_def split: sum.splits)

lemma refused_reply: "\<not> answered x \<Longrightarrow> \<exists>e. x = (fst x, Inl e)"
  by (cases x) (auto simp: answered_def split: sum.splits)

section \<open>Each is reachable\<close>

lemma after_pair: "run_batch ss db = (after ss db, snd (run_batch ss db))"
  by (simp add: after_def)

lemma reach_step: "reachable db \<Longrightarrow> txn db db' \<Longrightarrow> reachable db'"
  by (erule rtranclp.rtrancl_into_rtrancl) (rule store_step.transaction)

lemma reachable_spawned: "reachable db_spawned"
  unfolding db_spawned_def
  by (rule reach_step[OF rtranclp.rtrancl_refl txn.spawn[OF _ _ _ after_pair]]) code_simp+

lemma reachable_claimed: "reachable db_claimed"
  unfolding db_claimed_def
  by (rule reach_step[OF reachable_spawned txn.claim[OF _ _ _ _ after_pair]]) code_simp+

lemma reachable_active: "reachable db_active"
  unfolding db_active_def
  by (rule reach_step[OF reachable_claimed txn.activate[OF _ _ after_pair, of _ _ "''n''" _ 1]]) code_simp+

lemma no_delay: "pred_option ((\<le>) (0::int)) None"
  by simp

lemma demo_delays: "pred_option ((\<le>) 0) (f_retry (demo_failure None))"
  "pred_option (\<lambda>(_, d). pred_option ((\<le>) 0) d) (f_rollback (demo_failure x))"
  by (simp_all add: demo_failure_def)

lemma reachable_started: "reachable db_started"
  unfolding db_started_def
  by (rule reach_step[OF reachable_active txn.checkpoint[OF _ _ after_pair]]) code_simp+

lemma reachable_parked: "reachable db_parked"
  unfolding db_parked_def
  by (rule reach_step[OF reachable_active txn.await[OF _ _ no_delay after_pair]]) code_simp+

lemma reachable_failed: "reachable db_failed"
  unfolding db_failed_def
  by (rule reach_step[OF reachable_active txn.fail[OF _ _ _ demo_delays after_pair]]) code_simp+

lemma reachable_rolling: "reachable db_rolling"
  unfolding db_rolling_def
  by (rule reach_step[OF reachable_started txn.fail[OF _ _ _ demo_delays after_pair]]) code_simp+

lemma reachable_done: "reachable db_done"
  unfolding db_done_def
  by (rule reach_step[OF reachable_active txn.complete[OF _ _ _ after_pair]]) code_simp+

lemma reachable_second: "reachable db_second"
  unfolding db_second_def
  by (rule reach_step[OF reachable_done txn.spawn[OF _ _ _ after_pair]]) code_simp+

lemma reachable_second_claimed: "reachable db_second_claimed"
  unfolding db_second_claimed_def
  by (rule reach_step[OF reachable_second txn.claim[OF _ _ _ _ after_pair]]) code_simp+

lemma reachable_parent: "reachable db_parent"
  unfolding db_parent_def
  by (rule reach_step[OF reachable_second_claimed txn.activate[OF _ _ after_pair, of _ _ "''n''" _ 1]]) code_simp+

lemma reachable_purged: "reachable db_purged"
  unfolding db_purged_def
  by (rule rtranclp.rtrancl_into_rtrancl[OF reachable_done store_step.purge[OF _ _ after_pair]]) code_simp+

lemma reachable_woken: "reachable db_woken"
  unfolding db_woken_def
  by (rule reach_step[OF reachable_parked txn.emit[OF _ _ _ after_pair]]) code_simp+

lemma woken_again: "leads_to db_woken db_again"
  unfolding db_again_def
  by (rule one_txn, rule txn.emit[OF _ _ _ after_pair]) code_simp+

lemma done_to_parent: "leads_to db_done db_parent"
proof -
  have "leads_to db_done db_second"
    unfolding db_second_def by (rule one_txn, rule txn.spawn[OF _ _ _ after_pair]) code_simp+
  moreover have "leads_to db_second db_second_claimed"
    unfolding db_second_claimed_def by (rule one_txn, rule txn.claim[OF _ _ _ _ after_pair]) code_simp+
  moreover have "leads_to db_second_claimed db_parent"
    unfolding db_parent_def by (rule one_txn, rule txn.activate[OF _ _ after_pair, of _ _ "''n''" _ 1]) code_simp+
  ultimately show ?thesis by (meson rtranclp_trans)
qed

text \<open>A driver's beat after a spawn under a key.\<close>

definition db_beaten :: db where
  "db_beaten = fst (driverHeartbeat 2000 ''q'' ''d'' (Finite 30)
     (fst (spawnOnce ''a'' 1000 ''t1'' ''r1'' (demo_request ''q'' (Some ''k'')) empty_db)))"

end
