(* ===== verification/Refusals.thy ===== *)
theory Refusals
  imports Worker_Facts
begin

text \<open>
  An operation that throws has written nothing. A caller's argument is refused before the batch, a
  violated key rolls the batch back, a compare-and-set that lost leaves every follow-on without
  its fence, and the decoding of an answer after a batch that won cannot fail, because the
  invariant bounds every column it reads.
\<close>

section \<open>Batches whose answer is an error or a loss\<close>

lemma store_batch_error:
  assumes "store_batch ss" "keys_ok db" "run_batch ss db = (db', Inl e)"
  shows "db' = db"
  using store_batch_answers[OF assms] by auto

lemma store_batch_lost:
  assumes "store_batch ss" "keys_ok db" "fresh seed db" "list_all (loses_quietly seed) ss"
    "run_batch ss db = (db', Inr res)" "won res \<noteq> Some (s_name (hd ss))"
  shows "db' = db"
  using store_batch_answers[OF assms(1,2,5)] assms(6)
    lost_batch_unchanged[OF assms(3) _ assms(5)] assms(4) by (auto simp: list_all_iff)

lemma batches_quiet:
  "list_all (loses_quietly seed) (heartbeat_batch seed now queue rid token ext)"
  "list_all (loses_quietly seed) (setCheckpoint_batch seed now queue task rid token name state ext)"
  "list_all (loses_quietly seed) (activate_batch seed now queue rid token gen)"
  "list_all (loses_quietly seed) (deferLaunch_batch seed now queue rid token gen plan)"
  "list_all (loses_quietly seed) (reschedule_batch seed now queue rid token plan)"
  "list_all (loses_quietly seed) (suspendRun_batch seed now queue rid token plan name state)"
  "list_all (loses_quietly seed) (emitEvent_batch seed now queue ev payload)"
  "list_all (loses_quietly seed) (awaitEvent_batch seed now queue task rid token step ev2 timeout)"
  "list_all (loses_quietly seed) (complete_batch seed now queue task rid token res)"
  "list_all (loses_quietly seed) (failInto_batch seed now fl)"
  "list_all (loses_quietly seed) (claimTimeout_batch seed sid now queue task rid gen)"
  "list_all (loses_quietly seed) (cancel_batch seed now queue task deadline unless)"
  "list_all (loses_quietly seed) (retryTask_batch seed rid now queue task)"
  "list_all (loses_quietly seed) (spawn_batch seed now task rid rq)"
  by (auto simp: batch_shapes fail_terminal_def list_all_iff split: option.splits)

lemma batch_heads [simp]:
  "s_name (hd (setCheckpoint_batch seed now queue task rid token name state ext)) = ''lease''"
  "s_name (hd (deferLaunch_batch seed now queue rid token gen plan)) = ''suspend''"
  "s_name (hd (reschedule_batch seed now queue rid token plan)) = ''suspend''"
  "s_name (hd (suspendRun_batch seed now queue rid token plan name state)) = ''suspend''"
  "s_name (hd (complete_batch seed now queue task rid token res)) = ''complete''"
  "s_name (hd (failInto_batch seed now fl)) = ''fail''"
  "s_name (hd (awaitEvent_batch seed now queue task rid token step ev2 timeout)) = ''register''"
  "s_name (hd (spawn_batch seed now task rid rq)) = ''task''"
  by (simp_all add: batch_shapes registerWaitCas_def spawnTaskCas_def)

lemma require_won_error:
  assumes "require_won operation rid winner (run_batch ss db) = (db', Inl e)" "store_batch ss"
    "keys_ok db" "fresh seed db" "list_all (loses_quietly seed) ss" "s_name (hd ss) = winner"
  shows "db' = db"
proof -
  obtain d ans where b: "run_batch ss db = (d, ans)" by (cases "run_batch ss db")
  show ?thesis
  proof (cases ans)
    case (Inl x)
    then show ?thesis using store_batch_error[OF assms(2,3)] b assms(1) by (auto simp: require_won_def)
  next
    case (Inr res)
    then have "won res \<noteq> Some winner" "d = db'" using assms(1) b by (auto simp: require_won_def split: if_splits)
    then show ?thesis using store_batch_lost[OF assms(2-5)] b Inr assms(6) by simp
  qed
qed

section \<open>Answers that always decode\<close>

lemma decode_ok:
  assumes "inv db" "r \<in> set (runs db)" "t \<in> set (tasks db)" "r_state r = Running"
    "durableTaskRetryAdmissible t" "durableTaskHeadersAdmissible t"
  shows "\<exists>c. decodeClaimedRun token r t = Inr c"
proof -
  have r: "run_ok r" using inv_run_ok[OF assms(1,2)] .
  have t: "counters_ok t" using inv_unit[OF assms(1,3)] by (simp add: unit_ok_def)
  obtain s j where "stored_retry (t_retry t) = Inr s" "stored_headers (t_headers t) = Inr j"
    using admitted_documents[OF assms(5,6)] by blast
  then show ?thesis
    using r t assms(4) unfolding decodeClaimedRun_def
    by (simp add: run_ok_def counters_ok_def storedPositiveClaimGeneration_def persisted_integer_within)
qed

lemma decode_all_ok:
  assumes "inv db" "set rows \<subseteq> set (joined db)" "\<forall>(r, t)\<in>set rows. r_state r = Running \<and> receipt_admits db r t"
  shows "\<exists>cs. decode_all token rows = Inr cs"
  using assms(2,3)
proof (induction rows)
  case (Cons x rows)
  obtain r t where x: "x = (r, t)" by (cases x)
  then have "r \<in> set (runs db)" "t \<in> set (tasks db)" "r_state r = Running" "receipt_admits db r t" using Cons.prems by auto
  then obtain c where "decodeClaimedRun token r t = Inr c" using decode_ok[OF assms(1)] unfolding receipt_admits_def by blast
  moreover obtain cs where "decode_all token rows = Inr cs" using Cons by auto
  ultimately show ?case using x by simp
qed simp

lemma claim_receipt_decodes: "inv db \<Longrightarrow> \<exists>cs. decode_all token (claimReceipt queue token db) = Inr cs"
  by (rule decode_all_ok) (auto simp: claimReceipt_def)

text \<open>The row an activation reads back is that of the run it activated, whose task its compare-and-set
  admitted, and the batch leaves the task's documents as they were.\<close>

lemma policy_kept:
  assumes "s_exec (runs_to_tasks seed name fence q w f p rows) db = Inr (db', n)" "t' \<in> set (tasks db')"
    "\<And>db t. t_id (f db t) = t_id t \<and> t_retry (f db t) = t_retry t \<and> t_headers (f db t) = t_headers t"
  shows "\<exists>t\<in>set (tasks db). t_id t = t_id t' \<and> t_retry t = t_retry t' \<and> t_headers t = t_headers t'"
proof -
  obtain P F where e: "db' = db\<lparr>tasks := update_where P F (tasks db)\<rparr>"
      "\<And>t. t_id (F t) = t_id t \<and> t_retry (F t) = t_retry t \<and> t_headers (F t) = t_headers t"
    using assms(1,3) by (auto simp: runs_to_tasks_def upd_tasks_def Let_def stamp_task_def)
  then have "t' \<in> (\<lambda>t. if P t then F t else t) ` set (tasks db)" using assms(2) by (simp add: set_update_where)
  then obtain t where "t \<in> set (tasks db)" "t' = (if P t then F t else t)" by blast
  then show ?thesis using e(2) by (intro bexI[of _ t]) auto
qed

lemma found_in: "find P xs = Some x \<Longrightarrow> x \<in> set xs \<and> P x"
  by (induction xs) (auto split: if_splits)

lemma activated_row:
  assumes "inv db" "fresh seed db" "requirePositiveClaimGeneration name gen = Inr gen"
    "run_batch (activate_batch seed now queue rid token gen) db = (db', Inr res)" "activatedRun seed rid db' = Some (r, t)"
    "won res = Some ''activate''"
  shows "inv db' \<and> r \<in> set (runs db') \<and> t \<in> set (tasks db') \<and> t_id t = r_task r \<and> r_state r = Running \<and>
    durableTaskRetryAdmissible t \<and> durableTaskHeadersAdmissible t"
proof -
  note b = assms(4)
  have i: "inv db'" by (rule activate_inv[OF assms(1-3) b])
  have j: "(r, t) \<in> set (joined db')" "r_state r = Running" "r_id r = rid"
    using found_in[OF assms(5)[unfolded activatedRun_def]] by (auto simp del: in_joined)
  have ids: "r \<in> set (runs db')" "t \<in> set (tasks db')" "t_id t = r_task r" using j(1) by (auto simp: runOwnedByTask_def)
  let ?f = "\<lambda>db r. r\<lparr>r_activated_gen := Num gen, r_started_at := coalesce (r_started_at r) (Num now),
    r_expires := Num (now + ival (r_lease r)), r_heartbeat := Num now\<rparr>"
  have "durableTaskRetryAdmissible t \<and> durableTaskHeadersAdmissible t"
  proof (cases rule: cas_batch_cases[OF b[unfolded activate_batch_def] inv_keys[OF assms(1)] assms(2), of rid,
        case_names a1 a2 a3 lost won aborted])
    case (won s ns)
    let ?d = "put_run (stamp_run seed ''activate'' (Num now) (?f db s)) db"
    have s: "r_id s = rid" using won(2) by (simp add: activate_admits_def whereClaimReceipt_def whereClaimedRun_def)
    obtain t0 where t0: "t0 \<in> set (tasks db)" "t_id t0 = r_task s" "durableTaskRetryAdmissible t0" "durableTaskHeadersAdmissible t0"
      using won(2) by (auto simp: activate_admits_def whereClaimReceipt_def claimReceiptAdmission_def owner_such_def runOwnedByTask_def)
    obtain n where e: "s_exec (runs_to_tasks seed ''task-start'' ''activate'' queue (\<lambda>f. r_id f = rid)
        (\<lambda>db t. t\<lparr>t_first_started := coalesce (t_first_started t) (fencedAt seed ''activate'' rid db),
                  t_cancel_at := activated_deadline seed rid db t\<rparr>) (\<lambda>db t. live (t_state t)) (Some 1)) ?d = Inr (db', n)"
      using won(4) by (auto split: sum.splits)
    obtain t1 where t1: "t1 \<in> set (tasks ?d)" "t_id t1 = t_id t" "t_retry t1 = t_retry t" "t_headers t1 = t_headers t"
      using policy_kept[OF e ids(2)] by auto
    have "r_task r = r_task s"
    proof -
      have "runs db' = runs ?d" using e by (auto simp: runs_to_tasks_def upd_tasks_def Let_def)
      then have "r = stamp_run seed ''activate'' (Num now) (?f db s) \<or> r_id r \<noteq> rid"
        using ids(1) s by (auto simp: put_run_def stamp_run_def)
      then show ?thesis using j(3) by (auto simp: stamp_run_def)
    qed
    then have "t1 = t0" using task_table.unique[OF keys_okD(1)[OF inv_keys[OF assms(1)]]] t0 t1(1,2) ids(3) by auto
    then show ?thesis using t0(3,4) t1(3,4) by (simp add: durableTaskRetryAdmissible_def durableTaskHeadersAdmissible_def)
  qed (use assms(6) in \<open>auto simp: activate_admits_def whereClaimReceipt_def whereClaimedRun_def\<close>)
  then show ?thesis using i ids j(2) by simp
qed

lemma event_text:
  assumes "inv db" "event_of k (events db) = Some e"
  shows "is_text_cell (e_payload e)"
proof -
  have "e \<in> set (events db)" using assms(2) by (auto simp: event_of_def find_Some_iff)
  then show ?thesis using assms(1) by (simp add: inv_def rows_ok_def event_ok_def)
qed

section \<open>The two compare-and-sets of a lost launch\<close>

lemma lostLaunch_bounded: "list_all bounded (lostLaunch_batch seed sid now now2 queue task rid gen)"
  by (auto simp: lostLaunch_batch_def reopen_set_def ident_defs list_all_append reopen_admits_def
      cap_admits_def whereSweptClaim_def
      intro: bounded_cas(1)[where rid = rid] bounded_runs_to_tasks[where rid = rid] bounded_intros)

text \<open>A run that was reopened is pending, so the cap finds no running run to fail.\<close>

lemma reopened_not_capped:
  assumes "keys_ok db" "s_exec (cas_runs seed now ''reopen'' (reopen_admits now queue rid gen) (reopen_set now)) db = Inr (d, n)"
    "s_exec (cas_runs seed now2 ''cap'' (cap_admits now2 queue rid gen) f) d = Inr (d2, m)"
  shows "n = 0 \<or> m = 0"
proof (cases "\<exists>r\<in>set (runs db). reopen_admits now queue rid gen db r")
  case True
  then obtain r where r: "r \<in> set (runs db)" "reopen_admits now queue rid gen db r" by blast
  let ?r = "stamp_run seed ''reopen'' (Num now) (reopen_set now db r)"
  have "s_exec (cas_runs seed now ''reopen'' (reopen_admits now queue rid gen) (reopen_set now)) db = Inr (put_run ?r db, 1)"
    by (rule cas_runs_won[where rid = rid])
      (use keys_okD(2)[OF assms(1)] r in \<open>auto simp: reopen_admits_def whereSweptClaim_def reopen_set_def\<close>)
  then have d: "d = put_run ?r db" using assms(2) by simp
  have rid: "r_id ?r = rid" using r(2) by (simp add: reopen_admits_def whereSweptClaim_def reopen_set_def)
  have pend: "r_state ?r \<noteq> Running" by (simp add: reopen_set_def)
  have "\<not> cap_admits now2 queue rid gen d x" if "x \<in> set (runs d)" for x
  proof
    assume c: "cap_admits now2 queue rid gen d x"
    then have "r_id x = rid" "r_state x = Running" by (simp_all add: cap_admits_def whereSweptClaim_def)
    then show False using that pend rid unfolding d in_put_run by auto
  qed
  then show ?thesis using assms(3) cas_runs_lost[of d "cap_admits now2 queue rid gen"] by auto
next
  case False
  then show ?thesis using assms(2) cas_runs_lost[of db "reopen_admits now queue rid gen"] by auto
qed

lemma lostLaunch_error:
  assumes "keys_ok db" "run_batch (lostLaunch_batch seed sid now now2 queue task rid gen) db = (db', Inl e)"
  shows "db' = db"
proof (cases "exec_all (lostLaunch_batch seed sid now now2 queue task rid gen) db")
  case (Inl x)
  then show ?thesis using assms(2) by (simp add: run_batch_def)
next
  case (Inr y)
  let ?reopen = "cas_runs seed now ''reopen'' (reopen_admits now queue rid gen) (reopen_set now)"
  let ?cap = "cas_runs seed now2 ''cap'' (cap_admits now2 queue rid gen) (fail_set now2 REASON_RELAUNCH_CAP)"
  let ?fs = "tl (tl (lostLaunch_batch seed sid now now2 queue task rid gen))"
  have parts: "lostLaunch_batch seed sid now now2 queue task rid gen = ?reopen # ?cap # ?fs"
    by (simp add: lostLaunch_batch_def)
  obtain d ns where e: "exec_all (?reopen # ?cap # ?fs) db = Inr (d, ns)" using Inr parts by (cases y) auto
  obtain d1 n ns1 where s1: "s_exec ?reopen db = Inr (d1, n)" "exec_all (?cap # ?fs) d1 = Inr (d, ns1)" "ns = n # ns1"
    by (rule exec_cons[OF e])
  obtain d2 m ms where s2: "s_exec ?cap d1 = Inr (d2, m)" "ns1 = m # ms" using exec_cons[OF s1(2)] by metis
  have ns: "ns = n # m # ms" using s1(3) s2(2) by simp
  have ok: "\<forall>(s, k)\<in>set (zip (?reopen # ?cap # ?fs) ns). \<not> over k (s_atmost s)"
    using exec_bounded[OF e assms(1)] lostLaunch_bounded[of seed sid now now2 queue task rid gen] parts by simp
  have fs: "\<forall>s\<in>set ?fs. s_kind s = FollowOn" by (auto simp: lostLaunch_batch_def)
  have a: "audit (zip ?fs ms) w k = Inr (w, k)" for w k
    by (rule audit_bounded[OF _ fs]) (use ok ns in auto)
  have "n = 0 \<or> m = 0" by (rule reopened_not_capped[OF assms(1) s1(1) s2(1)])
  then have "\<exists>w k. audit (zip (?reopen # ?cap # ?fs) ns) None 0 = Inr (w, k)"
    using ok ns a by auto
  then show ?thesis using assms(2) e parts by (auto simp: run_batch_def)
qed

section \<open>The calls that throw\<close>

lemma emit_records:
  assumes "run_batch (emitEvent_batch seed now queue name payload) db = (db', Inr res)"
  shows "event_of (queue, name) (events db') \<noteq> None"
proof -
  obtain ns where "exec_all (emitEvent_batch seed now queue name payload) db = Inr (db', ns)"
    using assms by (auto simp: run_batch_def split: sum.splits)
  then obtain d n ms where s: "s_exec (emitEventCas seed now queue name payload) db = Inr (d, n)"
    "exec_all (wakeWaiters seed queue name ''waits-gone'') d = Inr (db', ms)"
    using exec_cons unfolding emitEvent_batch_def by metis
  have "\<exists>e\<in>set (events d). e_key e = (queue, name)"
  proof (cases "(queue, name) \<in> e_key ` set (events db)")
    case True
    then obtain e where e: "e \<in> set (events db)" "e_key e = (queue, name)" by auto
    have "extends db d" using s(1) grows_custom(5)[of seed now queue name payload] unfolding grows_def by blast
    from extends_events[OF this e(1)] show ?thesis using e(2) by (metis event_ident_def prod.inject)
  next
    case False
    then have "d = db\<lparr>events := events db @ [\<lparr>e_queue = queue, e_name = name, e_payload = Text payload,
      e_emitted_at = Num now, e_stamp = Some (stamp seed ''event''), e_fence_at = Num now\<rparr>]\<rparr>"
      using s(1) by (simp add: emitEventCas_def)
    then show ?thesis by (simp add: e_key_def)
  qed
  then obtain e where e: "e \<in> set (events d)" "e_key e = (queue, name)" by blast
  have "extends d db'" by (rule exec_grows[OF s(2)]) (use grows_groups(2) in \<open>auto simp: list_all_iff\<close>)
  then obtain e' where "e' \<in> set (events db')" "event_ident e' = event_ident e"
    by (rule extends_events[OF _ e(1)])
  then show ?thesis using e(2) by (auto simp: event_of_def find_None_iff event_ident_def)
qed

lemma emit_error:
  assumes "inv db" "fresh seed db" "valid_clock now" "emitEvent seed now queue name payload db = (db', Inl e)"
  shows "db' = db"
proof -
  have ok: "\<exists>x. event_of (queue, nm) (events db') = Some x \<and> is_text_cell (e_payload x)"
    if b: "run_batch (emitEvent_batch seed now queue nm payload) db = (db', Inr res)" for nm res
    using emit_records[OF b] event_text[OF emitEvent_inv[OF assms(1-3) b]] by blast
  show ?thesis using assms(4) store_batch_error[OF store_batch.intros(7) inv_keys[OF assms(1)]]
    by (auto simp: emitEvent_def split: reply_splits if_splits dest: ok)
qed

lemma heartbeat_error:
  assumes "inv db" "fresh seed db" "heartbeat seed now queue rid token n db = (db', Inl e)"
  shows "db' = db"
proof (cases "durationToMs ''extendLeaseSeconds'' n True")
  case (Inr ext)
  let ?b = "heartbeat_batch seed now queue rid token ext"
  obtain d ans where b: "run_batch ?b db = (d, ans)" by (cases "run_batch ?b db")
  show ?thesis
  proof (cases "\<exists>r\<in>set (runs db). heartbeat_admits now queue rid token ext db r")
    case True
    then obtain r where "r \<in> set (runs db)" "whereClaimedRun rid queue token r" "addition_fits (Num now) ext"
      by (auto simp: heartbeat_admits_def)
    from heartbeat_held[OF assms(1) this(1,2) Inr this(3)] assms(3) show ?thesis by simp
  next
    case False
    have "db' = d" using assms(3) Inr b by (auto simp: heartbeat_def split: sum.splits)
    moreover have "d = db"
      using cas_lost_batch[OF assms(2) False _ b[unfolded heartbeat_batch_def]] by simp
    ultimately show ?thesis by simp
  qed
qed (use assms(3) in \<open>simp add: heartbeat_def\<close>)

lemma activate_error:
  assumes "inv db" "fresh seed db" "activate seed now queue rid token gen db = (db', Inl e)"
  shows "db' = db"
proof (cases "requirePositiveClaimGeneration ''activate.claimGen'' gen")
  case (Inr g)
  then have g: "g = gen" by (simp add: requirePositiveClaimGeneration_def split: if_splits)
  let ?b = "activate_batch seed now queue rid token g"
  obtain d ans where b: "run_batch ?b db = (d, ans)" by (cases "run_batch ?b db")
  have d: "db' = d" using assms(3) Inr b by (auto simp: activate_def split: reply_splits if_splits)
  show ?thesis
  proof (cases ans)
    case (Inl x)
    then show ?thesis using store_batch_error[OF store_batch.intros(3) inv_keys[OF assms(1)]] b d by simp
  next
    case res: (Inr res)
    have "\<exists>c. decodeClaimedRun token r t = Inr c" if "activatedRun seed rid d = Some (r, t)" "won res = Some ''activate''" for r t
      using activated_row[OF assms(1,2) Inr[unfolded g] b[unfolded g res] that] decode_ok[of d r t] by blast
    then show ?thesis using assms(3) Inr b res by (fastforce simp: activate_def split: reply_splits if_splits)
  qed
qed (use assms(3) in \<open>simp add: activate_def\<close>)

lemma claim_error:
  assumes "inv db" "fresh seed db" "valid_clock now" "claim seed now short queue token lease limit db = (db', Inl e)"
  shows "db' = db"
proof -
  have "db' = db" if d: "durationToMs ''leaseSeconds'' lease True = Inr ms" "claim seed now short queue token lease limit db = (db', Inl e)"
    "requirePositiveInt ''limit'' limit 1 = Inr bound" for ms bound
  proof -
    let ?n = "nat (if bound > 1 \<and> short then 1 else bound)"
    obtain d' ans where b: "run_batch (claim_batch seed now queue token ms ?n) db = (d', ans)" by force
    obtain res where res: "ans = Inr res" using claim_answers[OF inv_keys[OF assms(1)] b] by blast
    have "inv d'" using claim_inv[OF assms(1,2,3) _ _ b] durationToMs_bounds[OF d(1)] by simp
    then show ?thesis using d b res claim_receipt_decodes[of d' token queue] by (auto simp: claim_def Let_def)
  qed
  then show ?thesis using assms(4) by (auto simp: claim_def split: sum.splits)
qed

lemma await_error:
  assumes "inv db" "fresh seed db" "valid_clock now"
    "awaitEvent seed now queue task rid token step name timeout db = (db', Inl e)"
  shows "db' = db"
proof -
  have k: "keys_ok db" using assms(1) by (rule inv_keys)
  have named: "db' = db" if a: "awaitNamedEvent seed now queue task rid token step nm timeout db = (db', ans)"
    "ans = Inr None \<or> (\<exists>x. ans = Inl x)" for nm ans
  proof -
    let ?t = "case timeout of None \<Rightarrow> Inr None | Some s \<Rightarrow> map_sum id Some (durationToMs ''timeoutSeconds'' s True)"
    show ?thesis
    proof (cases ?t)
      case (Inr ms)
      let ?b = "awaitEvent_batch seed now queue task rid token step nm ms"
      obtain d ba where b: "run_batch ?b db = (d, ba)" by force
      have d: "db' = d" using a(1) Inr b by (auto simp: awaitNamedEvent_def split: reply_splits)
      show ?thesis
      proof (cases ba)
        case (Inl x)
        then show ?thesis using store_batch_error[OF store_batch.intros(8) k] b d by simp
      next
        case res: (Inr res)
        have ms: "0 \<le> x" if "ms = Some x" for x
          using Inr that by (auto split: option.splits dest: some_duration)
        have i: "inv d" using await_inv[OF assms(1-3) _ b] ms by blast
        have "is_text_cell (e_payload x)" if "emittedEvent queue nm task rid token d = Some x" for x
          using that event_text[OF i] by (auto simp: emittedEvent_def split: if_splits)
        then have "won res \<noteq> Some ''register''"
          using a Inr b res d by (auto simp: awaitNamedEvent_def split: reply_splits if_splits)
        then show ?thesis
          using store_batch_lost[OF store_batch.intros(8) k assms(2) batches_quiet(8)] b res d by simp
      qed
    qed (use a(1) in \<open>auto simp: awaitNamedEvent_def\<close>)
  qed
  then show ?thesis using assms(4)
    by (auto simp: awaitEvent_def split: reply_splits)
qed

lemma failInto_error:
  assumes "keys_ok db" "fresh seed db" "failInto operation seed now fl db = (db', Inl e)"
  shows "db' = db"
  using assms(3) store_batch_error[OF store_batch.intros(10) assms(1)]
    store_batch_lost[OF store_batch.intros(10) assms(1,2) batches_quiet(10)]
  by (auto simp: failInto_def split: reply_splits if_splits)

lemma park_errors:
  assumes "keys_ok db" "fresh seed db"
  shows "setCheckpoint seed now queue task rid token name state n db = (db', Inl e) \<Longrightarrow> db' = db"
    "deferLaunch seed now queue rid token gen delay db = (db', Inl e) \<Longrightarrow> db' = db"
    "reschedule seed now queue rid token wake db = (db', Inl e) \<Longrightarrow> db' = db"
    "suspendRun seed now queue rid token wake name state db = (db', Inl e) \<Longrightarrow> db' = db"
  using require_won_error[OF _ store_batch.intros(2) assms batches_quiet(2)]
    require_won_error[OF _ store_batch.intros(4) assms batches_quiet(4)]
    require_won_error[OF _ store_batch.intros(5) assms batches_quiet(5)]
    require_won_error[OF _ store_batch.intros(6) assms batches_quiet(6)]
  by (auto simp: setCheckpoint_def deferLaunch_def reschedule_def suspendRun_def split: sum.splits)

lemma ending_errors:
  assumes "keys_ok db" "fresh seed db"
  shows "complete seed now m queue rid token res db = (db', Inl e) \<Longrightarrow> db' = db"
    "fail seed sid now m queue rid token json delay db = (db', Inl e) \<Longrightarrow> db' = db"
    "failRollback enc dec seed sid now m queue rid token json delay tried db = (db', Inl e) \<Longrightarrow> db' = db"
  using require_won_error[OF _ store_batch.intros(9) assms batches_quiet(9)] failInto_error[OF assms]
  by (auto simp: complete_def fail_def failRollback_def Let_def split: sum.splits)

lemma unit_errors:
  assumes "keys_ok db" "fresh seed db"
  shows "cancelTask seed now queue task unless db = (db', Inl e) \<Longrightarrow> db' = db"
    "spawnOnce seed now task rid rq db = (db', Inl e) \<Longrightarrow> db' = db"
    "sweep_one seed sid now now2 queue item db = (db', Inl e) \<Longrightarrow> db' = db"
proof -
  show "cancelTask seed now queue task unless db = (db', Inl e) \<Longrightarrow> db' = db"
    using store_batch_error[OF store_batch.intros(12) assms(1)]
    by (auto simp: cancelTask_def cancelTransition_def split: reply_splits)
  show "spawnOnce seed now task rid rq db = (db', Inl e) \<Longrightarrow> db' = db"
    using store_batch_error[OF store_batch.intros(14) assms(1)]
      store_batch_lost[OF store_batch.intros(14) assms batches_quiet(14)]
    by (auto simp: spawnOnce_def split: reply_splits if_splits)
  show "sweep_one seed sid now now2 queue item db = (db', Inl e) \<Longrightarrow> db' = db"
    using store_batch_error[OF store_batch.intros(12) assms(1)]
      store_batch_error[OF store_batch.intros(11) assms(1)] lostLaunch_error[OF assms(1)]
    by (auto simp: sweep_one_def cancelTransition_def sweepLostLaunch_def sweepClaimTimeout_def
        split: reply_splits if_splits sweep_item.splits)
qed

lemma retry_error:
  assumes "inv db" "fresh seed db" "retryTask seed rid now queue task db = (db', Inl e)"
  shows "db' = db"
proof -
  let ?b = "retryTask_batch seed rid now queue task"
  obtain d ans where b: "run_batch ?b db = (d, ans)" by force
  have d: "db' = d" using assms(3) b by (auto simp: retryTask_def split: reply_splits if_splits)
  show ?thesis
  proof (cases ans)
    case (Inl x)
    then show ?thesis using store_batch_error[OF store_batch.intros(13) inv_keys[OF assms(1)]] b d by simp
  next
    case (Inr res)
    obtain ns where e: "exec_all ?b db = Inr (d, ns)"
      using b Inr by (auto simp: run_batch_def split: sum.splits)
    show ?thesis
    proof (cases "\<exists>t\<in>set (tasks db). revive_admits queue task db t")
      case True
      then obtain t where t: "t \<in> set (tasks db)" "revive_admits queue task db t" by blast
      obtain p t' where p: "d = add_run (revived_run seed rid t' p) (put_task t' db)"
        by (rule revive_exec[OF assms(1) t e])
      let ?n = "revived_run seed rid t' p"
      have "?n \<in> set (runs d)" "r_id ?n = rid \<and> r_stamp ?n = Some (stamp seed ''run'')"
        by (simp_all add: p carried_def new_run_def)
      then have "find (\<lambda>r. r_id r = rid \<and> r_stamp r = Some (stamp seed ''run'')) (runs d) \<noteq> None"
        unfolding find_None_iff by blast
      then show ?thesis using assms(3) b Inr by (auto simp: retryTask_def split: if_splits)
    qed (use retryTask_quiet[OF assms(2) _ e] d in blast)
  qed
qed

text \<open>A call of an operation that answered an error, and the database it left.\<close>

inductive raises :: "memo \<Rightarrow> db \<Rightarrow> db \<Rightarrow> exn \<Rightarrow> bool" where
  "fresh seed db \<Longrightarrow> heartbeat seed now queue rid token n db = (db', Inl e) \<Longrightarrow> raises m db db' e"
| "fresh seed db \<Longrightarrow> setCheckpoint seed now queue task rid token name state n db = (db', Inl e) \<Longrightarrow> raises m db db' e"
| "fresh seed db \<Longrightarrow> valid_clock now \<Longrightarrow> claim seed now short queue token lease limit db = (db', Inl e) \<Longrightarrow> raises m db db' e"
| "fresh seed db \<Longrightarrow> activate seed now queue rid token gen db = (db', Inl e) \<Longrightarrow> raises m db db' e"
| "fresh seed db \<Longrightarrow> deferLaunch seed now queue rid token gen delay db = (db', Inl e) \<Longrightarrow> raises m db db' e"
| "fresh seed db \<Longrightarrow> reschedule seed now queue rid token wake db = (db', Inl e) \<Longrightarrow> raises m db db' e"
| "fresh seed db \<Longrightarrow> suspendRun seed now queue rid token wake name state db = (db', Inl e) \<Longrightarrow> raises m db db' e"
| "fresh seed db \<Longrightarrow> valid_clock now \<Longrightarrow> emitEvent seed now queue name payload db = (db', Inl e) \<Longrightarrow> raises m db db' e"
| "fresh seed db \<Longrightarrow> valid_clock now \<Longrightarrow> awaitEvent seed now queue task rid token step name timeout db = (db', Inl e) \<Longrightarrow> raises m db db' e"
| "fresh seed db \<Longrightarrow> complete seed now m queue rid token res db = (db', Inl e) \<Longrightarrow> raises m db db' e"
| "fresh seed db \<Longrightarrow> fail seed sid now m queue rid token json delay db = (db', Inl e) \<Longrightarrow> raises m db db' e"
| "fresh seed db \<Longrightarrow> failRollback enc dec seed sid now m queue rid token json delay tried db = (db', Inl e) \<Longrightarrow> raises m db db' e"
| "fresh seed db \<Longrightarrow> sweep_one seed sid now now2 queue item db = (db', Inl e) \<Longrightarrow> raises m db db' e"
| "fresh seed db \<Longrightarrow> cancelTask seed now queue task unless_saga db = (db', Inl e) \<Longrightarrow> raises m db db' e"
| "fresh seed db \<Longrightarrow> retryTask seed rid now queue task db = (db', Inl e) \<Longrightarrow> raises m db db' e"
| "fresh seed db \<Longrightarrow> spawnOnce seed now task rid rq db = (db', Inl e) \<Longrightarrow> raises m db db' e"

lemma raises_unchanged: "raises m db db' e \<Longrightarrow> inv db \<Longrightarrow> db' = db"
  by (induction rule: raises.induct)
    (auto intro: heartbeat_error activate_error claim_error emit_error await_error retry_error
      park_errors unit_errors ending_errors inv_keys)

end
