(* ===== verification/Claim_Facts.thy ===== *)
theory Claim_Facts
  imports Refusals
begin

text \<open>
  What a claim answers. Under a token that holds nothing it takes exactly the runs of the scan and
  hands out each of them, claimed for the lease that was asked for, and under a token that already
  holds runs of the queue it takes nothing more and answers those again.
\<close>

section \<open>The receipt is complete\<close>

lemma receipt_complete:
  assumes "inv db" "r \<in> set (runs db)" "t \<in> set (tasks db)" "runOwnedByTask r t" "r_state r = Running"
    "durableTaskRetryAdmissible t" "durableTaskHeadersAdmissible t"
  shows "receipt_admits db r t"
proof -
  have ids: "t_id t = r_task r" using assms(4) by (simp add: runOwnedByTask_def)
  have l: "live (r_state r)" using assms(5) by simp
  note live = inv_live_run[OF assms(1,2) l assms(3) ids]
  have c: "carries t (unit_runs db (r_task r)) r" using live(2) ids by simp
  have ok: "run_ok r" using inv_run_ok[OF assms(1,2)] .
  show ?thesis
    using live(1) carries_sole[OF c] carries_highest[OF assms(1) c] c ok assms(5-7)
    by (simp add: receipt_admits_def run_ok_def carries_def)
qed

lemma in_receipt:
  assumes "inv db"
  shows "(r, t) \<in> set (claimReceipt queue token db) \<longleftrightarrow>
    r \<in> set (runs db) \<and> t \<in> set (tasks db) \<and> runOwnedByTask r t \<and> r_queue r = queue \<and>
    r_claimed_by r = Some token \<and> r_state r = Running \<and>
    durableTaskRetryAdmissible t \<and> durableTaskHeadersAdmissible t"
  using receipt_complete[OF assms] by (auto simp: claimReceipt_def receipt_admits_def)

lemma decode_run: "decodeClaimedRun token r t = Inr c \<Longrightarrow> cr_run c = r_id r \<and> cr_task c = r_task r"
  by (auto simp: decodeClaimedRun_def split: sum.splits)

lemma decode_all_runs: "decode_all token rows = Inr cs \<Longrightarrow> map cr_run cs = map (\<lambda>(r, t). r_id r) rows"
  by (induction token rows arbitrary: cs rule: decode_all.induct) (auto split: sum.splits dest: decode_run)

lemma decode_normal: "decodeClaimedRun token r t = Inr c \<Longrightarrow> normalizeRetryStrategy (strategy_value (cr_retry c)) = Inr (cr_retry c)"
  by (auto simp: decodeClaimedRun_def stored_retry_def intro!: normalize_again split: sum.splits dest: normalize_normal)

lemma decode_all_normal:
  "decode_all token rows = Inr cs \<Longrightarrow> \<forall>c\<in>set cs. normalizeRetryStrategy (strategy_value (cr_retry c)) = Inr (cr_retry c)"
  by (induction token rows arbitrary: cs rule: decode_all.induct) (auto split: sum.splits dest: decode_normal)

section \<open>A claim under a fresh token\<close>

text \<open>The claim before it decodes its receipt.\<close>

lemma claim_parts:
  assumes "claim seed now short queue token lease limit db = (db', Inr cs)"
  obtains ms bound ans where "durationToMs ''leaseSeconds'' lease True = Inr ms"
    "requirePositiveInt ''limit'' limit 1 = Inr bound"
    "run_batch (claim_batch seed now queue token ms (nat (if bound > 1 \<and> short then 1 else bound))) db = (db', ans)"
    "decode_all token (claimReceipt queue token db') = Inr cs"
  using assms by (auto simp: claim_def Let_def split: reply_splits)

lemma claim_queue:
  assumes "keyed r_id (runs db)" "r \<in> set (runs db)" "claim_admits now queue token lease limit db r"
  shows "r_queue r = queue" "live (r_state r)"
  using claim_admitsD(1)[OF assms] by (auto simp: dueRuns_def)

lemma claim_batch_shape:
  assumes "inv db" "fresh seed db" "run_batch (claim_batch seed now queue token lease limit) db = (db', ans)"
  obtains x d where
    "db' = db\<lparr>runs := map (taken_run seed now queue token lease limit db) (runs db),
      tasks := map (booked_task seed queue (taken_runs now queue token lease limit db) x d) (tasks db),
      waits := delete_where (timed_out now (taken_runs now queue token lease limit db)) (waits db)\<rparr>"
proof -
  have k: "keyed r_id (runs db)" using keys_okD(2)[OF inv_keys[OF assms(1)]] .
  obtain res where "ans = Inr res" using claim_answers[OF inv_keys[OF assms(1)] assms(3)] by blast
  then obtain ns where e: "exec_all (claim_batch seed now queue token lease limit) db = Inr (db', ns)"
    using assms(3) by (auto simp: run_batch_def split: sum.splits)
  have "\<exists>x d. db' = db\<lparr>runs := map (taken_run seed now queue token lease limit db) (runs db),
      tasks := map (booked_task seed queue (taken_runs now queue token lease limit db) x d) (tasks db),
      waits := delete_where (timed_out now (taken_runs now queue token lease limit db)) (waits db)\<rparr>"
    by (rule exec_claim[OF assms(2) k _ e]) (rule claim_queue(1)[OF k])
  then show ?thesis using that by blast
qed

lemma claimed_rows:
  assumes "inv db" "\<not> token_holds queue token db"
    "db' = db\<lparr>runs := map (taken_run seed now queue token lease limit db) (runs db),
      tasks := map (booked_task seed queue (taken_runs now queue token lease limit db) x d) (tasks db),
      waits := delete_where (timed_out now (taken_runs now queue token lease limit db)) (waits db)\<rparr>"
    "inv db'"
  shows "(\<lambda>(r, t). r_id r) ` set (claimReceipt queue token db') = r_id ` taken_runs now queue token lease limit db"
proof -
  let ?f = "taken_run seed now queue token lease limit db"
  let ?T = "taken_runs now queue token lease limit db"
  have k: "keyed r_id (runs db)" using keys_okD(2)[OF inv_keys[OF assms(1)]] .
  have rs: "runs db' = map ?f (runs db)" using assms(3) by simp
  have ts: "tasks db' = map (booked_task seed queue ?T x d) (tasks db)" using assms(3) by simp
  have docs: "durableTaskRetryAdmissible (booked_task seed queue ?T x d t) = durableTaskRetryAdmissible t"
    "durableTaskHeadersAdmissible (booked_task seed queue ?T x d t) = durableTaskHeadersAdmissible t"
    "runOwnedByTask r (booked_task seed queue ?T x d t) = runOwnedByTask r t" for t r
  proof -
    have f: "t_retry (booked_task seed queue ?T x d t) = t_retry t" "t_headers (booked_task seed queue ?T x d t) = t_headers t"
      "t_id (booked_task seed queue ?T x d t) = t_id t" "t_queue (booked_task seed queue ?T x d t) = t_queue t"
      by (simp_all add: booked_task_def stamp_task_def)
    show "durableTaskRetryAdmissible (booked_task seed queue ?T x d t) = durableTaskRetryAdmissible t"
      "durableTaskHeadersAdmissible (booked_task seed queue ?T x d t) = durableTaskHeadersAdmissible t"
      "runOwnedByTask r (booked_task seed queue ?T x d t) = runOwnedByTask r t"
      by (simp_all only: durableTaskRetryAdmissible_def durableTaskHeadersAdmissible_def runOwnedByTask_def f)
  qed
  show ?thesis
  proof (rule set_eqI, rule iffI)
    fix i assume "i \<in> (\<lambda>(r, t). r_id r) ` set (claimReceipt queue token db')"
    then obtain r t where r: "(r, t) \<in> set (claimReceipt queue token db')" "i = r_id r" by auto
    then have c: "r \<in> set (runs db')" "r_queue r = queue" "r_claimed_by r = Some token" "r_state r = Running"
      using in_receipt[OF assms(4)] by auto
    obtain r0 where r0: "r0 \<in> set (runs db)" "r = ?f r0" using c(1) rs by auto
    have "claim_admits now queue token lease limit db r0"
      using c r0 assms(2) by (auto simp: taken_run_def token_holds_def split: if_splits)
    then show "i \<in> r_id ` ?T" using r0 r(2) by (auto simp: taken_runs_def)
  next
    fix i assume "i \<in> r_id ` ?T"
    then obtain r0 where r0: "r0 \<in> set (runs db)" "claim_admits now queue token lease limit db r0" "i = r_id r0"
      by (auto simp: taken_runs_def)
    obtain t0 where t0: "t0 \<in> set (tasks db)" "runOwnedByTask r0 t0" "claimEligibility now db r0 t0"
      using claim_admitsD(2)[OF k r0(1,2)] by (auto simp: owner_such_def)
    have "(?f r0, booked_task seed queue ?T x d t0) \<in> set (claimReceipt queue token db')"
      unfolding in_receipt[OF assms(4)] docs
    proof (intro conjI)
      show "?f r0 \<in> set (runs db')" "booked_task seed queue ?T x d t0 \<in> set (tasks db')"
        using r0(1) t0(1) by (simp_all add: rs ts)
    qed (use r0(2) t0 claim_queue[OF k r0(1,2)] in
        \<open>simp_all add: taken_run_def claimEligibility_def runOwnedByTask_def\<close>)
    then show "i \<in> (\<lambda>(r, t). r_id r) ` set (claimReceipt queue token db')"
      using r0(3) by force
  qed
qed

lemma claim_takes:
  assumes "inv db" "fresh seed db" "valid_clock now" "\<not> token_holds queue token db"
    "durationToMs ''leaseSeconds'' lease True = Inr ms" "requirePositiveInt ''limit'' limit 1 = Inr bound"
    "addition_fits (Num now) ms" "claim seed now False queue token lease limit db = (db', Inr cs)"
  shows "set (map cr_run cs) = r_id ` set (claim_scan now queue (nat bound) db)"
    "r \<in> set (claim_scan now queue (nat bound) db) \<Longrightarrow>
       stamp_run seed ''claim'' (Num now) (claim_set now token ms db r) \<in> set (runs db')"
    "r \<in> set (runs db) \<Longrightarrow> r \<notin> set (claim_scan now queue (nat bound) db) \<Longrightarrow> r \<in> set (runs db')"
proof -
  let ?L = "nat bound"
  obtain ans where b: "run_batch (claim_batch seed now queue token ms ?L) db = (db', ans)"
    and dec: "decode_all token (claimReceipt queue token db') = Inr cs"
    using claim_parts[OF assms(8)] assms(5,6) by auto
  have i: "inv db'" using claim_inv[OF assms(1-3) _ _ b] durationToMs_bounds[OF assms(5)] by simp
  obtain x d where eq: "db' = db\<lparr>runs := map (taken_run seed now queue token ms ?L db) (runs db),
      tasks := map (booked_task seed queue (taken_runs now queue token ms ?L db) x d) (tasks db),
      waits := delete_where (timed_out now (taken_runs now queue token ms ?L db)) (waits db)\<rparr>"
    by (rule claim_batch_shape[OF assms(1,2) b])
  note scan = taken_scan[OF inv_keys[OF assms(1)] assms(4,7), of ?L]
  have "set (map cr_run cs) = (\<lambda>(r, t). r_id r) ` set (claimReceipt queue token db')"
    unfolding decode_all_runs[OF dec] by simp
  then show "set (map cr_run cs) = r_id ` set (claim_scan now queue ?L db)"
    using claimed_rows[OF assms(1,4) eq i] scan by simp
  have rs: "runs db' = map (taken_run seed now queue token ms ?L db) (runs db)" using eq by simp
  have iff: "claim_admits now queue token ms ?L db r = (r \<in> set (claim_scan now queue ?L db))"
    if "r \<in> set (runs db)" for r using scan that by (auto simp: taken_runs_def)
  have sub: "set (claim_scan now queue ?L db) \<subseteq> set (runs db)" using scan by (auto simp: taken_runs_def)
  show "stamp_run seed ''claim'' (Num now) (claim_set now token ms db r) \<in> set (runs db')"
    if r: "r \<in> set (claim_scan now queue ?L db)"
  proof -
    have m: "r \<in> set (runs db)" using r sub by blast
    then have "taken_run seed now queue token ms ?L db r \<in> set (runs db')" unfolding rs by simp
    then show ?thesis using iff[OF m] r by (simp add: taken_run_def)
  qed
  show "r \<in> set (runs db')" if r: "r \<in> set (runs db)" "r \<notin> set (claim_scan now queue ?L db)"
  proof -
    have "taken_run seed now queue token ms ?L db r \<in> set (runs db')" using r(1) unfolding rs by simp
    then show ?thesis using iff[OF r(1)] r(2) by (simp add: taken_run_def)
  qed
qed

section \<open>The same token again\<close>

lemma claim_same_token:
  assumes "inv db" "fresh seed db" "token_holds queue token db"
    "claim seed now short queue token lease limit db = (db', Inr cs)"
  shows "db' = db" "decode_all token (claimReceipt queue token db) = Inr cs"
proof -
  obtain ms n ans where b: "run_batch (claim_batch seed now queue token ms n) db = (db', ans)"
    and dec: "decode_all token (claimReceipt queue token db') = Inr cs"
    by (rule claim_parts[OF assms(4)]) blast
  have none: "\<not> claim_admits now queue token ms n db r" for r using assms(3) by (simp add: claim_admits_def)
  obtain res where res: "ans = Inr res" "won_count res = count_where (claim_admits now queue token ms n db) (runs db)"
    using claim_answers[OF inv_keys[OF assms(1)] b] by blast
  obtain x d where eq: "db' = db\<lparr>runs := map (taken_run seed now queue token ms n db) (runs db),
      tasks := map (booked_task seed queue (taken_runs now queue token ms n db) x d) (tasks db),
      waits := delete_where (timed_out now (taken_runs now queue token ms n db)) (waits db)\<rparr>"
    by (rule claim_batch_shape[OF assms(1,2) b])
  have "taken_runs now queue token ms n db = {}" using none by (simp add: taken_runs_def)
  then show "db' = db"
    using none eq by (simp add: taken_run_def booked_task_def timed_out_def delete_where_def cong: map_cong)
  then show "decode_all token (claimReceipt queue token db) = Inr cs" using dec by simp
qed

lemma receipt_holds:
  assumes "decode_all token (claimReceipt queue token db) = Inr cs" "cs \<noteq> []"
  shows "token_holds queue token db"
proof -
  obtain x where x: "x \<in> set (claimReceipt queue token db)" using assms by (cases "claimReceipt queue token db") auto
  obtain r t where "x = (r, t)" by (cases x)
  then have "r \<in> set (runs db)" "r_queue r = queue" "r_state r = Running" "r_claimed_by r = Some token"
    using x by (simp_all add: claimReceipt_def)
  then show ?thesis by (auto simp: token_holds_def)
qed

end
