(* ===== verification/Progress.thy ===== *)
theory Progress
  imports Claim_Facts
begin

text \<open>
  Nothing is stuck. The conditions a claim puts on a due run and the ones a sweep puts on an
  expired claim guard against corrupt rows; the invariant implies every one of them that is about
  the store's own bookkeeping, so a due run of an admissible task is claimed and an expired claim
  is acted on.
\<close>

section \<open>A due run is claimable\<close>

lemma wait_parked:
  assumes "inv db" "r \<in> set (runs db)" "w \<in> set (waits db)" "w_run w = r_id r" "w_status w = Waiting"
  shows "parked_on r w"
proof -
  obtain p where p: "p \<in> set (runs db)" "parked_on p w"
    using assms(1,3,5) by (auto simp: inv_def waits_ok_def wait_ok_def)
  then have "r_id p = r_id r" using parked_on_id assms(4) by metis
  then have "p = r" using run_table.unique[OF keys_okD(2)[OF inv_keys[OF assms(1)]] p(1) assms(2)] by simp
  then show ?thesis using p(2) by simp
qed

lemma waits_admit:
  assumes "inv db" "r \<in> set (runs db)"
  shows "r_wake_step r \<noteq> None \<or> registeredUnambiguous db r" "waitsTemporallySafe db r"
proof -
  have "r_wake_step r \<noteq> None" if "w \<in> set (waits db)" "wait_witness r w" for w
    using wait_parked[OF assms that(1)] that(2) by (auto simp: wait_witness_def parked_on_def)
  then show "r_wake_step r \<noteq> None \<or> registeredUnambiguous db r"
    by (cases "filter (wait_witness r) (waits db)") (force simp: registeredUnambiguous_def filter_eq_Cons_iff)+
  show "waitsTemporallySafe db r"
    using wait_parked[OF assms] by (auto simp: waitsTemporallySafe_def parked_on_def wait_witness_def)
qed

lemma due_claimable:
  assumes "inv db" "r \<in> set (runs db)" "r_state r = Pending \<or> r_state r = Sleeping" "runAvailableDue r now"
    "t \<in> set (tasks db)" "runOwnedByTask r t" "cancelNotDue t now" "durableTaskRetryAdmissible t"
    "durableTaskHeadersAdmissible t" "storedIncrementableClaimGeneration r"
  shows "due_eligible now (r_queue r) db r"
proof -
  have ids: "t_id t = r_task r" using assms(6) by (simp add: runOwnedByTask_def)
  have l: "live (r_state r)" using assms(3) by auto
  note live = inv_live_run[OF assms(1,2) l assms(5) ids]
  have c: "carries t (unit_runs db (r_task r)) r" using live(2) ids by simp
  have ok: "run_ok r" using inv_run_ok[OF assms(1,2)] .
  have "claimEligibility now db r t"
    unfolding claimEligibility_def eligibleTask_def
    using live(1) assms(7-10) carries_sole[OF c] carries_highest[OF assms(1) c] waits_admit[OF assms(1,2)] c ok
    by (simp add: run_ok_def carries_def)
  then show ?thesis
    using assms(3-6) by (auto simp: due_eligible_def dueRuns_def owner_such_def)
qed

lemma scan_all:
  assumes "due_eligible now queue db r" "r \<in> set (runs db)" "length (filter (due_eligible now queue db) (runs db)) \<le> limit"
  shows "r \<in> set (claim_scan now queue limit db)"
  using assms by (simp add: claim_scan_def)

lemma claim_total:
  assumes "inv db" "fresh seed db" "valid_clock now" "durationToMs ''leaseSeconds'' lease True = Inr ms"
    "requirePositiveInt ''limit'' limit 1 = Inr bound"
  shows "\<exists>db' cs. claim seed now short queue token lease limit db = (db', Inr cs)"
proof -
  obtain db' a where c: "claim seed now short queue token lease limit db = (db', a)" by force
  show ?thesis
  proof (cases a)
    case (Inl e)
    obtain d' ans where b: "run_batch (claim_batch seed now queue token ms (nat (if bound > 1 \<and> short then 1 else bound))) db = (d', ans)"
      by force
    obtain res where res: "ans = Inr res" using claim_answers[OF inv_keys[OF assms(1)] b] by blast
    have "inv d'" using claim_inv[OF assms(1-3) _ _ b] durationToMs_bounds[OF assms(4)] by simp
    then show ?thesis using c assms(4,5) b res claim_receipt_decodes[of d' token queue] by (auto simp: claim_def Let_def)
  qed (use c in blast)
qed

lemma due_claimed:
  assumes "inv db" "fresh seed db" "valid_clock now" "\<not> token_holds queue token db"
    "durationToMs ''leaseSeconds'' lease True = Inr ms" "requirePositiveInt ''limit'' limit 1 = Inr bound"
    "addition_fits (Num now) ms" "r \<in> set (runs db)" "due_eligible now queue db r"
    "length (filter (due_eligible now queue db) (runs db)) \<le> nat bound"
  shows "\<exists>db' cs. claim seed now False queue token lease limit db = (db', Inr cs) \<and> r_id r \<in> set (map cr_run cs)"
proof -
  obtain db' cs where c: "claim seed now False queue token lease limit db = (db', Inr cs)"
    using claim_total[OF assms(1-3,5,6)] by blast
  have "r \<in> set (claim_scan now queue (nat bound) db)" by (rule scan_all[OF assms(9,8,10)])
  then show ?thesis using claim_takes(1)[OF assms(1-7) c] c by auto
qed

section \<open>An expired claim is acted on\<close>

lemma expired_admissible:
  assumes "inv db" "r \<in> set (runs db)" "r_state r = Running"
  obtains t where "t \<in> set (tasks db)" "runOwnedByTask r t" "live (t_state t)" "sweepLiveOwnerAdmissible db r t"
proof -
  obtain t where t: "t \<in> set (tasks db)" "t_id t = r_task r" "t_queue t = r_queue r"
    by (rule inv_owner[OF assms(1,2)])
  have l: "live (r_state r)" using assms(3) by simp
  note live = inv_live_run[OF assms(1,2) l t(1,2)]
  have c: "carries t (unit_runs db (r_task r)) r" using live(2) t(2) by simp
  have ok: "run_ok r" using inv_run_ok[OF assms(1,2)] .
  have acc: "storedCurrentRunAccounting r t" using c by (simp add: carries_def)
  obtain g h where gen: "r_claim_gen r = Num g" "r_activated_gen r = Num h" "h \<le> g"
    using ok by (auto simp: run_ok_def stored_within_iff)
  have "launch_lost r \<or> activated r"
    using gen by (auto simp: launch_lost_def activated_def)
  moreover have "cell_is (t_infra t) INFRA_RETRY_CAP \<or>
      (incrementable run_attempt_bounds (r_attempt r) \<and>
       r_attempt r = cell_plus (cell_plus (t_attempts t) (t_infra t)) (Num 1))"
    using accountingD[OF acc] acc
    by (auto simp: incrementable_iff run_attempt_bounds_def MAX_RUN_ORDINAL_def storedCurrentRunAccounting_def)
  ultimately have "sweepLiveOwnerAdmissible db r t"
    using carries_sole[OF c] carries_highest[OF assms(1) c] acc ok assms(3)
    unfolding sweepLiveOwnerAdmissible_def storedSweepCounters_def storedSweepGenerations_def
    by (auto simp: run_ok_def)
  then show ?thesis using that t live(1) by (simp add: runOwnedByTask_def)
qed

lemma expired_scanned:
  assumes "inv db" "r \<in> set (runs db)" "r_state r = Running" "runClaimExpired r now"
    "length (filter (\<lambda>(r, t). r_queue r = queue \<and> r_state r = Running \<and> runClaimExpired r now \<and>
        sweepScanAdmissible db r t) (joined db)) \<le> limit" "r_queue r = queue"
  shows "r \<in> set (expiredClaims now queue limit db)"
proof -
  obtain t where t: "t \<in> set (tasks db)" "runOwnedByTask r t" "live (t_state t)" "sweepLiveOwnerAdmissible db r t"
    by (rule expired_admissible[OF assms(1-3)])
  let ?xs = "filter (\<lambda>(r, t). r_queue r = queue \<and> r_state r = Running \<and> runClaimExpired r now \<and>
        sweepScanAdmissible db r t) (joined db)"
  have "(r, t) \<in> set ?xs" using assms(2-4,6) t by (simp add: sweepScanAdmissible_def)
  then have "r \<in> fst ` set ?xs" by force
  then show ?thesis using assms(5) by (simp add: expiredClaims_def)
qed

text \<open>What the item's batch asks of the run, and that it is so.\<close>

definition item_admitted :: "instant \<Rightarrow> string \<Rightarrow> db \<Rightarrow> run \<Rightarrow> sweep_item \<Rightarrow> bool" where
  "item_admitted now queue db r item =
     (case item of
        CancelItem _ _ \<Rightarrow> False
      | LostLaunchItem rid task gen n \<Rightarrow>
          rid = r_id r \<and> task = r_task r \<and>
          (reopen_admits now queue rid gen db r \<or> cap_admits now queue rid gen db r)
      | ClaimTimeoutItem rid task gen \<Rightarrow>
          rid = r_id r \<and> task = r_task r \<and> timeout_admits now queue rid gen db r)"

lemma relaunch_delay_bounds:
  assumes "stored_within relaunch_count_bounds (r_relaunch r)"
  shows "5000 \<le> relaunchDelayMs r" "relaunchDelayMs r \<le> 60000"
  using assms by (auto simp: relaunchDelayMs_def stored_within_iff bounds_defs const_defs)

lemma running_item:
  assumes "inv db" "r \<in> set (runs db)" "r_state r = Running"
  shows "\<exists>item. expired_item r = Inr item"
proof -
  obtain g h n where "r_claim_gen r = Num g" "r_activated_gen r = Num h" "1 \<le> g" "g \<le> MAX_COUNT"
    "0 \<le> h" "h \<le> MAX_COUNT" "r_relaunch r = Num n" "0 \<le> n" "n \<le> RELAUNCH_CAP"
    using inv_run_ok[OF assms(1,2)] assms(3)
    by (auto simp: run_ok_def storedPositiveClaimGeneration_def stored_within_iff bounds_defs)
  then show ?thesis by (simp add: expired_item_def persisted_integer_def bounds_defs)
qed

lemma expired_acted:
  assumes "inv db" "r \<in> set (runs db)" "r_state r = Running" "runClaimExpired r now"
    "0 \<le> now" "now + 60000 \<le> MAX_EPOCH_MS"
  shows "\<exists>item. expired_item r = Inr item \<and> item_admitted now (r_queue r) db r item"
proof -
  obtain t where t: "t \<in> set (tasks db)" "runOwnedByTask r t" "live (t_state t)" "sweepLiveOwnerAdmissible db r t"
    by (rule expired_admissible[OF assms(1-3)])
  have ok: "run_ok r" using inv_run_ok[OF assms(1,2)] .
  have own: "live_owner db r" using t by (auto simp: live_owner_def owner_such_def)
  obtain g h n where gen: "r_claim_gen r = Num g" "r_activated_gen r = Num h" "h \<le> g" "1 \<le> g" "g \<le> MAX_COUNT"
    "0 \<le> h" "h \<le> MAX_COUNT" "r_relaunch r = Num n" "0 \<le> n" "n \<le> RELAUNCH_CAP"
    using ok assms(3) by (auto simp: run_ok_def storedPositiveClaimGeneration_def stored_within_iff bounds_defs)
  have delay: "addition_fits (Num now) (relaunchDelayMs r)"
    using relaunch_delay_bounds[of r] ok assms(5,6) by (simp add: run_ok_def)
  have claim: "whereSweptClaim (r_id r) (r_queue r) g r" using assms(3) gen(1) by (simp add: whereSweptClaim_def)
  show ?thesis
  proof (cases "h < g")
    case True
    have "reopen_admits now (r_queue r) (r_id r) g db r \<or> cap_admits now (r_queue r) (r_id r) g db r"
      using claim True gen assms(4) own delay
      by (cases "n < RELAUNCH_CAP") (auto simp: reopen_admits_def cap_admits_def launch_lost_def)
    then show ?thesis
      using True gen by (simp add: expired_item_def persisted_integer_def bounds_defs item_admitted_def)
  next
    case False
    have act: "activated r" using False gen by (simp add: activated_def)
    have fits: "addition_fits (Num now) (INFRA_BACKOFF_SECONDS * 1000)"
      using assms(5,6) by (simp add: INFRA_BACKOFF_SECONDS_def)
    have "timeout_admits now (r_queue r) (r_id r) g db r"
      unfolding timeout_admits_def owner_such_def using claim act assms(4) t fits by blast
    then show ?thesis
      using False gen by (simp add: expired_item_def persisted_integer_def bounds_defs item_admitted_def)
  qed
qed

section \<open>And is released\<close>

text \<open>Statements that start no run: a running row of the result was running before.\<close>

definition unclaims :: "stmt \<Rightarrow> bool" where
  "unclaims s =
     (\<forall>db db' n r'. s_exec s db = Inr (db', n) \<and> r' \<in> set (runs db') \<and> r_state r' = Running \<longrightarrow>
        (\<exists>r\<in>set (runs db). r_id r = r_id r' \<and> r_state r = Running))"

lemma unclaims_same: "(\<And>db db' n. s_exec s db = Inr (db', n) \<Longrightarrow> runs db' = runs db) \<Longrightarrow> unclaims s"
  by (auto simp: unclaims_def)

lemma unclaims_other [simp]:
  "unclaims (runs_to_tasks seed2 name fence q w g nar rows)" "unclaims (runs_to_waits seed2 name fence w2 nar2)"
  "unclaims (taskDoneEventInsert seed2 queue task terminal res)"
  "unclaims (checkpointWrite seed2 name fence rid cname state)"
  by (rule unclaims_same; auto simp: runs_to_tasks_def runs_to_waits_def taskDoneEventInsert_def
      checkpointWrite_def upd_tasks_def del_waits_def Let_def split: list.splits)+

lemma unclaims_upd:
  "(\<And>r. r_id (f r) = r_id r) \<Longrightarrow> (\<And>r. r_state (f r) = Running \<Longrightarrow> r_state r = Running) \<Longrightarrow>
     r' \<in> set (update_where p f xs) \<Longrightarrow> r_state r' = Running \<Longrightarrow> \<exists>r\<in>set xs. r_id r = r_id r' \<and> r_state r = Running"
  by (auto simp: set_update_where split: if_splits)

lemma wake_idle: "r_id (wake_set seed ev db r) = r_id r" "r_state (wake_set seed ev db r) = Running \<Longrightarrow> r_state r = Running"
  by (auto simp: wake_set_def split: option.splits)

lemma unclaims_runs [simp]:
  "(\<And>db r. r_id (g db r) = r_id r) \<Longrightarrow> (\<And>db r. r_state (g db r) \<noteq> Running) \<Longrightarrow> unclaims (cas_runs seed now name p g)"
  "unclaims (wakeRunsUpdate seed queue ev)" "unclaims (seal_runs seed name fence w)"
  unfolding unclaims_def
  by (auto simp: cas_runs_def wakeRunsUpdate_def seal_runs_def upd_runs_def wake_idle Let_def
      dest!: unclaims_upd[rotated 2] dest: wake_idle(2))

lemma unclaims_insert [simp]:
  "st \<noteq> Running \<Longrightarrow> unclaims (failureSuccessor seed name fence sid rid st delay adm)"
  by (auto simp: unclaims_def failureSuccessor_def ins_run_def successor_run_def new_run_def carried_def
      split: list.splits prod.splits if_splits)

lemma unclaims_groups [simp]:
  "s \<in> set (taskDone seed queue task terminal res) \<Longrightarrow> unclaims s" "unclaims (waitsGone seed rid fence)"
  "s \<in> set (sagaPass seed queue rid passId fence entering delay adm) \<Longrightarrow> unclaims s"
  by (auto simp: taskDone_def wakeWaiters_def waitsGone_def sagaPass_def queued_state_def split: option.splits if_splits)

lemma exec_unclaims:
  assumes "exec_all ss db = Inr (db', ns)" "\<forall>s\<in>set ss. unclaims s" "r' \<in> set (runs db')" "r_state r' = Running"
  shows "\<exists>r\<in>set (runs db). r_id r = r_id r' \<and> r_state r = Running"
  using assms
proof (induction ss arbitrary: db ns)
  case (Cons s ss)
  obtain d n ms where e: "s_exec s db = Inr (d, n)" "exec_all ss d = Inr (db', ms)"
    using exec_cons[OF Cons.prems(1)] .
  obtain x where "x \<in> set (runs d)" "r_id x = r_id r'" "r_state x = Running"
    using Cons.IH[OF e(2)] Cons.prems(2-4) by auto
  then show ?case using Cons.prems(2) e(1) by (force simp: unclaims_def)
qed auto

lemma released_rest:
  assumes "keys_ok db" "r \<in> set (runs db)" "r_id c = r_id r" "r_state c \<noteq> Running"
    "exec_all ss (put_run c db) = Inr (db', ns)" "\<forall>s\<in>set ss. unclaims s"
  shows "\<forall>r'\<in>set (runs db'). r_id r' = r_id r \<longrightarrow> r_state r' \<noteq> Running"
proof (intro ballI impI notI)
  fix r' assume r': "r' \<in> set (runs db')" "r_id r' = r_id r" "r_state r' = Running"
  obtain x where x: "x \<in> set (runs (put_run c db))" "r_id x = r_id r'" "r_state x = Running"
    using exec_unclaims[OF assms(5,6) r'(1,3)] by blast
  have "x = c" using x(1,2) r'(2) assms(3) by (auto simp: in_put_run)
  then show False using x(3) assms(4) by simp
qed

lemma swept_released:
  assumes "inv db" "r \<in> set (runs db)" "item_admitted now (r_queue r) db r item"
    "sweep_one seed sid now now (r_queue r) item db = (db', ans)"
  shows "(\<exists>e. ans = Inl e) \<or> (\<forall>r'\<in>set (runs db'). r_id r' = r_id r \<longrightarrow> r_state r' \<noteq> Running)"
proof -
  note k = inv_keys[OF assms(1)]
  show ?thesis
  proof (cases item)
  case (LostLaunchItem rid task gen n)
  let ?reopen = "reopen_admits now (r_queue r) rid gen" and ?cap = "cap_admits now (r_queue r) rid gen"
  let ?rest = "tl (tl (lostLaunch_batch seed sid now now (r_queue r) task rid gen))"
  let ?c = "cas_runs seed now ''cap'' ?cap (fail_set now REASON_RELAUNCH_CAP)"
  have a: "rid = r_id r" "?reopen db r \<or> ?cap db r" using assms(3) LostLaunchItem by (auto simp: item_admitted_def)
  have ids: "?reopen db s \<Longrightarrow> r_id s = rid" "?cap db s \<Longrightarrow> r_id s = rid" for db s
    by (simp_all add: reopen_admits_def cap_admits_def whereSweptClaim_def)
  have fail_id: "r_id (fail_set now REASON_RELAUNCH_CAP db s) = r_id s" for db s by (simp add: fail_set_def)
  have quiet: "\<forall>s\<in>set (?c # ?rest). unclaims s" by (auto simp: lostLaunch_batch_def fail_set_def)
  show ?thesis
  proof (cases "snd (run_batch (lostLaunch_batch seed sid now now (r_queue r) task rid gen) db)")
    case (Inr res)
    obtain ns where e: "exec_all (cas_runs seed now ''reopen'' ?reopen (reopen_set now) # ?c # ?rest) db = Inr (db', ns)"
      using Inr assms(4) LostLaunchItem
      by (auto simp: sweep_one_def sweepLostLaunch_def run_batch_def lostLaunch_batch_def split: sum.splits prod.splits)
    show ?thesis
    proof (cases "?reopen db r")
      case True
      obtain ms where "exec_all (?c # ?rest) (put_run (stamp_run seed ''reopen'' (Num now) (reopen_set now db r)) db) = Inr (db', ms)"
        using cas_exec_won[OF k assms(2), where p = ?reopen and f = "reopen_set now", OF True ids(1)[of db] reopen_fields(1) e] by blast
      from released_rest[OF k assms(2) _ _ this quiet] show ?thesis by simp
    next
      case False
      have "\<not> (\<exists>s\<in>set (runs db). ?reopen db s)"
      proof
        assume "\<exists>s\<in>set (runs db). ?reopen db s"
        then obtain s where "s \<in> set (runs db)" "?reopen db s" by blast
        then show False using False a(1) run_table.unique[OF keys_okD(2)[OF inv_keys[OF assms(1)]] _ assms(2)]
          by (force simp: reopen_admits_def whereSweptClaim_def)
      qed
      from cas_exec_lost[where p = ?reopen, OF this e]
      obtain ms where m: "exec_all (?c # ?rest) db = Inr (db', ms)" by blast
      obtain ks where "exec_all ?rest (put_run (stamp_run seed ''cap'' (Num now) (fail_set now REASON_RELAUNCH_CAP db r)) db) = Inr (db', ks)"
        using cas_exec_won[OF k assms(2), where p = ?cap and f = "fail_set now REASON_RELAUNCH_CAP", OF _ ids(2)[of db] fail_id m] a(2) False
        by blast
      from released_rest[OF k assms(2) _ _ this] show ?thesis using quiet by (simp add: fail_set_def)
    qed
  qed (use assms(4) LostLaunchItem in \<open>auto simp: sweep_one_def sweepLostLaunch_def split: sum.splits prod.splits\<close>)
next
  case (ClaimTimeoutItem rid task gen)
  let ?p = "timeout_admits now (r_queue r) rid gen"
  let ?rest = "tl (claimTimeout_batch seed sid now (r_queue r) task rid gen)"
  have a: "rid = r_id r" "?p db r" using assms(3) ClaimTimeoutItem by (auto simp: item_admitted_def)
  have ids: "?p db s \<Longrightarrow> r_id s = rid" for db s by (simp add: timeout_admits_def whereSweptClaim_def)
  have timeout_id: "r_id (timeout_set now db s) = r_id s" for db s by (simp add: timeout_set_def)
  have quiet: "\<forall>s\<in>set ?rest. unclaims s" by (auto simp: claimTimeout_batch_def)
  show ?thesis
  proof (cases "snd (run_batch (claimTimeout_batch seed sid now (r_queue r) task rid gen) db)")
    case (Inr res)
    obtain ns where e: "exec_all (cas_runs seed now ''fail'' ?p (timeout_set now) # ?rest) db = Inr (db', ns)"
      using Inr assms(4) ClaimTimeoutItem
      by (auto simp: sweep_one_def sweepClaimTimeout_def run_batch_def claimTimeout_batch_def split: sum.splits prod.splits)
    obtain ms where "exec_all ?rest (put_run (stamp_run seed ''fail'' (Num now) (timeout_set now db r)) db) = Inr (db', ms)"
      using cas_exec_won[OF k assms(2), where p = ?p and f = "timeout_set now", OF a(2) ids[of db] timeout_id e] by blast
    from released_rest[OF k assms(2) _ _ this quiet] show ?thesis by (simp add: timeout_set_def)
  qed (use assms(4) ClaimTimeoutItem in \<open>auto simp: sweep_one_def sweepClaimTimeout_def split: sum.splits prod.splits\<close>)
qed (use assms(3) in \<open>simp add: item_admitted_def\<close>)
qed

end
