(* ===== verification/Outcomes.thy ===== *)
theory Outcomes
  imports Refusals
begin

text \<open>
  What a terminal batch leaves: the run and the task it ended, as every later reader finds them.
  The statements behind a batch's own rows never touch a run that ended, so what a compare-and-set
  wrote of it is what the batch leaves.
\<close>

section \<open>Statements that leave ended runs alone\<close>

definition spares :: "string \<Rightarrow> stmt \<Rightarrow> bool" where
  "spares seed s =
     (\<forall>db db' n r. keys_ok db \<and> s_exec s db = Inr (db', n) \<and> r \<in> set (runs db) \<and> \<not> live (r_state r) \<and>
        r_stamp r \<noteq> Some (stamp seed ''wake-runs'') \<longrightarrow> r \<in> set (runs db'))"

lemma spares_other [simp]:
  "spares seed (runs_to_tasks seed2 name fence q w g nar rows)"
  "spares seed (runs_to_waits seed2 name fence w2 nar2)"
  "spares seed (taskDoneEventInsert seed2 queue task terminal res)"
  "spares seed (checkpointWrite seed2 name fence rid cname state)"
  by (auto simp: spares_def runs_to_tasks_def runs_to_waits_def taskDoneEventInsert_def checkpointWrite_def
      upd_tasks_def del_waits_def Let_def split: list.splits)

lemma spares_insert [simp]: "spares seed (failureSuccessor seed2 name fence sid rid st delay adm)"
  by (auto simp: spares_def failureSuccessor_def ins_run_def split: list.splits prod.splits if_splits)

lemma kept_row:
  assumes "\<not> p r" "r \<in> set xs"
  shows "r \<in> set (update_where p f xs)"
  using assms by (auto simp: set_update_where)

lemma spares_wake [simp]: "spares seed (wakeRunsUpdate seed2 queue name)"
  by (auto simp: spares_def wakeRunsUpdate_def upd_runs_def wake_admits_def intro!: kept_row)

lemma spares_seal [simp]:
  assumes "\<And>f. w f \<Longrightarrow> live (r_state f)"
  shows "spares seed (seal_runs seed2 name fence w)"
  unfolding spares_def
proof (intro allI impI, elim conjE)
  fix db db' n r
  assume k: "keys_ok db" and e: "s_exec (seal_runs seed2 name fence w) db = Inr (db', n)"
    and r: "r \<in> set (runs db)" "\<not> live (r_state r)"
  have no: "\<not> (\<exists>f\<in>set (stamped_runs seed2 fence w db). r_id r = r_id f)"
  proof
    assume "\<exists>f\<in>set (stamped_runs seed2 fence w db). r_id r = r_id f"
    then obtain f where f: "f \<in> set (runs db)" "live (r_state f)" "r_id r = r_id f"
      using assms by (auto simp: stamped_runs_def)
    then show False using run_table.unique[OF keys_okD(2)[OF k] r(1) f(1)] r(2) by simp
  qed
  have "db' = db\<lparr>runs := update_where (\<lambda>r. \<exists>f\<in>set (stamped_runs seed2 fence w db). r_id r = r_id f)
      (stamp_run seed2 name (sql_min (map r_fence_at (stamped_runs seed2 fence w db)))) (runs db)\<rparr>"
    using e by (simp add: seal_runs_def upd_runs_def Let_def)
  then show "r \<in> set (runs db')" using no r(1) by (simp add: set_update_where)
qed

lemma spares_wakes [simp]: "s \<in> set (wakeWaiters seed queue name wg) \<Longrightarrow> spares seed s"
proof -
  have "spares seed (seal_runs seed ''wake-finished'' ''wake-runs'' (\<lambda>f. r_queue f = queue \<and> woken name f))"
    by (rule spares_seal) (simp add: woken_def)
  then show "s \<in> set (wakeWaiters seed queue name wg) \<Longrightarrow> spares seed s" by (auto simp: wakeWaiters_def)
qed

lemma spares_groups [simp]:
  "s \<in> set (taskDone seed queue task terminal res) \<Longrightarrow> spares seed s"
  "spares seed (waitsGone seed rid fence)"
  by (auto simp: taskDone_def waitsGone_def)

lemma exec_spares:
  assumes "exec_all ss db = Inr (db', ns)" "keys_ok db" "\<forall>s\<in>set ss. spares seed s \<and> bounded s"
    "r \<in> set (runs db)" "\<not> live (r_state r)" "r_stamp r \<noteq> Some (stamp seed ''wake-runs'')"
  shows "r \<in> set (runs db')"
  using assms
proof (induction ss arbitrary: db ns)
  case (Cons s ss)
  obtain d n ms where e: "s_exec s db = Inr (d, n)" "exec_all ss d = Inr (db', ms)"
    using exec_cons[OF Cons.prems(1)] .
  have "r \<in> set (runs d)" using Cons.prems e(1) by (auto simp: spares_def)
  moreover have "keys_ok d" using Cons.prems(2,3) e(1) by (auto simp: bounded_def)
  ultimately show ?case using Cons.IH[OF e(2)] Cons.prems(3,5,6) by simp
qed simp

section \<open>Completion\<close>

lemma complete_won:
  assumes "inv db" "fresh seed db" "complete seed now m queue rid token res db = (db', Inr ())"
  obtains r task ns where "r \<in> set (runs db)" "complete_admits queue rid token db r"
    "endingTask m ''complete'' queue rid db = Inr task"
    "exec_all (tl (complete_batch seed now queue task rid token res))
       (put_run (stamp_run seed ''complete'' (Num now) (complete_set now res db r)) db) = Inr (db', ns)"
proof -
  obtain task where task: "endingTask m ''complete'' queue rid db = Inr task"
    "require_won ''complete'' rid ''complete'' (run_batch (complete_batch seed now queue task rid token res) db) = (db', Inr ())"
    using assms(3) by (auto simp: complete_def split: sum.splits)
  then obtain r2 where b: "run_batch (complete_batch seed now queue task rid token res) db = (db', Inr r2)"
    "won r2 = Some ''complete''" using require_won_Inr by blast
  let ?ss = "tl (complete_batch seed now queue task rid token res)"
  have shape: "run_batch (cas_runs seed now ''complete'' (complete_admits queue rid token) (complete_set now res) # ?ss) db =
      (db', Inr r2)"
    using b(1) by (simp add: complete_batch_def)
  have quiet: "\<forall>s\<in>set ?ss. s_kind s = FollowOn \<and> loses_quietly seed s"
    by (auto simp: complete_batch_def)
  show ?thesis
  proof (rule cas_batch_cases[OF shape inv_keys[OF assms(1)] assms(2) quiet, of rid])
    fix r ns assume "r \<in> set (runs db)" "complete_admits queue rid token db r"
      "exec_all ?ss (put_run (stamp_run seed ''complete'' (Num now) (complete_set now res db r)) db) = Inr (db', ns)"
    then show thesis using that task(1) by blast
  qed (use b(2) in \<open>auto simp: complete_admits_def whereClaimedRun_def complete_set_def\<close>)
qed

lemma complete_settles:
  assumes "inv db" "fresh seed db" "valid_clock now" "memo_ok m db"
    "complete seed now m queue rid token res db = (db', Inr ())"
  obtains r t where "r \<in> set (runs db)" "whereClaimedRun rid queue token r"
    "stamp_run seed ''complete'' (Num now) (complete_set now res db r) \<in> set (runs db')"
    "t \<in> set (tasks db')" "t_id t = r_task r" "t_queue t = queue" "t_state t = Completed" "t_completed t = Some res"
proof -
  obtain r task ns where r: "r \<in> set (runs db)" "complete_admits queue rid token db r"
    and task: "endingTask m ''complete'' queue rid db = Inr task"
    and e: "exec_all (tl (complete_batch seed now queue task rid token res))
       (put_run (stamp_run seed ''complete'' (Num now) (complete_set now res db r)) db) = Inr (db', ns)"
    by (rule complete_won[OF assms(1,2,5)])
  let ?r = "stamp_run seed ''complete'' (Num now) (complete_set now res db r)"
  let ?d = "put_run ?r db"
  have c: "whereClaimedRun rid queue token r" using r(2) by (simp add: complete_admits_def)
  then have id: "r_id r = rid" "r_queue r = queue" by (simp_all add: whereClaimedRun_def)
  obtain t where t: "t \<in> set (tasks db)" "runOwnedByTask r t" "t_state t = Running"
    by (rule holder[OF assms(1) r(1) c])
  let ?t = "stamp_task seed ''task'' (Num now) (t\<lparr>t_state := Completed, t_completed := Some res, t_cancel_at := Null\<rparr>)"
  have k: "keys_ok ?d" by (rule keys_put_run[OF inv_keys[OF assms(1)] r(1)]) (simp_all add: complete_set_def)
  have rd: "?r \<in> set (runs ?d)" using r(1) by (auto simp: in_put_run complete_set_def)
  have src: "stamped_runs seed ''complete'' (\<lambda>f. r_id f = rid \<and> r_queue f = queue) ?d = [?r]"
    by (rule stamped_run_one[OF keys_okD(2)[OF k] rd]) (use id in \<open>auto simp: complete_set_def\<close>)
  have s1: "s_exec (hd (tl (complete_batch seed now queue task rid token res))) ?d = Inr (put_task ?t ?d, 1)"
    unfolding complete_batch_def append_Cons list.sel
    using runs_to_tasks_one[OF keys_okD(1)[OF k] _ src, of t]
      t id by (simp add: runOwnedByTask_def complete_set_def)
  let ?rest = "tl (tl (complete_batch seed now queue task rid token res))"
  have "tl (complete_batch seed now queue task rid token res) = hd (tl (complete_batch seed now queue task rid token res)) # ?rest"
    by (simp add: complete_batch_def)
  then obtain ms where m: "exec_all ?rest (put_task ?t ?d) = Inr (db', ms)" using exec_step[OF s1] e by metis
  have b: "list_all bounded (complete_batch seed now queue task rid token res)" by (rule ending_batches_bounded)
  have k2: "keys_ok (put_task ?t ?d)" using k by (simp add: keys_ok_def)
  have "?r \<in> set (runs db')"
    by (rule exec_spares[OF m k2, of seed])
      (use rd b in \<open>auto simp: complete_batch_def list_all_iff complete_set_def\<close>)
  moreover have "?t \<in> set (tasks db')"
  proof -
    have "?t \<in> set (tasks (put_task ?t ?d))" using t(1) by (auto simp: in_put_task)
    moreover have "extends (put_task ?t ?d) db'"
      by (rule exec_grows[OF m]) (use batches_grow(10)[of seed now queue task rid token res] in \<open>auto simp: complete_batch_def list_all_iff\<close>)
    ultimately show ?thesis by (simp add: extends_def settled_def)
  qed
  ultimately show ?thesis
    by (rule that[OF r(1) c]) (use t(2) id in \<open>simp_all add: runOwnedByTask_def\<close>)
qed

text \<open>A completed task's result, as \<open>getTaskResult\<close> reads it.\<close>

lemma completed_result:
  assumes "inv db" "t \<in> set (tasks db)" "t_state t = Completed"
  shows "\<exists>rollback. getTaskResult (t_queue t) (t_id t) db =
    Inr (Some (\<lparr>o_state = Completed, o_completed = t_completed t, o_failure = None\<rparr>, rollback))"
proof -
  have u: "unit_ok t (unit_runs db (t_id t)) (event_keys db)" by (rule inv_unit[OF assms(1,2)])
  then have ok: "outcome_ok t" by (simp add: unit_ok_def)
  obtain u where u: "find (\<lambda>x. t_id x = t_id t \<and> t_queue x = t_queue t) (tasks db) = Some u"
    using assms(2) by (cases "find (\<lambda>x. t_id x = t_id t \<and> t_queue x = t_queue t) (tasks db)") (auto simp: find_None_iff)
  then have "u \<in> set (tasks db)" "t_id u = t_id t" by (auto simp: find_Some_iff)
  then have "u = t" using task_table.unique[OF keys_okD(1)[OF inv_keys[OF assms(1)]] _ assms(2)] by simp
  moreover have "t_failure t = None" using ok assms(3) by (auto simp: outcome_ok_def)
  moreover have "decodeTaskResult t = Inr (task_outcome t)" using ok by (simp add: decodeTaskResult_def contradictions_none)
  ultimately show ?thesis using u assms(3) by (simp add: getTaskResult_def task_outcome_def)
qed

end
