(* ===== verification/Unit_Facts.thy ===== *)
theory Unit_Facts
  imports Outcomes
begin

text \<open>
  What the operations on a whole task do: a spawn under an idempotency key happens once however
  often it is sent, a revival charges one attempt and places the next run, a cancellation ends the
  task and every live run of it, and a failure or an expired claim books its successor.
\<close>

section \<open>Spawn\<close>

lemma spawn_created:
  assumes "spawnOnce seed now task rid rq db = (db', Inr (Some a))" "sr_created a" "keys_ok db"
  shows "sr_task a = task" "spawned_task seed now task rq \<in> set (tasks db')" "sr_run a = Some rid"
proof -
  obtain res where b: "run_batch (spawn_batch seed now task rid rq) db = (db', Inr res)" "won res = Some ''task''"
    "a = \<lparr>sr_task = task, sr_run = Some rid, sr_created = True\<rparr>"
    using assms(1,2) by (auto simp: spawnOnce_def split: reply_splits if_splits)
  then show "sr_task a = task" "sr_run a = Some rid" by simp_all
  from single_cas[OF b(1)[unfolded spawn_batch_def] assms(3)] ending_batches_bounded(6)[of seed now task rid rq]
  obtain n ms where e: "exec_all (spawn_batch seed now task rid rq) db = Inr (db', n # ms)" "n \<noteq> 0"
    using b(2) by (auto simp: spawn_batch_def spawnTaskCas_def split: if_splits)
  then obtain d2 where s: "s_exec (spawnTaskCas seed now task rq) db = Inr (d2, n)"
    "exec_all [spawnRunInsert seed rid task] d2 = Inr (db', ms)"
    using exec_cons unfolding spawn_batch_def by (metis list.inject)
  have "d2 = db\<lparr>tasks := tasks db @ [spawned_task seed now task rq]\<rparr>"
    using s(1) e(2) by (auto simp: spawnTaskCas_def split: if_splits)
  moreover have "tasks db' = tasks d2"
    using s(2) by (auto simp: spawnRunInsert_def ins_run_def split: sum.splits list.splits if_splits)
  ultimately show "spawned_task seed now task rq \<in> set (tasks db')" by simp
qed

text \<open>The receipt finds the holder of the key, whatever else is there.\<close>

lemma receipt_of_key:
  assumes "inv db" "t \<in> set (tasks db)" "t_queue t = sp_queue rq" "t_idem t = sp_key rq" "sp_key rq \<noteq> None"
  shows "\<exists>r. spawnReceipt task rq db = Some (t_id t, r)"
proof -
  let ?k = "\<lambda>t. ((if t_id t = task then (1::nat) else 0), t_id t)"
  let ?xs = "filter (spawn_winner task rq) (tasks db)"
  have k: "keyed t_id (tasks db)" using keys_okD(1)[OF inv_keys[OF assms(1)]] .
  have idem: "u = t" if "u \<in> set (tasks db)" "t_queue u = sp_queue rq" "t_idem u = sp_key rq" for u
    using assms that by (auto simp: inv_def rows_ok_def idem_unique_def)
  have mem: "t \<in> set (sort_key ?k ?xs)" using assms(2-5) by (auto simp: spawn_winner_def)
  then obtain u us where u: "sort_key ?k ?xs = u # us" by (cases "sort_key ?k ?xs") auto
  have um: "u \<in> set ?xs" using u by (metis list.set_intros(1) set_sort)
  have le: "?k u \<le> ?k t"
  proof -
    have "sorted (map ?k (u # us))" using u by (metis sorted_sort_key)
    then have "\<forall>x\<in>set (u # us). ?k u \<le> ?k x" unfolding list.map sorted_simps by auto
    moreover have "t \<in> set (u # us)" using mem u by metis
    ultimately show ?thesis by blast
  qed
  have "u = t"
  proof (rule ccontr)
    assume "u \<noteq> t"
    then have ut: "t_id u = task" using um idem by (auto simp: spawn_winner_def)
    have "u \<in> set (tasks db)" using um by simp
    then have "t_id t \<noteq> t_id u" using task_table.unique[OF k _ assms(2)] \<open>u \<noteq> t\<close> by metis
    then show False using le ut by simp
  qed
  then show ?thesis using u by (simp add: spawnReceipt_def)
qed

lemma spawn_key_held:
  assumes "inv db" "fresh seed db" "t \<in> set (tasks db)" "t_queue t = sp_queue rq" "t_idem t = sp_key rq"
    "sp_key rq \<noteq> None" "spawnOnce seed now task rid rq db = (db', Inr ans)"
  shows "db' = db \<and> (\<exists>a. ans = Some a \<and> sr_task a = t_id t \<and> \<not> sr_created a)"
proof -
  obtain res where b: "run_batch (spawn_batch seed now task rid rq) db = (db', Inr res)"
    using assms(7) by (auto simp: spawnOnce_def split: reply_splits if_splits)
  have taken: "idem_taken (tasks db) (sp_queue rq) (sp_key rq)" using assms(3-6) by (auto simp: idem_taken_def)
  have s: "s_exec (spawnTaskCas seed now task rq) db = Inr (db, 0)" using taken by (simp add: spawnTaskCas_def)
  have lost: "won res = None"
  proof -
    from single_cas[OF b[unfolded spawn_batch_def] inv_keys[OF assms(1)]] ending_batches_bounded(6)[of seed now task rid rq]
    obtain n ms where e: "exec_all (spawnTaskCas seed now task rq # [spawnRunInsert seed rid task]) db = Inr (db', n # ms)"
      "won res = (if n = 0 then None else Some (s_name (spawnTaskCas seed now task rq)))"
      by (auto simp: spawn_batch_def spawnTaskCas_def)
    then show ?thesis using exec_step[OF s e(1)] by auto
  qed
  have same: "db' = db" by (rule lost_batch_unchanged[OF assms(2) _ b lost]) (use batches_quiet(14) in \<open>simp add: list_all_iff\<close>)
  obtain r where "spawnReceipt task rq db = Some (t_id t, r)" using receipt_of_key[OF assms(1,3-6)] by blast
  then show ?thesis using assms(7) b lost same by (auto simp: spawnOnce_def)
qed

text \<open>The tasks of an earlier database are those of a later one, by id, queue and key.\<close>

lemma extends_tasks:
  assumes "extends db db'" "t \<in> set (tasks db)"
  obtains t' where "t' \<in> set (tasks db')" "task_ident t' = task_ident t"
proof -
  have "task_ident ` set (tasks db) \<subseteq> task_ident ` set (tasks db')"
    using assms(1) by (intro prefix_image) (simp add: extends_def)
  then have "task_ident t \<in> task_ident ` set (tasks db')" using assms(2) by blast
  then show ?thesis using that by auto
qed

lemma spawn_once:
  assumes "keys_ok db1" "spawnOnce seed now task rid rq db1 = (db1', Inr (Some a))" "sr_created a" "sp_key rq \<noteq> None"
    "extends db1' db2" "inv db2" "fresh seed2 db2" "sp_queue rq2 = sp_queue rq" "sp_key rq2 = sp_key rq"
    "spawnOnce seed2 now2 task2 rid2 rq2 db2 = (db2', Inr ans)"
  shows "db2' = db2 \<and> (\<exists>a2. ans = Some a2 \<and> sr_task a2 = sr_task a \<and> \<not> sr_created a2)"
proof -
  note c = spawn_created[OF assms(2,3,1)]
  obtain t where t: "t \<in> set (tasks db2)" "task_ident t = task_ident (spawned_task seed now task rq)"
    by (rule extends_tasks[OF assms(5) c(2)])
  have f: "t_id t = sr_task a" "t_queue t = sp_queue rq2" "t_idem t = sp_key rq2"
    using t(2) c(1) assms(8,9) by (simp_all add: task_ident_def spawned_task_def)
  show ?thesis using spawn_key_held[OF assms(6,7) t(1) f(2,3) _ assms(10)] assms(4,9) f(1) by simp
qed

section \<open>Revival\<close>

lemma retryTask_charges:
  assumes "inv db" "fresh seed db" "retryTask seed rid now queue task db = (db', Inr (Some (rid', n)))"
  obtains t p m where "t \<in> set (tasks db)" "t_id t = task" "t_state t = Failed" "t_max_attempts t = Num m"
    "rid' = rid" "p \<in> unit_runs db task" "r_attempt p = topOrdinal db t" "n = cell_plus (r_attempt p) (Num 1)"
    "\<exists>t'\<in>set (tasks db'). t_id t' = task \<and> t_state t' = Pending \<and> t_max_attempts t' = Num (m + 1) \<and>
       t_attempts t' = cell_minus (topOrdinal db t) (t_infra t) \<and> t_failure t' = None \<and> t_last_run t' = Some rid"
    "\<exists>r\<in>set (runs db'). r_id r = rid \<and> r_task r = task \<and> r_attempt r = n \<and> r_state r = Pending \<and>
       r_available r = Num now \<and> r_wake_event r = r_wake_event p \<and> r_payload r = r_payload p"
proof -
  obtain res where b: "run_batch (retryTask_batch seed rid now queue task) db = (db', Inr res)" "rid' = rid"
    and f: "\<exists>r. find (\<lambda>r. r_id r = rid \<and> r_stamp r = Some (stamp seed ''run'')) (runs db') = Some r \<and> n = r_attempt r"
    using assms(3) by (auto simp: retryTask_def split: reply_splits if_splits)
  then obtain r where f: "find (\<lambda>r. r_id r = rid \<and> r_stamp r = Some (stamp seed ''run'')) (runs db') = Some r"
    "n = r_attempt r" by blast
  then have r: "r \<in> set (runs db')" "r_id r = rid" "r_stamp r = Some (stamp seed ''run'')" "n = r_attempt r"
    by (auto simp: find_Some_iff)
  obtain ns where e: "exec_all (retryTask_batch seed rid now queue task) db = Inr (db', ns)"
    using b(1) by (auto simp: run_batch_def split: sum.splits)
  have old: "r_stamp x \<noteq> Some (stamp seed ''run'')" if "x \<in> set (runs db)" for x
    using assms(2) that stamped_byI unfolding fresh_def by blast
  then have "db' \<noteq> db" using r(1,3) by blast
  then obtain t where t: "t \<in> set (tasks db)" "revive_admits queue task db t"
    using retryTask_quiet[OF assms(2) _ e] by blast
  obtain p t' where p: "t' = stamp_task seed ''revive'' (Num now) (revive_set rid db t)"
    "p \<in> unit_runs db (t_id t)" "r_attempt p = topOrdinal db t"
    "db' = add_run (revived_run seed rid t' p) (put_task t' db)"
    by (rule revive_exec[OF assms(1) t e])
  have id: "t_id t = task" "t_state t = Failed" "RETRY_ADMITS db t" using t(2) by (simp_all add: revive_admits_def)
  obtain a i m where q: "t_infra t = Num i" "retry_charged db t = Num a" "t_max_attempts t = Num m"
    by (rule revive_counts[OF id(3)])
  have rn: "r = revived_run seed rid t' p" using r(1,3) old p(4) by auto
  have t'mem: "t' \<in> set (tasks db')" using t(1) by (auto simp: p(1,4) in_put_task revive_set_def)
  show ?thesis
  proof (rule that[OF t(1) id(1,2) q(3) b(2) _ p(3)])
    show "p \<in> unit_runs db task" using p(2) id(1) by simp
    show "n = cell_plus (r_attempt p) (Num 1)" using r(4) rn by (simp add: carried_def new_run_def)
    show "\<exists>t'\<in>set (tasks db'). t_id t' = task \<and> t_state t' = Pending \<and> t_max_attempts t' = Num (m + 1) \<and>
       t_attempts t' = cell_minus (topOrdinal db t) (t_infra t) \<and> t_failure t' = None \<and> t_last_run t' = Some rid"
      by (rule bexI[OF _ t'mem]) (use id(1) q(3) in \<open>simp add: p(1) revive_set_def retry_charged_def\<close>)
    show "\<exists>r\<in>set (runs db'). r_id r = rid \<and> r_task r = task \<and> r_attempt r = n \<and> r_state r = Pending \<and>
       r_available r = Num now \<and> r_wake_event r = r_wake_event p \<and> r_payload r = r_payload p"
      by (rule bexI[OF _ r(1)]) (use r(4) id(1) in \<open>simp add: rn p(1) carried_def new_run_def revive_set_def\<close>)
  qed
qed

end
