(* ===== verification/Charges.thy ===== *)
theory Charges
  imports Unit_Facts
begin

text \<open>
  What a failing run costs its task. A user failure charges one attempt, an expired claim one
  infrastructure retry, and each places the next run with what the failed one carried. A
  cancellation costs nothing and ends the task with its live run.
\<close>

section \<open>A user failure with a retry\<close>

text \<open>The rows a successor leaves: the failed run, the next one and the task that books it.\<close>

definition succeeded_by :: "string \<Rightarrow> string \<Rightarrow> run \<Rightarrow> lstate \<Rightarrow> instant \<Rightarrow> task \<Rightarrow> db \<Rightarrow> bool" where
  "succeeded_by reason sid r st due t db =
     ((\<exists>x\<in>set (runs db). r_id x = r_id r \<and> r_state x = Failed \<and> r_failure x = Some reason \<and> r_claimed_by x = None) \<and>
      (\<exists>n\<in>set (runs db). r_id n = sid \<and> r_task n = r_task r \<and> r_queue n = r_queue r \<and>
         r_attempt n = cell_plus (r_attempt r) (Num 1) \<and> r_state n = st \<and> r_available n = Num due \<and>
         r_wake_event n = r_wake_event r \<and> r_payload n = r_payload r \<and> r_wake_step n = r_wake_step r) \<and>
      (\<exists>u\<in>set (tasks db). t_id u = t_id t \<and> t_state u = st \<and> t_last_run u = Some sid \<and>
         t_attempts u = t_attempts t \<and> t_infra u = t_infra t \<and> t_max_attempts u = t_max_attempts t))"

lemma succeeded_rows:
  assumes "r' \<in> set (runs d)" "r_id r' = r_id r" "r_state r' = Failed" "r_failure r' = Some reason" "r_claimed_by r' = None"
    "r_task r' = r_task r" "r_queue r' = r_queue r" "r_attempt r' = r_attempt r" "r_fence_at r' = Num now"
    "r_wake_event r' = r_wake_event r" "r_payload r' = r_payload r" "r_wake_step r' = r_wake_step r"
    "t \<in> set (tasks d)" "t_id u = t_id t" "t_state u = st" "t_last_run u = Some sid"
    "sid \<notin> r_id ` set (runs d)"
  shows "succeeded_by reason sid r st (now + delay) u
    (drop_waits p (put_task u (add_run (successor_run seed nm sid st delay r') d)))"
proof -
  let ?n = "successor_run seed nm sid st delay r'"
  let ?d = "drop_waits p (put_task u (add_run ?n d))"
  have m: "r' \<in> set (runs ?d)" "?n \<in> set (runs ?d)" using assms(1) by simp_all
  have u: "u \<in> set (tasks ?d)" using assms(13,14) by (auto simp: in_put_task)
  show ?thesis
    unfolding succeeded_by_def
    using m u assms(2-12,15,16)
    by (intro conjI bexI[OF _ m(1)] bexI[OF _ m(2)] bexI[OF _ u])
      (simp_all add: successor_run_def carried_def new_run_def)
qed

lemma fail_won:
  assumes "inv db" "fresh seed db" "memo_ok m db" "durationToMs ''retry.delaySeconds'' s False = Inr ms"
    "fail seed sid now m queue rid token json (Some s) db = (db', Inr b)"
  obtains fl r ns where "r \<in> set (runs db)" "fail_admits now fl db r" "f_queue fl = queue" "f_run fl = rid"
    "f_token fl = token" "f_json fl = json" "f_successor fl = sid" "f_retry fl = Some ms" "f_rollback fl = None"
    "names_task (f_task fl) rid db"
    "exec_all (fail_saga seed fl @ fail_retry seed fl ms @ fail_end seed ''task-terminal'' fl)
       (put_run (stamp_run seed ''fail'' (Num now) (fail_set now json db r)) db) = Inr (db', ns)"
proof -
  obtain task where task: "endingTask m ''fail'' queue rid db = Inr task"
    using assms(4,5) by (auto simp: fail_def split: sum.splits)
  let ?fl = "\<lparr>f_queue = queue, f_run = rid, f_token = token, f_json = json, f_task = task,
      f_successor = sid, f_retry = Some ms, f_rollback = None\<rparr>"
  have "failInto ''fail'' seed now ?fl db = (db', Inr b)" using assms(4,5) task by (simp add: fail_def)
  then obtain res where b: "run_batch (failInto_batch seed now ?fl) db = (db', Inr res)" "won res = Some ''fail''"
    by (auto simp: failInto_def split: reply_splits if_splits)
  let ?ss = "fail_saga seed ?fl @ fail_retry seed ?fl ms @ fail_end seed ''task-terminal'' ?fl"
  have shape: "run_batch (cas_runs seed now ''fail'' (fail_admits now ?fl) (fail_set now json) # ?ss) db = (db', Inr res)"
    using b(1) by (simp add: failInto_parts)
  have quiet: "\<forall>s\<in>set ?ss. s_kind s = FollowOn \<and> loses_quietly seed s"
    by (auto simp: fail_saga_def fail_retry_def fail_end_def fail_terminal_def)
  have names: "names_task task rid db" using knows_names[OF assms(1) endingTask_knows[OF assms(3) task]] .
  show ?thesis
  proof (rule cas_batch_cases[OF shape inv_keys[OF assms(1)] assms(2) quiet, of rid])
    fix r ns assume "r \<in> set (runs db)" "fail_admits now ?fl db r"
      "exec_all ?ss (put_run (stamp_run seed ''fail'' (Num now) (fail_set now json db r)) db) = Inr (db', ns)"
    then show thesis using that[of r ?fl ns] names by simp
  qed (use b(2) in \<open>auto simp: fail_admits_def whereClaimedRun_def\<close>)
qed

lemma fail_retries:
  assumes "inv db" "fresh seed db" "valid_clock now" "memo_ok m db" "durationToMs ''retry.delaySeconds'' s False = Inr ms"
    "fail seed sid now m queue rid token json (Some s) db = (db', Inr b)"
    "r \<in> set (runs db)" "r_id r = rid" "t \<in> set (tasks db)" "t_id t = r_task r"
    "t_attempts t = Num a" "t_max_attempts t = Num mx" "a + 1 < mx"
  shows "succeeded_by json sid r (queued_state ms) (now + ms) (retry_booked seed now sid ms t) db'"
proof -
  obtain fl r0 ns where w: "r0 \<in> set (runs db)" "fail_admits now fl db r0" "f_queue fl = queue" "f_run fl = rid"
    "f_token fl = token" "f_json fl = json" "f_successor fl = sid" "f_retry fl = Some ms" "f_rollback fl = None"
    "names_task (f_task fl) rid db"
    "exec_all (fail_saga seed fl @ fail_retry seed fl ms @ fail_end seed ''task-terminal'' fl)
       (put_run (stamp_run seed ''fail'' (Num now) (fail_set now json db r0)) db) = Inr (db', ns)"
    by (rule fail_won[OF assms(1,2,4-6)])
  have c: "whereClaimedRun rid queue token r0" using w(2-5) by (simp add: fail_admits_def)
  have "r0 = r"
    using run_table.unique[OF keys_okD(2)[OF inv_keys[OF assms(1)]] w(1) assms(7)] c assms(8)
    by (simp add: whereClaimedRun_def)
  note w = w[unfolded this] and c = c[unfolded this]
  let ?r = "stamp_run seed ''fail'' (Num now) (fail_set now json db r)"
  let ?d = "put_run ?r db"
  note f = failed_orphan[OF assms(1,2,7) c assms(9,10) refl, of now json]
  note od = orphanedD[OF f(1)]
  obtain i where acc: "t_infra t = Num i" "r_attempt ?r = Num (a + i + 1)" "mx \<le> MAX_COUNT" "0 \<le> i" "i \<le> INFRA_RETRY_CAP" "0 \<le> a"
    using accountingD[OF od(9)] assms(11,12) by auto
  have spent: "\<not> user_budget_spent ?r t" using acc assms(11-13) by (simp add: user_budget_spent_def)
  obtain d ms1 ks where e1: "exec_all (fail_saga seed fl) ?d = Inr (d, ms1)"
    and e2: "exec_all (fail_retry seed fl ms @ fail_end seed ''task-terminal'' fl) d = Inr (db', ks)"
    using exec_append[OF w(11)] by blast
  have "stored_within epoch_bounds (Num (now + 0))" using assms(3) by (simp add: valid_clock_def epoch_bounds_def)
  from sagaPass_exec[OF f(1,2) _ f(3,4,6) this e1[unfolded fail_saga_def w(9) option.case w(3,4,7)]]
  have d: "d = ?d" using spent w(8) by (simp add: pass_admits_def)
  obtain d2 k2 k3 where e3: "exec_all (fail_retry seed fl ms) ?d = Inr (d2, k2)"
    and e4: "exec_all (fail_end seed ''task-terminal'' fl) d2 = Inr (db', k3)"
    using exec_append[OF e2[unfolded d]] by blast
  have adm: "retry_admits ?d ?r t"
    using acc assms(11-13) od(8) by (simp add: retry_admits_def incrementable_iff run_attempt_bounds_def MAX_RUN_ORDINAL_def)
  have q: "t_queue t = r_queue r" using od(7) by simp
  note fits = fail_fits[OF assms(1,7) w(2,8) _ assms(9,10) q od(8) _ f(8) adm]
  have ok: "stored_within epoch_bounds (Num (now + ms))"
    by (rule fits) (use durationToMs_bounds[OF assms(5)] od(9) accounting_cong[OF f(8)] in auto)
  note e3' = e3[unfolded fail_retry_def w(3,4,7)]
  have placed: "placed seed ''successor'' ''task-retrying'' sid ?r t ?d d2"
    using retry_exec[OF f(1,2,3,4,6) ok e3'] adm by simp
  note eq = retry_placed_eq[OF f(1,2,3,4,6) adm e3']
  have "db' = drop_waits (\<lambda>w. w_run w = f_run fl \<and> True) d2"
    by (rule fail_terminal_placed(1)[OF f(1,2) _ f(7) placed[folded w(7)] _ _ e4[unfolded fail_end_def]])
      (use w(4) f(3) in auto)
  then have eq2: "db' = drop_waits (\<lambda>w. w_run w = f_run fl \<and> True) (put_task (retry_booked seed now sid ms t)
      (add_run (successor_run seed ''successor'' sid (queued_state ms) ms ?r) ?d))" using eq(1) by simp
  show ?thesis unfolding eq2
    by (rule succeeded_rows[OF od(4), where t = t])
      (use assms(9,10) eq(2) in \<open>simp_all add: fail_set_def retry_booked_def\<close>)
qed

section \<open>An expired claim of an activated run\<close>

lemma timeout_charges:
  assumes "inv db" "fresh seed db" "names_task task rid db"
    "sweepClaimTimeout seed sid now queue rid task gen db = (db', Inr (Some x))"
    "r \<in> set (runs db)" "r_id r = rid" "t \<in> set (tasks db)" "t_id t = r_task r"
    "t_infra t = Num i" "i < INFRA_RETRY_CAP"
  shows "succeeded_by REASON_CLAIM_TIMEOUT sid r Pending (now + 5000) (timeout_booked seed now sid t) db'"
proof -
  obtain res where b: "run_batch (claimTimeout_batch seed sid now queue task rid gen) db = (db', Inr res)" "won res = Some ''fail''"
    using assms(4) by (auto simp: sweepClaimTimeout_def split: reply_splits if_splits)
  let ?ss = "tl (claimTimeout_batch seed sid now queue task rid gen)"
  have shape: "run_batch (cas_runs seed now ''fail'' (timeout_admits now queue rid gen) (timeout_set now) # ?ss) db = (db', Inr res)"
    using b(1) by (simp add: claimTimeout_parts)
  have quiet: "\<forall>s\<in>set ?ss. s_kind s = FollowOn \<and> loses_quietly seed s"
    by (auto simp: claimTimeout_batch_def)
  show ?thesis
  proof (rule cas_batch_cases[OF shape inv_keys[OF assms(1)] assms(2) quiet, of rid])
    fix r0 ns
    assume r0: "r0 \<in> set (runs db)" "timeout_admits now queue rid gen db r0"
      and e: "exec_all ?ss (put_run (stamp_run seed ''fail'' (Num now) (timeout_set now db r0)) db) = Inr (db', ns)"
    have c: "whereSweptClaim rid queue gen r0" using r0(2) by (simp add: timeout_admits_def)
    have same: "r0 = r"
      using run_table.unique[OF keys_okD(2)[OF inv_keys[OF assms(1)]] r0(1) assms(5)] c assms(6)
      by (simp add: whereSweptClaim_def)
    note e = e[unfolded same claimTimeout_parts list.sel] and c = c[unfolded same]
    let ?r = "stamp_run seed ''fail'' (Num now) (timeout_set now db r)"
    note f = timeout_orphan[OF assms(1,2,5) c assms(7,8) refl, of now]
    note od = orphanedD[OF f(1)]
    obtain a m where acc: "t_attempts t = Num a" "t_max_attempts t = Num m" "r_attempt ?r = Num (a + i + 1)"
      "a < m" "m \<le> MAX_COUNT" "0 \<le> a" "0 \<le> i"
      using accountingD[OF od(9)] assms(9) by auto
    have adm: "infra_successor_admits (put_run ?r db) ?r t"
      using acc assms(9,10) od(8)
      by (simp add: infra_successor_admits_def incrementable_iff run_attempt_bounds_def MAX_RUN_ORDINAL_def
          stored_within_iff infra_retries_bounds_def)
    have q: "t_queue t = r_queue r" using od(7) by simp
    note fits = timeout_fits[OF assms(1) r0(2)[unfolded same] assms(7,8) q od(8) adm]
    have ns: "r_state ?r \<noteq> Sleeping" using f(7) by simp
    note eq = timeout_successor(1,2)[OF f(1-4,6) ns adm fits e]
    show ?thesis unfolding eq(1)
      using succeeded_rows[OF od(4), of r REASON_CLAIM_TIMEOUT now t "timeout_booked seed now sid t" Pending sid
          "INFRA_BACKOFF_SECONDS * 1000"] assms(7,8) eq(2)
      by (simp add: timeout_set_def timeout_booked_def INFRA_BACKOFF_SECONDS_def)
  qed (use b(2) in \<open>auto simp: timeout_admits_def whereSweptClaim_def\<close>)
qed

section \<open>Cancellation\<close>

lemma cancel_ends:
  assumes "inv db" "fresh seed db" "cancelTask seed now queue task unless_saga db = (db', Inr True)"
  obtains t c where "t \<in> set (tasks db)" "t_id t = task" "t_queue t = queue" "live (t_state t)"
    "carries t (unit_runs db task) c" "unless_saga \<longrightarrow> \<not> sagaBeganOf db task"
    "stamp_task seed ''cancel'' (Num now) (cancel_set now db t) \<in> set (tasks db')"
    "cancelled_run seed now c \<in> set (runs db')"
proof -
  let ?b = "cancel_batch seed now queue task False unless_saga"
  obtain res where b: "run_batch ?b db = (db', Inr res)" "won res = Some ''cancel''"
    using assms(3) by (auto simp: cancelTask_def cancelTransition_def split: reply_splits)
  then obtain ns where e: "exec_all ?b db = Inr (db', ns)" by (auto simp: run_batch_def split: sum.splits)
  have "\<exists>t\<in>set (tasks db). cancel_admits now queue task False unless_saga db t"
  proof (rule ccontr)
    let ?p = "cancel_admits now queue task False unless_saga"
    assume lost: "\<not> (\<exists>t\<in>set (tasks db). cancel_admits now queue task False unless_saga db t)"
    have s: "s_exec (cas_tasks seed now ''cancel'' ?p (cancel_set now)) db = Inr (db, 0)"
      by (rule cas_tasks_lost[where p = ?p, OF lost])
    obtain ms where ns: "ns = 0 # ms" using exec_step[OF s e[unfolded cancel_batch_def append_Cons]] by blast
    have "audit (zip (tl ?b) ms) None 0 = Inr (won res, won_count res)"
      using b(1) e ns by (auto simp: run_batch_def cancel_batch_def split: sum.splits if_splits)
    then show False using audit_followons[of "tl ?b" ms None 0] b(2) by (auto simp: cancel_batch_def)
  qed
  then obtain t where t: "t \<in> set (tasks db)" "cancel_admits now queue task False unless_saga db t" by blast
  obtain c t' ms where c: "carries t (unit_runs db (t_id t)) c"
    and t': "t' = stamp_task seed ''cancel'' (Num now) (cancel_set now db t)"
    and e3: "exec_all (taskDone seed queue task ''cancel'' (cancelled_with REASON_CANCELLED))
      (drop_waits (\<lambda>w. w_run w = r_id c \<and> True) (put_run (cancelled_run seed now c) (put_task t' db))) = Inr (db', ms)"
    by (rule cancel_exec[OF assms(1,2) t e])
  let ?d = "drop_waits (\<lambda>w. w_run w = r_id c \<and> True) (put_run (cancelled_run seed now c) (put_task t' db))"
  have id: "t_id t = task" "t_queue t = queue" "live (t_state t)" "unless_saga \<longrightarrow> \<not> sagaBeganOf db task"
    using t(2) by (auto simp: cancel_admits_def)
  have cm: "c \<in> set (runs db)" using c by (auto simp: carries_def unit_runs_def)
  have k: "keys_ok ?d"
    using keys_put_run[OF inv_keys[OF assms(1)] cm, of "cancelled_run seed now c"]
    by (auto simp: keys_ok_def cancelled_run_def put_run_def wait_table.delete_keyed)
  have cd: "cancelled_run seed now c \<in> set (runs ?d)" using cm by (auto simp: in_put_run cancelled_run_def)
  have "t_id t' \<in> t_id ` set (tasks db)" using t(1) by (auto simp: t' cancel_set_def)
  then have td: "t' \<in> set (tasks ?d)" by (simp add: in_put_task)
  have "cancelled_run seed now c \<in> set (runs db')"
    by (rule exec_spares[OF e3 k, of seed])
      (use cd bounded_groups(3) in \<open>auto simp: cancelled_run_def list_all_iff\<close>)
  moreover have "t' \<in> set (tasks db')"
  proof -
    have "extends ?d db'" by (rule exec_grows[OF e3]) (use grows_groups(3) in \<open>auto simp: list_all_iff\<close>)
    then show ?thesis using td by (auto simp: extends_def settled_def t' cancel_set_def)
  qed
  ultimately show ?thesis using that[OF t(1) id(1-3) _ id(4)] c id(1) t' by simp
qed

end
