(* ===== verification/Event_Facts.thy ===== *)
theory Event_Facts
  imports Refusals
begin

text \<open>
  The two sides of an event. An await that finds the event answers its payload and writes nothing,
  one that does not parks the run under a registered wait, and an emit reaches every run that is
  parked: it becomes pending at once, with the payload and its place in the code, and its wait is
  gone.
\<close>

section \<open>Await\<close>

lemma await_batch_cases:
  assumes "inv db" "fresh seed db"
    "run_batch (awaitEvent_batch seed now queue task rid token step name timeout) db = (db', Inr res)"
  obtains (idle) "db' = db" "won res = None"
  | (parked) r t where "r \<in> set (runs db)" "t \<in> set (tasks db)" "whereClaimedRun rid queue token r"
      "r_task r = task" "runOwnedByTask r t" "(queue, event_value name) \<notin> event_keys db"
      "db' = awaited seed (registered_wait seed now queue task rid step name timeout) r t db"
      "won res = Some ''register''"
proof -
  let ?b = "awaitEvent_batch seed now queue task rid token step name timeout"
  have sh: "store_batch ?b" by (rule store_batch.intros(8))
  have w: "won res = None \<or> won res = Some ''register''"
    using store_batch_answers[OF sh inv_keys[OF assms(1)] assms(3)] by auto
  show ?thesis
  proof (cases "register_admits now queue task rid token name timeout db \<and> (rid, step) \<notin> w_key ` set (waits db)")
    case True
    obtain ns where e: "exec_all ?b db = Inr (db', ns)" using assms(3) by (auto simp: run_batch_def split: sum.splits)
    obtain r t where rt: "r \<in> set (runs db)" "t \<in> set (tasks db)" "whereClaimedRun rid queue token r"
      "r_task r = task" "runOwnedByTask r t" "ns = [1, 1, 1]"
      "db' = awaited seed (registered_wait seed now queue task rid step name timeout) r t db"
      using exec_await[OF assms(1,2) _ _ e] True by blast
    have "won res = Some ''register''"
      using assms(3) e rt(6) by (auto simp: run_batch_def awaitEvent_batch_def registerWaitCas_def waits_to_runs_def runs_to_tasks_def)
    then show ?thesis using parked[OF rt(1-5) _ rt(7)] True by (simp add: register_admits_def event_keys_def)
  next
    case False
    obtain ns where e: "exec_all ?b db = Inr (db', ns)" using assms(3) by (auto simp: run_batch_def split: sum.splits)
    have s1: "s_exec (registerWaitCas seed now queue task rid token step name timeout) db = Inr (db, 0)"
      using False by (auto simp: registerWaitCas_def)
    have "db' = db \<and> won res = None"
    proof (cases "won res = None")
      case True
      then show ?thesis
        using lost_batch_unchanged[OF assms(2) _ assms(3)] batches_quiet(8) by (simp add: list_all_iff)
    next
      case False
      obtain ms where ns: "ns = 0 # ms"
        using exec_step[OF s1 e[unfolded awaitEvent_batch_def]] by blast
      have "audit (zip (tl ?b) ms) None 0 = Inr (won res, won_count res)"
        using assms(3) e ns by (auto simp: run_batch_def awaitEvent_batch_def registerWaitCas_def split: sum.splits if_splits)
      then have "won res = None" using audit_followons[of "tl ?b" ms None 0] by (simp add: awaitEvent_batch_def)
      then show ?thesis using False by simp
    qed
    then show ?thesis using idle by blast
  qed
qed

lemma awaited_events [simp]: "events (awaited seed w r t db) = events db"
  by (simp add: awaited_def)

lemma emitted_event: "emittedEvent queue name task rid token db = Some e \<Longrightarrow>
    e \<in> set (events db) \<and> e_key e = (queue, event_value name)"
  by (auto simp: emittedEvent_def event_of_def find_Some_iff split: if_splits)

lemma awaitNamed_parts:
  assumes "awaitNamedEvent seed now queue task rid token step name timeout db = (db', Inr (Some a))"
  obtains ms res where "run_batch (awaitEvent_batch seed now queue task rid token step name ms) db = (db', Inr res)"
    "case timeout of None \<Rightarrow> ms = None | Some s \<Rightarrow> \<exists>d. durationToMs ''timeoutSeconds'' s True = Inr d \<and> ms = Some d"
    "case emittedEvent queue name task rid token db' of None \<Rightarrow> won res = Some ''register'' \<and> a = Parked
       | Some e \<Rightarrow> a = Emitted (e_payload e)"
proof (cases timeout)
  case None
  then show ?thesis using assms that[of None]
    by (auto simp: awaitNamedEvent_def split: prod.splits sum.splits option.splits if_splits)
next
  case (Some s)
  then show ?thesis using assms that
    by (cases "durationToMs ''timeoutSeconds'' s True")
      (auto simp: awaitNamedEvent_def split: prod.splits sum.splits option.splits if_splits)
qed

text \<open>What a parked await leaves, row by row.\<close>

definition parked_under :: "string \<Rightarrow> wait \<Rightarrow> db \<Rightarrow> bool" where
  "parked_under queue w db =
     (w \<in> set (waits db) \<and> w_status w = Waiting \<and>
      (\<exists>r\<in>set (runs db). r_id r = w_run w \<and> r_queue r = queue \<and> r_task r = w_task w \<and>
         r_state r = Sleeping \<and> r_claimed_by r = None \<and> r_wake_event r = Some (w_event w) \<and>
         r_wake_step r = Some (w_step w) \<and> r_available r = w_timeout w) \<and>
      (\<exists>t\<in>set (tasks db). t_id t = w_task w \<and> t_queue t = queue \<and> t_state t = Sleeping))"

lemma awaited_parks:
  assumes "r \<in> set (runs db)" "t \<in> set (tasks db)" "whereClaimedRun rid queue token r" "r_task r = task"
    "runOwnedByTask r t" "w = registered_wait seed now queue task rid step name timeout"
  shows "parked_under queue w (awaited seed w r t db)"
proof -
  let ?r = "sleep_on seed w r"
  let ?t = "stamp_task seed ''task-mirror'' (w_fence_at w) (t\<lparr>t_state := Sleeping\<rparr>)"
  have id: "r_id r = rid" "r_queue r = queue" using assms(3) by (simp_all add: whereClaimedRun_def)
  have "?r \<in> set (runs (awaited seed w r t db))"
    using assms(1) by (auto simp: awaited_def in_put_run sleep_on_def)
  moreover have "?t \<in> set (tasks (awaited seed w r t db))"
    using assms(2) by (auto simp: awaited_def in_put_task)
  moreover have "w \<in> set (waits (awaited seed w r t db))" by (simp add: awaited_def)
  ultimately show ?thesis
    unfolding parked_under_def
    using assms(4-6) id by (intro conjI bexI[of _ ?r] bexI[of _ ?t])
      (simp_all add: sleep_on_def registered_wait_def runOwnedByTask_def)
qed

lemma await_answers:
  assumes "inv db" "fresh seed db"
    "awaitEvent seed now queue task rid token step name timeout db = (db', Inr a)"
  shows "case a of
      Emitted p \<Rightarrow> db' = db \<and> (\<exists>e\<in>set (events db). e_key e = (queue, name) \<and> e_payload e = p)
    | Parked \<Rightarrow> (queue, name) \<notin> event_keys db \<and>
        (\<exists>w. w_run w = rid \<and> w_step w = step \<and> w_event w = name \<and> w_task w = task \<and> w_queue w = queue \<and>
           (timeout = None \<longrightarrow> w_timeout w = Null) \<and>
           (\<forall>s. timeout = Some s \<longrightarrow> (\<exists>ms. durationToMs ''timeoutSeconds'' s True = Inr ms \<and> w_timeout w = Num (now + ms))) \<and>
           parked_under queue w db')"
proof -
  obtain nm where nm: "fromPort ''awaitEvent'' name = Inr nm"
    "awaitNamedEvent seed now queue task rid token step nm timeout db = (db', Inr (Some a))"
    using assms(3) by (auto simp: awaitEvent_def split: reply_splits)
  have val: "event_value nm = name" using fromPort_not_done[OF nm(1)] by simp
  obtain ms res where b: "run_batch (awaitEvent_batch seed now queue task rid token step nm ms) db = (db', Inr res)"
    and ms: "case timeout of None \<Rightarrow> ms = None | Some s \<Rightarrow> \<exists>d. durationToMs ''timeoutSeconds'' s True = Inr d \<and> ms = Some d"
    and a: "case emittedEvent queue nm task rid token db' of None \<Rightarrow> won res = Some ''register'' \<and> a = Parked
       | Some e \<Rightarrow> a = Emitted (e_payload e)"
    by (rule awaitNamed_parts[OF nm(2)])
  show ?thesis
  proof (cases rule: await_batch_cases[OF assms(1,2) b, case_names idle parked])
    case idle
    then obtain e where "emittedEvent queue nm task rid token db = Some e" "a = Emitted (e_payload e)"
      using a by (cases "emittedEvent queue nm task rid token db'") auto
    then show ?thesis using emitted_event[of queue nm task rid token db e] idle val by auto
  next
    case (parked r t)
    let ?w = "registered_wait seed now queue task rid step nm ms"
    have "emittedEvent queue nm task rid token db' = None"
    proof (cases "emittedEvent queue nm task rid token db'")
      case (Some e)
      then have "e \<in> set (events db)" "e_key e = (queue, event_value nm)"
        using emitted_event[OF Some] parked(7) by simp_all
      then show ?thesis using parked(6) by (metis event_keys_def image_eqI)
    qed simp
    then have p: "a = Parked" using a by simp
    have "parked_under queue ?w db'" unfolding parked(7) by (rule awaited_parks[OF parked(1-5) refl])
    then show ?thesis
      using p parked(6) val ms by (auto simp: registered_wait_def split: option.splits intro!: exI[of _ ?w])
  qed
qed

section \<open>Emit\<close>

lemma emit_ok:
  assumes "emitEvent seed now queue name payload db = (db', Inr ())"
  shows "\<exists>res. run_batch (emitEvent_batch seed now queue name payload) db = (db', Inr res)"
  using assms fromPort_not_done by (fastforce simp: emitEvent_def split: reply_splits)

text \<open>The first emit of an event inserts it and wakes who is parked on it.\<close>

lemma emit_first:
  assumes "inv db" "fresh seed db" "(queue, name) \<notin> event_keys db"
    "run_batch (emitEvent_batch seed now queue name payload) db = (db', Inr res)"
    "d = db\<lparr>events := events db @ [\<lparr>e_queue = queue, e_name = name, e_payload = Text payload, e_emitted_at = Num now,
      e_stamp = Some (stamp seed ''event''), e_fence_at = Num now\<rparr>]\<rparr>"
  obtains x y where "db' = woken_db seed queue name x y d"
proof -
  obtain ns where e: "exec_all (emitEventCas seed now queue name payload # wakeWaiters seed queue name ''waits-gone'') db = Inr (db', ns)"
    using assms(4) by (auto simp: run_batch_def emitEvent_batch_def split: sum.splits)
  have s: "s_exec (emitEventCas seed now queue name payload) db = Inr (d, 1)"
    using assms(3,5) by (simp add: emitEventCas_def event_keys_def)
  obtain ms where m: "exec_all (wakeWaiters seed queue name ''waits-gone'') d = Inr (db', ms)"
    using exec_step[OF s e] by blast
  have w: "waits_ok (event_keys db) d" using assms(1,5) by (simp add: inv_def waits_ok_def)
  have k: "keyed r_id (runs d)" using keys_okD(2)[OF inv_keys[OF assms(1)]] assms(5) by simp
  have unw: "\<forall>r\<in>set (runs d). r_stamp r \<noteq> Some (stamp seed ''wake-runs'')"
    using fresh_unwoken[OF assms(2)] assms(5) by (simp add: unwoken_def)
  have "\<exists>x y. db' = woken_db seed queue name x y d"
    by (rule exec_wake[OF unw k _ m]) (rule admitted_queue[OF w k])
  then show ?thesis using that by blast
qed

lemma recorded_fresh:
  assumes "fresh seed db" "events d = events db @ [e]" "e_queue e = r_queue r" "e_name e = name"
    "e_stamp e = Some (stamp seed ''event'')"
  shows "recordedEvent seed name d r = Some e"
proof -
  have "e_stamp x \<noteq> Some (stamp seed ''event'')" if "x \<in> set (events db)" for x
    using assms(1) that stamped_byI unfolding fresh_def by blast
  then have "find (\<lambda>f. e_queue f = r_queue r \<and> e_name f = name \<and> e_stamp f = Some (stamp seed ''event'')) (events db) = None"
    by (auto simp: find_None_iff)
  moreover have "find P (xs @ [x]) = (case find P xs of None \<Rightarrow> if P x then Some x else None | Some y \<Rightarrow> Some y)"
    for P and x :: event and xs by (induction xs) auto
  ultimately show ?thesis using assms(2-5) by (simp add: recordedEvent_def)
qed

lemma emit_wakes:
  assumes "inv db" "fresh seed db" "run_batch (emitEvent_batch seed now queue name payload) db = (db', Inr res)"
    "r \<in> set (runs db)" "w \<in> set (waits db)" "parked_on r w" "w_queue w = queue" "w_event w = name"
  shows "\<exists>r'\<in>set (runs db'). r_id r' = r_id r \<and> r_state r' = Pending \<and> r_available r' = Num now \<and>
      r_wake_event r' = Some name \<and> r_wake_step r' = Some (w_step w) \<and> r_payload r' = Text payload"
    "w \<notin> set (waits db')"
proof -
  have ok: "rows_ok db" "units_ok (event_keys db) db" using assms(1) by (simp_all add: inv_def)
  have p: "w_status w = Waiting" "r_wake_step r = Some (w_step w)" "r_queue r = queue" "w_run w = r_id r"
    using assms(6,7) by (auto simp: parked_on_def wait_witness_def)
  have "wait_ok (set (runs db)) (event_keys db) w" using assms(1,5) by (simp add: inv_def waits_ok_def)
  then have free: "(queue, name) \<notin> event_keys db" using p(1) assms(7,8) by (simp add: wait_ok_def)
  let ?e = "\<lparr>e_queue = queue, e_name = name, e_payload = Text payload, e_emitted_at = Num now,
      e_stamp = Some (stamp seed ''event''), e_fence_at = Num now\<rparr>"
  let ?d = "db\<lparr>events := events db @ [?e]\<rparr>"
  obtain x y where db': "db' = woken_db seed queue name x y ?d"
    by (rule emit_first[OF assms(1,2) free assms(3) refl])
  have rec: "recordedEvent seed name ?d r = Some ?e"
    by (rule recorded_fresh[OF assms(2)]) (use p(3) in simp_all)
  have adm: "wake_admits seed queue name ?d r"
  proof -
    have "wake_witness ?d r" using assms(5,6)
      by (auto simp: wake_witness_def registeredCurrent_def parked_on_def)
    moreover obtain t where t: "t \<in> set (tasks db)" "t_id t = r_task r" "t_queue t = r_queue r"
      by (rule inv_owner[OF assms(1,4)])
    moreover have "r_state r = Sleeping" "r_wake_event r = Some name"
      using assms(6,8) by (auto simp: parked_on_def wait_witness_def)
    moreover from this have "live (t_state t)" using inv_live_run(1)[OF assms(1,4) _ t(1,2)] by simp
    ultimately show ?thesis
      using rec assms(5,7,8) p unfolding wake_admits_def
      by (auto simp: owner_such_def runOwnedByTask_def)
  qed
  have "wake_run seed queue name x ?d r \<in> set (runs db')" using assms(4) by (simp add: db' woken_db_def)
  moreover have "wake_run seed queue name x ?d r = stamp_run seed ''wake-finished'' x
      (r\<lparr>r_state := Pending, r_available := Num now, r_wake_step := Some (w_step w), r_wake_event := Some name,
         r_payload := Text payload, r_stamp := Some (stamp seed ''wake-runs''), r_fence_at := Num now\<rparr>)"
    using adm rec p(2) by (simp add: wake_run_def wake_set_def)
  ultimately show "\<exists>r'\<in>set (runs db'). r_id r' = r_id r \<and> r_state r' = Pending \<and> r_available r' = Num now \<and>
      r_wake_event r' = Some name \<and> r_wake_step r' = Some (w_step w) \<and> r_payload r' = Text payload"
    by (intro bexI[of _ "wake_run seed queue name x ?d r"]) simp_all
  have "wake_gone seed queue name ?d w"
    using adm assms(4,8) p(1,4) by (auto simp: wake_gone_def woken_ids_def)
  then show "w \<notin> set (waits db')" by (simp add: db' woken_db_def delete_where_def)
qed

end
