(* ===== verification/Saga_Facts.thy ===== *)
theory Saga_Facts
  imports Event_Facts Unit_Facts
begin

text \<open>
  The forward freeze. Once a task's saga has begun, its runs only undo: a forward checkpoint, a
  suspension, an await that parks, a completion and a child spawn are refused, and a rollback
  checkpoint is what is admitted. The phase checkpoint is never deleted, so the freeze is for good.
\<close>

lemma complete_not_saga:
  assumes "inv db" "fresh seed db" "complete seed now m queue rid token res db = (db', Inr ())"
  shows "\<exists>r\<in>set (runs db). r_id r = rid \<and> \<not> sagaBeganOf db (r_task r)"
proof -
  obtain r task ns where r: "r \<in> set (runs db)" "complete_admits queue rid token db r"
    by (rule complete_won[OF assms])
  have c: "whereClaimedRun rid queue token r" "taskAdmitsCompletion db r" using r(2) by (simp_all add: complete_admits_def)
  obtain t where t: "t \<in> set (tasks db)" "runOwnedByTask r t" "t_state t = Running"
    "\<And>p. owner_such db r p = p t" using holder[OF assms(1) r(1) c(1)] by metis
  have "\<not> sagaBeganOf db (t_id t)" using c(2) t(3) unfolding taskAdmitsCompletion_def t(4) by simp
  then show ?thesis using r(1) c(1) t(2) by (auto simp: whereClaimedRun_def runOwnedByTask_def)
qed

lemma checkpoint_phase_held:
  assumes "inv db" "fresh seed db" "setCheckpoint seed now queue task rid token name state n db = (db', Inr ())"
  shows "prefix SAGA_ROLLBACK_PREFIX name = sagaBeganOf db task" "\<not> checkpointIsTheEngines name"
proof -
  obtain r ext where "setCheckpoint_admits now queue task rid token name ext db r"
    by (rule setCheckpoint_won[OF assms])
  then have "checkpoint_phase db task name" by (auto simp: setCheckpoint_admits_def)
  then show "prefix SAGA_ROLLBACK_PREFIX name = sagaBeganOf db task" "\<not> checkpointIsTheEngines name"
    by (simp_all add: checkpoint_phase_def checkpointInItsPhase_def namedUnder_prefix)
qed

lemma suspendRun_not_saga:
  assumes "inv db" "fresh seed db" "suspendRun seed now queue rid token wake key state db = (db', Inr ())"
  shows "\<exists>r\<in>set (runs db). r_id r = rid \<and> \<not> sagaBeganOf db (r_task r)"
proof -
  obtain plan where "require_won ''suspendRun'' rid ''suspend''
      (run_batch (suspendRun_batch seed now queue rid token plan key state) db) = (db', Inr ())"
    using assms(3) by (auto simp: suspendRun_def split: sum.splits)
  then obtain res where b: "run_batch (suspendRun_batch seed now queue rid token plan key state) db = (db', Inr res)"
    "won res = Some ''suspend''" using require_won_Inr by blast
  let ?ss = "tl (suspendRun_batch seed now queue rid token plan key state)"
  have shape: "run_batch (cas_runs seed now ''suspend'' (suspendRun_admits now queue rid token plan key) (suspend_set now plan) # ?ss) db =
      (db', Inr res)"
    using b(1) by (simp add: suspendRun_batch_def)
  have quiet: "\<forall>s\<in>set ?ss. s_kind s = FollowOn \<and> loses_quietly seed s" by (auto simp: suspendRun_batch_def)
  show ?thesis
  proof (rule cas_batch_cases[OF shape inv_keys[OF assms(1)] assms(2) quiet, of rid])
    fix r ns assume "r \<in> set (runs db)" "suspendRun_admits now queue rid token plan key db r"
    then show ?thesis by (auto simp: suspendRun_admits_def whereClaimedRun_def)
  qed (use b(2) in \<open>auto simp: suspendRun_admits_def whereClaimedRun_def suspend_set_def park_def\<close>)
qed

lemma spawn_not_saga:
  assumes "inv db" "spawnOnce seed now task rid rq db = (db', Inr (Some a))" "sr_created a" "sp_parent rq = Some p"
  shows "\<not> sagaBeganOf db (co_task p)"
proof -
  obtain res where b: "run_batch (spawn_batch seed now task rid rq) db = (db', Inr res)" "won res = Some ''task''"
    using assms(2,3) by (auto simp: spawnOnce_def split: reply_splits if_splits)
  from single_cas[OF b(1)[unfolded spawn_batch_def] inv_keys[OF assms(1)]] ending_batches_bounded(6)[of seed now task rid rq]
  obtain n ms where e: "exec_all (spawn_batch seed now task rid rq) db = Inr (db', n # ms)" "n \<noteq> 0"
    using b(2) by (auto simp: spawn_batch_def spawnTaskCas_def split: if_splits)
  then obtain d2 where s: "s_exec (spawnTaskCas seed now task rq) db = Inr (d2, n)"
    using exec_cons unfolding spawn_batch_def by (metis list.inject)
  then have "spawn_admits now task rq db" using e(2) by (auto simp: spawnTaskCas_def split: if_splits)
  then show ?thesis using assms(4) by (simp add: spawn_admits_def)
qed

lemma await_not_saga:
  assumes "inv db" "fresh seed db" "awaitEvent seed now queue task rid token step name timeout db = (db', Inr Parked)"
  shows "\<not> sagaBeganOf db task"
proof -
  obtain nm where nm: "awaitNamedEvent seed now queue task rid token step nm timeout db = (db', Inr (Some Parked))"
    using assms(3) by (auto simp: awaitEvent_def split: reply_splits)
  obtain ms res where b: "run_batch (awaitEvent_batch seed now queue task rid token step nm ms) db = (db', Inr res)"
    and a: "case emittedEvent queue nm task rid token db' of None \<Rightarrow> won res = Some ''register'' \<and> Parked = Parked
       | Some e \<Rightarrow> Parked = Emitted (e_payload e)"
    by (rule awaitNamed_parts[OF nm])
  have w: "won res = Some ''register''" using a by (auto split: option.splits)
  from single_cas[OF b[unfolded awaitEvent_batch_def] inv_keys[OF assms(1)]]
    lease_batches_bounded(7)[of seed now queue task rid token step nm ms]
  obtain n ks where e: "exec_all (awaitEvent_batch seed now queue task rid token step nm ms) db = Inr (db', n # ks)" "n \<noteq> 0"
    using w by (auto simp: awaitEvent_batch_def registerWaitCas_def split: if_splits)
  obtain d2 n2 k2 where s: "s_exec (registerWaitCas seed now queue task rid token step nm ms) db = Inr (d2, n2)" "n # ks = n2 # k2"
    by (rule exec_cons[OF e(1)[unfolded awaitEvent_batch_def]])
  then have "register_admits now queue task rid token nm ms db" using e(2) by (auto simp: registerWaitCas_def split: if_splits)
  then show ?thesis by (simp add: register_admits_def)
qed

end
