(* ===== verification/Lifecycle.thy ===== *)
theory Lifecycle
  imports Engine
begin

text \<open>
  The promise the store makes of one task, as an abstract machine: a task that is not there may be
  spawned, an active one goes on or ends, only a failed one is revived, and a completed or a
  cancelled one stays. Every transaction of the engine, whichever of its statements act, is a run
  of that machine for every task at once. The locale says what it is for a system to refine
  another, and the engine interprets it for each task id.
\<close>

section \<open>Refinement\<close>

locale refinement =
  fixes step :: "'s \<Rightarrow> 's \<Rightarrow> bool" and astep :: "'a \<Rightarrow> 'a \<Rightarrow> bool" and abs :: "'s \<Rightarrow> 'a"
  assumes simulates: "step s s' \<Longrightarrow> astep\<^sup>*\<^sup>* (abs s) (abs s')"
begin

lemma steps_simulate: "step\<^sup>*\<^sup>* s s' \<Longrightarrow> astep\<^sup>*\<^sup>* (abs s) (abs s')"
  by (induction rule: rtranclp_induct) (auto dest: simulates)

text \<open>What the abstract machine never leaves, the system never leaves.\<close>

lemma trapped:
  assumes "\<And>a b. P a \<Longrightarrow> astep a b \<Longrightarrow> P b" "step\<^sup>*\<^sup>* s s'" "P (abs s)"
  shows "P (abs s')"
proof -
  have "astep\<^sup>*\<^sup>* (abs s) (abs s')" by (rule steps_simulate[OF assms(2)])
  then show ?thesis using assms(3) by (induction rule: rtranclp_induct) (auto intro: assms(1))
qed

end

section \<open>The abstract task\<close>

datatype status = Absent | Active | Ended lstate

inductive lifecycle :: "status \<Rightarrow> status \<Rightarrow> bool" where
  spawned: "lifecycle Absent Active"
| goes_on: "lifecycle Active Active"
| ends: "\<not> live s \<Longrightarrow> lifecycle Active (Ended s)"
| revived: "lifecycle (Ended Failed) Active"

inductive_cases from_ended: "lifecycle (Ended s) b"

definition status :: "task \<Rightarrow> status" where
  "status t = (if live (t_state t) then Active else Ended (t_state t))"

definition status_of :: "string \<Rightarrow> db \<Rightarrow> status" where
  "status_of tid db = (case task_of tid (tasks db) of None \<Rightarrow> Absent | Some t \<Rightarrow> status t)"

lemma active_anywhere: "live (t_state t) \<Longrightarrow> lifecycle (status t) (status t')"
  by (auto simp: status_def intro: lifecycle.intros)

section \<open>Statements\<close>

named_theorems track_intros "statements that move every task along its lifecycle"

definition tracks :: "stmt \<Rightarrow> bool" where
  "tracks s = (\<forall>db db' n tid. s_exec s db = Inr (db', n) \<longrightarrow> lifecycle\<^sup>*\<^sup>* (status_of tid db) (status_of tid db'))"

lemma status_same: "tasks db' = tasks db \<Longrightarrow> lifecycle\<^sup>*\<^sup>* (status_of tid db) (status_of tid db')"
  by (simp add: status_of_def)

lemma task_of_map:
  "(\<And>t. t \<in> set ts \<Longrightarrow> t_id (g t) = t_id t) \<Longrightarrow> task_of tid (map g ts) = map_option g (task_of tid ts)"
  by (induction ts) (auto simp: task_of_def)

lemma track_upd:
  assumes "\<And>t. t_id (f t) = t_id t" "\<And>t. p t \<Longrightarrow> lifecycle (status t) (status (f t))"
  shows "lifecycle\<^sup>*\<^sup>* (status_of tid db) (status_of tid (db\<lparr>tasks := update_where p f (tasks db)\<rparr>))"
proof -
  have "task_of tid (update_where p f (tasks db)) = map_option (\<lambda>t. if p t then f t else t) (task_of tid (tasks db))"
    unfolding update_where_def by (rule task_of_map) (simp add: assms(1))
  then show ?thesis using assms(2) by (auto simp: status_of_def split: option.splits)
qed

lemma track_generated [track_intros]:
  "(\<And>db t. t_id (g db t) = t_id t) \<Longrightarrow> (\<And>db t. nar db t \<Longrightarrow> live (t_state t)) \<Longrightarrow>
     tracks (runs_to_tasks seed name fence q w g nar rows)"
  "(\<And>db t. t_id (g db t) = t_id t) \<Longrightarrow> (\<And>db t. p db t \<Longrightarrow> lifecycle (status t) (status (g db t))) \<Longrightarrow>
     tracks (cas_tasks seed now name p g)"
proof -
  assume a: "\<And>db t. t_id (g db t) = t_id t" "\<And>db t. nar db t \<Longrightarrow> live (t_state t)"
  then show "tracks (runs_to_tasks seed name fence q w g nar rows)"
    by (auto simp: tracks_def runs_to_tasks_def upd_tasks_def Let_def intro!: track_upd active_anywhere)
next
  assume a: "\<And>db t. t_id (g db t) = t_id t" "\<And>db t. p db t \<Longrightarrow> lifecycle (status t) (status (g db t))"
  have "status (stamp_task seed name x t) = status t" for x t by (simp add: status_def stamp_task_def)
  then show "tracks (cas_tasks seed now name p g)"
    using a by (auto simp: tracks_def cas_tasks_def upd_tasks_def intro!: track_upd)
qed

lemma track_elsewhere [track_intros]:
  "tracks (cas_runs seed now name p f)" "tracks (cas_many_runs seed now name k p f)"
  "tracks (tasks_to_runs seed name fence q w2 f nar2 rows)"
  "tracks (waits_to_runs seed name fence q w3 f nar3 rows)"
  "tracks (runs_to_waits seed name fence w4 nar4)" "tracks (seal_runs seed name fence w5)"
  "tracks (checkpointWrite seed name fence rid cname state)"
  "tracks (failureSuccessor seed name fence sid rid st delay adm)"
  "tracks (wakeRunsUpdate seed queue ev)"
  "tracks (taskDoneEventInsert seed queue task terminal res)"
  "tracks (emitEventCas seed now queue ev payload)"
  "tracks (registerWaitCas seed now queue task rid token step name2 timeout)"
  "tracks (materializeTaskDoneCas seed now queue task rid token child payload cstamp)"
  "tracks (spawnRunInsert seed rid task)" "tracks (revivalRunInsert seed rid task)"
  by (auto simp: tracks_def cas_runs_def cas_many_runs_def tasks_to_runs_def waits_to_runs_def
      runs_to_waits_def seal_runs_def Let_def upd_runs_def del_waits_def checkpointWrite_def
      failureSuccessor_def wakeRunsUpdate_def taskDoneEventInsert_def emitEventCas_def
      registerWaitCas_def materializeTaskDoneCas_def spawnRunInsert_def revivalRunInsert_def ins_run_def
      split: list.splits prod.splits if_splits intro!: status_same)

lemma track_spawn [track_intros]: "tracks (spawnTaskCas seed now task rq)"
proof -
  have "task_of tid (ts @ [t]) = (case task_of tid ts of None \<Rightarrow> if t_id t = tid then Some t else None | Some u \<Rightarrow> Some u)"
    for tid t and ts by (induction ts) (auto simp: task_of_def)
  moreover have "status (spawned_task seed now task rq) = Active" by (simp add: status_def spawned_task_def)
  ultimately show ?thesis
    by (auto simp: tracks_def spawnTaskCas_def status_of_def split: option.splits intro: lifecycle.spawned)
qed

lemma exec_tracks:
  "exec_all ss db = Inr (db', ns) \<Longrightarrow> \<forall>s\<in>set ss. tracks s \<Longrightarrow> lifecycle\<^sup>*\<^sup>* (status_of tid db) (status_of tid db')"
proof (induction ss arbitrary: db ns)
  case (Cons s ss)
  obtain d n ms where "s_exec s db = Inr (d, n)" "exec_all ss d = Inr (db', ms)"
    using exec_cons[OF Cons.prems(1)] by metis
  then show ?case using Cons.IH Cons.prems(2) by (force simp: tracks_def intro: rtranclp_trans)
qed simp

lemma batch_tracks:
  assumes "run_batch ss db = (db', ans)" "list_all tracks ss"
  shows "lifecycle\<^sup>*\<^sup>* (status_of tid db) (status_of tid db')"
  using run_batch_exec[OF assms(1)] exec_tracks assms(2) by (auto simp: list_all_iff)

section \<open>Batches\<close>

lemma track_groups [track_intros]:
  "list_all tracks (finishSuspension seed queue rid)"
  "list_all tracks (wakeWaiters seed queue name wg)"
  "list_all tracks (taskDone seed queue task terminal res)"
  "list_all tracks (sagaPass seed queue rid passId fence entering delay adm)"
  "tracks (waitsGone seed rid after)"
  "tracks (fail_terminal seed name fl)"
  by (auto simp: finishSuspension_def taskMirrorsRun_def waitsGone_def wakeWaiters_def taskDone_def
      sagaPass_def fail_terminal_def split: option.splits intro!: track_intros)

lemma cancel_tracks:
  "cancel_admits now queue task dl us db t \<Longrightarrow> lifecycle (status t) (status (cancel_set now db t))"
  "revive_admits queue task db t \<Longrightarrow> lifecycle (status t) (status (revive_set rid db t))"
  by (auto simp: cancel_admits_def revive_admits_def revive_set_def status_def
      intro: active_anywhere lifecycle.intros)

lemma batches_track:
  "list_all tracks (heartbeat_batch seed now queue rid token ext)"
  "list_all tracks (setCheckpoint_batch seed now queue task rid token name state ext)"
  "list_all tracks (claim_batch seed now queue token lease limit)"
  "list_all tracks (activate_batch seed now queue rid token gen)"
  "list_all tracks (deferLaunch_batch seed now queue rid token gen plan)"
  "list_all tracks (reschedule_batch seed now queue rid token plan)"
  "list_all tracks (suspendRun_batch seed now queue rid token plan name state)"
  "list_all tracks (emitEvent_batch seed now queue name payload)"
  "list_all tracks (awaitEvent_batch seed now queue task rid token step ev timeout)"
  "list_all tracks (complete_batch seed now queue task rid token res)"
  "list_all tracks (failInto_batch seed now fl)"
  "list_all tracks (lostLaunch_batch seed sid now now2 queue task rid gen)"
  "list_all tracks (claimTimeout_batch seed sid now queue task rid gen)"
  "list_all tracks (cancel_batch seed now queue task dl us)"
  "list_all tracks (retryTask_batch seed rid now queue task)"
  "list_all tracks (spawn_batch seed now task rid rq)"
  by (auto simp: heartbeat_batch_def setCheckpoint_batch_def claim_batch_def activate_batch_def
      deferLaunch_batch_def reschedule_batch_def suspendRun_batch_def emitEvent_batch_def
      awaitEvent_batch_def complete_batch_def failInto_batch_def lostLaunch_batch_def
      claimTimeout_batch_def cancel_batch_def retryTask_batch_def spawn_batch_def
      list_all_append cancel_set_def revive_set_def
      split: option.splits intro!: track_intros cancel_tracks[unfolded cancel_set_def revive_set_def])

lemma txn_tracks: "txn db db' \<Longrightarrow> lifecycle\<^sup>*\<^sup>* (status_of tid db) (status_of tid db')"
proof (induction rule: txn.induct)
  case expire
  show ?case by (rule status_same) (simp add: expireLeaseNow_def Let_def)
next
  case beat
  then show ?case by (intro status_same) (auto simp: driverHeartbeat_def Let_def split: sum.splits if_splits)
next
  case materialize
  show ?case by (rule batch_tracks[OF materialize(3)]) (simp add: track_elsewhere)
qed (erule batch_tracks, rule batches_track)+

interpretation task_lifecycle: refinement txn lifecycle "status_of tid" for tid
  by unfold_locales (rule txn_tracks)

section \<open>With purges\<close>

text \<open>A purge takes an ended task away, and moves no other.\<close>

inductive kept_lifecycle :: "status \<Rightarrow> status \<Rightarrow> bool" where
  lives: "lifecycle a b \<Longrightarrow> kept_lifecycle a b"
| purged: "kept_lifecycle (Ended s) Absent"

lemma task_of_delete:
  "task_of tid (delete_where (\<lambda>t. t_id t = task) ts) = (if tid = task then None else task_of tid ts)"
  by (induction ts) (auto simp: task_of_def delete_where_def)

lemma purge_tracks:
  assumes "inv db" "fresh seed db" "run_batch (purge_batch seed now queue task key parent ws) db = (db', ans)"
  shows "kept_lifecycle\<^sup>*\<^sup>* (status_of tid db) (status_of tid db')"
proof (rule purge_batch_cases[OF inv_keys[OF assms(1)] assms(2,3)])
  fix t assume t: "t \<in> set (tasks db)" "purge_admits now queue task key parent ws db t" and d: "db' = unit_gone queue task db"
  have "t_id t = task" "\<not> live (t_state t)" using t(2) by (auto simp: purge_admits_def endedAWindowAgo_def TERMINAL_STATES_def)
  moreover have "task_of task (tasks db) = Some t"
    using task_table.lookup_in[OF keys_okD(1)[OF inv_keys[OF assms(1)]] t(1)] \<open>t_id t = task\<close> by simp
  ultimately have "status_of task db = Ended (t_state t)" by (simp add: status_of_def status_def)
  moreover have "status_of tid db' = (if tid = task then Absent else status_of tid db)"
    by (simp add: status_of_def d task_of_delete)
  ultimately show ?thesis using kept_lifecycle.purged by (cases "tid = task") auto
qed simp

lemma step_tracks: "store_step db db' \<Longrightarrow> inv db \<Longrightarrow> kept_lifecycle\<^sup>*\<^sup>* (status_of tid db) (status_of tid db')"
proof (induction rule: store_step.induct)
  case (transaction db db')
  then have "lifecycle\<^sup>*\<^sup>* (status_of tid db) (status_of tid db')" by (rule_tac txn_tracks)
  then show ?case by (rule mono_rtranclp[rule_format, rotated]) (rule kept_lifecycle.lives)
qed (rule purge_tracks)

lemma inv_steps: "store_step\<^sup>*\<^sup>* db db' \<Longrightarrow> inv db \<Longrightarrow> (\<lambda>a b. inv a \<and> store_step a b)\<^sup>*\<^sup>* db db'"
  by (induction rule: rtranclp_induct) (auto intro: rtranclp.rtrancl_into_rtrancl retained.steps_good)

interpretation kept_task: refinement "\<lambda>db db'. inv db \<and> store_step db db'" kept_lifecycle "status_of tid" for tid
  by unfold_locales (use step_tracks in blast)

end
