(* ===== verification/Names.thy ===== *)
theory Names
  imports Sweep Child_Tasks
begin

text \<open>
  Names, stamps and instants that are read back: the stamp of a statement parses to its seed and
  its name, the range of a reserved prefix holds exactly the names under it, and the next wake of
  a queue is the earliest instant anything in it comes due.
\<close>

section \<open>Stamps\<close>

lemma fence_name_no_colon: "isFenceStatementName name \<Longrightarrow> CHR '':'' \<notin> set name"
proof
  assume n: "isFenceStatementName name" "CHR '':'' \<in> set name"
  then have "fence_name_char (CHR '':'')" by (auto simp: isFenceStatementName_def list_all_iff)
  then show False by (simp add: fence_name_char_def less_eq_char_def)
qed

lemma parse_stamp:
  assumes "seed \<noteq> []" "isFenceStatementName name"
  shows "parseFenceStamp (stamp seed name) = Inr (seed, name)"
proof -
  have lc: "last_colon (seed @ CHR '':'' # name) = Some (length seed)"
    by (rule last_colon_append[OF fence_name_no_colon[OF assms(2)]])
  have ne: "name \<noteq> []" using assms(2) by (simp add: isFenceStatementName_def)
  show ?thesis
    unfolding parseFenceStamp_def stamp_def append_Cons append_Nil lc using assms ne by simp
qed

lemma parse_stamp_sound:
  assumes "parseFenceStamp s = Inr (seed, name)"
  shows "s = stamp seed name \<and> seed \<noteq> [] \<and> isFenceStatementName name"
proof -
  obtain i where i: "last_colon s = Some i" "i \<noteq> 0" "isFenceStatementName (drop (i + 1) s)"
    "seed = take i s" "name = drop (i + 1) s"
    using assms by (auto simp: parseFenceStamp_def Let_def split: option.splits if_splits)
  note c = last_colon_Some[OF i(1)]
  have "s = take i s @ CHR '':'' # drop (i + 1) s" using c id_take_nth_drop[of i s] by simp
  then show ?thesis using i c by (auto simp: stamp_def)
qed

section \<open>The next wake\<close>

definition comes_due :: "string \<Rightarrow> db \<Rightarrow> int \<Rightarrow> bool" where
  "comes_due queue db n =
     ((\<exists>r\<in>set (runs db). r_queue r = queue \<and> (r_state r = Pending \<or> r_state r = Sleeping) \<and> r_available r = Num n) \<or>
      (\<exists>r\<in>set (runs db). r_queue r = queue \<and> r_state r = Running \<and> r_expires r = Num n) \<or>
      (\<exists>t\<in>set (tasks db). t_queue t = queue \<and> live (t_state t) \<and> t_cancel_at t = Num n))"

lemma sql_min_Num:
  assumes "\<forall>c\<in>set cs. c \<noteq> Null \<longrightarrow> (\<exists>a. c = Num a \<and> P a)"
  shows "sql_min cs = Null \<or> (\<exists>a. sql_min cs = Num a \<and> P a)"
  using sql_min_in[of cs] assms by (cases "sql_min cs = Null") auto

lemma within_epoch: "stored_within epoch_bounds c \<longleftrightarrow> (\<exists>a. c = Num a \<and> 0 \<le> a \<and> a \<le> MAX_EPOCH_MS)"
  by (auto simp: stored_within_iff epoch_bounds_def)

text \<open>The instants the four legs of the query read.\<close>

definition wake_legs :: "string \<Rightarrow> db \<Rightarrow> cell list list" where
  "wake_legs queue db =
     [map r_available (filter (\<lambda>r. r_queue r = queue \<and> r_state r = Pending \<and> stored_within epoch_bounds (r_available r)) (runs db)),
      map r_available (filter (\<lambda>r. r_queue r = queue \<and> r_state r = Sleeping \<and> stored_within epoch_bounds (r_available r)) (runs db)),
      map r_expires (filter (\<lambda>r. r_queue r = queue \<and> r_state r = Running \<and> stored_within epoch_bounds (r_expires r)) (runs db)),
      map t_cancel_at (filter (\<lambda>t. t_queue t = queue \<and> live (t_state t) \<and> stored_within epoch_bounds (t_cancel_at t)) (tasks db))]"

lemma next_wake_legs: "next_wake queue db = sql_min (map sql_min (wake_legs queue db))"
  by (simp add: next_wake_def wake_legs_def)

lemma in_legs:
  "(\<exists>l\<in>set (wake_legs queue db). c \<in> set l) \<longleftrightarrow> (\<exists>n. c = Num n \<and> 0 \<le> n \<and> n \<le> MAX_EPOCH_MS \<and> comes_due queue db n)"
  by (auto simp: wake_legs_def comes_due_def within_epoch image_iff)

lemma min_of_legs:
  assumes "\<forall>l\<in>set ls. \<forall>c\<in>set l. \<exists>n. c = Num n"
  shows "sql_min (map sql_min ls) = Null \<longleftrightarrow> (\<forall>l\<in>set ls. l = [])"
    "sql_min (map sql_min ls) = Null \<or> (\<exists>l\<in>set ls. sql_min (map sql_min ls) \<in> set l)"
    "l \<in> set ls \<Longrightarrow> c \<in> set l \<Longrightarrow> sql_min (map sql_min ls) \<le> c"
proof -
  have nn: "c \<noteq> Null" if "l \<in> set ls" "c \<in> set l" for l c using assms that by fastforce
  have leg: "sql_min l = Null \<longleftrightarrow> l = []" if "l \<in> set ls" for l
    unfolding sql_min_Null using nn[OF that] by (cases l) auto
  show "sql_min (map sql_min ls) = Null \<longleftrightarrow> (\<forall>l\<in>set ls. l = [])"
    unfolding sql_min_Null using leg by auto
  show "sql_min (map sql_min ls) = Null \<or> (\<exists>l\<in>set ls. sql_min (map sql_min ls) \<in> set l)"
    using sql_min_in[of "map sql_min ls"] sql_min_in by fastforce
  assume l: "l \<in> set ls" "c \<in> set l"
  have "sql_min (map sql_min ls) \<le> sql_min l"
    by (rule sql_min_le) (use l leg[OF l(1)] in auto)
  also have "\<dots> \<le> c" by (rule sql_min_le[OF l(2) nn[OF l]])
  finally show "sql_min (map sql_min ls) \<le> c" .
qed

lemma next_wake_earliest:
  assumes "nextWakeAtEpochMs queue db = Inr x"
  shows "case x of
      None \<Rightarrow> \<not> (\<exists>n. 0 \<le> n \<and> n \<le> MAX_EPOCH_MS \<and> comes_due queue db n)
    | Some w \<Rightarrow> comes_due queue db w \<and> 0 \<le> w \<and> w \<le> MAX_EPOCH_MS \<and>
        (\<forall>n. 0 \<le> n \<and> n \<le> MAX_EPOCH_MS \<and> comes_due queue db n \<longrightarrow> w \<le> n)"
proof -
  let ?ls = "wake_legs queue db"
  have num: "\<forall>l\<in>set ?ls. \<forall>c\<in>set l. \<exists>n. c = Num n" using in_legs[of queue db] by blast
  note m = min_of_legs[OF num]
  have leg: "\<exists>l\<in>set ?ls. Num n \<in> set l" if "0 \<le> n" "n \<le> MAX_EPOCH_MS" "comes_due queue db n" for n
    using in_legs[of queue db "Num n"] that by blast
  show ?thesis
  proof (cases "next_wake queue db = Null")
    case True
    then have "\<forall>l\<in>set ?ls. l = []" using m(1) by (simp add: next_wake_legs)
    moreover have "x = None" using assms True by (simp add: nextWakeAtEpochMs_def)
    ultimately show ?thesis using leg by fastforce
  next
    case False
    then obtain l where "l \<in> set ?ls" "next_wake queue db \<in> set l" using m(2) by (auto simp: next_wake_legs)
    then obtain w where w: "next_wake queue db = Num w" "0 \<le> w" "w \<le> MAX_EPOCH_MS" "comes_due queue db w"
      using in_legs[of queue db "next_wake queue db"] by blast
    have "x = Some w" using assms w by (simp add: nextWakeAtEpochMs_def persisted_integer_def epoch_bounds_def)
    moreover have "w \<le> n" if n: "0 \<le> n" "n \<le> MAX_EPOCH_MS" "comes_due queue db n" for n
    proof -
      obtain l where "l \<in> set ?ls" "Num n \<in> set l" using leg[OF n] by blast
      then have "next_wake queue db \<le> Num n" unfolding next_wake_legs by (rule m(3))
      then show ?thesis using w(1) by simp
    qed
    ultimately show ?thesis using w by simp
  qed
qed

lemma next_wake_total: "\<exists>x. nextWakeAtEpochMs queue db = Inr x"
proof (cases "next_wake queue db = Null")
  case False
  have num: "\<forall>l\<in>set (wake_legs queue db). \<forall>c\<in>set l. \<exists>n. c = Num n" using in_legs[of queue db] by blast
  obtain l where "l \<in> set (wake_legs queue db)" "next_wake queue db \<in> set l"
    using min_of_legs(2)[OF num] False by (auto simp: next_wake_legs)
  then obtain w where "next_wake queue db = Num w" "0 \<le> w" "w \<le> MAX_EPOCH_MS"
    using in_legs[of queue db "next_wake queue db"] by blast
  then show ?thesis by (simp add: nextWakeAtEpochMs_def persisted_integer_def epoch_bounds_def)
qed (simp add: nextWakeAtEpochMs_def)

section \<open>The sweep's budget\<close>

lemma collect_expired_bound:
  "collect_expired budget rs items = Inr out \<Longrightarrow> length items \<le> budget \<Longrightarrow> length out \<le> budget"
  by (induction budget rs items arbitrary: out rule: collect_expired.induct) (auto split: if_splits sum.splits)

lemma sweep_items_bound:
  assumes "sweep_items now now2 queue budget db = Inr items"
  shows "length items \<le> budget"
  by (rule collect_expired_bound[OF assms[unfolded sweep_items_def]]) simp

end
