(* ===== verification/Payload.thy ===== *)
theory Payload
  imports Child_Tasks
begin

text \<open>
  The payload of a completion event, read back. \<open>encodeTaskOutcome\<close> writes an object of strings
  with \<open>JSON.stringify\<close>, and a parent's await reads it with \<open>JSON.parse\<close> and
  \<open>decodeTaskOutcome\<close>. The parser here is \<open>JSON.parse\<close> on such objects: the escapes of a JSON
  string, no white space between tokens, control characters refused.
\<close>

section \<open>Strings\<close>

definition hex_value :: "char \<Rightarrow> nat option" where
  "hex_value c =
     (let n = of_char c in
      if 48 \<le> n \<and> n \<le> (57::nat) then Some (n - 48)
      else if 97 \<le> n \<and> n \<le> 102 then Some (n - 87)
      else if 65 \<le> n \<and> n \<le> 70 then Some (n - 55) else None)"

definition hex_char :: "char \<Rightarrow> char \<Rightarrow> char \<Rightarrow> char \<Rightarrow> char option" where
  "hex_char a b c d =
     (case (hex_value a, hex_value b, hex_value c, hex_value d) of
        (Some w, Some x, Some y, Some z) \<Rightarrow>
          if w = 0 \<and> x = 0 then Some (char_of (16 * y + z)) else None
      | _ \<Rightarrow> None)"

definition unescape :: "char \<Rightarrow> char option" where
  "unescape c =
     map_of [(CHR 0x22, CHR 0x22), (CHR 0x5C, CHR 0x5C), (CHR ''/'', CHR ''/''), (CHR ''b'', char_of (8::nat)),
             (CHR ''f'', char_of (12::nat)), (CHR ''n'', char_of (10::nat)), (CHR ''r'', char_of (13::nat)),
             (CHR ''t'', char_of (9::nat))] c"

fun push :: "char \<Rightarrow> (string \<times> string) option \<Rightarrow> (string \<times> string) option" where
  "push c None = None"
| "push c (Some (s, rest)) = Some (c # s, rest)"

text \<open>The rest of a string after its opening quote, up to the closing one.\<close>

fun unquote :: "string \<Rightarrow> (string \<times> string) option" where
  "unquote [] = None"
| "unquote (c # s) =
     (if c = CHR 0x22 then Some ([], s)
      else if c = CHR 0x5C then
        (case s of
           [] \<Rightarrow> None
         | e # s1 \<Rightarrow>
             if e = CHR ''u'' then
               (case s1 of
                  h1 # h2 # h3 # h4 # s2 \<Rightarrow>
                    (case hex_char h1 h2 h3 h4 of None \<Rightarrow> None | Some x \<Rightarrow> push x (unquote s2))
                | _ \<Rightarrow> None)
             else (case unescape e of None \<Rightarrow> None | Some x \<Rightarrow> push x (unquote s1)))
      else if of_char c < (32::nat) then None
      else push c (unquote s))"

lemma hex_digit_value: "n < 16 \<Longrightarrow> hex_value (hex_digit n) = Some n"
proof -
  assume n: "n < 16"
  have "list_all (\<lambda>n. hex_value (hex_digit n) = Some n) [0..<16]" by code_simp
  then show ?thesis using n unfolding list_all_iff set_upt by simp
qed

lemma of_char_eqD: "of_char c = (n::nat) \<Longrightarrow> c = char_of n"
  by (metis char_of_char)

lemma unquote_quote_char: "unquote (quote_char c @ s) = push c (unquote s)"
proof -
  let ?n = "of_char c :: nat"
  consider "c = CHR 0x22" | "c = CHR 0x5C" | "?n = 8" | "?n = 9" | "?n = 10" | "?n = 12" | "?n = 13"
    | "c \<noteq> CHR 0x22" "c \<noteq> CHR 0x5C" "?n \<notin> {8, 9, 10, 12, 13}" "?n < 32"
    | "c \<noteq> CHR 0x22" "c \<noteq> CHR 0x5C" "?n \<notin> {8, 9, 10, 12, 13}" "\<not> ?n < 32" by blast
  then show ?thesis
  proof cases
    case 8
    have "?n mod 16 < 16" "?n div 16 < 16" using 8(4) by simp_all
    then have "hex_char (CHR ''0'') (CHR ''0'') (hex_digit (?n div 16)) (hex_digit ?n) = Some (char_of (16 * (?n div 16) + ?n mod 16))"
      using hex_digit_value[of "?n mod 16"] hex_digit_value[of "?n div 16"]
      by (simp add: hex_char_def hex_value_def hex_digit_def)
    then have "hex_char (CHR ''0'') (CHR ''0'') (hex_digit (?n div 16)) (hex_digit ?n) = Some c" by simp
    then show ?thesis using 8 by (simp add: quote_char_def Let_def)
  next
    case 9
    then show ?thesis by (simp add: quote_char_def Let_def)
  qed (auto simp: quote_char_def Let_def unescape_def dest: of_char_eqD)
qed

lemma unquote_quote: "unquote (concat (map quote_char s) @ CHR 0x22 # rest) = Some (s, rest)"
  by (induction s) (simp_all add: unquote_quote_char)

section \<open>Objects of strings\<close>

definition quoted :: "string \<Rightarrow> (string \<times> string) option" where
  "quoted s = (case s of [] \<Rightarrow> None | c # s1 \<Rightarrow> if c = CHR 0x22 then unquote s1 else None)"

lemma quoted_json: "quoted (json_quote s @ rest) = Some (s, rest)"
  by (simp add: quoted_def json_quote_def unquote_quote)

text \<open>The members up to the closing brace. Each step reads at least a quote, so the fuel of the
  text's length is enough.\<close>

fun parse_members :: "nat \<Rightarrow> string \<Rightarrow> (string \<times> string) list option" where
  "parse_members 0 s = None"
| "parse_members (Suc k) s =
     (case quoted s of
        Some (name, c # s1) \<Rightarrow>
          if c \<noteq> CHR '':'' then None
          else (case quoted s1 of
            Some (v, d # s2) \<Rightarrow>
              if d = CHR ''}'' \<and> s2 = [] then Some [(name, v)]
              else if d = CHR '','' then map_option (Cons (name, v)) (parse_members k s2)
              else None
          | _ \<Rightarrow> None)
      | _ \<Rightarrow> None)"

definition parse_object :: "string \<Rightarrow> json option" where
  "parse_object s =
     (case s of
        [] \<Rightarrow> None
      | c # s1 \<Rightarrow>
          if c \<noteq> CHR ''{'' then None
          else map_option (\<lambda>ms. JObject (map (\<lambda>(k, v). (k, JText v)) ms)) (parse_members (length s1) s1))"

lemma parse_fields:
  "ms \<noteq> [] \<Longrightarrow> length ms \<le> k \<Longrightarrow> parse_members k (json_fields ms @ ''}'') = Some ms"
proof (induction ms arbitrary: k rule: json_fields.induct)
  case (2 key v)
  then obtain j where "k = Suc j" by (cases k) auto
  then show ?case by (simp add: quoted_json)
next
  case (3 key v m ms)
  then obtain j where j: "k = Suc j" "length (m # ms) \<le> j" by (cases k) auto
  then show ?case using 3(1)[of j] by (simp add: quoted_json)
qed simp

lemma json_fields_length: "length ms \<le> length (json_fields ms)"
proof (induction ms rule: json_fields.induct)
  case (2 k v)
  then show ?case by (simp add: json_quote_def)
next
  case (3 k v m ms)
  then show ?case by simp
qed simp

lemma parse_encoded:
  "parse_object (encodeTaskOutcome res) = Some (JObject (map (\<lambda>(k, v). (k, JText v)) (outcome_fields res)))"
proof -
  define ms where "ms = outcome_fields res"
  have "ms \<noteq> []" by (simp add: ms_def outcome_fields_def)
  moreover have "length ms \<le> length (json_fields ms @ ''}'')" using json_fields_length[of ms] by simp
  ultimately have "parse_members (length (json_fields ms @ ''}'')) (json_fields ms @ ''}'') = Some ms"
    by (rule parse_fields)
  then show ?thesis unfolding ms_def[symmetric] encodeTaskOutcome_def parse_object_def
    by (simp del: parse_members.simps)
qed

text \<open>An outcome that has ended and contradicts nothing is what its payload decodes to.\<close>

lemma decode_encoded:
  assumes "\<not> live (o_state res)" "contradictionsOf res = []"
  shows "decodeTaskOutcome task (parse_object (encodeTaskOutcome res)) = Inr res"
proof -
  have f: "o_completed res = None \<or> (\<exists>v. o_completed res = Some v)" "o_failure res = None \<or> (\<exists>v. o_failure res = Some v)"
    by auto
  obtain st c f where res: "res = \<lparr>o_state = st, o_completed = c, o_failure = f\<rparr>" by (cases res) auto
  show ?thesis
    using assms unfolding parse_encoded
    by (cases c; cases f) (simp_all add: res outcome_fields_def decodeTaskOutcome_def text_field_def)
qed

end
