(* ===== verification/Child_Results.thy ===== *)
theory Child_Results
  imports Event_Facts Payload Outcomes
begin

text \<open>
  What a parent learns of its child. A caller cannot emit a completion event, so every one that is
  recorded carries an outcome its task had when it ended, written by the batch that ended it. An
  await of a child that has ended therefore answers at once and the answer decodes.
\<close>

section \<open>Every completion event carries an outcome\<close>

definition ended_outcome :: "outcome \<Rightarrow> bool" where
  "ended_outcome res = (\<not> live (o_state res) \<and> contradictionsOf res = [])"

definition outcomes_recorded :: "db \<Rightarrow> bool" where
  "outcomes_recorded db =
     (\<forall>e\<in>set (events db). \<forall>task. e_name e = taskDoneEventName task \<longrightarrow>
        (\<exists>res. ended_outcome res \<and> e_payload e = Text (encodeTaskOutcome res)))"

named_theorems record_intros "statements that record outcomes only"

definition records :: "stmt \<Rightarrow> bool" where
  "records s = (\<forall>db db' n. s_exec s db = Inr (db', n) \<and> outcomes_recorded db \<longrightarrow> outcomes_recorded db')"

lemma recorded_same: "events db' = events db \<Longrightarrow> outcomes_recorded db \<Longrightarrow> outcomes_recorded db'"
  by (simp add: outcomes_recorded_def)

lemma records_same: "(\<And>db db' n. s_exec s db = Inr (db', n) \<Longrightarrow> events db' = events db) \<Longrightarrow> records s"
  using recorded_same by (auto simp: records_def)

lemma records_elsewhere [record_intros]:
  "records (cas_runs seed now name p f)" "records (cas_many_runs seed now name k p f)"
  "records (cas_tasks seed now name tp tf)"
  "records (runs_to_tasks seed name fence q w g nar rows)"
  "records (tasks_to_runs seed name fence q w2 f nar2 rows)"
  "records (waits_to_runs seed name fence q w3 f nar3 rows)"
  "records (runs_to_waits seed name fence w4 nar4)" "records (seal_runs seed name fence w5)"
  "records (checkpointWrite seed name fence rid cname state)"
  "records (failureSuccessor seed name fence sid rid st delay adm)"
  "records (wakeRunsUpdate seed queue ev)"
  "records (registerWaitCas seed now queue task rid token step name2 timeout)"
  "records (spawnRunInsert seed rid task)" "records (revivalRunInsert seed rid task)"
  "records (spawnTaskCas seed now task rq)"
  by (rule records_same; auto simp: cas_runs_def cas_many_runs_def cas_tasks_def runs_to_tasks_def tasks_to_runs_def
      waits_to_runs_def runs_to_waits_def seal_runs_def Let_def upd_runs_def upd_tasks_def del_waits_def
      checkpointWrite_def failureSuccessor_def wakeRunsUpdate_def registerWaitCas_def spawnRunInsert_def
      revivalRunInsert_def spawnTaskCas_def ins_run_def
      split: list.splits prod.splits if_splits)+

lemma user_name_not_done: "\<not> prefix RESERVED_EVENT_PREFIX name \<Longrightarrow> name \<noteq> taskDoneEventName task"
  by (auto simp: taskDoneEventName_def TASK_DONE_EVENT_PREFIX_def RESERVED_EVENT_PREFIX_def)

lemma recorded_append:
  "outcomes_recorded (db\<lparr>events := events db @ [e]\<rparr>) =
     (outcomes_recorded db \<and> (\<forall>task. e_name e = taskDoneEventName task \<longrightarrow>
        (\<exists>res. ended_outcome res \<and> e_payload e = Text (encodeTaskOutcome res))))"
  by (auto simp: outcomes_recorded_def)

lemma recorded_update:
  assumes "\<And>e. e_name (f e) = e_name e \<and> e_payload (f e) = e_payload e" "outcomes_recorded db"
  shows "outcomes_recorded (db\<lparr>events := update_where p f (events db)\<rparr>)"
  unfolding outcomes_recorded_def
proof (intro ballI allI impI)
  fix e task assume "e \<in> set (events (db\<lparr>events := update_where p f (events db)\<rparr>))" and n: "e_name e = taskDoneEventName task"
  then obtain x where x: "x \<in> set (events db)" "e_name e = e_name x" "e_payload e = e_payload x"
    using assms(1) by (auto simp: set_update_where)
  then show "\<exists>res. ended_outcome res \<and> e_payload e = Text (encodeTaskOutcome res)"
    using assms(2) n unfolding outcomes_recorded_def by metis
qed

lemma records_events [record_intros]:
  "ended_outcome res \<Longrightarrow> records (taskDoneEventInsert seed queue task terminal res)"
  "\<not> prefix RESERVED_EVENT_PREFIX name \<Longrightarrow> records (emitEventCas seed now queue name payload)"
proof -
  assume res: "ended_outcome res"
  show "records (taskDoneEventInsert seed queue task terminal res)"
    unfolding records_def
  proof (intro allI impI, elim conjE)
    fix db db' n assume e: "s_exec (taskDoneEventInsert seed queue task terminal res) db = Inr (db', n)" and o: "outcomes_recorded db"
    show "outcomes_recorded db'"
    proof (cases "db' = db")
      case False
      then obtain x where "db' = db\<lparr>events := events db @ [x]\<rparr>" "e_payload x = Text (encodeTaskOutcome res)"
        using e by (auto simp: taskDoneEventInsert_def split: list.splits)
      then show ?thesis using o res recorded_append by blast
    qed (use o in simp)
  qed
next
  assume user: "\<not> prefix RESERVED_EVENT_PREFIX name"
  show "records (emitEventCas seed now queue name payload)"
    unfolding records_def
  proof (intro allI impI, elim conjE)
    fix db db' n assume e: "s_exec (emitEventCas seed now queue name payload) db = Inr (db', n)" and o: "outcomes_recorded db"
    show "outcomes_recorded db'"
    proof (cases "(queue, name) \<in> e_key ` set (events db)")
      case True
      then show ?thesis using e recorded_update[OF _ o] by (auto simp: emitEventCas_def Let_def)
    next
      case False
      then obtain x where "db' = db\<lparr>events := events db @ [x]\<rparr>" "e_name x = name"
        using e by (auto simp: emitEventCas_def)
      then show ?thesis using o user_name_not_done[OF user] recorded_append by metis
    qed
  qed
qed

lemma ended_shapes [simp]:
  "ended_outcome (completed_with payload)" "ended_outcome (failed_with reason)" "ended_outcome (cancelled_with reason)"
  by (simp_all add: ended_outcome_def completed_with_def failed_with_def cancelled_with_def contradictionsOf_def)

lemma exec_records: "exec_all ss db = Inr (db', ns) \<Longrightarrow> \<forall>s\<in>set ss. records s \<Longrightarrow> outcomes_recorded db \<Longrightarrow> outcomes_recorded db'"
proof (induction ss arbitrary: db ns)
  case (Cons s ss)
  obtain d n ms where e: "s_exec s db = Inr (d, n)" "exec_all ss d = Inr (db', ms)"
    using exec_cons[OF Cons.prems(1)] .
  have "records s" using Cons.prems(2) by simp
  then have "outcomes_recorded d" using e(1) Cons.prems(3) unfolding records_def by blast
  then show ?case using Cons.IH[OF e(2)] Cons.prems(2) by simp
qed simp

lemma batch_records:
  assumes "run_batch ss db = (db', ans)" "outcomes_recorded db" "list_all records ss"
  shows "outcomes_recorded db'"
  using run_batch_exec[OF assms(1)] exec_records assms(2,3) by (auto simp: list_all_iff)

lemma record_groups [record_intros]:
  "list_all records (finishSuspension seed queue rid)"
  "list_all records (wakeWaiters seed queue name wg)"
  "ended_outcome res \<Longrightarrow> list_all records (taskDone seed queue task terminal res)"
  "list_all records (sagaPass seed queue rid passId fence entering delay adm)"
  "records (waitsGone seed rid after)"
  "records (fail_terminal seed name fl)"
  by (auto simp: finishSuspension_def taskMirrorsRun_def waitsGone_def wakeWaiters_def taskDone_def
      sagaPass_def fail_terminal_def split: option.splits intro!: record_intros)

lemma batches_record:
  "list_all records (heartbeat_batch seed now queue rid token ext)"
  "list_all records (setCheckpoint_batch seed now queue task rid token name state ext)"
  "list_all records (claim_batch seed now queue token lease limit)"
  "list_all records (activate_batch seed now queue rid token gen)"
  "list_all records (deferLaunch_batch seed now queue rid token gen plan)"
  "list_all records (reschedule_batch seed now queue rid token plan)"
  "list_all records (suspendRun_batch seed now queue rid token plan name state)"
  "\<not> prefix RESERVED_EVENT_PREFIX name \<Longrightarrow> list_all records (emitEvent_batch seed now queue name payload)"
  "list_all records (awaitEvent_batch seed now queue task rid token step ev timeout)"
  "list_all records (complete_batch seed now queue task rid token res)"
  "list_all records (failInto_batch seed now fl)"
  "list_all records (lostLaunch_batch seed sid now now2 queue task rid gen)"
  "list_all records (claimTimeout_batch seed sid now queue task rid gen)"
  "list_all records (cancel_batch seed now queue task dl us)"
  "list_all records (retryTask_batch seed rid now queue task)"
  "list_all records (spawn_batch seed now task rid rq)"
  by (auto simp: heartbeat_batch_def setCheckpoint_batch_def claim_batch_def activate_batch_def
      deferLaunch_batch_def reschedule_batch_def suspendRun_batch_def emitEvent_batch_def
      awaitEvent_batch_def complete_batch_def failInto_batch_def lostLaunch_batch_def
      claimTimeout_batch_def cancel_batch_def retryTask_batch_def spawn_batch_def
      list_all_append split: option.splits intro!: record_intros)

lemma txn_records: "txn db db' \<Longrightarrow> inv db \<Longrightarrow> outcomes_recorded db \<Longrightarrow> outcomes_recorded db'"
proof (induction rule: txn.induct)
  case expire
  show ?case by (rule recorded_same[OF _ expire(3)]) (simp add: expireLeaseNow_def Let_def)
next
  case beat
  then show ?case by (intro recorded_same[OF _ beat(3)]) (auto simp: driverHeartbeat_def Let_def split: sum.splits if_splits)
next
  case materialize
  then show ?case using materialize_same by blast
qed (erule batch_records, assumption, (rule batches_record, assumption?))+

interpretation completion_events: invariant_system empty_db store_step "\<lambda>db. inv db \<and> outcomes_recorded db"
proof
  show "inv empty_db \<and> outcomes_recorded empty_db" by (simp add: inv_empty) (simp add: outcomes_recorded_def empty_db_def)
  show "inv db' \<and> outcomes_recorded db'" if "inv db \<and> outcomes_recorded db" "store_step db db'" for db db'
    using that(2)
  proof cases
    case transaction
    then show ?thesis using that(1) txn_inv txn_records by blast
  next
    case (purge seed key parent now queue task ws ans)
    then have "set (events db') \<subseteq> set (events db)"
      using that(1) by (elim purge_batch_cases[OF inv_keys, rotated 2]) auto
    then show ?thesis using that store_step_inv unfolding outcomes_recorded_def by blast
  qed
qed

lemma recorded_decodes:
  assumes "outcomes_recorded db" "e \<in> set (events db)" "e_name e = taskDoneEventName child"
  shows "\<exists>p res. e_payload e = Text p \<and> ended_outcome res \<and> decodeTaskOutcome child (parse_object p) = Inr res"
  using assms decode_encoded by (fastforce simp: outcomes_recorded_def ended_outcome_def)

section \<open>The await of a child that has ended\<close>

text \<open>The first batch hits: it registers nothing and reads the event the ending recorded.\<close>

lemma ended_child_hits:
  assumes "inv db" "fresh seed db" "t \<in> set (tasks db)" "t_id t = child" "t_queue t = queue" "\<not> live (t_state t)"
    "stillClaimed queue rid task token (\<lambda>t. live (t_state t)) db"
    "timeout = None \<or> (\<exists>s ms. timeout = Some s \<and> durationToMs ''timeoutSeconds'' s True = Inr ms)"
  shows "\<exists>e. e \<in> set (events db) \<and> e_name e = taskDoneEventName child \<and>
    awaitNamedEvent seed now queue task rid token step (TaskDone child) timeout db = (db, Inr (Some (Emitted (e_payload e))))"
proof -
  have ev: "(queue, taskDoneEventName child) \<in> e_key ` set (events db)"
    using inv_unit[OF assms(1,3)] assms(4-6) by (auto simp: unit_ok_def event_keys_def)
  obtain e where e: "event_of (queue, taskDoneEventName child) (events db) = Some e"
    using ev by (cases "event_of (queue, taskDoneEventName child) (events db)") (auto simp: event_of_def find_None_iff)
  then have mem: "e \<in> set (events db)" "e_key e = (queue, taskDoneEventName child)"
    by (auto simp: event_of_def find_Some_iff)
  have is_text: "is_text_cell (e_payload e)" using assms(1) mem(1) by (auto simp: inv_def rows_ok_def event_ok_def)
  have em: "emittedEvent queue (TaskDone child) task rid token db = Some e" using e assms(7) by (simp add: emittedEvent_def)
  have b: "\<exists>res. run_batch (awaitEvent_batch seed now queue task rid token step (TaskDone child) ms) db = (db, Inr res)" for ms
  proof -
    obtain db' ans where r: "run_batch (awaitEvent_batch seed now queue task rid token step (TaskDone child) ms) db = (db', ans)" by force
    let ?ss = "awaitEvent_batch seed now queue task rid token step (TaskDone child) ms"
    have no: "\<not> register_admits now queue task rid token (TaskDone child) ms db" using ev by (simp add: register_admits_def)
    have "s_exec (registerWaitCas seed now queue task rid token step (TaskDone child) ms) db = Inr (db, 0)"
      using no by (simp add: registerWaitCas_def)
    moreover have "\<forall>s\<in>set (tl (awaitEvent_batch seed now queue task rid token step (TaskDone child) ms)).
        s_kind s = FollowOn \<and> loses_quietly seed s" by (auto simp: awaitEvent_batch_def)
    ultimately have x: "\<exists>ns. exec_all (awaitEvent_batch seed now queue task rid token step (TaskDone child) ms) db = Inr (db, ns)"
      using exec_followons_fresh[OF assms(2), of "tl (awaitEvent_batch seed now queue task rid token step (TaskDone child) ms)"]
      by (simp add: awaitEvent_batch_def)
    have "(\<exists>e. ans = Inl e \<and> db' = db \<and> exec_all ?ss db = Inl e) \<or> (\<exists>res. ans = Inr res \<and> (\<exists>ns. exec_all ?ss db = Inr (db', ns)))"
      using single_cas[OF r[unfolded awaitEvent_batch_def] inv_keys[OF assms(1)]]
        store_batch_shape[OF store_batch.intros(8)[of seed now queue task rid token step "TaskDone child" ms]]
      by (simp add: awaitEvent_batch_def) blast
    then show ?thesis using r x by auto
  qed
  show ?thesis
  proof (intro exI conjI)
    show "awaitNamedEvent seed now queue task rid token step (TaskDone child) timeout db = (db, Inr (Some (Emitted (e_payload e))))"
      using assms(8)
    proof
      assume "timeout = None"
      then show ?thesis using b[of None] em is_text by (auto simp: awaitNamedEvent_def)
    next
      assume "\<exists>s ms. timeout = Some s \<and> durationToMs ''timeoutSeconds'' s True = Inr ms"
      then obtain s ms where "timeout = Some s" "durationToMs ''timeoutSeconds'' s True = Inr ms" by blast
      then show ?thesis using b[of "Some ms"] em is_text by (auto simp: awaitNamedEvent_def)
    qed
  qed (use mem in \<open>simp_all add: e_key_def\<close>)
qed

lemma ended_child_answered:
  assumes "awaitedTaskDone child = Inr (TaskDone child)" "between 0 db = d"
    "awaitNamedEvent (seeds 0 d) (clock 0) queue task rid token step (TaskDone child) timeout d = (d, Inr (Some a))"
  shows "awaitTaskDone seeds clock between queue task rid token step child timeout db = (d, Inr a)"
  using assms by (simp add: awaitTaskDone_def numeral_2_eq_2 awaitTaskDone_round_def)

end
