(* ===== verification/Tick.thy ===== *)
theory Tick
  imports Retry Operations Names
begin

text \<open>
  The driver's side (driver \<open>tick.ts\<close>, \<open>wake.ts\<close>, core \<open>launch.ts\<close>, \<open>limits.ts\<close> and the store's \<open>sweep\<close>):
  one bounded look at a queue, which sweeps, claims, launches what it claimed and reads the next
  wake. It uses the store only through the operations of \<open>SchedulerStore\<close>, here a record of them,
  and a launcher that answers whatever it likes. The locale states what those operations promise,
  and the store of this model interprets it.
\<close>

section \<open>Sweep, all of it\<close>

definition clampLimit :: "number \<Rightarrow> nat checked" where
  "clampLimit n = (case n of NotFinite \<Rightarrow> Inl (RangeError ''limit'') | Finite q \<Rightarrow> Inr (nat (floor q)))"

text \<open>The items' transactions in the order of the scan, others acting in between. Another order of
  the pool is another interleaving. Once one call fails no further item starts.\<close>

fun sweep_each ::
  "(nat \<Rightarrow> sweep_item \<Rightarrow> db \<Rightarrow> swept option reply) \<Rightarrow> (nat \<Rightarrow> db \<Rightarrow> db) \<Rightarrow> nat \<Rightarrow> sweep_item list \<Rightarrow> db \<Rightarrow>
   swept option list reply" where
  "sweep_each one between i [] db = (db, Inr [])"
| "sweep_each one between i (x # xs) db =
     (case one i x (between i db) of
        (d, Inl e) \<Rightarrow> (d, Inl e)
      | (d, Inr a) \<Rightarrow>
          (case sweep_each one between (i + 1) xs d of
             (d', Inl e) \<Rightarrow> (d', Inl e)
           | (d', Inr as) \<Rightarrow> (d', Inr (a # as))))"

definition sweep ::
  "(db \<Rightarrow> string) \<Rightarrow> (db \<Rightarrow> string) \<Rightarrow> (nat \<Rightarrow> instant) \<Rightarrow> (nat \<Rightarrow> db \<Rightarrow> db) \<Rightarrow> bool \<Rightarrow> string \<Rightarrow> number \<Rightarrow> db \<Rightarrow>
   swept list reply" where
  "sweep draw newId clock between short queue limit db =
     (case clampLimit limit of
        Inl e \<Rightarrow> (db, Inl e)
      | Inr budget \<Rightarrow>
          if budget = 0 then (db, Inr [])
          else let effective = (if budget > 1 \<and> short then 1 else budget) in
            (case sweep_items (clock 0) (clock 1) queue effective db of
               Inl e \<Rightarrow> (db, Inl e)
             | Inr items \<Rightarrow>
                 (case sweep_each (\<lambda>i item d. sweep_one (draw d) (newId d) (clock (2 * i + 2)) (clock (2 * i + 3)) queue item d)
                         between 0 items db of
                    (d, Inl e) \<Rightarrow> (d, Inl e)
                  | (d, Inr outs) \<Rightarrow> (d, Inr (List.map_filter id outs)))))"

section \<open>A launch and its report\<close>

datatype ending_kind = EndCompleted | EndFailed | EndCrashed | EndTimeout | EndUnknown

record ending =
  en_run :: string
  en_token :: string
  en_kind :: ending_kind

datatype launch_payload = Accepted | EndedReport ending | UnidentifiedEnding | LaunchFailed
datatype ending_snapshot = Identified ending | Tokenless | InvalidEnding

definition ending_kind_of :: "js_value \<Rightarrow> ending_kind option" where
  "ending_kind_of v =
     (case v of
        JsString s \<Rightarrow>
          map_of [(''completed'', EndCompleted), (''failed'', EndFailed), (''crashed'', EndCrashed),
                  (''timeout'', EndTimeout), (''unknown'', EndUnknown)] s
      | _ \<Rightarrow> None)"

definition snapshotEnding :: "js_value \<Rightarrow> ending_snapshot" where
  "snapshotEnding value =
     (case value of
        JsObject ms \<Rightarrow>
          (case (readRetryField ms ''runId'', ending_kind_of (readRetryField ms ''kind'')) of
             (JsString rid, Some k) \<Rightarrow>
               if rid = [] then InvalidEnding
               else (case readRetryField ms ''claimToken'' of
                       JsUndefined \<Rightarrow> Tokenless
                     | JsString token \<Rightarrow>
                         if token = [] then InvalidEnding
                         else Identified \<lparr>en_run = rid, en_token = token, en_kind = k\<rparr>
                     | _ \<Rightarrow> InvalidEnding)
           | _ \<Rightarrow> InvalidEnding)
      | _ \<Rightarrow> InvalidEnding)"

definition ended_outcome_of :: "js_value \<Rightarrow> launch_payload" where
  "ended_outcome_of value =
     (case snapshotEnding value of
        Identified e \<Rightarrow> EndedReport e
      | Tokenless \<Rightarrow> UnidentifiedEnding
      | InvalidEnding \<Rightarrow> LaunchFailed)"

text \<open>The fields a worker needs to find its claim, all there and well formed, or nothing.\<close>

record launch_identity =
  li_queue :: string
  li_run :: string
  li_token :: string
  li_gen :: int

definition launchIdentity :: "js_value \<Rightarrow> launch_identity option" where
  "launchIdentity payload =
     (case payload of
        JsObject ms \<Rightarrow>
          (case (readRetryField ms ''queue'', readRetryField ms ''runId'', readRetryField ms ''claimToken'',
                 readRetryField ms ''claimGen'') of
             (JsString queue, JsString rid, JsString token, JsNumber (Finite gen)) \<Rightarrow>
               if queue = [] \<or> rid = [] \<or> token = [] \<or> of_int (floor gen) \<noteq> gen then None
               else (case requirePositiveClaimGeneration ''claimGen'' (floor gen) of
                       Inl e \<Rightarrow> None
                     | Inr g \<Rightarrow> Some \<lparr>li_queue = queue, li_run = rid, li_token = token, li_gen = g\<rparr>)
           | _ \<Rightarrow> None)
      | _ \<Rightarrow> None)"

section \<open>The store a driver sees\<close>

record 's scheduler_store =
  p_sweep :: "number \<Rightarrow> 's \<Rightarrow> 's \<times> (exn + swept list)"
  p_claim :: "string \<Rightarrow> number \<Rightarrow> number \<Rightarrow> 's \<Rightarrow> 's \<times> (exn + claimed_run list)"
  p_expire :: "nat \<Rightarrow> string \<Rightarrow> string \<Rightarrow> 's \<Rightarrow> 's \<times> (exn + bool)"
  p_next_wake :: "'s \<Rightarrow> 's \<times> (exn + int option)"

datatype launch_class = WasAccepted | WasEnded | WasFailed

fun payload_class :: "launch_payload \<Rightarrow> launch_class" where
  "payload_class Accepted = WasAccepted"
| "payload_class (EndedReport e) = WasEnded"
| "payload_class UnidentifiedEnding = WasEnded"
| "payload_class LaunchFailed = WasFailed"

text \<open>\<open>LaunchOutcome.reconcile\<close>. What is no outcome of the factories counts as a failed launch, and
  an error of the advisory expiry is dropped.\<close>

definition reconcile ::
  "'s scheduler_store \<Rightarrow> nat \<Rightarrow> claimed_run \<Rightarrow> launch_payload option \<Rightarrow> 's \<Rightarrow> 's \<times> launch_class" where
  "reconcile store i c value s =
     (let payload = (case value of None \<Rightarrow> LaunchFailed | Some p \<Rightarrow> p);
          other = (case payload of EndedReport e \<Rightarrow> en_run e \<noteq> cr_run c \<or> en_token e \<noteq> cr_token c | _ \<Rightarrow> False)
      in if payload = Accepted \<or> payload = UnidentifiedEnding \<or> other then (s, payload_class payload)
         else (fst (p_expire store i (cr_run c) (cr_token c) s), payload_class payload))"

text \<open>The launches of a tick run together (\<open>Promise.all\<close>): each claimed run is launched, and when its launch
  has answered, reconciled. \<open>turns\<close> is the order in which they get to act, any at all, and whatever is left
  after it is done in the order of the claim.\<close>

datatype launch_state = Unlaunched | Answered_with "launch_payload option" | Counted launch_class

definition launch_turn ::
  "'s scheduler_store \<Rightarrow> (claimed_run \<Rightarrow> 's \<Rightarrow> 's \<times> launch_payload option) \<Rightarrow> claimed_run list \<Rightarrow> nat \<Rightarrow>
   's \<times> launch_state list \<Rightarrow> 's \<times> launch_state list" where
  "launch_turn store launcher cs i = (\<lambda>(s, st).
     if length st \<le> i then (s, st)
     else (case st ! i of
             Unlaunched \<Rightarrow> (case launcher (cs ! i) s of (s1, raw) \<Rightarrow> (s1, st[i := Answered_with raw]))
           | Answered_with raw \<Rightarrow> (case reconcile store i (cs ! i) raw s of (s1, k) \<Rightarrow> (s1, st[i := Counted k]))
           | Counted k \<Rightarrow> (s, st)))"

definition launch_all ::
  "'s scheduler_store \<Rightarrow> (claimed_run \<Rightarrow> 's \<Rightarrow> 's \<times> launch_payload option) \<Rightarrow> nat list \<Rightarrow> claimed_run list \<Rightarrow> 's \<Rightarrow>
   's \<times> launch_state list" where
  "launch_all store launcher turns cs s =
     (let every = [0..<length cs]
      in fold (launch_turn store launcher cs) (turns @ every @ every) (s, replicate (length cs) Unlaunched))"

record tick_options =
  o_claim_limit :: number
  o_sweep_limit :: number
  o_lease :: number

record tick_result =
  tr_swept :: "swept list"
  tr_claimed :: nat
  tr_launched :: nat
  tr_failed :: nat
  tr_ended :: nat
  tr_next_wake :: "int option"
  tr_backlog :: bool

definition tick ::
  "'s scheduler_store \<Rightarrow> (claimed_run \<Rightarrow> 's \<Rightarrow> 's \<times> launch_payload option) \<Rightarrow> nat list \<Rightarrow> string \<Rightarrow> tick_options \<Rightarrow> 's \<Rightarrow>
   's \<times> (exn + tick_result)" where
  "tick store launcher turns token opts s =
     (case requirePositiveInt ''sweepLimit'' (o_sweep_limit opts) 1 of
        Inl e \<Rightarrow> (s, Inl e)
      | Inr sweepLimit \<Rightarrow>
     (case requirePositiveInt ''claimLimit'' (o_claim_limit opts) 1 of
        Inl e \<Rightarrow> (s, Inl e)
      | Inr claimLimit \<Rightarrow>
     (case p_sweep store (o_sweep_limit opts) s of
        (s1, Inl e) \<Rightarrow> (s1, Inl e)
      | (s1, Inr swept) \<Rightarrow>
     (case p_claim store token (o_lease opts) (o_claim_limit opts) s1 of
        (s2, Inl e) \<Rightarrow> (s2, Inl e)
      | (s2, Inr claimed) \<Rightarrow>
          let (s3, ks) = launch_all store launcher turns claimed s2 in
          (case p_next_wake store s3 of
             (s4, Inl e) \<Rightarrow> (s4, Inl e)
           | (s4, Inr w) \<Rightarrow>
               (s4, Inr \<lparr>tr_swept = swept, tr_claimed = length claimed,
                         tr_launched = length (filter ((=) (Counted WasAccepted)) ks),
                         tr_failed = length (filter ((=) (Counted WasFailed)) ks),
                         tr_ended = length (filter ((=) (Counted WasEnded)) ks), tr_next_wake = w,
                         tr_backlog = (sweepLimit \<le> int (length swept) \<or> claimLimit \<le> int (length claimed))\<rparr>))))))"

section \<open>The wake it asks for\<close>

datatype wake_request = Immediate string | Scheduled string instant

definition scheduleTickWake :: "string \<Rightarrow> tick_result \<Rightarrow> wake_request option checked" where
  "scheduleTickWake queue res =
     (if tr_backlog res then Inr (Some (Immediate queue))
      else (case tr_next_wake res of
              None \<Rightarrow> Inr None
            | Some w \<Rightarrow> map_sum id (\<lambda>n. Some (Scheduled queue n)) (requireEpochMs ''next wake'' (Finite (of_int w)))))"

section \<open>What a tick promises of any store\<close>

locale scheduler =
  fixes store :: "'s scheduler_store" and launcher :: "claimed_run \<Rightarrow> 's \<Rightarrow> 's \<times> launch_payload option"
    and good :: "'s \<Rightarrow> bool" and later :: "'s \<Rightarrow> 's \<Rightarrow> bool"
  assumes later_refl: "later s s" and later_trans: "later s s' \<Longrightarrow> later s' s'' \<Longrightarrow> later s s''"
    and good_later: "good s \<Longrightarrow> later s s' \<Longrightarrow> good s'"
    and sweep_later: "good s \<Longrightarrow> later s (fst (p_sweep store n s))"
    and claim_later: "good s \<Longrightarrow> later s (fst (p_claim store token lease limit s))"
    and expire_later: "good s \<Longrightarrow> later s (fst (p_expire store i rid token s))"
    and wake_later: "good s \<Longrightarrow> later s (fst (p_next_wake store s))"
    and launch_later: "good s \<Longrightarrow> later s (fst (launcher c s))"
begin

lemma reconcile_later: "good s \<Longrightarrow> later s (fst (reconcile store i c v s))"
  using later_refl expire_later by (simp add: reconcile_def Let_def)

lemma turn_later:
  assumes "good s"
  shows "later s (fst (launch_turn store launcher cs i (s, st)))"
proof -
  have "later s x" if "launcher c s = (x, y)" for c x y using launch_later[OF assms, of c] that by simp
  moreover have "later s x" if "reconcile store i c v s = (x, y)" for c v x y using reconcile_later[OF assms, of i c v] that by simp
  ultimately show ?thesis by (auto simp: launch_turn_def later_refl split: launch_state.split prod.split)
qed

lemma turns_later: "good (fst x) \<Longrightarrow> later (fst x) (fst (fold (launch_turn store launcher cs) is x))"
proof (induction "is" arbitrary: x)
  case (Cons i "is")
  let ?y = "launch_turn store launcher cs i x"
  have a: "later (fst x) (fst ?y)" using turn_later[OF Cons.prems, of cs i "snd x"] by simp
  have "later (fst ?y) (fst (fold (launch_turn store launcher cs) is ?y))" by (rule Cons.IH[OF good_later[OF Cons.prems a]])
  then show ?case using later_trans[OF a] by simp
qed (simp add: later_refl)

lemma launches_later: "good s \<Longrightarrow> later s (fst (launch_all store launcher turns cs s))"
  using turns_later[of "(s, replicate (length cs) Unlaunched)" cs "turns @ [0..<length cs] @ [0..<length cs]"]
  by (simp add: launch_all_def Let_def del: fold_append)

lemma tick_later:
  assumes "good s"
  shows "later s (fst (tick store launcher turns token opts s))"
proof -
  let ?s1 = "fst (p_sweep store (o_sweep_limit opts) s)"
  let ?s2 = "fst (p_claim store token (o_lease opts) (o_claim_limit opts) ?s1)"
  let ?s3 = "\<lambda>cs. fst (launch_all store launcher turns cs ?s2)"
  have a: "later s ?s1" "good ?s1" using sweep_later[OF assms] good_later[OF assms] by blast+
  have b: "later s ?s2" "good ?s2" using claim_later[OF a(2)] later_trans[OF a(1)] good_later[OF a(2)] by blast+
  have c: "later s (?s3 cs)" "good (?s3 cs)" for cs
    using launches_later[OF b(2)] later_trans[OF b(1)] good_later[OF b(2)] by blast+
  have d: "later s (fst (p_next_wake store (?s3 cs)))" for cs
    using wake_later[OF c(2)] later_trans[OF c(1)] by blast
  have a': "later s x" if "p_sweep store (o_sweep_limit opts) s = (x, y)" for x y
    using a(1) that by (metis fst_conv)
  have b': "later s z" if "p_sweep store (o_sweep_limit opts) s = (x, y)"
    "p_claim store token (o_lease opts) (o_claim_limit opts) x = (z, u)" for x y z u
    using b(1) that by (metis fst_conv)
  have c': "later s v" if "p_sweep store (o_sweep_limit opts) s = (x, y)"
    "p_claim store token (o_lease opts) (o_claim_limit opts) x = (z, u)" "launch_all store launcher turns cs z = (p, q)"
    "p_next_wake store p = (v, w)" for x y z u cs p q v w
    using d[of cs] that by (metis fst_conv)
  show ?thesis
    by (auto simp: tick_def later_refl split: sum.splits prod.splits intro: a' b' c')
qed

end

text \<open>Every launch is counted once, in whatever order they act and whatever was reported of them.\<close>

fun stage :: "launch_state \<Rightarrow> nat" where
  "stage Unlaunched = 0" | "stage (Answered_with raw) = 1" | "stage (Counted k) = 2"

lemma turn_stage:
  "length (snd (launch_turn store launcher cs i x)) = length (snd x) \<and>
   (\<forall>j<length (snd x). stage (snd (launch_turn store launcher cs i x) ! j) =
      (if j = i then min 2 (stage (snd x ! j) + 1) else stage (snd x ! j)))"
proof (cases "snd x ! i")
  case Unlaunched
  then show ?thesis by (cases x) (auto simp: launch_turn_def nth_list_update split: prod.split)
next
  case (Answered_with raw)
  then show ?thesis by (cases x) (auto simp: launch_turn_def nth_list_update split: prod.split)
next
  case (Counted k)
  then show ?thesis by (cases x) (auto simp: launch_turn_def)
qed

lemma turns_stage:
  "length (snd (fold (launch_turn store launcher cs) is x)) = length (snd x) \<and>
   (\<forall>j<length (snd x). stage (snd (fold (launch_turn store launcher cs) is x) ! j) = min 2 (stage (snd x ! j) + count_list is j))"
proof (induction "is" arbitrary: x)
  case Nil
  have "stage y \<le> 2" for y by (cases y) simp_all
  then show ?case by (simp add: min_absorb2)
next
  case (Cons i "is")
  show ?case
    using Cons[of "launch_turn store launcher cs i x"] turn_stage[of store launcher cs i x] by (auto simp: min_def)
qed

lemma counts_once: "distinct xs \<Longrightarrow> j \<in> set xs \<Longrightarrow> count_list xs j = 1"
  by (induction xs) (auto simp: count_notin)

lemma launches_counted:
  "length (snd (launch_all store launcher turns cs s)) = length cs \<and>
   (\<forall>x\<in>set (snd (launch_all store launcher turns cs s)). \<exists>k. x = Counted k)"
proof -
  let ?x = "(s, replicate (length cs) Unlaunched)" and ?is = "turns @ [0..<length cs] @ [0..<length cs]"
  note st = turns_stage[of store launcher cs ?is ?x]
  have "count_list [0..<length cs] j = 1" if "j < length cs" for j using counts_once[of "[0..<length cs]" j] that by simp
  then have "stage (snd (launch_all store launcher turns cs s) ! j) = 2" if "j < length cs" for j
    using st that by (simp add: launch_all_def Let_def count_list_append min_def)
  moreover have "\<exists>k. x = Counted k" if "stage x = 2" for x using that by (cases x) simp_all
  ultimately show ?thesis using st by (auto simp: launch_all_def Let_def in_set_conv_nth)
qed

lemma classes_partition:
  "\<forall>x\<in>set ks. \<exists>k. x = Counted k \<Longrightarrow>
   length (filter ((=) (Counted WasAccepted)) ks) + length (filter ((=) (Counted WasFailed)) ks) +
   length (filter ((=) (Counted WasEnded)) ks) = length ks"
proof (induction ks)
  case (Cons x ks)
  then obtain k where "x = Counted k" by auto
  then show ?case using Cons by (cases k) simp_all
qed simp

lemma tick_counts:
  assumes "tick store launcher turns token opts s = (s', Inr res)"
  shows "tr_launched res + tr_failed res + tr_ended res = tr_claimed res"
  using assms launches_counted[of store launcher turns] classes_partition
  by (auto simp: tick_def split_beta split: sum.splits prod.splits)

section \<open>The store of this model\<close>

text \<open>The operations of the libSQL store as a driver calls them. \<open>draw\<close> is the id source's fresh seed,
  \<open>others\<close> what other callers do before each operation, and every read of a clock is its own.\<close>

definition libsql_store ::
  "(db \<Rightarrow> string) \<Rightarrow> (db \<Rightarrow> string) \<Rightarrow> (nat \<Rightarrow> instant) \<Rightarrow> (nat \<Rightarrow> db \<Rightarrow> db) \<Rightarrow> (nat \<Rightarrow> db \<Rightarrow> db) \<Rightarrow> bool \<Rightarrow> string \<Rightarrow>
   db scheduler_store" where
  "libsql_store draw newId clock others between short queue =
     \<lparr>p_sweep = (\<lambda>limit d. sweep draw newId clock between short queue limit (others 0 d)),
      p_claim = (\<lambda>token lease limit d. let d1 = others 1 d in claim (draw d1) (clock 0) short queue token lease limit d1),
      p_expire = (\<lambda>i rid token d. let r = expireLeaseNow (clock i) queue rid token (others (i + 3) d) in (fst r, Inr (snd r))),
      p_next_wake = (\<lambda>d. let d1 = others 2 d in (d1, nextWakeAtEpochMs queue d1))\<rparr>"

lemma knows_run_of: "r \<in> set (runs db) \<Longrightarrow> knows_run (r_id r) (r_task r) db"
  by (auto simp: knows_run_def)

definition item_known :: "db \<Rightarrow> sweep_item \<Rightarrow> bool" where
  "item_known db item =
     (case item of CancelItem _ _ \<Rightarrow> True | LostLaunchItem rid task _ _ \<Rightarrow> knows_run rid task db
      | ClaimTimeoutItem rid task _ \<Rightarrow> knows_run rid task db)"

lemma expired_item_known: "r \<in> set (runs db) \<Longrightarrow> expired_item r = Inr item \<Longrightarrow> item_known db item"
  by (auto simp: expired_item_def item_known_def knows_run_of split: sum.splits if_splits)

lemma collect_known:
  "collect_expired budget rs acc = Inr items \<Longrightarrow> set rs \<subseteq> set (runs db) \<Longrightarrow> \<forall>x\<in>set acc. item_known db x \<Longrightarrow>
     \<forall>x\<in>set items. item_known db x"
  by (induction budget rs acc rule: collect_expired.induct)
    (auto split: if_splits sum.splits intro: expired_item_known)

lemma sweep_items_known:
  assumes "sweep_items now now2 queue budget db = Inr items"
  shows "\<forall>x\<in>set items. item_known db x"
proof (rule collect_known)
  show "collect_expired budget (expiredClaims now2 queue budget db)
      (map (\<lambda>(t, r). CancelItem t r) (take budget (dueCancelRows now queue budget db))) = Inr items"
    using assms by (simp add: sweep_items_def)
  show "set (expiredClaims now2 queue budget db) \<subseteq> set (runs db)"
    by (auto simp: expiredClaims_def in_joined dest!: in_set_takeD)
qed (auto simp: item_known_def)

lemma item_known_later: "leads_to db db' \<Longrightarrow> item_known db x \<Longrightarrow> item_known db' x"
  using knows_stable[of db db'] unfolding item_known_def by (cases x) (simp_all only: sweep_item.case)

lemma sweep_each_step:
  "fst (sweep_each one between i (x # xs) db) =
     (if isl (snd (one i x (between i db))) then fst (one i x (between i db))
      else fst (sweep_each one between (i + 1) xs (fst (one i x (between i db)))))"
  by (auto simp: split_beta split: sum.split)

lemma sweep_each_leads:
  assumes "\<And>i x d. reachable d \<Longrightarrow> item_known d x \<Longrightarrow> leads_to d (fst (one i x d))" "\<And>i d. leads_to d (between i d)"
    "reachable db" "\<forall>x\<in>set items. item_known db x"
  shows "leads_to db (fst (sweep_each one between i items db))"
  using assms(3,4)
proof (induction items arbitrary: i db)
  case (Cons x xs)
  let ?d = "fst (one i x (between i db))"
  have b: "leads_to db (between i db)" "reachable (between i db)"
    using assms(2) reachable_leads[OF Cons.prems(1)] by blast+
  have "item_known (between i db) x" using item_known_later[OF b(1)] Cons.prems(2) by simp
  then have d: "leads_to db ?d" "reachable ?d"
    using assms(1)[OF b(2)] b(1) reachable_leads[OF b(2)] by (blast intro: rtranclp_trans)+
  have "leads_to ?d (fst (sweep_each one between (i + 1) xs ?d))"
    by (rule Cons.IH[OF d(2)]) (use item_known_later[OF d(1)] Cons.prems(2) in simp)
  then have r: "leads_to db (fst (sweep_each one between (i + 1) xs ?d))" using d(1) by (meson rtranclp_trans)
  show ?case
    unfolding sweep_each_step using d(1) r by (simp only: if_split) blast
qed simp

lemma sweep_leads:
  assumes "\<And>d. fresh (draw d) d" "\<And>i. valid_clock (clock i)" "\<And>i d. leads_to d (between i d)" "reachable db"
  shows "leads_to db (fst (sweep draw newId clock between short queue limit db))"
proof -
  let ?one = "\<lambda>i item d. sweep_one (draw d) (newId d) (clock (2 * i + 2)) (clock (2 * i + 3)) queue item d"
  have one: "leads_to d (fst (?one i x d))" if "reachable d" "item_known d x" for i x d
    by (rule sweep_call[OF reachable_inv[OF that(1)] assms(1,2,2)]) (use that(2) in \<open>simp add: item_known_def\<close>)
  have each: "leads_to db (fst (sweep_each ?one between 0 items db))"
    if "sweep_items now now2 queue k db = Inr items" for now now2 k items
    by (rule sweep_each_leads[where one = ?one, OF one assms(3,4) sweep_items_known[OF that]])
  show ?thesis
    using each by (simp add: sweep_def Let_def split_beta split: sum.split)
qed

lemma libsql_scheduler:
  assumes "\<And>d. fresh (draw d) d" "\<And>i. valid_clock (clock i)" "\<And>i d. leads_to d (between i d)"
    "\<And>i d. leads_to d (others i d)" "\<And>c d. reachable d \<Longrightarrow> leads_to d (fst (launcher c d))"
  shows "scheduler (libsql_store draw newId clock others between short queue) launcher reachable leads_to"
proof
  fix s assume r: "reachable s"
  have o: "leads_to s (others i s)" "reachable (others i s)" for i
    using assms(4) reachable_leads[OF r] by blast+
  show "leads_to s (fst (p_sweep (libsql_store draw newId clock others between short queue) n s))" for n
    using sweep_leads[OF assms(1-3) o(2)] o(1) by (simp add: libsql_store_def) (meson rtranclp_trans)
  show "leads_to s (fst (p_claim (libsql_store draw newId clock others between short queue) token lease limit s))" for token lease limit
    using claim_call[OF assms(1,2)] o(1) by (simp add: libsql_store_def Let_def) (meson rtranclp_trans)
  show "leads_to s (fst (p_expire (libsql_store draw newId clock others between short queue) i rid token s))" for i rid token
    using one_txn[OF txn.expire[OF assms(2)]] o(1) by (simp add: libsql_store_def Let_def) (meson rtranclp_trans)
  show "leads_to s (fst (p_next_wake (libsql_store draw newId clock others between short queue) s))"
    using o(1) by (simp add: libsql_store_def Let_def)
  show "leads_to s (fst (launcher c s))" for c by (rule assms(5)[OF r])
qed (auto intro: rtranclp_trans reachable_leads)

text \<open>An id source that never repeats a stamp of the database, for the interpretation.\<close>

definition stamps_of :: "db \<Rightarrow> string list" where
  "stamps_of db =
     concat (map (case_option [] (\<lambda>x. [x]))
       (map t_stamp (tasks db) @ map r_stamp (runs db) @ map w_stamp (waits db) @ map e_stamp (events db)))"

definition draw_seed :: "db \<Rightarrow> string" where
  "draw_seed db = replicate (sum_list (map length (stamps_of db)) + 1) (CHR ''s'')"

lemma in_somes: "Some x \<in> set ys \<Longrightarrow> x \<in> set (concat (map (case_option [] (\<lambda>x. [x])) ys))"
  by (induction ys) auto

lemma draw_seed_fresh: "fresh (draw_seed db) db"
proof -
  have no: "\<not> stamped_by (draw_seed db) y"
    if "y \<in> set (map t_stamp (tasks db) @ map r_stamp (runs db) @ map w_stamp (waits db) @ map e_stamp (events db))" for y
  proof (cases y)
    case (Some x)
    then have "x \<in> set (stamps_of db)" unfolding stamps_of_def using that by (intro in_somes) simp
    then have "length x \<le> sum_list (map length (stamps_of db))" by (intro member_le_sum_list) simp_all
    then have "length x < length (draw_seed db)" by (simp add: draw_seed_def)
    then show ?thesis using Some by (auto simp: stamped_by_def dest: prefix_length_le)
  qed (simp add: stamped_by_def)
  show ?thesis unfolding fresh_def using no by simp
qed

definition in_range :: "instant \<Rightarrow> instant" where
  "in_range n = max 0 (min n MAX_EPOCH_MS)"

lemma in_range_valid: "valid_clock (in_range n)"
  by (simp add: in_range_def valid_clock_def MAX_EPOCH_MS_def)

text \<open>A launcher that runs the worker in line as far as its activation, and reports what it likes.\<close>

definition inline_launch :: "string \<Rightarrow> instant \<Rightarrow> (claimed_run \<Rightarrow> launch_payload option) \<Rightarrow> claimed_run \<Rightarrow> db \<Rightarrow> db \<times> launch_payload option" where
  "inline_launch queue now report c d = (fst (activate (draw_seed d) now queue (cr_run c) (cr_token c) (cr_claim_gen c) d), report c)"

interpretation driver: scheduler
  "libsql_store draw_seed newId (\<lambda>i. in_range (clock i)) (\<lambda>i d. d) (\<lambda>i d. d) short queue"
  "inline_launch queue now report" reachable leads_to
  for newId clock short queue now report
  by (rule libsql_scheduler) (simp_all add: draw_seed_fresh in_range_valid inline_launch_def lease_calls(3))

lemma epoch_passes: "0 \<le> n \<Longrightarrow> n \<le> MAX_EPOCH_MS \<Longrightarrow> requireEpochMs name (Finite (of_int n)) = Inr n"
  by (simp add: requireEpochMs_def safe_integer_def MAX_EPOCH_MS_def MAX_SAFE_INTEGER_def)

lemma tick_reads_wake:
  assumes "tick (libsql_store draw newId clock others between short queue) launcher turns token opts db = (db', Inr res)"
  shows "nextWakeAtEpochMs queue db' = Inr (tr_next_wake res)"
  using assms by (auto simp: tick_def libsql_store_def Let_def split: sum.splits prod.splits)

end
