(* ===== verification/Loop.thy ===== *)
theory Loop
  imports Tick
begin

text \<open>
  The resident driver (driver \<open>loop.ts\<close>): what it does between two ticks. The options are checked at
  construction; a pass counts idle ticks and sleepless passes, and either looks again at once or
  parks for a time bounded by the poll ceiling, the next wake and the next registry beat. Time and
  the timers are the clock's; the model decides what is asked of it.
\<close>

section \<open>Options\<close>

definition MAX_TIMER_MS :: int where "MAX_TIMER_MS = 2147483647"

record loop_options =
  lo_busy :: int
  lo_idle :: int
  lo_idle_after :: int
  lo_floor :: int
  lo_registry :: int
  lo_ttl :: int

definition default_number :: "number option \<Rightarrow> number \<Rightarrow> number" where
  "default_number n d = (case n of None \<Rightarrow> d | Some x \<Rightarrow> x)"

fun doubled :: "number \<Rightarrow> number" where
  "doubled (Finite q) = Finite (2 * q)"
| "doubled NotFinite = NotFinite"

definition check_options ::
  "tick_options \<Rightarrow> number option \<Rightarrow> number option \<Rightarrow> number option \<Rightarrow> number option \<Rightarrow> number option \<Rightarrow>
   loop_options checked" where
  "check_options opts busy idle idleAfter wakeFloor registry =
     (case requirePositiveInt ''claimLimit'' (o_claim_limit opts) 1 of Inl e \<Rightarrow> Inl e | Inr _ \<Rightarrow>
     (case requirePositiveInt ''sweepLimit'' (o_sweep_limit opts) 1 of Inl e \<Rightarrow> Inl e | Inr _ \<Rightarrow>
     (case durationToMs ''leaseSeconds'' (o_lease opts) True of Inl e \<Rightarrow> Inl e | Inr _ \<Rightarrow>
     (case requirePositiveInt ''busyCeilingMs'' (default_number busy (Finite 250)) 1 of Inl e \<Rightarrow> Inl e | Inr b \<Rightarrow>
     (case requirePositiveInt ''idleCeilingMs'' (default_number idle (Finite 5000)) 1 of Inl e \<Rightarrow> Inl e | Inr i \<Rightarrow>
     (case requirePositiveInt ''wakeFloorMs'' (default_number wakeFloor (Finite (of_int b))) 1 of Inl e \<Rightarrow> Inl e | Inr f \<Rightarrow>
       if max (max b i) f > MAX_TIMER_MS then Inl (RangeError ''poll ceilings'')
       else if i < b then Inl (RangeError ''idleCeilingMs'')
       else
     (case requirePositiveInt ''idleAfterTicks'' (default_number idleAfter (Finite 10)) 1 of Inl e \<Rightarrow> Inl e | Inr a \<Rightarrow>
     (case durationToMs ''registryIntervalSeconds'' (default_number registry (Finite 15)) True of Inl e \<Rightarrow> Inl e | Inr g \<Rightarrow>
     (case durationToMs ''ttl'' (doubled (default_number registry (Finite 15))) True of Inl e \<Rightarrow> Inl e | Inr t \<Rightarrow>
       Inr \<lparr>lo_busy = b, lo_idle = i, lo_idle_after = a, lo_floor = f, lo_registry = g, lo_ttl = t\<rparr>)))))))))"

definition sane :: "loop_options \<Rightarrow> bool" where
  "sane o1 =
     (1 \<le> lo_busy o1 \<and> lo_busy o1 \<le> lo_idle o1 \<and> lo_idle o1 \<le> MAX_TIMER_MS \<and>
      1 \<le> lo_floor o1 \<and> lo_floor o1 \<le> MAX_TIMER_MS \<and> 1 \<le> lo_idle_after o1 \<and>
      1 \<le> lo_registry o1 \<and> 1 \<le> lo_ttl o1)"

lemma checked_sane: "check_options opts busy idle idleAfter wakeFloor registry = Inr lo \<Longrightarrow> sane lo"
  by (auto simp: check_options_def sane_def split: sum.splits if_splits
      dest!: requirePositiveInt_bounds durationToMs_bounds)

section \<open>A pass\<close>

record loop_state =
  ls_idle :: nat
  ls_chained :: nat
  ls_beat :: "int option"
  ls_wake :: bool

datatype pass_action = LookAgain | Park int

definition empty_look :: "tick_result option \<Rightarrow> bool" where
  "empty_look result = (case result of None \<Rightarrow> False | Some r \<Rightarrow> tr_claimed r = 0 \<and> tr_swept r = [])"

definition msUntilBeatDue :: "loop_options \<Rightarrow> loop_state \<Rightarrow> int \<Rightarrow> int" where
  "msUntilBeatDue lo ls elapsed =
     (case ls_beat ls of None \<Rightarrow> lo_registry lo | Some b \<Rightarrow> max 1 (b + lo_registry lo - elapsed))"

text \<open>The decision after a tick, \<open>None\<close> for one that raised: the counters, whether the loop yields a
  turn first, and what it does. \<open>now\<close> is the host's clock and \<open>elapsed\<close> its monotone one.\<close>

definition after_tick ::
  "loop_options \<Rightarrow> loop_state \<Rightarrow> tick_result option \<Rightarrow> int \<Rightarrow> int \<Rightarrow> loop_state \<times> bool \<times> pass_action" where
  "after_tick lo ls result now elapsed =
     (let idle = (if empty_look result then ls_idle ls + 1 else 0);
          yields = 32 \<le> ls_chained ls + 1;
          ls1 = ls\<lparr>ls_idle := idle, ls_chained := (if yields then 0 else ls_chained ls + 1)\<rparr>;
          ceiling = (if result = None \<or> lo_idle_after lo \<le> int idle then lo_idle lo else lo_busy lo);
          parked = (\<lambda>ms. (if ls_wake ls then ls1 else ls1\<lparr>ls_chained := 0\<rparr>, yields, Park (min ms (msUntilBeatDue lo ls elapsed))))
      in case result of
           None \<Rightarrow> parked ceiling
         | Some r \<Rightarrow>
             if tr_backlog r then (ls1, yields, LookAgain)
             else (case tr_next_wake r of
                     None \<Rightarrow> parked ceiling
                   | Some w \<Rightarrow>
                       if w - now \<le> 0 then
                         (if \<not> empty_look result then (ls1, yields, LookAgain) else parked ceiling)
                       else parked (min (w - now) ceiling)))"

text \<open>A wake during the park looks again, but not before the floor after the last tick started and
  not after the look the park planned.\<close>

definition floor_wait :: "loop_options \<Rightarrow> int \<Rightarrow> int \<Rightarrow> int \<Rightarrow> int \<Rightarrow> int" where
  "floor_wait lo tickStarted parkStarted sleepMs elapsed =
     max 0 (min (tickStarted + lo_floor lo - elapsed) (parkStarted + sleepMs - elapsed))"

section \<open>What a pass keeps\<close>

lemma beat_positive: "sane lo \<Longrightarrow> 1 \<le> msUntilBeatDue lo ls elapsed"
  by (auto simp: msUntilBeatDue_def sane_def split: option.splits)

lemma park_bounds:
  assumes "sane lo" "after_tick lo ls result now elapsed = (ls', yields, Park ms)"
  shows "1 \<le> ms \<and> ms \<le> lo_idle lo \<and> ms \<le> MAX_TIMER_MS \<and> ms \<le> msUntilBeatDue lo ls elapsed"
    "result = Some r \<Longrightarrow> tr_next_wake r = Some w \<Longrightarrow> now < w \<Longrightarrow> now + ms \<le> w"
  using assms beat_positive[OF assms(1), of ls elapsed]
  by (auto simp: after_tick_def sane_def Let_def split: option.splits if_splits)

lemma look_again_reason:
  assumes "after_tick lo ls result now elapsed = (ls', yields, LookAgain)"
  obtains r where "result = Some r"
    "tr_backlog r \<or> (\<not> (tr_claimed r = 0 \<and> tr_swept r = []) \<and> (\<exists>w. tr_next_wake r = Some w \<and> w \<le> now))"
  using assms by (auto simp: after_tick_def empty_look_def Let_def split: option.splits if_splits)

lemma chain_yields:
  assumes "ls_chained ls < 32" "after_tick lo ls result now elapsed = (ls', yields, act)"
  shows "ls_chained ls' < 32" "ls_chained ls = 31 \<Longrightarrow> yields"
    "act = LookAgain \<Longrightarrow> \<not> yields \<Longrightarrow> ls_chained ls' = ls_chained ls + 1"
  using assms by (auto simp: after_tick_def Let_def split: option.splits if_splits)

text \<open>Over any number of passes: at most thirty-one in a row neither yield nor sleep.\<close>

fun passes :: "loop_options \<Rightarrow> loop_state \<Rightarrow> (tick_result option \<times> int \<times> int) list \<Rightarrow> (bool \<times> pass_action) list" where
  "passes lo ls [] = []"
| "passes lo ls ((result, now, elapsed) # rest) =
     (let (ls', yields, act) = after_tick lo ls result now elapsed in (yields, act) # passes lo ls' rest)"

lemma sleepless_run:
  assumes "ls_chained ls < 32" "\<forall>(yields, act)\<in>set (passes lo ls xs). \<not> yields \<and> act = LookAgain"
  shows "length xs + ls_chained ls < 32"
  using assms
proof (induction lo ls xs rule: passes.induct)
  case (2 lo ls result now elapsed rest)
  obtain ls' yields act where p: "after_tick lo ls result now elapsed = (ls', yields, act)" by (metis prod_cases3)
  have q: "\<not> yields" "act = LookAgain" using 2(3) p by auto
  have c: "ls_chained ls' < 32" "ls_chained ls' = ls_chained ls + 1"
    using chain_yields[OF 2(2) p] q by auto
  have "length rest + ls_chained ls' < 32" using 2(1)[OF p[symmetric] refl refl c(1)] 2(3) p by auto
  then show ?case using c(2) by simp
qed simp

lemma floor_wait_bounds:
  assumes "0 \<le> sleepMs" "parkStarted \<le> elapsed" "sane lo" "tickStarted \<le> elapsed"
  shows "0 \<le> floor_wait lo tickStarted parkStarted sleepMs elapsed"
    "floor_wait lo tickStarted parkStarted sleepMs elapsed \<le> lo_floor lo"
    "elapsed \<le> parkStarted + sleepMs \<Longrightarrow> elapsed + floor_wait lo tickStarted parkStarted sleepMs elapsed \<le> parkStarted + sleepMs"
    "tickStarted + lo_floor lo \<le> parkStarted + sleepMs \<Longrightarrow>
       tickStarted + lo_floor lo \<le> elapsed + floor_wait lo tickStarted parkStarted sleepMs elapsed"
  using assms by (auto simp: floor_wait_def sane_def)

text \<open>Options and a claim the witnesses are evaluated on.\<close>

definition demo_options :: tick_options where
  "demo_options = \<lparr>o_claim_limit = Finite 10, o_sweep_limit = Finite 10, o_lease = Finite 30\<rparr>"

definition demo_loop :: loop_options where
  "demo_loop = \<lparr>lo_busy = 250, lo_idle = 5000, lo_idle_after = 10, lo_floor = 250, lo_registry = 15000, lo_ttl = 30000\<rparr>"

definition demo_claim :: claimed_run where
  "demo_claim =
     \<lparr>cr_run = ''r1'', cr_task = ''t1'', cr_task_name = ''email'', cr_attempt = 1, cr_infra = 0, cr_claim_gen = 1,
      cr_token = ''w'', cr_expires = 32000, cr_lease_ms = 30000, cr_params = ''{}'', cr_retry = NoRetry,
      cr_max_attempts = 3, cr_headers = JObject [], cr_wake = NoWake\<rparr>"

end
