(* ===== verification/Retention_Facts.thy ===== *)
theory Retention_Facts
  imports Candidates
begin

text \<open>
  What the retention port answers. A page of candidates is the ordered scan of the ended tasks that
  are old enough, whichever leg read them, and its cursor is there exactly when something follows.
  A purge deletes the whole unit and counts what it deleted, or writes nothing: it never throws but
  for a policy it refuses.
\<close>

section \<open>A page of candidates\<close>

lemma insort_key_cong:
  "(\<And>y. y \<in> set ys \<Longrightarrow> (f x \<le> f y) = (g (h x) \<le> g (h y))) \<Longrightarrow>
     insort_key g (h x) (map h ys) = map h (insort_key f x ys)"
  by (induction ys) auto

lemma sort_key_map:
  "(\<And>x y. x \<in> set xs \<Longrightarrow> y \<in> set xs \<Longrightarrow> (f x \<le> f y) = (g (h x) \<le> g (h y))) \<Longrightarrow>
     sort_key g (map h xs) = map h (sort_key f xs)"
proof (induction xs)
  case (Cons x xs)
  have "insort_key g (h x) (map h (sort_key f xs)) = map h (insort_key f x (sort_key f xs))"
    by (rule insort_key_cong) (use Cons.prems in simp)
  then show ?case using Cons by (simp add: sort_key_def)
qed (simp add: sort_key_def)

text \<open>The ended tasks a policy lets go, past a cursor, the oldest first.\<close>

definition old_enough :: "instant \<Rightarrow> string \<Rightarrow> windows \<Rightarrow> purge_cursor \<Rightarrow> task \<Rightarrow> bool" where
  "old_enough now queue ws after t =
     (t_queue t = queue \<and> endedAWindowAgo now ws t \<and> stored_within epoch_bounds (t_fence_at t) \<and> past_cursor after t)"

definition purge_scan :: "instant \<Rightarrow> string \<Rightarrow> windows \<Rightarrow> purge_cursor \<Rightarrow> db \<Rightarrow> task list" where
  "purge_scan now queue ws after db =
     sort_key (\<lambda>t. (t_fence_at t, t_id t)) (filter (old_enough now queue ws after) (tasks db))"

definition candidate :: "task \<Rightarrow> purge_candidate" where
  "candidate t = \<lparr>pc_task = t_id t, pc_name = t_name t, pc_state = t_state t, pc_ended = ival (t_fence_at t), pc_key = t_idem t\<rparr>"

lemma all_of_Inr: "(\<And>x. x \<in> set xs \<Longrightarrow> f x = Inr (g x)) \<Longrightarrow> all_of f xs = Inr (map g xs)"
  by (induction xs) auto

definition leg_rows :: "instant \<Rightarrow> string \<Rightarrow> windows \<Rightarrow> purge_cursor \<Rightarrow> lstate \<Rightarrow> task \<Rightarrow> bool" where
  "leg_rows now queue ws after st t =
     (endedTask st queue t \<and> atLeastAWindowOld now (window_of ws st) (t_fence_at t) \<and> past_cursor after t)"

lemma legs_cover:
  "(\<exists>st\<in>set TERMINAL_STATES. leg_rows now queue ws after st t) = old_enough now queue ws after t"
  by (auto simp: leg_rows_def endedTask_def old_enough_def endedAWindowAgo_def TERMINAL_STATES_def)

lemma leg_is_scan:
  "candidate_leg (\<lambda>st. now) queue ws limit after db st =
     take (limit + 1) (sort_key (\<lambda>t. (t_fence_at t, t_id t)) (filter (leg_rows now queue ws after st) (tasks db)))"
  by (simp add: candidate_leg_def purgeCandidatesRead_def leg_rows_def[abs_def] atLeastAWindowOld_def)

lemma leg_candidates:
  "all_of (candidateOf st) (candidate_leg (\<lambda>st. now) queue ws limit after db st) =
     Inr (map candidate (candidate_leg (\<lambda>st. now) queue ws limit after db st))"
  by (rule all_of_Inr)
    (auto simp: leg_is_scan leg_rows_def endedTask_def candidateOf_def candidate_def dest!: in_set_takeD)

lemma page_follows:
  "(limit < length xs) = (limit < length ys) \<Longrightarrow>
     (limit < length xs \<and> take limit xs \<noteq> []) = (limit < length ys \<and> limit \<noteq> 0)"
  by (cases xs) auto

lemma last_of_page: "n < length xs \<Longrightarrow> n \<noteq> 0 \<Longrightarrow> last (take n xs) = xs ! (n - 1)"
  by (subst last_conv_nth) (auto simp: min_def)

lemma page_is_scan:
  assumes "keys_ok db" "retentionWindowsMs policy = Inr ws" "requireListLimit wanted = Inr limit" "startAfter cursor = Inr after"
  shows "purgeCandidates (\<lambda>st. now) queue policy (Some (wanted, cursor)) db =
    Inr (map candidate (take limit (purge_scan now queue ws after db)),
      if limit < length (purge_scan now queue ws after db) \<and> limit \<noteq> 0
      then (let t = purge_scan now queue ws after db ! (limit - 1) in Some (ival (t_fence_at t), t_id t)) else None)"
proof -
  let ?k = "\<lambda>t. (t_fence_at t, t_id t)" and ?c = "\<lambda>c. (pc_ended c, pc_task c)"
  let ?legs = "map (candidate_leg (\<lambda>st. now) queue ws limit after db) TERMINAL_STATES"
  let ?S = "purge_scan now queue ws after db"
  have d: "distinct (tasks db)" "inj_on ?k (set (tasks db))"
    using keys_okD(1)[OF assms(1)] by (auto simp: keyed_def distinct_map inj_on_def)
  have old: "old_enough now queue ws after t" if "t \<in> set (concat ?legs)" for t
    using that by (auto simp: leg_is_scan legs_cover[symmetric] dest!: in_set_takeD)
  have num: "\<exists>a. t_fence_at t = Num a" if "t \<in> set (concat ?legs)" for t
    using old[OF that] by (auto simp: old_enough_def stored_within_iff)
  have srt: "sort_key ?c (map candidate (concat ?legs)) = map candidate (sort_key ?k (concat ?legs))"
  proof (rule sort_key_map)
    fix x y assume "x \<in> set (concat ?legs)" "y \<in> set (concat ?legs)"
    then obtain a b where "t_fence_at x = Num a" "t_fence_at y = Num b" using num by meson
    then show "(?k x \<le> ?k y) = (?c (candidate x) \<le> ?c (candidate y))"
      by (auto simp: candidate_def less_eq_prod_def less_le)
  qed
  have legs: "?legs = map (\<lambda>st. take (limit + 1) (sort_key ?k (filter (leg_rows now queue ws after st) (tasks db)))) TERMINAL_STATES"
    by (simp add: leg_is_scan)
  have one: "take (limit + 1) (sort_key ?k (concat ?legs)) = take (limit + 1) ?S"
    unfolding legs purge_scan_def legs_cover[symmetric]
    by (rule merged_scan[OF d]) (auto simp: TERMINAL_STATES_def leg_rows_def endedTask_def)
  let ?M = "sort_key ?k (concat ?legs)"
  have page: "take limit ?M = take limit ?S"
    using arg_cong[OF one, of "take limit"] by (simp add: take_take min_def)
  have more: "limit < length ?M \<longleftrightarrow> limit < length ?S"
    using arg_cong[OF one, of length] by (auto simp: min_def split: if_splits)
  have all: "all_of (\<lambda>st. all_of (candidateOf st) (candidate_leg (\<lambda>st. now) queue ws limit after db st)) TERMINAL_STATES =
      Inr (map (map candidate) ?legs)"
    using leg_candidates by (subst all_of_Inr) (auto simp: comp_def)
  have cat: "sort_key ?c (concat (map (map candidate) ?legs)) = map candidate ?M"
    using srt by (simp add: map_concat)
  have follows: "(limit < length ?M \<and> take limit ?M \<noteq> []) = (limit < length ?S \<and> limit \<noteq> 0)"
    using page_follows[OF more] .
  let ?P = "map candidate (take limit ?M)"
  have ans: "purgeCandidates (\<lambda>st. now) queue policy (Some (wanted, cursor)) db =
      Inr (?P, if limit < length ?M \<and> take limit ?M \<noteq> [] then Some (pc_ended (last ?P), pc_task (last ?P)) else None)"
    by (simp only: purgeCandidates_def assms(2-4) all cat sum.case option.case prod.case Let_def take_map length_map
        map_is_Nil_conv)
  note ans2 = ans[unfolded follows, unfolded page]
  show ?thesis
  proof (cases "limit < length ?S \<and> limit \<noteq> 0")
    case True
    then have ne: "take limit ?S \<noteq> []" using follows page by simp
    have "last (map candidate (take limit ?S)) = candidate (?S ! (limit - 1))"
      unfolding last_map[OF ne] using last_of_page[of limit ?S] True by simp
    then show ?thesis unfolding ans2 using True by (simp add: candidate_def Let_def)
  next
    case False
    then show ?thesis unfolding ans2 by (simp only: if_False)
  qed
qed

section \<open>The purge of a unit\<close>

text \<open>What a unit holds of each table.\<close>

definition unit_size :: "string \<Rightarrow> string \<Rightarrow> db \<Rightarrow> unit_rows" where
  "unit_size queue task db =
     \<lparr>held_tasks = 1, held_runs = count_where (\<lambda>r. r_task r = task) (runs db),
      held_checkpoints = count_where (\<lambda>c. c_task c = task) (checkpoints db),
      held_events = count_where (\<lambda>e. e_queue e = queue \<and> e_name e = taskDoneEventName task) (events db),
      held_waits = count_where (\<lambda>w. \<exists>r\<in>set (runs db). r_task r = task \<and> w_run w = r_id r) (waits db)\<rparr>"

lemma unit_read:
  assumes "keys_ok db" "t \<in> set (tasks db)" "purge_admits now queue task key parent ws db t"
  shows "purgedUnitRowsRead seed queue task (fst (run_batch [purgeCas seed now queue task key parent ws] db)) =
    Some (unit_size queue task db)"
proof -
  let ?t = "stamp_task seed ''purge'' (Num now) t"
  have a: "t_id t = task" "\<And>r. r \<in> set (runs db) \<Longrightarrow> r_task r = task \<Longrightarrow> r_queue r = queue"
    using assms(3) by (auto simp: purge_admits_def)
  have d: "fst (run_batch [purgeCas seed now queue task key parent ws] db) = put_task ?t db"
    using purge_exec(2)[OF assms] by (simp add: run_batch_def)
  have s: "stamped_tasks seed ''purge'' (\<lambda>f. t_id f = task) (put_task ?t db) = [?t]"
    by (rule stamped_task_one) (use keys_okD(1)[OF assms(1)] assms(2) a(1) in \<open>auto simp: in_put_task\<close>)
  have "count_where (\<lambda>r. r_task r = task \<and> r_queue r = queue) (runs db) = count_where (\<lambda>r. r_task r = task) (runs db)"
    using a(2) unfolding count_where_def by (intro arg_cong[where f = length] filter_cong) auto
  moreover have "count_where (\<lambda>w. \<exists>r\<in>set (runs db). r_task r = task \<and> r_queue r = queue \<and> w_run w = r_id r) (waits db) =
      count_where (\<lambda>w. \<exists>r\<in>set (runs db). r_task r = task \<and> w_run w = r_id r) (waits db)"
    by (intro arg_cong[where f = "\<lambda>p. count_where p (waits db)"] ext) (use a(2) in blast)
  ultimately show ?thesis by (simp add: purgedUnitRowsRead_def d s unit_size_def)
qed

lemma purge_unit_cases:
  assumes "keys_ok db" "fresh seed db" "purgeUnit seed now queue task key policy db = (db', ans)"
  obtains (refused) e where "retentionWindowsMs policy = Inl e" "db' = db" "ans = Inl e"
  | (kept) ws where "retentionWindowsMs policy = Inr ws" "db' = db" "ans = Inr None"
      "\<And>parent t. spawningParent key = Known parent \<Longrightarrow> t \<in> set (tasks db) \<Longrightarrow> \<not> purge_admits now queue task key parent ws db t"
  | (purged) ws parent t where "retentionWindowsMs policy = Inr ws" "spawningParent key = Known parent"
      "t \<in> set (tasks db)" "purge_admits now queue task key parent ws db t"
      "db' = unit_gone queue task db" "ans = Inr (Some (unit_size queue task db))"
proof (cases "retentionWindowsMs policy")
  case (Inl e)
  then show ?thesis using refused assms(3) by (simp add: purgeUnit_def)
next
  case (Inr ws)
  note ws = Inr
  show ?thesis
  proof (cases "spawningParent key")
    case Unknown
    show ?thesis by (rule kept[OF ws]) (use assms(3) ws Unknown in \<open>simp_all add: purgeUnit_def\<close>)
  next
    case (Known parent)
    obtain d r where b: "run_batch (purge_batch seed now queue task key parent ws) db = (d, r)" by force
    show ?thesis
    proof (cases rule: purge_batch_cases[OF assms(1,2) b])
      case (1 res)
      show ?thesis
        by (rule kept[OF ws]) (use assms(3) ws Known b 1 in \<open>auto simp: purgeUnit_def\<close>)
    next
      case (2 t res)
      have "db' = unit_gone queue task db" "ans = Inr (Some (unit_size queue task db))"
        using assms(3) ws Known b 2(3-10) unit_read[OF assms(1) 2(1,2), of seed]
        by (simp_all add: purgeUnit_def purgedRows_def unit_size_def)
      then show ?thesis by (rule purged[OF ws Known 2(1,2)])
    qed
  qed
qed

text \<open>A parent that may still run keeps its children, and so does a run or a wait that may still read
  the outcome.\<close>

lemma purge_spares:
  assumes "keys_ok db" "fresh seed db" "purgeUnit seed now queue task key policy db = (db', ans)"
    "(\<exists>p\<in>set (tasks db). \<exists>replay. key = Some (childSpawnKey (t_id p) replay) \<and> (live (t_state p) \<or> t_state p = Failed)) \<or>
     (\<exists>w\<in>set (waits db). w_queue w = queue \<and> w_event w = taskDoneEventName task) \<or>
     (\<exists>t\<in>set (tasks db). t_id t = task \<and> (live (t_state t) \<or> t_idem t \<noteq> key))"
  shows "db' = db"
proof (cases rule: purge_unit_cases[OF assms(1-3)])
  case (3 ws parent t)
  have child: "spawningParent (Some (childSpawnKey p replay)) = Known (Some p)" for p replay
    by (simp add: spawningParent_def parse_childSpawnKey) (simp add: childSpawnKey_def)
  have same: "x = t" if "x \<in> set (tasks db)" "t_id x = task" for x
    using task_table.unique[OF keys_okD(1)[OF assms(1)] that(1) 3(3)] 3(4) that(2) by (simp add: purge_admits_def)
  have "\<not> live (t_state t)" "t_idem t = key"
    using 3(4) by (auto simp: purge_admits_def endedAWindowAgo_def TERMINAL_STATES_def)
  then show ?thesis
    using assms(4) 3(2,4) same child
    by (auto simp: purge_admits_def parentCannotRunAgain_def noWaitOnTheOutcome_def)
qed simp_all

end
