(* ===== verification/Task_Calls.thy ===== *)
theory Task_Calls
  imports Retry Operations
begin

text \<open>
  The two calls of the store that are more than one batch, as a worker makes them: \<open>spawn\<close> with the
  validation of its options (store-libsql \<open>store.ts\<close>) and \<open>awaitTaskDone\<close> with its rounds. Other
  callers act between the batches, so each is a sequence of transactions.
\<close>

section \<open>Spawn\<close>

text \<open>A field that was left out is \<open>JsUndefined\<close> or \<open>None\<close>. The headers are the JSON data
  \<open>serializeTaskHeaders\<close> owns of what was handed in.\<close>

record spawn_options =
  so_key :: "string option"
  so_child :: "child_of option"
  so_retry :: js_value
  so_max_attempts :: "number option"
  so_delay :: "number option"
  so_cancellation :: "(number option \<times> number option) option"
  so_headers :: "json option"

definition optional_duration :: "string \<Rightarrow> number option \<Rightarrow> int option checked" where
  "optional_duration name n =
     (case n of None \<Rightarrow> Inr None | Some s \<Rightarrow> map_sum id Some (durationToMs name s False))"

definition seconds_member :: "string \<Rightarrow> int option \<Rightarrow> (string \<times> json) list" where
  "seconds_member name ms = (case ms of None \<Rightarrow> [] | Some n \<Rightarrow> [(name, JReal (of_int n / 1000))])"

text \<open>The canonical policy, and the deadline its delay gives a task that never starts.\<close>

definition cancellation_of :: "(number option \<times> number option) option \<Rightarrow> (doc \<times> int option) checked" where
  "cancellation_of policy =
     (case policy of
        None \<Rightarrow> Inr (NoDoc, None)
      | Some (maxDelay, maxDuration) \<Rightarrow>
          (case optional_duration ''cancellation.maxDelaySeconds'' maxDelay of
             Inl e \<Rightarrow> Inl e
           | Inr delay \<Rightarrow>
               (case optional_duration ''cancellation.maxDurationSeconds'' maxDuration of
                  Inl e \<Rightarrow> Inl e
                | Inr dur \<Rightarrow>
                    Inr (Doc (JObject (seconds_member ''maxDelaySeconds'' delay @
                                       seconds_member ''maxDurationSeconds'' dur)), delay))))"

definition spawn_request_of ::
  "string \<Rightarrow> string \<Rightarrow> string \<Rightarrow> spawn_options \<Rightarrow> spawn_request checked" where
  "spawn_request_of queue name params opts =
     (case spawnIdempotencyKey (so_key opts) (so_child opts) of Inl e \<Rightarrow> Inl e | Inr key \<Rightarrow>
     (case normalizeRetryStrategy (if so_retry opts = JsUndefined then strategy_value DEFAULT_RETRY else so_retry opts) of
        Inl e \<Rightarrow> Inl e
      | Inr strategy \<Rightarrow>
     (case requirePositiveInt ''maxAttempts''
             (case so_max_attempts opts of None \<Rightarrow> Finite (of_int DEFAULT_MAX_ATTEMPTS) | Some n \<Rightarrow> n) 1 of
        Inl e \<Rightarrow> Inl e
      | Inr most \<Rightarrow>
     (case durationToMs ''startDelaySeconds'' (case so_delay opts of None \<Rightarrow> Finite 0 | Some n \<Rightarrow> n) False of
        Inl e \<Rightarrow> Inl e
      | Inr delay \<Rightarrow>
     (case cancellation_of (so_cancellation opts) of Inl e \<Rightarrow> Inl e | Inr (policy, maxDelay) \<Rightarrow>
        Inr \<lparr>sp_queue = queue, sp_name = name, sp_params = params,
             sp_headers = (case so_headers opts of None \<Rightarrow> NoDoc | Some j \<Rightarrow> Doc j),
             sp_retry = Doc (strategy_doc strategy), sp_max_attempts = most, sp_delay = delay,
             sp_max_delay = maxDelay, sp_cancellation = policy, sp_key = key,
             sp_parent = so_child opts\<rparr>)))))"

definition spawn ::
  "(db \<Rightarrow> string) \<Rightarrow> (nat \<Rightarrow> instant) \<Rightarrow> (db \<Rightarrow> db) \<Rightarrow> string \<Rightarrow> string \<Rightarrow> string \<Rightarrow> string \<Rightarrow> string \<Rightarrow>
   spawn_options \<Rightarrow> db \<Rightarrow> spawn_result reply" where
  "spawn draw clock between task rid queue name params opts db =
     (case spawn_request_of queue name params opts of
        Inl e \<Rightarrow> (db, Inl e)
      | Inr rq \<Rightarrow>
          spawnSendingOnceMore (\<lambda>d. spawnOnce (draw d) (clock 0) task rid rq d)
            (\<lambda>d. spawnOnce (draw d) (clock 1) task rid rq d) between db)"

text \<open>What the options become is a request the store's proofs are about, and its policy is the one
  a claim admits.\<close>

lemma request_valid:
  assumes "spawn_request_of queue name params opts = Inr rq"
  shows "valid_request rq"
  using assms
  by (auto simp: spawn_request_of_def valid_request_def split: sum.splits prod.splits
      dest!: requirePositiveInt_bounds durationToMs_bounds)

lemma request_strategy:
  assumes "spawn_request_of queue name params opts = Inr rq"
  obtains s where "normal s" "sp_retry rq = Doc (strategy_doc s)"
  using assms by (auto simp: spawn_request_of_def split: sum.splits prod.splits dest: normalize_normal)

lemma sending_leads:
  assumes "\<And>d. leads_to d (fst (send d))" "\<And>d. leads_to d (fst (send2 d))" "\<And>d. leads_to d (between d)"
  shows "leads_to db (fst (spawnSendingOnceMore send send2 between db))"
proof -
  let ?d = "between (fst (send db))"
  have "leads_to db ?d" "leads_to ?d (fst (send2 ?d))" using assms by (meson rtranclp_trans)+
  then have "leads_to db (fst (send2 ?d))" by (rule rtranclp_trans)
  then show ?thesis using assms(1)[of db]
    by (auto simp: spawnSendingOnceMore_def split: prod.splits sum.splits option.splits)
qed

lemma spawn_leads:
  assumes "\<And>d. fresh (draw d) d" "\<And>i. valid_clock (clock i)" "\<And>d. leads_to d (between d)"
  shows "leads_to db (fst (spawn draw clock between task rid queue name params opts db))"
proof (cases "spawn_request_of queue name params opts")
  case (Inr rq)
  have "leads_to d (fst (spawnOnce (draw d) (clock i) task rid rq d))" for d i
    by (rule unit_calls(3)[OF assms(1,2) request_valid[OF Inr]])
  then show ?thesis using assms(3) Inr by (simp add: spawn_def sending_leads)
qed (simp add: spawn_def)

section \<open>The child await\<close>

text \<open>A caller that writes a task stamps it, and a stamp is never drawn twice: a row that still carries
  the stamp it was read with is in the state it was read in.\<close>

definition stamps_tell :: "(db \<Rightarrow> db) \<Rightarrow> bool" where
  "stamps_tell f =
     (\<forall>d c c'. keys_ok d \<and> c \<in> set (tasks d) \<and> c' \<in> set (tasks (f d)) \<and> t_id c' = t_id c \<and> t_stamp c' = t_stamp c \<longrightarrow>
        t_state c' = t_state c)"

lemma done_state_row:
  assumes "taskDoneState child d = Inr (Some (q, res, st))"
  shows "\<exists>c\<in>set (tasks d). t_id c = child \<and> t_stamp c = st \<and> t_state c = o_state res"
proof -
  obtain t where t: "find (\<lambda>t. t_id t = child) (tasks d) = Some t" "decodeTaskResult t = Inr res" "st = t_stamp t"
    using assms by (auto simp: taskDoneState_def split: option.splits sum.splits)
  then have "t \<in> set (tasks d)" "t_id t = child" by (auto simp: find_Some_iff)
  moreover have "t_state t = o_state res"
    using t(2) by (auto simp: decodeTaskResult_def task_outcome_def split: if_splits)
  ultimately show ?thesis using t(3) by blast
qed

lemma round_leads:
  assumes "\<And>i d. fresh (seeds i d) d" "\<And>i. valid_clock (clock i)" "\<And>i d. leads_to d (between i d)"
    "\<And>i. stamps_tell (between i)" "reachable db"
  shows "leads_to db (fst (awaitTaskDone_round seeds clock between queue task rid token step child timeout (TaskDone child) i db))"
proof -
  let ?d0 = "between (3 * i) db"
  let ?a = "awaitNamedEvent (seeds (2 * i) ?d0) (clock (2 * i)) queue task rid token step (TaskDone child) timeout ?d0"
  let ?d1 = "between (3 * i + 1) (fst ?a)"
  let ?d2 = "between (3 * i + 2) ?d1"
  let ?r = "\<lambda>st res. recordTaskDone (seeds (2 * i + 1) ?d2) (clock (2 * i + 1)) queue task rid token child st res ?d2"
  have a: "leads_to db (fst ?a)"
    using assms(3)[of db "3 * i"] await_named_call[OF assms(1,2)] by (meson rtranclp_trans)
  then have d1: "leads_to db ?d1" using assms(3) by (meson rtranclp_trans)
  have rec: "leads_to db (fst (?r st res))" if "taskDoneState child ?d1 = Inr (Some (q, res, st))" "\<not> live (o_state res)" for q st res
  proof -
    note h = that
    obtain c where c: "c \<in> set (tasks ?d1)" "t_id c = child" "t_stamp c = st" "t_state c = o_state res"
      using done_state_row[OF h(1)] by blast
    have "keys_ok ?d1" using inv_keys[OF reachable_inv[OF reachable_leads[OF assms(5) d1]]] .
    then have "\<forall>x\<in>set (tasks ?d2). t_id x = child \<and> t_stamp x = st \<longrightarrow> \<not> live (t_state x)"
      using assms(4)[of "3 * i + 2"] c h(2) unfolding stamps_tell_def by metis
    then have "leads_to ?d2 (fst (?r st res))" by (rule record_child_call[OF assms(1)])
    then show ?thesis using d1 assms(3) by (meson rtranclp_trans)
  qed
  show ?thesis
    using a d1 rec
    by (auto simp: awaitTaskDone_round_def Let_def split: prod.splits sum.splits option.splits if_splits)
qed

lemma rounds_leads:
  assumes "\<And>i d. reachable d \<Longrightarrow> leads_to d (fst (once i d))" "reachable db"
  shows "leads_to db (fst (awaitTaskDone_rounds k once refuse i db))"
  using assms(2)
proof (induction k arbitrary: i db)
  case (Suc k)
  have one: "leads_to db (fst (once i db))" by (rule assms(1)[OF Suc.prems])
  have "leads_to db (fst (awaitTaskDone_rounds k once refuse (i + 1) (fst (once i db))))"
    using one Suc.IH[OF reachable_leads[OF Suc.prems one]] by (meson rtranclp_trans)
  then show ?case using one by (auto split: prod.splits sum.splits option.splits)
qed simp

lemma await_child_leads:
  assumes "\<And>i d. fresh (seeds i d) d" "\<And>i. valid_clock (clock i)" "\<And>i d. leads_to d (between i d)"
    "\<And>i. stamps_tell (between i)" "reachable db"
  shows "leads_to db (fst (awaitTaskDone seeds clock between queue task rid token step child timeout db))"
proof (cases "awaitedTaskDone child")
  case (Inr name)
  then have "name = TaskDone child" by (auto simp: awaitedTaskDone_def split: if_splits)
  then show ?thesis using Inr by (simp add: awaitTaskDone_def rounds_leads round_leads[OF assms(1-4)] assms(5))
qed (simp add: awaitTaskDone_def)

lemma stamps_tell_idle: "stamps_tell (\<lambda>d. d)"
  unfolding stamps_tell_def using task_table.unique[OF keys_okD(1)] by blast

end
