(* ===== verification/Further.thy ===== *)
theory Further
  imports Scenario Progress Charges Saga_Facts Lifecycle Names Child_Results Loop Retention_Facts Task_Calls
begin

text \<open>
  Smaller facts of the store and its driver: the claim query's legs, a token that comes back, how a
  batch answers, the payload of a completion, the next wake, a page of the purge, a park's bounds,
  and a failed launch.
\<close>

text \<open>The two bounded legs of the claim's query read what one scan would. Taking the limit of
  the pending and of the sleeping runs and then the limit of both, with a run's task joined once
  more, gives the first runs of the whole queue in order.\<close>

lemma claim_legs_are_one_scan:
  assumes "reachable db"
  shows "candidateRunIds now queue limit db = map r_id (claim_scan now queue limit db)"
  by (rule candidates_scan[OF inv_keys[OF reachable_inv[OF assms]]])

text \<open>A claim repeated with its token takes nothing. While a run of the queue is held under the
  token, a claim of that token writes nothing and answers the runs it holds.\<close>

lemma claim_token_rereads:
  assumes "reachable db" "fresh seed db" "token_holds queue token db"
    "claim seed now short queue token lease limit db = (db', Inr cs)"
  shows "db' = db \<and> decode_all token (claimReceipt queue token db) = Inr cs"
  using claim_same_token[OF reachable_inv[OF assms(1)] assms(2-4)] by blast

text \<open>What a batch answers. A batch of the store aborts on a violated key and then changes
  nothing, or commits; its audit never fails after the commit, and the only winner it can name is
  its compare-and-set.\<close>

lemma batches_answer:
  assumes "reachable db" "store_batch ss" "run_batch ss db = (db', ans)"
  shows "(\<exists>col. ans = Inl (UniqueViolation col) \<and> db' = db) \<or>
    (\<exists>res. ans = Inr res \<and> (won res = None \<or> won res = Some (s_name (hd ss))))"
  by (rule store_batch_answers[OF assms(2) inv_keys[OF reachable_inv[OF assms(1)]] assms(3)])

text \<open>An outcome survives its payload. What the batch that ended a task wrote as the completion
  event's payload, any string in it escaped, parses and decodes to the same outcome.\<close>

lemma outcome_payload_round_trip:
  assumes "\<not> live (o_state res)" "contradictionsOf res = []"
  shows "decodeTaskOutcome task (parse_object (encodeTaskOutcome res)) = Inr res"
  by (rule decode_encoded[OF assms])

text \<open>The next wake is the earliest instant anything comes due. It answers an instant exactly
  when a run of the queue becomes available, a lease of it expires or a task's deadline passes at
  one in range, and no such instant is earlier.\<close>

lemma next_wake_is_earliest:
  "\<exists>x. nextWakeAtEpochMs queue db = Inr x \<and>
    (case x of
       None \<Rightarrow> \<not> (\<exists>n. 0 \<le> n \<and> n \<le> MAX_EPOCH_MS \<and> comes_due queue db n)
     | Some w \<Rightarrow> comes_due queue db w \<and> 0 \<le> w \<and> w \<le> MAX_EPOCH_MS \<and>
         \<not> (\<exists>n. 0 \<le> n \<and> n < w \<and> comes_due queue db n))"
proof -
  obtain x where x: "nextWakeAtEpochMs queue db = Inr x" using next_wake_total by blast
  show ?thesis using next_wake_earliest[OF x] x by (cases x) force+
qed

text \<open>A page of purge candidates, read in a leg for each ended state, is the scan of all the ended
  tasks that are old enough, past the cursor and oldest first, up to the limit; its next cursor is
  the last of the page, and is there exactly when the scan goes on.\<close>

lemma purge_page_is_scan:
  assumes "reachable db" "retentionWindowsMs policy = Inr ws" "requireListLimit wanted = Inr limit" "startAfter cursor = Inr past"
  shows "purgeCandidates (\<lambda>st. now) queue policy (Some (wanted, cursor)) db =
    Inr (map candidate (take limit (purge_scan now queue ws past db)),
      if limit < length (purge_scan now queue ws past db) \<and> limit \<noteq> 0
      then (let t = purge_scan now queue ws past db ! (limit - 1) in Some (ival (t_fence_at t), t_id t)) else None)"
  by (rule page_is_scan[OF inv_keys[OF reachable_inv[OF assms(1)]] assms(2-4)])

text \<open>The resident loop's park. With checked options a park is at least a millisecond, at most the
  idle ceiling and a timer's range, and ends by the next registry beat and by the next wake; it is
  skipped only with a backlog or when the tick found work and more is due.\<close>

lemma park_is_bounded:
  assumes "check_options opts busy idle idleAfter wakeFloor registry = Inr lo"
    "after_tick lo ls result now elapsed = (ls', yields, act)"
  shows "case act of
      Park ms \<Rightarrow> 1 \<le> ms \<and> ms \<le> lo_idle lo \<and> ms \<le> MAX_TIMER_MS \<and> ms \<le> msUntilBeatDue lo ls elapsed \<and>
        (\<forall>r w. result = Some r \<and> tr_next_wake r = Some w \<and> now < w \<longrightarrow> now + ms \<le> w)
    | LookAgain \<Rightarrow> \<exists>r. result = Some r \<and>
        (tr_backlog r \<or> (\<not> (tr_claimed r = 0 \<and> tr_swept r = []) \<and> (\<exists>w. tr_next_wake r = Some w \<and> w \<le> now)))"
proof (cases act)
  case (Park ms)
  then show ?thesis
    using park_bounds(1)[OF checked_sane[OF assms(1)] assms(2)[unfolded Park]] park_bounds(2)[OF checked_sane[OF assms(1)] assms(2)[unfolded Park]]
    by (simp del: One_nat_def)
next
  case LookAgain
  show ?thesis
    by (rule look_again_reason[OF assms(2)[unfolded LookAgain]]) (simp only: LookAgain pass_action.case, blast)
qed

text \<open>A failed launch is given up at once. When nothing can be said of a launch, the lease of that
  very claim ends now, so the next sweep takes the run; no other run and no task changes.\<close>

lemma failed_launch_expires:
  assumes "reachable db" "r \<in> set (runs db)" "whereClaimedRun (cr_run c) queue (cr_token c) r" "runClaimUnexpired r (clock i)"
    "valid_clock (clock i)" "store = libsql_store draw newId clock (\<lambda>i d. d) between short queue"
    "db' = fst (reconcile store i c None db)"
  shows "r\<lparr>r_expires := Num (clock i)\<rparr> \<in> set (runs db') \<and> runClaimExpired (r\<lparr>r_expires := Num (clock i)\<rparr>) (clock i) \<and>
    set (runs db) - {r} \<subseteq> set (runs db') \<and> tasks db' = tasks db \<and>
    fst (reconcile store i c (Some Accepted) db) = db \<and>
    (\<forall>e. en_run e \<noteq> cr_run c \<or> en_token e \<noteq> cr_token c \<longrightarrow> fst (reconcile store i c (Some (EndedReport e)) db) = db)"
proof -
  have o: "owner_such db r (\<lambda>t. True)"
    using inv_owner[OF reachable_inv[OF assms(1)] assms(2)] by (auto simp: owner_such_def runOwnedByTask_def)
  have u: "x = r" if "x \<in> set (runs db)" "whereClaimedRun (cr_run c) queue (cr_token c) x" for x
    using run_table.unique[OF keys_okD(2)[OF inv_keys[OF reachable_inv[OF assms(1)]]] that(1) assms(2)] that(2) assms(3)
    by (simp add: whereClaimedRun_def)
  let ?p = "\<lambda>x. whereClaimedRun (cr_run c) queue (cr_token c) x \<and> runClaimUnexpired x (clock i) \<and> owner_such db x (\<lambda>t. True)"
  let ?f = "\<lambda>x. x\<lparr>r_expires := Num (clock i)\<rparr>"
  have p: "?p r" using assms(3,4) o by blast
  have e: "db' = db\<lparr>runs := update_where ?p ?f (runs db)\<rparr>"
    unfolding assms(6,7) by (simp add: reconcile_def libsql_store_def expireLeaseNow_def Let_def)
  have "?f r \<in> set (runs db')" using assms(2) p unfolding e by (force simp: set_update_where)
  moreover have "set (runs db) - {r} \<subseteq> set (runs db')"
  proof
    fix x assume x: "x \<in> set (runs db) - {r}"
    then have "\<not> ?p x" using u by blast
    then show "x \<in> set (runs db')" using x kept_row[of ?p x "runs db" ?f] unfolding e by simp
  qed
  moreover have "runClaimExpired (?f r) (clock i)" "tasks db' = tasks db"
    using assms(5) by (simp_all add: runClaimExpired_def valid_clock_def epoch_bounds_def e)
  moreover have "fst (reconcile store i c (Some Accepted) db) = db"
    "en_run x \<noteq> cr_run c \<or> en_token x \<noteq> cr_token c \<Longrightarrow> fst (reconcile store i c (Some (EndedReport x)) db) = db" for x
    by (simp_all add: reconcile_def)
  ultimately show ?thesis by blast
qed

end
