(* ===== verification/Claimed_Answer.thy ===== *)
theory Claimed_Answer
  imports Claim
begin

text \<open>
  What a worker takes of an activation's answer (core \<open>claimed-run-answer.ts\<close>). The store may come
  from another commit, so every field the worker reads is decoded with the stores' own bounds
  before any user code runs, and the worker runs on the decoded run and never on the answer. The
  answer the store of this model gives is one the decoder takes.
\<close>

datatype event_wake = WakePayload string string string | WakeTimedOut string string

fun wake_step :: "event_wake \<Rightarrow> string" where
  "wake_step (WakePayload ev st p) = st"
| "wake_step (WakeTimedOut ev st) = st"

record worker_run =
  wr_run :: string
  wr_token :: string
  wr_task :: string
  wr_task_name :: string
  wr_attempt :: int
  wr_infra :: int
  wr_gen :: int
  wr_lease :: rat
  wr_params :: string
  wr_retry :: retry_strategy
  wr_max_attempts :: int
  wr_wake :: "event_wake option"

section \<open>The decoders\<close>

definition nonEmptyText :: "js_value \<Rightarrow> string option" where
  "nonEmptyText v = (case v of JsString s \<Rightarrow> if s = [] then None else Some s | _ \<Rightarrow> None)"

definition plainText :: "js_value \<Rightarrow> string option" where
  "plainText v = (case v of JsString s \<Rightarrow> Some s | _ \<Rightarrow> None)"

definition decodeBoundedInteger :: "js_value \<Rightarrow> bounds \<Rightarrow> int option" where
  "decodeBoundedInteger v b =
     (case v of
        JsNumber n \<Rightarrow>
          (case n of
             Finite q \<Rightarrow> if safe_integer n \<and> fst b \<le> floor q \<and> floor q \<le> snd b then Some (floor q) else None
           | NotFinite \<Rightarrow> None)
      | _ \<Rightarrow> None)"

text \<open>Whole milliseconds, to a millionth.\<close>

definition decodeLeaseSeconds :: "js_value \<Rightarrow> rat option" where
  "decodeLeaseSeconds v =
     (case v of
        JsNumber (Finite q) \<Rightarrow>
          let ms = js_round (q * 1000) in
          if abs (q * 1000 - of_int ms) > of_int (max 1 ms) / 1000000 then None
          else map_option (\<lambda>m. of_int m / 1000) (decodeBoundedInteger (JsNumber (Finite (of_int ms))) lease_ms_bounds)
      | _ \<Rightarrow> None)"

definition decodeRetryField :: "js_value \<Rightarrow> retry_strategy option" where
  "decodeRetryField v = (case normalizeRetryStrategy v of Inl e \<Rightarrow> None | Inr s \<Rightarrow> Some s)"

definition decodeEventWake :: "js_value \<Rightarrow> event_wake option" where
  "decodeEventWake v =
     (case v of
        JsObject ms \<Rightarrow>
          (case (nonEmptyText (readRetryField ms ''event''), nonEmptyText (readRetryField ms ''step'')) of
             (Some ev, Some st) \<Rightarrow>
               if map_of ms ''timedOut'' = Some (JsBool True) then
                 (if map_of ms ''payloadJson'' = None then Some (WakeTimedOut ev st) else None)
               else if map_of ms ''timedOut'' \<noteq> None \<and> map_of ms ''timedOut'' \<noteq> Some (JsBool False) then None
               else (case map_of ms ''payloadJson'' of Some (JsString p) \<Rightarrow> Some (WakePayload ev st p) | _ \<Rightarrow> None)
           | _ \<Rightarrow> None)
      | _ \<Rightarrow> None)"

definition required :: "(string \<times> js_value) list \<Rightarrow> string \<Rightarrow> (js_value \<Rightarrow> 'a option) \<Rightarrow> string + 'a" where
  "required ms field decode = (case decode (readRetryField ms field) of None \<Rightarrow> Inl field | Some a \<Rightarrow> Inr a)"

definition optional_field :: "(string \<times> js_value) list \<Rightarrow> string \<Rightarrow> (js_value \<Rightarrow> 'a option) \<Rightarrow> string + 'a option" where
  "optional_field ms field decode =
     (if readRetryField ms field = JsUndefined then Inr None else map_sum id Some (required ms field decode))"

text \<open>The decoded run, or the first field that is absent or malformed.\<close>

definition decodeClaimedRunAnswer :: "js_value \<Rightarrow> string + worker_run" where
  "decodeClaimedRunAnswer answer =
     (case answer of
        JsObject ms \<Rightarrow>
          (case required ms ''runId'' nonEmptyText of Inl f \<Rightarrow> Inl f | Inr rid \<Rightarrow>
          (case required ms ''claimToken'' nonEmptyText of Inl f \<Rightarrow> Inl f | Inr token \<Rightarrow>
          (case required ms ''taskId'' nonEmptyText of Inl f \<Rightarrow> Inl f | Inr task \<Rightarrow>
          (case required ms ''taskName'' nonEmptyText of Inl f \<Rightarrow> Inl f | Inr name \<Rightarrow>
          (case required ms ''attempt'' (\<lambda>v. decodeBoundedInteger v run_attempt_bounds) of Inl f \<Rightarrow> Inl f | Inr attempt \<Rightarrow>
          (case required ms ''infraRetries'' (\<lambda>v. decodeBoundedInteger v infra_retries_bounds) of Inl f \<Rightarrow> Inl f | Inr infra \<Rightarrow>
          (case required ms ''claimGen'' (\<lambda>v. decodeBoundedInteger v positive_claim_gen_bounds) of Inl f \<Rightarrow> Inl f | Inr gen \<Rightarrow>
          (case required ms ''leaseSeconds'' decodeLeaseSeconds of Inl f \<Rightarrow> Inl f | Inr lease \<Rightarrow>
          (case required ms ''paramsJson'' plainText of Inl f \<Rightarrow> Inl f | Inr params \<Rightarrow>
          (case required ms ''retryStrategy'' decodeRetryField of Inl f \<Rightarrow> Inl f | Inr retry \<Rightarrow>
          (case required ms ''maxAttempts'' (\<lambda>v. decodeBoundedInteger v max_attempts_bounds) of Inl f \<Rightarrow> Inl f | Inr most \<Rightarrow>
          (case optional_field ms ''wake'' decodeEventWake of Inl f \<Rightarrow> Inl f | Inr wake \<Rightarrow>
             if infra \<ge> attempt then Inl ''infraRetries''
             else Inr \<lparr>wr_run = rid, wr_token = token, wr_task = task, wr_task_name = name, wr_attempt = attempt,
                       wr_infra = infra, wr_gen = gen, wr_lease = lease, wr_params = params, wr_retry = retry,
                       wr_max_attempts = most, wr_wake = wake\<rparr>))))))))))))
      | _ \<Rightarrow> Inl ''answer'')"

section \<open>What the store of this model answers\<close>

fun wake_value :: "wake_delivery \<Rightarrow> js_value" where
  "wake_value NoWake = JsUndefined"
| "wake_value (TimedOut ev st) =
     JsObject [(''event'', JsString ev), (''step'', JsString st), (''timedOut'', JsBool True)]"
| "wake_value (Payload ev st c) =
     JsObject [(''event'', JsString ev), (''step'', JsString st),
               (''payloadJson'', case c of Text p \<Rightarrow> JsString p | _ \<Rightarrow> JsOther)]"

definition answer_value :: "claimed_run \<Rightarrow> js_value" where
  "answer_value c =
     JsObject [(''runId'', JsString (cr_run c)), (''claimToken'', JsString (cr_token c)),
       (''taskId'', JsString (cr_task c)), (''taskName'', JsString (cr_task_name c)),
       (''attempt'', JsNumber (Finite (of_int (cr_attempt c)))),
       (''infraRetries'', JsNumber (Finite (of_int (cr_infra c)))),
       (''claimGen'', JsNumber (Finite (of_int (cr_claim_gen c)))),
       (''claimExpiresAtEpochMs'', JsNumber (Finite (of_int (cr_expires c)))),
       (''leaseSeconds'', JsNumber (Finite (of_int (cr_lease_ms c) / 1000))),
       (''paramsJson'', JsString (cr_params c)),
       (''retryStrategy'', strategy_value (cr_retry c)),
       (''maxAttempts'', JsNumber (Finite (of_int (cr_max_attempts c)))),
       (''headers'', json_value (cr_headers c)), (''wake'', wake_value (cr_wake c))]"

section \<open>It is one the worker takes\<close>

lemma bounded_of_int:
  "lo \<le> a \<Longrightarrow> a \<le> hi \<Longrightarrow> abs a \<le> MAX_SAFE_INTEGER \<Longrightarrow>
     decodeBoundedInteger (JsNumber (Finite (of_int a))) (lo, hi) = Some a"
  by (simp add: decodeBoundedInteger_def safe_integer_def)

lemma bounds_safe:
  "persisted_integer s run_attempt_bounds c = Inr a \<Longrightarrow> decodeBoundedInteger (JsNumber (Finite (of_int a))) run_attempt_bounds = Some a"
  "persisted_integer s infra_retries_bounds c = Inr a \<Longrightarrow> decodeBoundedInteger (JsNumber (Finite (of_int a))) infra_retries_bounds = Some a"
  "persisted_integer s positive_claim_gen_bounds c = Inr a \<Longrightarrow> decodeBoundedInteger (JsNumber (Finite (of_int a))) positive_claim_gen_bounds = Some a"
  "persisted_integer s lease_ms_bounds c = Inr a \<Longrightarrow> decodeBoundedInteger (JsNumber (Finite (of_int a))) lease_ms_bounds = Some a"
  "persisted_integer s max_attempts_bounds c = Inr a \<Longrightarrow> decodeBoundedInteger (JsNumber (Finite (of_int a))) max_attempts_bounds = Some a"
  by (auto simp: persisted_integer_def bounds_defs const_defs MAX_SAFE_INTEGER_def intro!: bounded_of_int
      split: cell.splits if_splits)

lemma lease_decodes:
  assumes "persisted_integer s lease_ms_bounds c = Inr a"
  shows "decodeLeaseSeconds (JsNumber (Finite (of_int a / 1000))) = Some (of_int a / 1000)"
  using bounds_safe(4)[OF assms] by (simp add: decodeLeaseSeconds_def)

definition wake_well_formed :: "wake_delivery \<Rightarrow> bool" where
  "wake_well_formed w =
     (case w of NoWake \<Rightarrow> True | TimedOut ev st \<Rightarrow> ev \<noteq> [] \<and> st \<noteq> []
      | Payload ev st c \<Rightarrow> ev \<noteq> [] \<and> st \<noteq> [] \<and> (case c of Text p \<Rightarrow> True | _ \<Rightarrow> False))"

lemma wake_taken:
  assumes "wake_well_formed w" "readRetryField ms ''wake'' = wake_value w"
  shows "\<exists>e. optional_field ms ''wake'' decodeEventWake = Inr e"
  using assms
  by (cases w)
    (auto simp: wake_well_formed_def optional_field_def required_def decodeEventWake_def nonEmptyText_def readRetryField_def
      split: cell.splits)

lemma answer_taken:
  assumes "decodeClaimedRun token r t = Inr c" "cr_infra c < cr_attempt c"
    "token \<noteq> []" "r_id r \<noteq> []" "r_task r \<noteq> []" "t_name t \<noteq> []" "wake_well_formed (cr_wake c)"
  shows "\<exists>w. decodeClaimedRunAnswer (answer_value c) = Inr w \<and> wr_run w = cr_run c \<and> wr_task w = cr_task c \<and>
    wr_token w = token \<and> wr_attempt w = cr_attempt c \<and> wr_infra w = cr_infra c \<and>
    wr_lease w = of_int (cr_lease_ms c) / 1000 \<and> wr_max_attempts w = cr_max_attempts c \<and> wr_retry w = cr_retry c"
proof -
  obtain attempt infra gen expires lease retry most headers where n:
    "persisted_integer ''claim'' run_attempt_bounds (r_attempt r) = Inr attempt"
    "persisted_integer ''claim'' infra_retries_bounds (t_infra t) = Inr infra"
    "persisted_integer ''claim'' positive_claim_gen_bounds (r_claim_gen r) = Inr gen"
    "persisted_integer ''claim'' lease_ms_bounds (r_lease r) = Inr lease"
    "persisted_integer ''claim'' max_attempts_bounds (t_max_attempts t) = Inr most"
    and retry: "stored_retry (t_retry t) = Inr retry"
    and c: "c = \<lparr>cr_run = r_id r, cr_task = r_task r, cr_task_name = t_name t, cr_attempt = attempt,
            cr_infra = infra, cr_claim_gen = gen, cr_token = token, cr_expires = expires,
            cr_lease_ms = lease, cr_params = t_params t, cr_retry = retry,
            cr_max_attempts = most, cr_headers = headers, cr_wake = decode_wake r\<rparr>"
    using assms(1) by (auto simp: decodeClaimedRun_def split: sum.splits)
  have s: "normalizeRetryStrategy (strategy_value retry) = Inr retry"
    using retry by (auto simp: stored_retry_def split: sum.splits intro: normalize_again normalize_normal)
  obtain ms where ms: "answer_value c = JsObject ms" by (simp add: answer_value_def)
  have f: "readRetryField ms ''runId'' = JsString (cr_run c)" "readRetryField ms ''claimToken'' = JsString (cr_token c)"
    "readRetryField ms ''taskId'' = JsString (cr_task c)" "readRetryField ms ''taskName'' = JsString (cr_task_name c)"
    "readRetryField ms ''attempt'' = JsNumber (Finite (of_int (cr_attempt c)))"
    "readRetryField ms ''infraRetries'' = JsNumber (Finite (of_int (cr_infra c)))"
    "readRetryField ms ''claimGen'' = JsNumber (Finite (of_int (cr_claim_gen c)))"
    "readRetryField ms ''leaseSeconds'' = JsNumber (Finite (of_int (cr_lease_ms c) / 1000))"
    "readRetryField ms ''paramsJson'' = JsString (cr_params c)"
    "readRetryField ms ''retryStrategy'' = strategy_value (cr_retry c)"
    "readRetryField ms ''maxAttempts'' = JsNumber (Finite (of_int (cr_max_attempts c)))"
    "readRetryField ms ''wake'' = wake_value (cr_wake c)"
    using ms by (auto simp: answer_value_def readRetryField_def)
  obtain e where e: "optional_field ms ''wake'' decodeEventWake = Inr e" using wake_taken[OF assms(7) f(12)] by blast
  show ?thesis
    unfolding decodeClaimedRunAnswer_def ms
    using assms(2-6) f(1-11) e s bounds_safe(1)[OF n(1)] bounds_safe(2)[OF n(2)] bounds_safe(3)[OF n(3)]
      lease_decodes[OF n(4)] bounds_safe(5)[OF n(5)]
    by (simp add: required_def nonEmptyText_def plainText_def decodeRetryField_def c)
qed

end
