(* ===== verification/Context.thy ===== *)
theory Context
  imports Task_Calls Claimed_Answer
begin

text \<open>
  The durable context of a task function (sdk \<open>context.ts\<close>, \<open>task-control.ts\<close>), for tasks that make
  one durable call at a time: what a pass replays from the checkpoints, what it does for the first
  time, how it parks, and what it registers for a rollback. A task function is the tree of the
  calls it makes, each call followed by what the function does with its answer or its error. A
  pass is the state of one execution. The store it uses is a record of the operations it calls,
  over a state of any type.
\<close>

section \<open>Errors and the engine's signals\<close>

text \<open>A control is what \<open>enroll\<close> records of an error, by the invocation that threw it.\<close>

datatype control =
    SleepSignal wake_spec string string
  | AwaitSignal
  | RollbackPhaseSignal
  | LeaseLostSignal
  | RunCancelledSignal
  | StoreUnavailableSignal
  | StorePermanentSignal

text \<open>How a call of the store fails: with an error it raised, or with a typed outage of the
  executor, which a retry can fix or cannot.\<close>

datatype store_error = Raised exn | Unavailable | Permanent

datatype thrown =
    Control control
  | FatalTask string
  | EventTimeout string
  | TaskTimeout string
  | Threw exn
  | UserThrew string

definition trustedStoreControl :: "store_error \<Rightarrow> control option" where
  "trustedStoreControl e =
     (case e of
        Raised (RunCancelled _ _) \<Rightarrow> Some RunCancelledSignal
      | Raised (LeaseLost _ _) \<Rightarrow> Some LeaseLostSignal
      | Raised _ \<Rightarrow> None
      | Unavailable \<Rightarrow> Some StoreUnavailableSignal
      | Permanent \<Rightarrow> Some StorePermanentSignal)"

definition ordinary :: "store_error \<Rightarrow> thrown" where
  "ordinary e = (case e of Raised x \<Rightarrow> Threw x | Unavailable \<Rightarrow> Control StoreUnavailableSignal | Permanent \<Rightarrow> Control StorePermanentSignal)"

section \<open>Task functions\<close>

text \<open>What a step is handed as its options, with the compensation as a function of the step's output
  and the failure. A value of the task is its JSON data, or \<open>None\<close> when it has none.\<close>

datatype 'h rollback_field = NoHandler | NotAFunction | Handler 'h
datatype 'h step_options = NoOptions | BadOptions | Options "'h rollback_field" js_value

datatype answer = Done | Answered json | ChildTask string string | ChildOutcome outcome

datatype prog =
    Finish "json option"
  | Raise thrown
  | Call call "thrown + answer \<Rightarrow> prog"
and call =
    Step string "(json option \<Rightarrow> json \<Rightarrow> prog) step_options" prog
  | SleepFor number
  | SleepUntil number
  | EmitEvent string string
  | AwaitEvent string "number option"
  | Spawn string "json option" js_value spawn_options
  | AwaitTask json "number option"

section \<open>What a pass uses\<close>

text \<open>\<open>JSON\<close> as the engine captured it: \<open>stringify\<close>, \<open>parse\<close>, which refuses text that is no document,
  and the rendering of a thrown value as a failure.\<close>

record host =
  h_stringify :: "json \<Rightarrow> string"
  h_parse :: "string \<Rightarrow> json option"
  h_failure :: "thrown \<Rightarrow> string"

text \<open>The operations of \<open>SchedulerStore\<close> a worker calls, in their order of arguments. A beat of the
  heartbeat is due or is not; the checkpoints are names and states; an await answers the payload
  or nothing when it parked the run; \<open>fail\<close> answers whether the task is rolling back.\<close>

type_synonym ('s, 'a) op = "'s \<Rightarrow> 's \<times> (store_error + 'a)"

record 's worker_store =
  w_task_name :: "string \<Rightarrow> string \<Rightarrow> string \<Rightarrow> int \<Rightarrow> ('s, string option) op"
  w_defer :: "string \<Rightarrow> string \<Rightarrow> string \<Rightarrow> int \<Rightarrow> number \<Rightarrow> ('s, unit) op"
  w_activate :: "string \<Rightarrow> string \<Rightarrow> string \<Rightarrow> int \<Rightarrow> ('s, js_value option) op"
  w_beat :: "string \<Rightarrow> string \<Rightarrow> string \<Rightarrow> number \<Rightarrow> 's \<Rightarrow> 's \<times> (store_error + lease_state) option"
  w_checkpoints :: "string \<Rightarrow> string \<Rightarrow> int \<Rightarrow> ('s, (string \<times> string) list) op"
  w_checkpoint :: "string \<Rightarrow> string \<Rightarrow> string \<Rightarrow> string \<Rightarrow> string \<Rightarrow> string \<Rightarrow> number \<Rightarrow> ('s, unit) op"
  w_await :: "string \<Rightarrow> string \<Rightarrow> string \<Rightarrow> string \<Rightarrow> string \<Rightarrow> string \<Rightarrow> number option \<Rightarrow> ('s, string option) op"
  w_await_task :: "string \<Rightarrow> string \<Rightarrow> string \<Rightarrow> string \<Rightarrow> string \<Rightarrow> string \<Rightarrow> number option \<Rightarrow> ('s, string option) op"
  w_spawn :: "string \<Rightarrow> string \<Rightarrow> string \<Rightarrow> spawn_options \<Rightarrow> ('s, spawn_result) op"
  w_emit :: "string \<Rightarrow> string \<Rightarrow> string \<Rightarrow> ('s, unit) op"
  w_suspend :: "string \<Rightarrow> string \<Rightarrow> string \<Rightarrow> wake_spec \<Rightarrow> string \<Rightarrow> string \<Rightarrow> ('s, unit) op"
  w_complete :: "string \<Rightarrow> string \<Rightarrow> string \<Rightarrow> string \<Rightarrow> ('s, unit) op"
  w_fail :: "string \<Rightarrow> string \<Rightarrow> string \<Rightarrow> string \<Rightarrow> number option \<Rightarrow> ('s, bool) op"
  w_fail_rollback ::
    "string \<Rightarrow> string \<Rightarrow> string \<Rightarrow> string \<Rightarrow> number option \<Rightarrow> failed_rollback \<Rightarrow> ('s, bool) op"

text \<open>The ids of one claim, as a launch carries them.\<close>

record invocation =
  i_queue :: string
  i_run :: string
  i_token :: string
  i_gen :: int

record 's ctx =
  x_host :: host
  x_store :: "'s worker_store"
  x_queue :: string
  x_iv :: invocation
  x_run :: worker_run

section \<open>The state of a pass\<close>

record registration =
  rr_name :: string
  rr_handler :: "json option \<Rightarrow> json \<Rightarrow> prog"
  rr_max :: int
  rr_retry :: retry_strategy
  rr_output :: "json option"

record 's pass =
  p_world :: 's
  p_seen :: "string \<Rightarrow> json option"
  p_uses :: "string \<Rightarrow> nat"
  p_in_step :: bool
  p_wake :: "event_wake option"
  p_issued :: "control list"
  p_ended :: "control option"
  p_latch :: "control option"
  p_pump :: bool
  p_starts :: "string \<Rightarrow> int option"
  p_started :: "string list"
  p_rolled :: "string set"
  p_tries :: "string \<Rightarrow> int option"
  p_registered :: "string \<Rightarrow> registration option"
  p_top :: int
  p_tried :: int
  p_cut :: "string option"
  p_cause :: "string option"
  p_corrupt :: "(string \<times> string) option"

type_synonym ('s, 'a) act = "'s pass \<Rightarrow> 's pass \<times> (thrown + 'a)"

definition give :: "'a \<Rightarrow> ('s, 'a) act" where
  "give a p = (p, Inr a)"

definition throw :: "thrown \<Rightarrow> ('s, 'a) act" where
  "throw t p = (p, Inl t)"

definition checked :: "(thrown + 'a) \<Rightarrow> ('s, 'a) act" where
  "checked r p = (p, r)"

definition and_then :: "('s, 'a) act \<Rightarrow> ('a \<Rightarrow> ('s, 'b) act) \<Rightarrow> ('s, 'b) act" where
  "and_then m f p = (case m p of (p', Inl t) \<Rightarrow> (p', Inl t) | (p', Inr a) \<Rightarrow> f a p')"

definition modify :: "('s pass \<Rightarrow> 's pass) \<Rightarrow> ('s, unit) act" where
  "modify f p = (f p, Inr ())"

definition reading :: "('s pass \<Rightarrow> ('s, 'a) act) \<Rightarrow> ('s, 'a) act" where
  "reading f p = f p p"

text \<open>An error this invocation enrols, and the reading of one it did.\<close>

definition enroll :: "control \<Rightarrow> ('s, 'a) act" where
  "enroll c p = (p\<lparr>p_issued := c # p_issued p\<rparr>, Inl (Control c))"

definition snapshot :: "'s pass \<Rightarrow> thrown \<Rightarrow> control option" where
  "snapshot p t = (case t of Control c \<Rightarrow> if c \<in> set (p_issued p) then Some c else None | _ \<Rightarrow> None)"

section \<open>Values and names\<close>

definition serializeTaskValue :: "host \<Rightarrow> string \<Rightarrow> json option \<Rightarrow> thrown + string" where
  "serializeTaskValue h what v =
     (case v of None \<Rightarrow> Inl (FatalTask what) | Some j \<Rightarrow> Inr (h_stringify h j))"

definition parseTaskValueJson :: "host \<Rightarrow> string \<Rightarrow> thrown + json" where
  "parseTaskValueJson h s =
     (case h_parse h s of None \<Rightarrow> Inl (Threw (InternalError ''SyntaxError'')) | Some j \<Rightarrow> Inr j)"

definition userJsonValue :: "host \<Rightarrow> string \<Rightarrow> string \<Rightarrow> thrown + string" where
  "userJsonValue h what s =
     (case parseTaskValueJson h s of Inl e \<Rightarrow> Inl (FatalTask what) | Inr j \<Rightarrow> serializeTaskValue h what (Some j))"

definition userDurationToMs :: "string \<Rightarrow> number \<Rightarrow> bool \<Rightarrow> thrown + int" where
  "userDurationToMs name seconds positive =
     (case durationToMs name seconds positive of Inl e \<Rightarrow> Inl (FatalTask name) | Inr ms \<Rightarrow> Inr ms)"

definition userEpochMs :: "string \<Rightarrow> number \<Rightarrow> thrown + int" where
  "userEpochMs name n = (case requireEpochMs name n of Inl e \<Rightarrow> Inl (FatalTask name) | Inr ms \<Rightarrow> Inr ms)"

definition optional_timeout :: "string \<Rightarrow> number option \<Rightarrow> thrown + unit" where
  "optional_timeout name timeout =
     (case timeout of None \<Rightarrow> Inr () | Some s \<Rightarrow> map_sum id (\<lambda>_. ()) (userDurationToMs name s True))"

text \<open>\<open>UserName.parse\<close>. The characters of the model are no surrogates.\<close>

definition parseUserName :: "string \<Rightarrow> string \<Rightarrow> thrown + string" where
  "parseUserName what raw =
     (if CHR ''#'' \<in> set raw \<or> prefix ''$'' raw then Inl (FatalTask what)
      else if CHR 0x00 \<in> set raw then Inl (FatalTask what)
      else Inr raw)"

definition sleep_key :: string where "sleep_key = ''$sleep''"
definition sleep_until_key :: string where "sleep_until_key = ''$sleep-until''"
definition await_key :: "string \<Rightarrow> string" where "await_key name = ''$await:'' @ name"
definition spawn_key :: "string \<Rightarrow> string" where "spawn_key name = ''$spawn:'' @ name"
definition await_task_key :: "string \<Rightarrow> string" where "await_task_key task = ''$await-task:'' @ task"

definition requireRoom :: "string \<Rightarrow> string \<Rightarrow> nat \<Rightarrow> thrown + unit" where
  "requireRoom what key room = (if length key \<le> room then Inr () else Inl (FatalTask what))"

section \<open>The store calls of a pass\<close>

text \<open>An outage, a lost lease or a cancelled run that meets a call ends the pass for its task: every
  later call meets the same error before it is sent. A permanent answer does not.\<close>

definition storeCall :: "('s, 'a) op \<Rightarrow> ('s, 'a) act" where
  "storeCall operation p =
     (case p_ended p of
        Some c \<Rightarrow> (p, Inl (Control c))
      | None \<Rightarrow>
          (case operation (p_world p) of
             (s, Inr a) \<Rightarrow> (p\<lparr>p_world := s\<rparr>, Inr a)
           | (s, Inl e) \<Rightarrow>
               (case trustedStoreControl e of
                  None \<Rightarrow> (p\<lparr>p_world := s\<rparr>, Inl (ordinary e))
                | Some c \<Rightarrow>
                    enroll c (if c = StorePermanentSignal then p\<lparr>p_world := s\<rparr>
                              else p\<lparr>p_world := s, p_ended := Some c\<rparr>))))"

text \<open>The heartbeat runs beside the pass. A beat that is refused says why and is the last, and so is one
  that fails; the pass looks at the latch where it checks its lease.\<close>

definition beat_lands :: "'s ctx \<Rightarrow> 's pass \<Rightarrow> 's pass" where
  "beat_lands x p =
     (if \<not> p_pump p then p
      else (case w_beat (x_store x) (x_queue x) (i_run (x_iv x)) (i_token (x_iv x)) (Finite (wr_lease (x_run x))) (p_world p) of
              (s, None) \<Rightarrow> p\<lparr>p_world := s\<rparr>
            | (s, Some (Inl e)) \<Rightarrow> p\<lparr>p_world := s, p_pump := False\<rparr>
            | (s, Some (Inr (Held n))) \<Rightarrow> p\<lparr>p_world := s\<rparr>
            | (s, Some (Inr LostLease)) \<Rightarrow> p\<lparr>p_world := s, p_pump := False, p_latch := Some LeaseLostSignal\<rparr>
            | (s, Some (Inr CancelledLease)) \<Rightarrow> p\<lparr>p_world := s, p_pump := False, p_latch := Some RunCancelledSignal\<rparr>))"

definition assertLeaseHeld :: "'s ctx \<Rightarrow> ('s, unit) act" where
  "assertLeaseHeld x p =
     (let p1 = beat_lands x p
      in case p_latch p1 of None \<Rightarrow> (p1, Inr ()) | Some c \<Rightarrow> enroll c p1)"

definition enterDurableOp :: "'s ctx \<Rightarrow> string \<Rightarrow> ('s, unit) act" where
  "enterDurableOp x what =
     and_then (assertLeaseHeld x) (\<lambda>_. reading (\<lambda>p. if p_in_step p then throw (FatalTask what) else give ()))"

text \<open>The n-th use of a name is stored as \<open>name#n\<close>. A key that is stored replays, whatever its length.\<close>

definition storageName :: "string \<Rightarrow> string \<Rightarrow> nat \<Rightarrow> ('s, string) act" where
  "storageName raw what room p =
     (let use = p_uses p raw + 1;
          p1 = p\<lparr>p_uses := (p_uses p)(raw := use)\<rparr>;
          key = (if use = 1 then raw else raw @ ''#'' @ decimal use);
          started = (p_starts p key \<noteq> None)
      in if p_seen p key \<noteq> None then (p1, Inr key)
         else if started \<and> p_cause p \<noteq> None then (p1, Inr key)
         else (p1, map_sum id (\<lambda>_. key) (requireRoom what key (if started then IDENTIFIER_CHARACTERS else room))))"

definition commitCheckpoint :: "'s ctx \<Rightarrow> string \<Rightarrow> string \<Rightarrow> json option \<Rightarrow> ('s, json) act" where
  "commitCheckpoint x key label raw =
     and_then (checked (serializeTaskValue (x_host x) label raw)) (\<lambda>state.
     and_then (checked (parseTaskValueJson (x_host x) state)) (\<lambda>v.
     and_then (storeCall (w_checkpoint (x_store x) (x_queue x) (wr_task (x_run x)) (wr_run (x_run x))
                  (wr_token (x_run x)) key state (Finite (wr_lease (x_run x))))) (\<lambda>_.
     and_then (modify (\<lambda>p. p\<lparr>p_seen := (p_seen p)(key \<mapsto> v)\<rparr>)) (\<lambda>_. give v))))"

text \<open>Once a task is rolling back, a durable call with no memo ends the replay.\<close>

definition refuseForwardProgress :: "('s, unit) act" where
  "refuseForwardProgress = reading (\<lambda>p. if p_cause p \<noteq> None then enroll RollbackPhaseSignal else give ())"

section \<open>Steps\<close>

definition DEFAULT_ROLLBACK_MAX_ATTEMPTS :: int where "DEFAULT_ROLLBACK_MAX_ATTEMPTS = 3"

definition rollback_max_attempts :: "js_value \<Rightarrow> int option" where
  "rollback_max_attempts v =
     (case v of
        JsUndefined \<Rightarrow> Some DEFAULT_ROLLBACK_MAX_ATTEMPTS
      | _ \<Rightarrow> decodeBoundedInteger v (1, MAX_COUNT))"

definition rollbackRegistration ::
  "'s ctx \<Rightarrow> string \<Rightarrow> (json option \<Rightarrow> json \<Rightarrow> prog) step_options \<Rightarrow> 's pass \<Rightarrow> thrown + registration option" where
  "rollbackRegistration x name opts p =
     (case opts of
        NoOptions \<Rightarrow> Inr None
      | BadOptions \<Rightarrow> Inl (FatalTask name)
      | Options field config \<Rightarrow>
          (case field of
             NoHandler \<Rightarrow> if config = JsUndefined then Inr None else Inl (FatalTask name)
           | NotAFunction \<Rightarrow> Inl (FatalTask name)
           | Handler handler \<Rightarrow>
               (let props = (case config of JsUndefined \<Rightarrow> Some [] | JsObject ms \<Rightarrow> Some ms | _ \<Rightarrow> None) in
                case props of
                  None \<Rightarrow> Inl (FatalTask name)
                | Some ms \<Rightarrow>
                    (case rollback_max_attempts (readRetryField ms ''maxAttempts'') of
                       None \<Rightarrow> Inl (FatalTask name)
                     | Some most \<Rightarrow>
                         (case (if readRetryField ms ''retryStrategy'' = JsUndefined then Inr (wr_retry (x_run x))
                                else normalizeRetryStrategy (readRetryField ms ''retryStrategy'')) of
                            Inl e \<Rightarrow> Inl (FatalTask name)
                          | Inr strategy \<Rightarrow>
                              if p_corrupt p \<noteq> None \<and> p_cause p = None then Inl (FatalTask name)
                              else Inr (Some \<lparr>rr_name = name, rr_handler = handler, rr_max = most,
                                              rr_retry = strategy, rr_output = None\<rparr>))))))"

definition register :: "string \<Rightarrow> registration option \<Rightarrow> json option \<Rightarrow> ('s, unit) act" where
  "register key reg out =
     modify (\<lambda>p. case reg of None \<Rightarrow> p
                 | Some r \<Rightarrow> p\<lparr>p_registered := (p_registered p)(key \<mapsto> r\<lparr>rr_output := out\<rparr>)\<rparr>)"

definition markStarted :: "'s ctx \<Rightarrow> string \<Rightarrow> ('s, unit) act" where
  "markStarted x key =
     reading (\<lambda>p. if p_starts p key \<noteq> None then give ()
       else let index = p_top p + 1 in
         and_then (commitCheckpoint x (SAGA_STARTED_PREFIX @ key) ''step start marker'' (Some (JInt index))) (\<lambda>_.
         modify (\<lambda>q. q\<lparr>p_starts := (p_starts q)(key \<mapsto> index), p_started := p_started q @ [key], p_top := index\<rparr>)))"

text \<open>The body between the guard's two edges: whatever ends it, the guard is down after it.\<close>

definition in_step :: "('s, 'a) act \<Rightarrow> ('s, 'a) act" where
  "in_step m p = (case m (p\<lparr>p_in_step := True\<rparr>) of (p', r) \<Rightarrow> (p'\<lparr>p_in_step := False\<rparr>, r))"

definition runStep ::
  "'s ctx \<Rightarrow> string \<Rightarrow> string \<Rightarrow> ('s, json option) act \<Rightarrow> registration option \<Rightarrow> ('s, json) act" where
  "runStep x key name body reg =
     reading (\<lambda>p. case p_seen p key of
        Some v \<Rightarrow> and_then (register key reg (Some v)) (\<lambda>_. give v)
      | None \<Rightarrow>
          if p_cause p \<noteq> None then
            and_then (if p_starts p key \<noteq> None then register key reg None else give ()) (\<lambda>_.
            and_then (modify (\<lambda>q. q\<lparr>p_cut := Some key\<rparr>)) (\<lambda>_. enroll RollbackPhaseSignal))
          else
            and_then (in_step
              (and_then (if reg = None then give () else and_then (markStarted x key) (\<lambda>_. register key reg None))
                (\<lambda>_. body))) (\<lambda>raw.
            and_then (commitCheckpoint x key name raw) (\<lambda>v.
            and_then (register key reg (Some v)) (\<lambda>_. give v))))"

definition ctx_step ::
  "'s ctx \<Rightarrow> string \<Rightarrow> (json option \<Rightarrow> json \<Rightarrow> prog) step_options \<Rightarrow> ('s, json option) act \<Rightarrow> ('s, json) act" where
  "ctx_step x name opts body =
     and_then (checked (parseUserName ''step name'' name)) (\<lambda>parsed.
     and_then (enterDurableOp x ''ctx.step'') (\<lambda>_.
     and_then (reading (\<lambda>p. checked (rollbackRegistration x name opts p))) (\<lambda>reg.
     and_then (storageName parsed ''step name'' (if reg = None then IDENTIFIER_CHARACTERS else SAGA_STEP_KEY_CHARACTERS))
       (\<lambda>key. runStep x key name body reg))))"

section \<open>Sleeps\<close>

definition wake_json :: "wake_spec \<Rightarrow> json" where
  "wake_json w =
     (case w of
        InSeconds (Finite q) \<Rightarrow> JObject [(''inSeconds'', JReal q)]
      | AtEpochMs (Finite q) \<Rightarrow> JObject [(''atEpochMs'', JReal q)]
      | InSeconds NotFinite \<Rightarrow> JObject [(''inSeconds'', JNull)]
      | AtEpochMs NotFinite \<Rightarrow> JObject [(''atEpochMs'', JNull)])"

text \<open>A marker that exists says the wake happened. The signal carries the marker to the park.\<close>

definition suspendPoint :: "'s ctx \<Rightarrow> string \<Rightarrow> wake_spec \<Rightarrow> ('s, unit) act" where
  "suspendPoint x kind wake =
     and_then (storageName kind ''sleep'' IDENTIFIER_CHARACTERS) (\<lambda>key.
     reading (\<lambda>p. if p_seen p key \<noteq> None then give ()
       else and_then refuseForwardProgress (\<lambda>_.
            enroll (SleepSignal wake key (h_stringify (x_host x) (wake_json wake))))))"

definition sleepFor :: "'s ctx \<Rightarrow> number \<Rightarrow> ('s, unit) act" where
  "sleepFor x seconds =
     and_then (enterDurableOp x ''ctx.sleepFor'') (\<lambda>_.
     and_then (checked (userDurationToMs ''sleepFor seconds'' seconds False)) (\<lambda>_.
     suspendPoint x sleep_key (InSeconds seconds)))"

definition sleepUntil :: "'s ctx \<Rightarrow> number \<Rightarrow> ('s, unit) act" where
  "sleepUntil x epochMs =
     and_then (enterDurableOp x ''ctx.sleepUntil'') (\<lambda>_.
     and_then (checked (userEpochMs ''sleepUntil epochMs'' epochMs)) (\<lambda>_.
     suspendPoint x sleep_until_key (AtEpochMs epochMs)))"

section \<open>Events\<close>

text \<open>An emit keeps no memo. A rollback pass's replay emits nothing, and a handler may.\<close>

definition emit_event :: "'s ctx \<Rightarrow> string \<Rightarrow> string \<Rightarrow> ('s, unit) act" where
  "emit_event x name payload =
     and_then (checked (parseUserName ''event name'' name)) (\<lambda>parsed.
     and_then (checked (requireRoom ''event name'' parsed IDENTIFIER_CHARACTERS)) (\<lambda>_.
     and_then (checked (userJsonValue (x_host x) ''event payload'' payload)) (\<lambda>v.
     and_then (assertLeaseHeld x) (\<lambda>_.
     reading (\<lambda>p. if p_cause p \<noteq> None \<and> \<not> p_in_step p then give ()
       else storeCall (w_emit (x_store x) (x_queue x) parsed v))))))"

definition takeWake :: "string \<Rightarrow> ('s, event_wake option) act" where
  "takeWake key p =
     (case p_wake p of
        Some w \<Rightarrow> if wake_step w = key then (p\<lparr>p_wake := None\<rparr>, Inr (Some w)) else (p, Inr None)
      | None \<Rightarrow> (p, Inr None))"

definition memoOfWake :: "event_wake \<Rightarrow> json" where
  "memoOfWake w =
     (case w of
        WakePayload ev st payload \<Rightarrow> JObject [(''payloadJson'', JText payload)]
      | WakeTimedOut ev st \<Rightarrow> JObject [(''timedOut'', JBool True)])"

text \<open>What an await resolves to: the payload of its memo, or nothing where the memo has none.\<close>

definition eventMemoPayload :: "thrown \<Rightarrow> json \<Rightarrow> thrown + json option" where
  "eventMemoPayload timedOut memo =
     (if memo = JNull then Inl (Threw (TypeError ''memo''))
      else if member ''timedOut'' memo = Some (JBool True) then Inl timedOut
      else Inr (member ''payloadJson'' memo))"

definition commitEventMemo :: "'s ctx \<Rightarrow> thrown \<Rightarrow> string \<Rightarrow> json \<Rightarrow> ('s, json option) act" where
  "commitEventMemo x timedOut key memo =
     and_then (commitCheckpoint x key ''event wake marker'' (Some memo)) (\<lambda>_. checked (eventMemoPayload timedOut memo))"

text \<open>An await that needs no call of the store.\<close>

definition settledAwait :: "'s ctx \<Rightarrow> thrown \<Rightarrow> string \<Rightarrow> ('s, json option) act" where
  "settledAwait x timedOut key =
     reading (\<lambda>p. case p_seen p key of
        Some memo \<Rightarrow> and_then (takeWake key) (\<lambda>_. checked (eventMemoPayload timedOut memo))
      | None \<Rightarrow>
          and_then refuseForwardProgress (\<lambda>_.
          and_then (takeWake key) (\<lambda>w.
          case w of None \<Rightarrow> give None | Some wk \<Rightarrow> commitEventMemo x timedOut key (memoOfWake wk))))"

definition registeredAwait :: "'s ctx \<Rightarrow> thrown \<Rightarrow> string \<Rightarrow> string option \<Rightarrow> ('s, json option) act" where
  "registeredAwait x timedOut key out =
     (case out of
        Some payload \<Rightarrow> commitEventMemo x timedOut key (JObject [(''payloadJson'', JText payload)])
      | None \<Rightarrow> enroll AwaitSignal)"

definition await_through ::
  "'s ctx \<Rightarrow> thrown \<Rightarrow> string \<Rightarrow> ('s, string option) op \<Rightarrow> ('s, json option) act" where
  "await_through x timedOut key send =
     and_then (settledAwait x timedOut key) (\<lambda>settled.
     case settled of
       Some v \<Rightarrow> give (Some v)
     | None \<Rightarrow> and_then (storeCall send) (registeredAwait x timedOut key))"

definition await_event :: "'s ctx \<Rightarrow> string \<Rightarrow> number option \<Rightarrow> ('s, json option) act" where
  "await_event x name timeout =
     and_then (checked (parseUserName ''event name'' name)) (\<lambda>parsed.
     and_then (enterDurableOp x ''ctx.awaitEvent'') (\<lambda>_.
     and_then (checked (optional_timeout ''awaitEvent timeoutSeconds'' timeout)) (\<lambda>_.
     and_then (storageName (await_key parsed) ''event name'' IDENTIFIER_CHARACTERS) (\<lambda>key.
     await_through x (EventTimeout name) key
       (w_await (x_store x) (x_queue x) (wr_task (x_run x)) (wr_run (x_run x)) (wr_token (x_run x)) key parsed timeout)))))"

section \<open>Children\<close>

definition childTaskOf :: "json \<Rightarrow> thrown + string \<times> string" where
  "childTaskOf v =
     (case (member ''taskId'' v, member ''queue'' v) of
        (Some (JText task), Some (JText queue)) \<Rightarrow> Inr (task, queue)
      | _ \<Rightarrow> Inl (FatalTask ''a child task is what ctx.spawn returned''))"

definition spawn_refused :: "string \<Rightarrow> thrown \<Rightarrow> thrown" where
  "spawn_refused name t =
     (case t of Threw (RangeError w) \<Rightarrow> FatalTask name | Threw (InvalidDurableString w) \<Rightarrow> FatalTask name | _ \<Rightarrow> t)"

definition recast :: "(thrown \<Rightarrow> thrown) \<Rightarrow> ('s, 'a) act \<Rightarrow> ('s, 'a) act" where
  "recast f m p = (case m p of (p', Inl t) \<Rightarrow> (p', Inl (f t)) | (p', Inr a) \<Rightarrow> (p', Inr a))"

definition runSpawn ::
  "'s ctx \<Rightarrow> string \<Rightarrow> string \<Rightarrow> json option \<Rightarrow> js_value \<Rightarrow> spawn_options \<Rightarrow> ('s, string \<times> string) act" where
  "runSpawn x key name params childQueue opts =
     reading (\<lambda>p. case p_seen p key of
        Some v \<Rightarrow> checked (childTaskOf v)
      | None \<Rightarrow>
          and_then refuseForwardProgress (\<lambda>_.
          and_then (checked (serializeTaskValue (x_host x) ''child task params'' params)) (\<lambda>paramsJson.
          and_then (case childQueue of
                      JsUndefined \<Rightarrow> give (x_queue x)
                    | JsString q \<Rightarrow> if q = [] then throw (FatalTask name) else give q
                    | _ \<Rightarrow> throw (FatalTask name)) (\<lambda>queue.
          and_then (recast (spawn_refused name)
             (storeCall (w_spawn (x_store x) queue name paramsJson
                (opts\<lparr>so_key := None,
                      so_child := Some \<lparr>co_queue = x_queue x, co_run = wr_run (x_run x), co_task = wr_task (x_run x),
                                        co_token = wr_token (x_run x), co_replay = key\<rparr>\<rparr>)))) (\<lambda>spawned.
          and_then (commitCheckpoint x key ''child task''
             (Some (JObject [(''taskId'', JText (sr_task spawned)), (''queue'', JText queue)]))) (\<lambda>v.
          checked (childTaskOf v)))))))"

definition spawn_child ::
  "'s ctx \<Rightarrow> string \<Rightarrow> json option \<Rightarrow> js_value \<Rightarrow> spawn_options \<Rightarrow> ('s, string \<times> string) act" where
  "spawn_child x taskName params childQueue opts =
     and_then (checked (parseUserName ''task name'' taskName)) (\<lambda>parsed.
     and_then (enterDurableOp x ''ctx.spawn'') (\<lambda>_.
     and_then (storageName (spawn_key parsed) ''task name'' IDENTIFIER_CHARACTERS) (\<lambda>key.
     runSpawn x key parsed params childQueue opts)))"

definition await_refused :: "thrown \<Rightarrow> thrown" where
  "await_refused t =
     (case t of Threw (ChildAwaitRefused a b) \<Rightarrow> FatalTask a | Threw (RangeError w) \<Rightarrow> FatalTask w | _ \<Rightarrow> t)"

definition await_task :: "'s ctx \<Rightarrow> json \<Rightarrow> number option \<Rightarrow> ('s, outcome) act" where
  "await_task x child timeout =
     and_then (checked (childTaskOf child)) (\<lambda>(task, _).
     and_then (checked (parseUserName ''child task id'' task)) (\<lambda>parsed.
     and_then (enterDurableOp x ''ctx.awaitTask'') (\<lambda>_.
     and_then (checked (optional_timeout ''awaitTask timeoutSeconds'' timeout)) (\<lambda>_.
     and_then (storageName (await_task_key parsed) ''child task id'' IDENTIFIER_CHARACTERS) (\<lambda>key.
     recast await_refused
       (and_then
         (await_through x (TaskTimeout parsed) key
           (w_await_task (x_store x) (x_queue x) (wr_task (x_run x)) (wr_run (x_run x)) (wr_token (x_run x)) key parsed timeout))
         (\<lambda>settled. checked (map_sum Threw id (decodeTaskOutcome parsed
            (case settled of Some (JText s) \<Rightarrow> h_parse (x_host x) s | _ \<Rightarrow> None))))))))))"

section \<open>A task function runs\<close>

definition answered_json :: "json option \<Rightarrow> answer" where
  "answered_json v = (case v of None \<Rightarrow> Done | Some j \<Rightarrow> Answered j)"

primrec exec_prog :: "'s ctx \<Rightarrow> prog \<Rightarrow> ('s, json option) act"
    and exec_call :: "'s ctx \<Rightarrow> call \<Rightarrow> ('s, answer) act" where
  "exec_prog x (Finish v) = give v"
| "exec_prog x (Raise t) = throw t"
| "exec_prog x (Call c k) = (\<lambda>p. case exec_call x c p of (p', r) \<Rightarrow> exec_prog x (k r) p')"
| "exec_call x (Step name opts body) = and_then (ctx_step x name opts (exec_prog x body)) (\<lambda>v. give (Answered v))"
| "exec_call x (SleepFor seconds) = and_then (sleepFor x seconds) (\<lambda>_. give Done)"
| "exec_call x (SleepUntil epochMs) = and_then (sleepUntil x epochMs) (\<lambda>_. give Done)"
| "exec_call x (EmitEvent name payload) = and_then (emit_event x name payload) (\<lambda>_. give Done)"
| "exec_call x (AwaitEvent name timeout) = and_then (await_event x name timeout) (\<lambda>v. give (answered_json v))"
| "exec_call x (Spawn name params queue opts) =
     and_then (spawn_child x name params queue opts) (\<lambda>(task, q). give (ChildTask task q))"
| "exec_call x (AwaitTask child timeout) = and_then (await_task x child timeout) (\<lambda>out. give (ChildOutcome out))"

section \<open>What the checkpoints tell\<close>

definition decodeRollbackTry :: "host \<Rightarrow> string \<Rightarrow> (int \<times> string) option" where
  "decodeRollbackTry h s =
     (case h_parse h s of
        None \<Rightarrow> None
      | Some v \<Rightarrow>
          (case (Option.bind (member ''tries'' v) json_number, member ''errorJson'' v) of
             (Some q, Some (JText e)) \<Rightarrow>
               if safe_integer (Finite q) \<and> 1 \<le> q then Some (floor q, e) else None
           | _ \<Rightarrow> None))"

definition start_index :: "json \<Rightarrow> int option" where
  "start_index v =
     (case json_number v of
        None \<Rightarrow> None
      | Some q \<Rightarrow> if safe_integer (Finite q) \<and> 1 \<le> q then Some (floor q) else None)"

definition quoted :: "string \<Rightarrow> string" where
  "quoted s = [CHR 0x27] @ s @ [CHR 0x27]"

definition corrupt :: "string \<Rightarrow> string \<Rightarrow> 's pass \<Rightarrow> 's pass" where
  "corrupt key message p = (if p_corrupt p = None then p\<lparr>p_corrupt := Some (key, message)\<rparr> else p)"

definition readSagaCheckpoint :: "host \<Rightarrow> string \<Rightarrow> string \<Rightarrow> json \<Rightarrow> 's pass \<Rightarrow> 's pass" where
  "readSagaCheckpoint h name state v p =
     (if name = SAGA_PHASE_CHECKPOINT then p\<lparr>p_cause := Some state\<rparr>
      else if prefix SAGA_STARTED_PREFIX name then
        (let key = drop (length SAGA_STARTED_PREFIX) name in
         case start_index v of
           None \<Rightarrow> corrupt key (''the start marker of step '' @ quoted key @ '' holds no positive index'') p
         | Some index \<Rightarrow>
             p\<lparr>p_starts := (p_starts p)(key \<mapsto> index), p_started := p_started p @ [key],
               p_top := max (p_top p) index\<rparr>)
      else if prefix SAGA_ROLLBACK_PREFIX name then
        p\<lparr>p_rolled := insert (drop (length SAGA_ROLLBACK_PREFIX) name) (p_rolled p)\<rparr>
      else if prefix SAGA_TRIES_PREFIX name then
        (let key = drop (length SAGA_TRIES_PREFIX) name in
         case decodeRollbackTry h state of
           None \<Rightarrow> corrupt key (''the attempt record of the rollback of step '' @ quoted key @ '' cannot be read'') p
         | Some (tries, e) \<Rightarrow> p\<lparr>p_tries := (p_tries p)(key \<mapsto> tries), p_tried := p_tried p + tries\<rparr>)
      else p)"

fun read_checkpoints :: "host \<Rightarrow> (string \<times> string) list \<Rightarrow> 's pass \<Rightarrow> thrown + 's pass" where
  "read_checkpoints h [] p = Inr p"
| "read_checkpoints h ((name, state) # cps) p =
     (case parseTaskValueJson h state of
        Inl t \<Rightarrow> Inl t
      | Inr v \<Rightarrow> read_checkpoints h cps (readSagaCheckpoint h name state v (p\<lparr>p_seen := (p_seen p)(name \<mapsto> v)\<rparr>)))"

definition blank_pass :: "worker_run \<Rightarrow> 's \<Rightarrow> 's pass" where
  "blank_pass w s =
     \<lparr>p_world = s, p_seen = Map.empty, p_uses = (\<lambda>_. 0), p_in_step = False, p_wake = wr_wake w, p_issued = [],
      p_ended = None, p_latch = None, p_pump = True, p_starts = Map.empty, p_started = [], p_rolled = {},
      p_tries = Map.empty, p_registered = Map.empty, p_top = 0, p_tried = 0, p_cut = None, p_cause = None,
      p_corrupt = None\<rparr>"

definition replayContext :: "host \<Rightarrow> worker_run \<Rightarrow> (string \<times> string) list \<Rightarrow> 's \<Rightarrow> thrown + 's pass" where
  "replayContext h w cps s = read_checkpoints h cps (blank_pass w s)"

text \<open>A rollback pass replays as the run that failed: one pass followed it, and one each recorded
  failed attempt of a rollback.\<close>

definition ctx_attempt :: "worker_run \<Rightarrow> 's pass \<Rightarrow> int" where
  "ctx_attempt w p =
     (let attempt = wr_attempt w - wr_infra w
      in if p_cause p = None then attempt else attempt - 1 - p_tried p)"

section \<open>Rollbacks\<close>

datatype next_rollback = NoneLeft | RunNext string | Halt failed_rollback

definition haltFailure :: "host \<Rightarrow> string \<Rightarrow> string \<Rightarrow> string \<Rightarrow> failed_rollback" where
  "haltFailure h key name message =
     \<lparr>fr_step = key, fr_error = h_stringify h (JObject [(''name'', JText name), (''message'', JText message)])\<rparr>"

definition started_index :: "'s pass \<Rightarrow> string \<Rightarrow> int" where
  "started_index p key = (case p_starts p key of None \<Rightarrow> 0 | Some i \<Rightarrow> i)"

text \<open>The step that started last among those not rolled back.\<close>

fun last_owed :: "'s pass \<Rightarrow> string list \<Rightarrow> string option \<Rightarrow> int \<Rightarrow> string option" where
  "last_owed p [] best most = best"
| "last_owed p (k # ks) best most =
     (if k \<notin> p_rolled p \<and> started_index p k > most then last_owed p ks (Some k) (started_index p k)
      else last_owed p ks best most)"

definition unregistered_message :: "'s pass \<Rightarrow> string \<Rightarrow> string" where
  "unregistered_message p key =
     (let plain = ''step '' @ quoted key @ '' started, and this pass'' @ [CHR 0x27] @ ''s replay registered no rollback for it'' in
      case p_cut p of
        None \<Rightarrow> plain
      | Some stop \<Rightarrow>
          if \<not> started_index p stop < started_index p key then plain
          else plain @ ''. The replay last stopped at step '' @ quoted stop @
            '', which started and never persisted: on a rollback pass that step throws the engine'' @ [CHR 0x27] @
            ''s signal where its body threw before, and the handler must catch it to reach a later step'')"

definition nextRollback :: "host \<Rightarrow> 's pass \<Rightarrow> next_rollback" where
  "nextRollback h p =
     (case p_corrupt p of
        Some (key, message) \<Rightarrow> Halt (haltFailure h key ''$SagaStateCorrupt'' message)
      | None \<Rightarrow>
          (case last_owed p (p_started p) None 0 of
             None \<Rightarrow> NoneLeft
           | Some key \<Rightarrow>
               if p_registered p key = None
               then Halt (haltFailure h key ''$RollbackNotRegistered'' (unregistered_message p key))
               else RunNext key))"

definition runRollback :: "'s ctx \<Rightarrow> string \<Rightarrow> ('s, unit) act" where
  "runRollback x key =
     and_then (assertLeaseHeld x) (\<lambda>_.
     reading (\<lambda>p. case (p_registered p key, p_cause p) of
        (Some reg, Some cause) \<Rightarrow>
          and_then (checked (parseTaskValueJson (x_host x) cause)) (\<lambda>failure.
          and_then (in_step (exec_prog x (rr_handler reg (rr_output reg) failure))) (\<lambda>_.
          and_then (commitCheckpoint x (SAGA_ROLLBACK_PREFIX @ key) (rr_name reg) (Some JNull)) (\<lambda>_.
          modify (\<lambda>q. q\<lparr>p_rolled := insert key (p_rolled q)\<rparr>))))
      | _ \<Rightarrow> throw (FatalTask key)))"

definition fatal :: "thrown \<Rightarrow> bool" where
  "fatal t = (case t of FatalTask m \<Rightarrow> True | _ \<Rightarrow> False)"

definition delay_of :: "retry_decision \<Rightarrow> number option" where
  "delay_of d = (case d of Exhausted \<Rightarrow> None | RetryIn s \<Rightarrow> Some (Finite s))"

definition nextTry :: "'s pass \<Rightarrow> string \<Rightarrow> int" where
  "nextTry p key = (case p_tries p key of None \<Rightarrow> 0 | Some n \<Rightarrow> n) + 1"

definition rollbackFailure :: "host \<Rightarrow> 's pass \<Rightarrow> string \<Rightarrow> thrown \<Rightarrow> thrown + failed_rollback \<times> number option" where
  "rollbackFailure h p key t =
     map_sum Threw (\<lambda>d. (\<lparr>fr_step = key, fr_error = h_failure h t\<rparr>, delay_of d))
       (case p_registered p key of
          None \<Rightarrow> Inr Exhausted
        | Some reg \<Rightarrow>
            if fatal t then Inr Exhausted
            else decideRetry (strategy_value (rr_retry reg)) (Finite (of_int (nextTry p key))) (Finite (of_int (rr_max reg))))"

end
