(* ===== verification/Pass_Rules.thy ===== *)
theory Pass_Rules
  imports Context
begin

text \<open>
  How the parts of a pass compose. What a rollback handler may do leaves the saga the pass knows as
  it is, so each rollback that ran is one fewer that is owed, and the store's state only moves as the
  store's own operations move it.
\<close>

section \<open>Composition\<close>

named_theorems act_defs "the combinators of a pass, unfolded"

lemmas [act_defs] = give_def throw_def checked_def modify_def reading_def enroll_def

lemma and_then_Inl: "m p = (p', Inl t) \<Longrightarrow> and_then m f p = (p', Inl t)"
  by (simp add: and_then_def)

lemma and_then_Inr: "m p = (p', Inr a) \<Longrightarrow> and_then m f p = f a p'"
  by (simp add: and_then_def)

lemma and_then_okE:
  assumes "and_then m f p = (q, Inr b)"
  obtains r a where "m p = (r, Inr a)" "f a r = (q, Inr b)"
  using assms by (auto simp: and_then_def split: prod.splits sum.splits)

lemma checked_okE: "checked r p = (q, Inr a) \<Longrightarrow> q = p \<and> r = Inr a"
  by (simp add: checked_def)

text \<open>A relation between the pass before a call and after it, kept by what the call is made of.\<close>

locale pass_relation =
  fixes R :: "'s pass \<Rightarrow> 's pass \<Rightarrow> bool"
  assumes rel_refl: "R p p" and rel_trans: "R p q \<Longrightarrow> R q r \<Longrightarrow> R p r"
begin

definition keeps :: "('s, 'a) act \<Rightarrow> bool" where
  "keeps m = (\<forall>p. R p (fst (m p)))"

lemma keeps_pure: "keeps (give a)" "keeps (throw t)" "keeps (checked r)"
  by (simp_all add: keeps_def act_defs rel_refl)

lemma keeps_then: "keeps m \<Longrightarrow> (\<And>a. keeps (f a)) \<Longrightarrow> keeps (and_then m f)"
  unfolding keeps_def and_then_def
  by (auto split: prod.splits sum.splits) (metis fst_conv rel_trans)+

lemma keeps_bind:
  assumes "keeps m" "\<And>p q a. m p = (q, Inr a) \<Longrightarrow> R q (fst (f a q))"
  shows "keeps (and_then m f)"
  unfolding keeps_def
proof
  fix p
  obtain q r where m: "m p = (q, r)" by force
  then have "R p q" using assms(1) by (metis fst_conv keeps_def)
  then show "R p (fst (and_then m f p))"
    using m assms(2)[of p q] by (cases r) (auto simp: and_then_def intro: rel_trans)
qed

lemma keeps_reading: "(\<And>q. keeps (f q)) \<Longrightarrow> keeps (reading f)"
  by (simp add: keeps_def reading_def)

lemma keeps_recast: "keeps m \<Longrightarrow> keeps (recast f m)"
  by (auto simp: keeps_def recast_def split: prod.splits sum.splits) (metis fst_conv)+

lemma keeps_at: "keeps m \<Longrightarrow> R p (fst (m p))"
  by (simp add: keeps_def)

lemmas keeps_rules = keeps_pure keeps_then keeps_reading keeps_recast

end

section \<open>The saga a pass knows\<close>

definition saga_of ::
  "'s pass \<Rightarrow> (string \<Rightarrow> int option) \<times> string list \<times> string set \<times> (string \<Rightarrow> registration option) \<times>
     string option \<times> (string \<times> string) option \<times> (string \<Rightarrow> int option) \<times> string option" where
  "saga_of p = (p_starts p, p_started p, p_rolled p, p_registered p, p_cause p, p_corrupt p, p_tries p, p_cut p)"

definition same_saga :: "'s pass \<Rightarrow> 's pass \<Rightarrow> bool" where
  "same_saga p q = (saga_of q = saga_of p)"

interpretation saga_still: pass_relation same_saga
  by unfold_locales (auto simp: same_saga_def)

lemma saga_kept: "saga_still.keeps m \<Longrightarrow> saga_of (fst (m p)) = saga_of p"
  using saga_still.keeps_at same_saga_def by metis

lemma store_call_still: "saga_still.keeps (storeCall operation)"
  by (auto simp: saga_still.keeps_def same_saga_def storeCall_def saga_of_def enroll_def split: option.splits prod.splits sum.splits)

lemma beat_still: "saga_of (beat_lands x p) = saga_of p"
  by (auto simp: beat_lands_def saga_of_def split: prod.splits option.splits sum.splits lease_state.splits)

lemma lease_still: "saga_still.keeps (assertLeaseHeld x)"
proof -
  have "saga_of (fst (assertLeaseHeld x p)) = saga_of (beat_lands x p)" for p
    by (simp add: assertLeaseHeld_def Let_def enroll_def saga_of_def split: option.split)
  then show ?thesis using beat_still[of x] by (simp add: saga_still.keeps_def same_saga_def)
qed

lemma commit_still: "saga_still.keeps (commitCheckpoint x key label raw)"
  unfolding commitCheckpoint_def
  by (intro saga_still.keeps_rules store_call_still) (simp add: saga_still.keeps_def same_saga_def modify_def saga_of_def)

text \<open>Inside a step only an emit gets past the guard, so a body and a handler leave the saga, the memos
  and the uses of names as they are.\<close>

definition memo_of :: "'s pass \<Rightarrow> (string \<Rightarrow> json option) \<times> (string \<Rightarrow> nat) \<times> event_wake option" where
  "memo_of p = (p_seen p, p_uses p, p_wake p)"

definition same_memo :: "'s pass \<Rightarrow> 's pass \<Rightarrow> bool" where
  "same_memo p q = (memo_of q = memo_of p)"

interpretation memo_still: pass_relation same_memo
  by unfold_locales (auto simp: same_memo_def)

lemma memo_kept: "memo_still.keeps m \<Longrightarrow> memo_of (fst (m p)) = memo_of p"
  using memo_still.keeps_at same_memo_def by metis

lemma store_call_memo: "memo_still.keeps (storeCall operation)"
  by (auto simp: memo_still.keeps_def same_memo_def storeCall_def memo_of_def enroll_def split: option.splits prod.splits sum.splits)

lemma beat_memo: "memo_of (beat_lands x p) = memo_of p"
  by (auto simp: beat_lands_def memo_of_def split: prod.splits option.splits sum.splits lease_state.splits)

lemma lease_memo: "memo_still.keeps (assertLeaseHeld x)"
proof -
  have "memo_of (fst (assertLeaseHeld x p)) = memo_of (beat_lands x p)" for p
    by (simp add: assertLeaseHeld_def Let_def enroll_def memo_of_def split: option.split)
  then show ?thesis using beat_memo[of x] by (simp add: memo_still.keeps_def same_memo_def)
qed

definition quiet :: "('s, 'a) act \<Rightarrow> bool" where
  "quiet m = (\<forall>p. p_in_step p \<longrightarrow>
     saga_of (fst (m p)) = saga_of p \<and> memo_of (fst (m p)) = memo_of p \<and> p_in_step (fst (m p)))"

lemma beat_in_step [simp]: "p_in_step (beat_lands x p) = p_in_step p"
  by (simp add: beat_lands_def split: prod.splits option.splits sum.splits lease_state.splits)

lemma lease_in_step [simp]: "p_in_step (fst (assertLeaseHeld x p)) = p_in_step p"
  by (simp add: assertLeaseHeld_def Let_def enroll_def split: option.split)

lemma call_in_step [simp]: "p_in_step (fst (storeCall operation p)) = p_in_step p"
  by (simp add: storeCall_def enroll_def split: option.split prod.split sum.split)

lemma quiet_pure: "quiet (give a)" "quiet (throw t)" "quiet (checked r)"
  by (simp_all add: quiet_def act_defs)

lemma quiet_then: "quiet m \<Longrightarrow> (\<And>a. quiet (f a)) \<Longrightarrow> quiet (and_then m f)"
  unfolding quiet_def
proof (intro allI impI)
  fix p :: "'a pass"
  assume m: "\<forall>p. p_in_step p \<longrightarrow> saga_of (fst (m p)) = saga_of p \<and> memo_of (fst (m p)) = memo_of p \<and> p_in_step (fst (m p))"
    and f: "\<And>a. \<forall>p. p_in_step p \<longrightarrow>
      saga_of (fst (f a p)) = saga_of p \<and> memo_of (fst (f a p)) = memo_of p \<and> p_in_step (fst (f a p))" and p: "p_in_step p"
  obtain q r where q: "m p = (q, r)" by force
  then have "saga_of q = saga_of p" "memo_of q = memo_of p" "p_in_step q" using m p by force+
  then show "saga_of (fst (and_then m f p)) = saga_of p \<and> memo_of (fst (and_then m f p)) = memo_of p \<and> p_in_step (fst (and_then m f p))"
    using q f by (cases r) (simp_all add: and_then_def)
qed

lemma quiet_reading: "(\<And>q. quiet (f q)) \<Longrightarrow> quiet (reading f)"
  by (simp add: quiet_def reading_def)

lemma quiet_lease: "quiet (assertLeaseHeld x)"
  by (simp add: quiet_def saga_kept[OF lease_still] memo_kept[OF lease_memo])

lemma quiet_call: "quiet (storeCall operation)"
  by (simp add: quiet_def saga_kept[OF store_call_still] memo_kept[OF store_call_memo])

lemma enter_refused:
  assumes "p_in_step p"
  shows "\<exists>t. enterDurableOp x what p = (fst (assertLeaseHeld x p), Inl t)"
proof -
  obtain q r where q: "assertLeaseHeld x p = (q, r)" by force
  then have "p_in_step q" using assms lease_in_step[of x p] by simp
  then show ?thesis using q by (cases r) (simp_all add: enterDurableOp_def and_then_def reading_def throw_def)
qed

lemma quiet_enter: "quiet (and_then (enterDurableOp x what) f)"
  unfolding quiet_def
proof (intro allI impI)
  fix p :: "'a pass" assume p: "p_in_step p"
  then obtain t where "enterDurableOp x what p = (fst (assertLeaseHeld x p), Inl t)" using enter_refused by metis
  then have "fst (and_then (enterDurableOp x what) f p) = fst (assertLeaseHeld x p)" by (simp add: and_then_def)
  then show "saga_of (fst (and_then (enterDurableOp x what) f p)) = saga_of p \<and>
      memo_of (fst (and_then (enterDurableOp x what) f p)) = memo_of p \<and> p_in_step (fst (and_then (enterDurableOp x what) f p))"
    using p saga_kept[OF lease_still, of x p] memo_kept[OF lease_memo, of x p] by simp
qed

lemma quiet_calls:
  "quiet (ctx_step x name opts body)" "quiet (sleepFor x seconds)" "quiet (sleepUntil x epochMs)"
  "quiet (emit_event x name payload)" "quiet (await_event x name timeout)"
  "quiet (spawn_child x name params queue sopts)" "quiet (await_task x child timeout)"
  unfolding ctx_step_def sleepFor_def sleepUntil_def emit_event_def await_event_def spawn_child_def await_task_def
  by (auto intro!: quiet_enter quiet_pure quiet_lease quiet_call quiet_reading quiet_then[OF quiet_pure(3)]
      quiet_then[OF quiet_lease])

lemma quiet_exec: "quiet (exec_prog x pr)" "quiet (exec_call x c)"
proof (induction pr and c)
  case (Call c k)
  show ?case
    unfolding quiet_def exec_prog.simps
  proof (intro allI impI)
    fix p :: "'a pass" assume p: "p_in_step p"
    obtain q r where c: "exec_call x c p = (q, r)" by force
    have q: "saga_of q = saga_of p" "memo_of q = memo_of p" "p_in_step q" using Call(1) p c by (force simp: quiet_def)+
    have "saga_of (fst (exec_prog x (k r) q)) = saga_of q \<and> memo_of (fst (exec_prog x (k r) q)) = memo_of q \<and>
        p_in_step (fst (exec_prog x (k r) q))"
      using Call(2)[of "k r"] q(3) by (simp add: quiet_def)
    then show "saga_of (fst (case exec_call x c p of (p', r) \<Rightarrow> exec_prog x (k r) p')) = saga_of p \<and>
        memo_of (fst (case exec_call x c p of (p', r) \<Rightarrow> exec_prog x (k r) p')) = memo_of p \<and> p_in_step (fst (case exec_call x c p of (p', r) \<Rightarrow> exec_prog x (k r) p'))"
      using c q(1,2) by simp
  qed
qed (auto intro!: quiet_pure quiet_calls quiet_then split: prod.splits)

end
