(* ===== verification/Worker.thy ===== *)
theory Worker
  imports Pass_Rules
begin

text \<open>
  One worker invocation (sdk \<open>run-worker.ts\<close>): the claimed task's name, the deferral of a task this
  build does not know, the activation, the pass, and the one write that ends it. A rollback pass
  replays the task function and then runs the rollbacks it owes, the step that started last first.
\<close>

section \<open>Outcomes\<close>

datatype worker_outcome =
    WCompleted | WSuspended | WRetryScheduled | WFailed | WRollingBack | WRolledBack | WRollbackFailed
  | WSuperseded | WLeaseLost | WCancelled | WAborted | WDeferred | WIncompatible string

definition infrastructureOutcome :: "control \<Rightarrow> worker_outcome option" where
  "infrastructureOutcome c =
     (case c of
        SleepSignal _ _ _ \<Rightarrow> None
      | AwaitSignal \<Rightarrow> None
      | RollbackPhaseSignal \<Rightarrow> None
      | LeaseLostSignal \<Rightarrow> Some WLeaseLost
      | RunCancelledSignal \<Rightarrow> Some WCancelled
      | StoreUnavailableSignal \<Rightarrow> Some WAborted
      | StorePermanentSignal \<Rightarrow> Some WAborted)"

definition trustedStoreOutcome :: "store_error \<Rightarrow> thrown + worker_outcome" where
  "trustedStoreOutcome e =
     (case Option.bind (trustedStoreControl e) infrastructureOutcome of
        Some out \<Rightarrow> Inr out
      | None \<Rightarrow> Inl (ordinary e))"

text \<open>A call of the worker's own, around the pass: it asks no order and enrols nothing.\<close>

definition directly :: "('s, 'a) op \<Rightarrow> ('a \<Rightarrow> worker_outcome) \<Rightarrow> ('s, worker_outcome) act" where
  "directly operation out p =
     (case operation (p_world p) of
        (s, Inr a) \<Rightarrow> (p\<lparr>p_world := s\<rparr>, Inr (out a))
      | (s, Inl e) \<Rightarrow> (p\<lparr>p_world := s\<rparr>, trustedStoreOutcome e))"

section \<open>A user failure\<close>

definition recordUserFailure :: "'s ctx \<Rightarrow> thrown \<Rightarrow> ('s, worker_outcome) act" where
  "recordUserFailure x t =
     and_then (checked (if fatal t then Inr Exhausted
                        else map_sum Threw id (decideRetry (strategy_value (wr_retry (x_run x)))
                               (Finite (of_int (wr_attempt (x_run x) - wr_infra (x_run x))))
                               (Finite (of_int (wr_max_attempts (x_run x))))))) (\<lambda>decision.
     directly (w_fail (x_store x) (x_queue x) (i_run (x_iv x)) (i_token (x_iv x)) (h_failure (x_host x) t) (delay_of decision))
       (\<lambda>rolling. if rolling then WRollingBack else if decision = Exhausted then WFailed else WRetryScheduled))"

section \<open>A rollback pass\<close>

text \<open>A rollback that ran leaves the saga as it was but for itself.\<close>

lemma saga_in_step [simp]: "saga_of (p\<lparr>p_in_step := b\<rparr>) = saga_of p"
  by (simp add: saga_of_def)

lemma in_step_saga:
  assumes "in_step (exec_prog x pr) p = (q, r)"
  shows "saga_of q = saga_of p"
proof -
  obtain a where a: "exec_prog x pr (p\<lparr>p_in_step := True\<rparr>) = (a, r)" "q = a\<lparr>p_in_step := False\<rparr>"
    using assms by (auto simp: in_step_def split: prod.splits)
  have "saga_of (fst (exec_prog x pr (p\<lparr>p_in_step := True\<rparr>))) = saga_of (p\<lparr>p_in_step := True\<rparr>)"
    using quiet_exec(1)[of x pr] by (simp add: quiet_def)
  then show ?thesis using a by simp
qed

lemma ran_rollback:
  assumes "runRollback x key p = (q, Inr u)"
  shows "p_registered p key \<noteq> None" "p_rolled q = insert key (p_rolled p)" "p_started q = p_started p"
    "p_starts q = p_starts p" "p_registered q = p_registered p" "p_cause q = p_cause p" "p_corrupt q = p_corrupt p"
proof -
  obtain p1 a where l: "assertLeaseHeld x p = (p1, Inr a)" using assms by (auto simp: runRollback_def elim: and_then_okE)
  have s1: "saga_of p1 = saga_of p" using saga_kept[OF lease_still, of x p] l by simp
  obtain reg cause where reg: "p_registered p1 key = Some reg" "p_cause p1 = Some cause"
    using assms l by (auto simp: runRollback_def and_then_def reading_def throw_def split: option.splits)
  obtain failure where f: "parseTaskValueJson (x_host x) cause = Inr failure"
    using assms l reg by (auto simp: runRollback_def and_then_def reading_def checked_def split: sum.splits prod.splits)
  obtain p2 v where p2: "in_step (exec_prog x (rr_handler reg (rr_output reg) failure)) p1 = (p2, Inr v)"
    using assms l reg f by (auto simp: runRollback_def and_then_def reading_def checked_def split: sum.splits prod.splits)
  obtain p3 j where p3: "commitCheckpoint x (SAGA_ROLLBACK_PREFIX @ key) (rr_name reg) (Some JNull) p2 = (p3, Inr j)"
    using assms l reg f p2 by (auto simp: runRollback_def and_then_def reading_def checked_def split: sum.splits prod.splits)
  have q: "q = p3\<lparr>p_rolled := insert key (p_rolled p3)\<rparr>"
    using assms l reg f p2 p3 by (auto simp: runRollback_def and_then_def reading_def checked_def modify_def)
  have "saga_of p3 = saga_of p"
    using saga_kept[OF commit_still, of x "SAGA_ROLLBACK_PREFIX @ key" "rr_name reg" "Some JNull" p2] p3 in_step_saga[OF p2] s1 by simp
  then show "p_registered p key \<noteq> None" "p_rolled q = insert key (p_rolled p)" "p_started q = p_started p"
    "p_starts q = p_starts p" "p_registered q = p_registered p" "p_cause q = p_cause p" "p_corrupt q = p_corrupt p"
    using q reg s1 by (auto simp: saga_of_def)
qed

lemma last_owed_in:
  "last_owed p ks best most = Some key \<Longrightarrow> best = Some key \<or> key \<in> set ks \<and> key \<notin> p_rolled p"
  by (induction p ks best most rule: last_owed.induct) (auto split: if_splits)

lemma next_owed:
  assumes "nextRollback h p = RunNext key"
  shows "key \<in> set (p_started p)" "key \<notin> p_rolled p" "p_registered p key \<noteq> None" "p_corrupt p = None"
    "last_owed p (p_started p) None 0 = Some key"
  using assms last_owed_in[of p "p_started p" None 0 key]
  by (auto simp: nextRollback_def split: option.splits if_splits)

lemma fewer_owed:
  assumes "k \<in> set ks" "k \<notin> A"
  shows "length (filter (\<lambda>j. j \<notin> insert k A) ks) < length (filter (\<lambda>j. j \<notin> A) ks)"
  using assms
proof (induction ks)
  case (Cons j ks)
  have "length (filter (\<lambda>j. j \<notin> insert k A) ks) \<le> length (filter (\<lambda>j. j \<notin> A) ks)"
    by (induction ks) auto
  then show ?case using Cons by auto
qed simp

definition owed :: "'s pass \<Rightarrow> string list" where
  "owed p = filter (\<lambda>k. k \<notin> p_rolled p) (p_started p)"

lemma owed_falls:
  assumes "nextRollback h p = RunNext key" "runRollback x key p = (q, Inr u)"
  shows "length (owed q) < length (owed p)"
  using next_owed[OF assms(1)] ran_rollback[OF assms(2)] fewer_owed[of key "p_started p" "p_rolled p"]
  by (simp add: owed_def)

text \<open>Each turn runs the next rollback, or makes the one write that ends the pass.\<close>

function run_rollbacks :: "'s ctx \<Rightarrow> string \<Rightarrow> ('s, worker_outcome) act" where
  "run_rollbacks x cause p =
     (case nextRollback (x_host x) p of
        RunNext key \<Rightarrow>
          (case runRollback x key p of
             (q, Inr _) \<Rightarrow> run_rollbacks x cause q
           | (q, Inl t) \<Rightarrow>
               (case Option.bind (snapshot q t) infrastructureOutcome of
                  Some out \<Rightarrow> (q, Inr out)
                | None \<Rightarrow>
                    (case rollbackFailure (x_host x) q key t of
                       Inl e \<Rightarrow> (q, Inl e)
                     | Inr (failed, retry) \<Rightarrow>
                         directly (w_fail_rollback (x_store x) (x_queue x) (i_run (x_iv x)) (i_token (x_iv x)) cause retry failed)
                           (\<lambda>rolling. if rolling then WRollingBack else WRollbackFailed) q)))
      | Halt failed \<Rightarrow>
          directly (w_fail_rollback (x_store x) (x_queue x) (i_run (x_iv x)) (i_token (x_iv x)) cause None failed) (\<lambda>_. WRollbackFailed) p
      | NoneLeft \<Rightarrow>
          directly (w_fail (x_store x) (x_queue x) (i_run (x_iv x)) (i_token (x_iv x)) cause None) (\<lambda>_. WRolledBack) p)"
  by pat_completeness auto

termination
  by (relation "measure (\<lambda>(x, cause, p). length (owed p))") (auto dest: owed_falls[OF _ sym])

declare run_rollbacks.simps [simp del]

section \<open>The pass and the one write that ends it\<close>

text \<open>What a thrown value is to the worker: a suspension, infrastructure, or the task's failure.\<close>

definition classify :: "'s ctx \<Rightarrow> thrown \<Rightarrow> ('s, worker_outcome) act" where
  "classify x t p =
     (case snapshot p t of
        Some AwaitSignal \<Rightarrow> (p, Inr WSuspended)
      | Some (SleepSignal wake key state) \<Rightarrow>
          directly (w_suspend (x_store x) (x_queue x) (i_run (x_iv x)) (i_token (x_iv x)) wake key state) (\<lambda>_. WSuspended) p
      | control \<Rightarrow>
          (case Option.bind control infrastructureOutcome of
             Some out \<Rightarrow> (p, Inr out)
           | None \<Rightarrow> recordUserFailure x t p))"

type_synonym handler = "json \<Rightarrow> int \<Rightarrow> prog"

text \<open>A rollback pass: however the replay ends, its ending means nothing.\<close>

definition rollBack :: "'s ctx \<Rightarrow> prog \<Rightarrow> string \<Rightarrow> ('s, worker_outcome) act" where
  "rollBack x pr cause p =
     (case exec_prog x pr p of
        (q, Inl t) \<Rightarrow>
          (case Option.bind (snapshot q t) infrastructureOutcome of
             Some out \<Rightarrow> (q, Inr out)
           | None \<Rightarrow> run_rollbacks x cause q)
      | (q, Inr _) \<Rightarrow> run_rollbacks x cause q)"

definition forward :: "'s ctx \<Rightarrow> prog \<Rightarrow> ('s, worker_outcome) act" where
  "forward x pr p =
     (case exec_prog x pr p of
        (q, Inl t) \<Rightarrow> classify x t q
      | (q, Inr v) \<Rightarrow>
          (case Option.bind (p_ended q) infrastructureOutcome of
             Some out \<Rightarrow> (q, Inr out)
           | None \<Rightarrow>
               (case serializeTaskValue (x_host x) ''task result'' v of
                  Inl t \<Rightarrow> classify x t q
                | Inr res \<Rightarrow>
                    directly (w_complete (x_store x) (x_queue x) (i_run (x_iv x)) (i_token (x_iv x)) res) (\<lambda>_. WCompleted) q)))"

definition run_pass :: "'s ctx \<Rightarrow> handler \<Rightarrow> ('s, worker_outcome) act" where
  "run_pass x handler p =
     (let params = (case h_parse (x_host x) (wr_params (x_run x)) of None \<Rightarrow> JText (wr_params (x_run x)) | Some v \<Rightarrow> v);
          pr = handler params (ctx_attempt (x_run x) p)
      in case p_cause p of
           None \<Rightarrow> forward x pr p
         | Some cause \<Rightarrow>
             (case rollBack x pr cause p of
                (q, Inl t) \<Rightarrow> classify x t q
              | (q, Inr out) \<Rightarrow> (q, Inr out)))"

section \<open>The invocation\<close>

definition jitter :: "string \<Rightarrow> nat" where
  "jitter rid = sum_list (map of_char rid) mod 10"

definition sent :: "('s, 'a) op \<Rightarrow> ('a \<Rightarrow> 's \<Rightarrow> 's \<times> (thrown + worker_outcome)) \<Rightarrow> 's \<Rightarrow> 's \<times> (thrown + worker_outcome)" where
  "sent operation next s =
     (case operation s of (s1, Inl e) \<Rightarrow> (s1, trustedStoreOutcome e) | (s1, Inr a) \<Rightarrow> next a s1)"

definition executes ::
  "host \<Rightarrow> 's worker_store \<Rightarrow> invocation \<Rightarrow> handler \<Rightarrow> worker_run \<Rightarrow> 's \<Rightarrow> 's \<times> (thrown + worker_outcome)" where
  "executes h store iv handler w =
     sent (w_checkpoints store (i_queue iv) (wr_task w) (wr_attempt w)) (\<lambda>cps s.
       case replayContext h w cps s of
         Inl t \<Rightarrow> (s, Inl t)
       | Inr p \<Rightarrow>
           (case run_pass \<lparr>x_host = h, x_store = store, x_queue = i_queue iv, x_iv = iv, x_run = w\<rparr> handler p of
              (q, out) \<Rightarrow> (p_world q, out)))"

definition runClaimedRun ::
  "host \<Rightarrow> 's worker_store \<Rightarrow> (string \<Rightarrow> handler option) \<Rightarrow> invocation \<Rightarrow> 's \<Rightarrow> 's \<times> (thrown + worker_outcome)" where
  "runClaimedRun h store registry iv =
     sent (w_task_name store (i_queue iv) (i_run iv) (i_token iv) (i_gen iv)) (\<lambda>found s1.
       case found of
         None \<Rightarrow> (s1, Inr WSuperseded)
       | Some name \<Rightarrow>
           (case registry name of
              None \<Rightarrow>
                sent (w_defer store (i_queue iv) (i_run iv) (i_token iv) (i_gen iv)
                        (Finite (of_nat (15 + jitter (i_run iv))))) (\<lambda>_ s2. (s2, Inr WDeferred)) s1
            | Some handler \<Rightarrow>
                sent (w_activate store (i_queue iv) (i_run iv) (i_token iv) (i_gen iv)) (\<lambda>answer s2.
                  case answer of
                    None \<Rightarrow> (s2, Inr WSuperseded)
                  | Some v \<Rightarrow>
                      (case decodeClaimedRunAnswer v of
                         Inl field \<Rightarrow> (s2, Inr (WIncompatible field))
                       | Inr w \<Rightarrow> executes h store iv handler w s2)) s1))"

end
