(* ===== verification/Rollbacks.thy ===== *)
theory Rollbacks
  imports Worker
begin

text \<open>
  What a rollback pass has done when it stops: each rollback that ran was the newest one owed, ran
  once, and a pass that ends in \<open>rolled back\<close> owes none.
\<close>

section \<open>A rollback that fails\<close>

definition fails_still :: "('s, 'a) act \<Rightarrow> bool" where
  "fails_still m = (\<forall>p q t. m p = (q, Inl t) \<longrightarrow> saga_of q = saga_of p)"

lemma fails_then: "saga_still.keeps m \<Longrightarrow> (\<And>a. fails_still (f a)) \<Longrightarrow> fails_still (and_then m f)"
  unfolding fails_still_def and_then_def
  by (auto split: prod.splits sum.splits) (metis fst_conv saga_kept)+

lemma fails_reading: "(\<And>q. fails_still (f q)) \<Longrightarrow> fails_still (reading f)"
  by (simp add: fails_still_def reading_def)

lemma in_step_still: "saga_still.keeps (in_step (exec_prog x pr))"
  unfolding saga_still.keeps_def same_saga_def using in_step_saga by (metis prod.collapse)

lemma failed_rollback_still: "fails_still (runRollback x key)"
proof -
  have "fails_still (modify f)" "fails_still (throw t)" for f t
    by (simp_all add: fails_still_def modify_def throw_def)
  then show ?thesis
    unfolding runRollback_def
    by (auto intro!: fails_then fails_reading lease_still commit_still in_step_still saga_still.keeps_pure split: option.split)
qed

lemma directly_still: "saga_of (fst (directly operation out p)) = saga_of p"
  by (auto simp: directly_def saga_of_def split: prod.split sum.split)

section \<open>The newest step that is owed\<close>

lemma last_owed_some:
  "\<exists>j. last_owed p ks (Some b) (started_index p b) = Some j \<and> started_index p b \<le> started_index p j"
proof (induction ks arbitrary: b)
  case (Cons k ks)
  then show ?case using Cons[of k] by force
qed simp

lemma last_owed_most:
  assumes "k \<in> set ks" "k \<notin> p_rolled p" "most < started_index p k"
  shows "\<exists>j. last_owed p ks best most = Some j \<and> started_index p k \<le> started_index p j"
  using assms
proof (induction p ks best most rule: last_owed.induct)
  case (2 p j ks best most)
  show ?case
  proof (cases "j \<notin> p_rolled p \<and> started_index p j > most")
    case True
    show ?thesis
    proof (cases "k \<in> set ks \<and> started_index p j < started_index p k")
      case False
      then have "started_index p k \<le> started_index p j" using 2 True by auto
      then show ?thesis using last_owed_some[of p ks j] True by auto
    qed (use "2.IH"(1)[OF True] True 2 in auto)
  next
    case False
    then show ?thesis using "2.IH"(2)[OF False] 2 by auto
  qed
qed simp

lemma newest_first:
  assumes "nextRollback h p = RunNext key" "k \<in> set (p_started p)" "started_index p key < started_index p k" "0 < started_index p k"
  shows "k \<in> p_rolled p"
  using next_owed(5)[OF assms(1)] last_owed_most[of k "p_started p" p 0 None] assms by force

lemma none_left:
  assumes "nextRollback h p = NoneLeft" "k \<in> set (p_started p)" "0 < started_index p k"
  shows "k \<in> p_rolled p"
proof -
  have "last_owed p (p_started p) None 0 = None"
    using assms(1) by (auto simp: nextRollback_def split: option.splits if_splits)
  then show ?thesis using last_owed_most[of k "p_started p" p 0 None] assms by force
qed

section \<open>A whole rollback pass\<close>

text \<open>What the turns of a pass leave behind, from the pass before them to the pass after them.\<close>

definition rolled_in_order :: "'s pass \<Rightarrow> 's pass \<Rightarrow> bool" where
  "rolled_in_order p q =
     (p_started q = p_started p \<and> p_starts q = p_starts p \<and> p_rolled p \<subseteq> p_rolled q \<and>
      (\<forall>k \<in> p_rolled q - p_rolled p. k \<in> set (p_started p) \<and> p_registered p k \<noteq> None \<and>
         (\<forall>j \<in> set (p_started p). started_index p k < started_index p j \<and> 0 < started_index p j \<longrightarrow> j \<in> p_rolled q)))"

lemma rolled_still: "saga_of q = saga_of p \<Longrightarrow> rolled_in_order p q"
  by (auto simp: rolled_in_order_def saga_of_def)

lemma rolled_one:
  assumes "nextRollback h p = RunNext key" "runRollback x key p = (q, Inr u)" "rolled_in_order q r"
  shows "rolled_in_order p r"
proof -
  note ran = ran_rollback[OF assms(2)]
  have i: "started_index q k = started_index p k" for k by (simp add: started_index_def ran(4))
  have r: "p_started r = p_started p" "p_starts r = p_starts p" "insert key (p_rolled p) \<subseteq> p_rolled r"
    using assms(3) ran by (auto simp: rolled_in_order_def)
  have "k \<in> set (p_started p) \<and> p_registered p k \<noteq> None \<and>
      (\<forall>j \<in> set (p_started p). started_index p k < started_index p j \<and> 0 < started_index p j \<longrightarrow> j \<in> p_rolled r)"
    if k: "k \<in> p_rolled r - p_rolled p" for k
  proof (cases "k = key")
    case True
    then show ?thesis using next_owed(1,3)[OF assms(1)] newest_first[OF assms(1)] r(3) by blast
  next
    case False
    then have "k \<in> p_rolled r - p_rolled q" using k ran(2) by simp
    moreover have "\<forall>k \<in> p_rolled r - p_rolled q. k \<in> set (p_started q) \<and> p_registered q k \<noteq> None \<and>
        (\<forall>j \<in> set (p_started q). started_index q k < started_index q j \<and> 0 < started_index q j \<longrightarrow> j \<in> p_rolled r)"
      using assms(3) unfolding rolled_in_order_def by blast
    ultimately show ?thesis unfolding i ran(3,5) by blast
  qed
  then show ?thesis using r unfolding rolled_in_order_def by blast
qed

lemma infrastructure_outcomes: "Option.bind c infrastructureOutcome = Some w \<Longrightarrow> w \<in> {WLeaseLost, WCancelled, WAborted}"
  by (cases c) (auto simp: infrastructureOutcome_def split: control.splits)

lemma directly_outcome:
  assumes "directly operation out p = (q, Inr w)"
  shows "w \<in> range out \<or> w \<in> {WLeaseLost, WCancelled, WAborted}"
proof (cases "snd (operation (p_world p))")
  case (Inl e)
  then have "trustedStoreOutcome e = Inr w" using assms by (simp add: directly_def split: prod.splits)
  then show ?thesis
    using infrastructure_outcomes[of "trustedStoreControl e" w] by (simp add: trustedStoreOutcome_def split: option.splits)
next
  case (Inr a)
  then show ?thesis using assms by (auto simp: directly_def split: prod.splits)
qed

lemma failed_turn:
  assumes "nextRollback (x_host x) p = RunNext key" "runRollback x key p = (a, Inl t)" "run_rollbacks x cause p = (q, r)"
  shows "saga_of q = saga_of p \<and> r \<noteq> Inr WRolledBack"
proof -
  have s: "saga_of a = saga_of p" using failed_rollback_still[of x key] assms(2) unfolding fails_still_def by blast
  have out: "saga_of (fst (directly operation (\<lambda>rolling. if rolling then WRollingBack else WRollbackFailed) a)) = saga_of p \<and>
      snd (directly operation (\<lambda>rolling. if rolling then WRollingBack else WRollbackFailed) a) \<noteq> Inr WRolledBack" for operation
    using directly_still[of operation "\<lambda>rolling. if rolling then WRollingBack else WRollbackFailed" a]
      directly_outcome[of operation "\<lambda>rolling. if rolling then WRollingBack else WRollbackFailed" a] s
    by (cases "directly operation (\<lambda>rolling. if rolling then WRollingBack else WRollbackFailed) a") (auto split: if_splits)
  show ?thesis
  proof (cases "Option.bind (snapshot a t) infrastructureOutcome")
    case (Some w)
    then have "w \<noteq> WRolledBack" using infrastructure_outcomes by blast
    then show ?thesis using assms s Some by (auto simp: run_rollbacks.simps[of x cause p])
  next
    case None
    then show ?thesis
      using assms s out by (auto simp: run_rollbacks.simps[of x cause p] split: sum.splits prod.splits) (metis fst_conv snd_conv)+
  qed
qed

lemma last_turn:
  assumes "nextRollback (x_host x) p = NoneLeft \<or> nextRollback (x_host x) p = Halt failed" "run_rollbacks x cause p = (q, r)"
  shows "saga_of q = saga_of p" "r = Inr WRolledBack \<Longrightarrow> nextRollback (x_host x) p = NoneLeft"
proof -
  obtain operation :: "('a, bool) op" and w where d: "directly operation (\<lambda>_. w) p = (q, r)"
    "w = WRolledBack \<longrightarrow> nextRollback (x_host x) p = NoneLeft"
    using assms by (auto simp: run_rollbacks.simps[of x cause p])
  show "saga_of q = saga_of p" using directly_still[of operation "\<lambda>_. w" p] d by simp
  show "nextRollback (x_host x) p = NoneLeft" if "r = Inr WRolledBack"
    using directly_outcome[OF d(1)[unfolded that]] d(2) by auto
qed

lemma rollbacks_in_order:
  assumes "run_rollbacks x cause p = (q, r)"
  shows "rolled_in_order p q \<and> (r = Inr WRolledBack \<longrightarrow> (\<forall>k \<in> set (p_started p). 0 < started_index p k \<longrightarrow> k \<in> p_rolled q))"
  using assms
proof (induction x cause p arbitrary: q r rule: run_rollbacks.induct)
  case (1 x cause p)
  show ?case
  proof (cases "nextRollback (x_host x) p")
    case NoneLeft
    then have "saga_of q = saga_of p" using last_turn(1) "1.prems" by blast
    then show ?thesis using none_left[OF NoneLeft] rolled_still by (auto simp: saga_of_def)
  next
    case (Halt failed)
    then show ?thesis using last_turn[of x p failed cause q r] "1.prems" rolled_still by auto
  next
    case (RunNext key)
    obtain a ra where a: "runRollback x key p = (a, ra)" by force
    show ?thesis
    proof (cases ra)
      case (Inr u)
      then have "run_rollbacks x cause a = (q, r)" using "1.prems" RunNext a by (simp add: run_rollbacks.simps[of x cause p])
      note ih = "1.IH"[OF RunNext a[symmetric] Inr this]
      have "p_started a = p_started p" "started_index a = started_index p"
        using ran_rollback[OF a[unfolded Inr]] by (auto simp: started_index_def fun_eq_iff)
      then show ?thesis using ih rolled_one[OF RunNext a[unfolded Inr]] by simp
    next
      case (Inl t)
      then show ?thesis using failed_turn[OF RunNext _ "1.prems"] a rolled_still by blast
    qed
  qed
qed

end
