(* ===== verification/Worker_Calls.thy ===== *)
theory Worker_Calls
  imports Rollbacks
begin

text \<open>
  What a worker does to the world: it calls operations of its store, one after another, and nothing
  else. A call is a step labelled with the error it failed with, and a pass keeps account of what it
  was told: every control it enrols, latches or ends by was told by a call it made (a call that
  failed, a beat that was refused, an await that parked the run), or is the pass's own.
\<close>

lemma read_kept:
  fixes p :: "'s pass"
  assumes "read_checkpoints h cps p = Inr q"
  shows "p_world q = p_world p" "p_issued q = p_issued p" "p_ended q = p_ended p" "p_latch q = p_latch p"
proof -
  let ?seen = "\<lambda>p :: 's pass. (p_world p, p_issued p, p_ended p, p_latch p)"
  have one: "?seen (readSagaCheckpoint h name state v p) = ?seen p" for h name state v and p :: "'s pass"
    by (auto simp: readSagaCheckpoint_def corrupt_def Let_def split: option.split)
  have "?seen q = ?seen p" using assms
    by (induction h cps p rule: read_checkpoints.induct) (auto simp: one[simplified] split: sum.splits)
  then show "p_world q = p_world p" "p_issued q = p_issued p" "p_ended q = p_ended p" "p_latch q = p_latch p" by simp_all
qed

section \<open>Calls\<close>

definition failing :: "store_error + 'a \<Rightarrow> store_error option" where
  "failing r = (case r of Inl e \<Rightarrow> Some e | Inr _ \<Rightarrow> None)"

text \<open>One call of a store. A beat that fails tells the pass nothing.\<close>

inductive call_made :: "'s worker_store \<Rightarrow> 's \<Rightarrow> store_error option \<Rightarrow> 's \<Rightarrow> bool" for store where
  made_task_name: "w_task_name store queue rid token gen s = (t, a) \<Longrightarrow> call_made store s (failing a) t"
| made_defer: "w_defer store queue rid token gen secs s = (t, b) \<Longrightarrow> call_made store s (failing b) t"
| made_activate: "w_activate store queue rid token gen s = (t, c) \<Longrightarrow> call_made store s (failing c) t"
| made_beat: "w_beat store queue rid token lease s = (t, d) \<Longrightarrow> call_made store s None t"
| made_checkpoints: "w_checkpoints store queue task attempt s = (t, e) \<Longrightarrow> call_made store s (failing e) t"
| made_checkpoint: "w_checkpoint store queue task rid token name state lease s = (t, f) \<Longrightarrow> call_made store s (failing f) t"
| made_await: "w_await store queue task rid token key name timeout s = (t, g) \<Longrightarrow> call_made store s (failing g) t"
| made_await_task: "w_await_task store queue task rid token key child timeout s = (t, g) \<Longrightarrow> call_made store s (failing g) t"
| made_spawn: "w_spawn store queue name params opts s = (t, h) \<Longrightarrow> call_made store s (failing h) t"
| made_emit: "w_emit store queue name payload s = (t, i) \<Longrightarrow> call_made store s (failing i) t"
| made_suspend: "w_suspend store queue rid token wake key state s = (t, j) \<Longrightarrow> call_made store s (failing j) t"
| made_complete: "w_complete store queue rid token res s = (t, k) \<Longrightarrow> call_made store s (failing k) t"
| made_fail: "w_fail store queue rid token reason retry s = (t, l) \<Longrightarrow> call_made store s (failing l) t"
| made_fail_rollback: "w_fail_rollback store queue rid token reason retry failed s = (t, m) \<Longrightarrow> call_made store s (failing m) t"

definition calls :: "'s worker_store \<Rightarrow> 's \<Rightarrow> 's \<Rightarrow> bool" where
  "calls store = (\<lambda>s t. \<exists>e. call_made store s e t)\<^sup>*\<^sup>*"

lemma calls_none [simp, intro]: "calls store s s"
  by (simp add: calls_def)

lemma calls_follow: "calls store s t \<Longrightarrow> calls store t u \<Longrightarrow> calls store s u"
  by (simp add: calls_def)

lemma calls_one: "call_made store s e t \<Longrightarrow> calls store s t"
  by (auto simp: calls_def)

section \<open>What a call tells\<close>

text \<open>A call refuses the worker when it fails with an error the worker trusts, and a beat when it says
  the lease is lost or the run cancelled. An await that answers nothing has parked the run.\<close>

definition refuses :: "'s worker_store \<Rightarrow> invocation \<Rightarrow> control \<Rightarrow> 's \<Rightarrow> 's \<Rightarrow> bool" where
  "refuses store iv c s t =
     ((\<exists>e. call_made store s (Some e) t \<and> trustedStoreControl e = Some c) \<or>
      (\<exists>lease answer. w_beat store (i_queue iv) (i_run iv) (i_token iv) lease s = (t, Some (Inr answer)) \<and>
        (answer = LostLease \<and> c = LeaseLostSignal \<or> answer = CancelledLease \<and> c = RunCancelledSignal)))"

definition parks :: "'s worker_store \<Rightarrow> string \<Rightarrow> worker_run \<Rightarrow> 's \<Rightarrow> 's \<Rightarrow> bool" where
  "parks store queue w s t =
     ((\<exists>key name timeout. w_await store queue (wr_task w) (wr_run w) (wr_token w) key name timeout s = (t, Inr None)) \<or>
      (\<exists>key child timeout. w_await_task store queue (wr_task w) (wr_run w) (wr_token w) key child timeout s = (t, Inr None)))"

definition told :: "'s ctx \<Rightarrow> control \<Rightarrow> 's \<Rightarrow> 's \<Rightarrow> bool" where
  "told x c s t =
     (case c of
        SleepSignal _ _ _ \<Rightarrow> True
      | RollbackPhaseSignal \<Rightarrow> True
      | AwaitSignal \<Rightarrow> \<exists>u v. calls (x_store x) s u \<and> parks (x_store x) (x_queue x) (x_run x) u v \<and> calls (x_store x) v t
      | _ \<Rightarrow> \<exists>u v. calls (x_store x) s u \<and> refuses (x_store x) (x_iv x) c u v \<and> calls (x_store x) v t)"

lemma told_between: "told x c s t \<Longrightarrow> calls (x_store x) r s \<Longrightarrow> calls (x_store x) t u \<Longrightarrow> told x c r u"
  by (auto simp: told_def split: control.splits) (blast intro: calls_follow)+

lemma refused_calls: "refuses store iv c s t \<Longrightarrow> calls store s t"
  by (auto simp: refuses_def intro: calls_one made_beat)

lemma parked_calls: "parks store queue w s t \<Longrightarrow> calls store s t"
  by (auto simp: parks_def intro: calls_one[OF made_await] calls_one[OF made_await_task])

lemma told_refusal: "refuses (x_store x) (x_iv x) c s t \<Longrightarrow> c \<noteq> AwaitSignal \<Longrightarrow> told x c s t"
  by (auto simp: told_def split: control.splits)

lemma told_park: "parks (x_store x) (x_queue x) (x_run x) s t \<Longrightarrow> told x AwaitSignal s t"
  by (auto simp: told_def)

lemma trusted_no_await: "trustedStoreControl e = Some c \<Longrightarrow> c \<noteq> AwaitSignal"
  by (auto simp: trustedStoreControl_def split: store_error.splits exn.splits)

text \<open>The controls a pass has in hand.\<close>

definition known :: "'s pass \<Rightarrow> control set" where
  "known p = set (p_issued p) \<union> set_option (p_ended p) \<union> set_option (p_latch p)"

definition moved :: "'s ctx \<Rightarrow> 's pass \<Rightarrow> 's pass \<Rightarrow> bool" where
  "moved x p q =
     (calls (x_store x) (p_world p) (p_world q) \<and> (\<forall>c\<in>known q. c \<in> known p \<or> told x c (p_world p) (p_world q)))"

interpretation world: pass_relation "moved x" for x
proof
  show "moved x p p" for p by (simp add: moved_def)
  show "moved x p r" if "moved x p q" "moved x q r" for p q r
    using that unfolding moved_def by (metis calls_follow told_between calls_none)
qed

abbreviation reports :: "'s ctx \<Rightarrow> ('s, 'a) act \<Rightarrow> bool" where
  "reports x \<equiv> pass_relation.keeps (moved x)"

text \<open>What changes only the rest of the pass.\<close>

lemma moved_still: "p_world q = p_world p \<Longrightarrow> known q \<subseteq> known p \<Longrightarrow> moved x p q"
  by (auto simp: moved_def)

lemma still: "(\<And>p. p_world (fst (m p)) = p_world p \<and> known (fst (m p)) \<subseteq> known p) \<Longrightarrow> reports x m"
  by (auto simp: world.keeps_def intro!: moved_still)

lemma call_reports:
  fixes x :: "'s ctx"
  assumes "\<And>s t r. operation s = (t, r) \<Longrightarrow> call_made (x_store x) s (failing r) t"
  shows "reports x (storeCall operation)"
  unfolding world.keeps_def
proof
  fix p :: "'s pass"
  obtain t r where t: "operation (p_world p) = (t, r)" by force
  note made = assms[OF t]
  have "calls (x_store x) (p_world p) t" using made by (rule calls_one)
  moreover have "told x c (p_world p) t" if "r = Inl e" "trustedStoreControl e = Some c" for e c
  proof (rule told_refusal)
    show "refuses (x_store x) (x_iv x) c (p_world p) t" using made that by (auto simp: refuses_def failing_def)
  qed (rule trusted_no_await[OF that(2)])
  ultimately show "moved x p (fst (storeCall operation p))"
    using t by (auto simp: moved_def known_def storeCall_def enroll_def split: option.split sum.split)
qed

lemma latched:
  assumes "w_beat (x_store x) (x_queue x) (i_run (x_iv x)) (i_token (x_iv x)) lease s = (t, Some (Inr answer))"
    "x_queue x = i_queue (x_iv x)" "answer = LostLease \<and> c = LeaseLostSignal \<or> answer = CancelledLease \<and> c = RunCancelledSignal"
  shows "told x c s t"
proof (rule told_refusal)
  show "refuses (x_store x) (x_iv x) c s t" using assms by (auto simp: refuses_def)
  show "c \<noteq> AwaitSignal" using assms(3) by auto
qed

lemma beat_reports:
  assumes "x_queue x = i_queue (x_iv x)"
  shows "moved x p (beat_lands x p)"
proof (cases "p_pump p")
  case True
  obtain t r where t: "w_beat (x_store x) (x_queue x) (i_run (x_iv x)) (i_token (x_iv x)) (Finite (wr_lease (x_run x))) (p_world p) = (t, r)"
    by force
  note l = latched[of x "Finite (wr_lease (x_run x))" "p_world p" t, OF _ assms]
  have "calls (x_store x) (p_world p) t" by (rule calls_one[OF made_beat[OF t]])
  moreover have "told x LeaseLostSignal (p_world p) t" if "r = Some (Inr LostLease)" using l[of LostLease] t that by simp
  moreover have "told x RunCancelledSignal (p_world p) t" if "r = Some (Inr CancelledLease)" using l[of CancelledLease] t that by simp
  ultimately show ?thesis
    using t True by (auto simp: beat_lands_def moved_def known_def split: option.split sum.split lease_state.split)
qed (simp add: beat_lands_def world.rel_refl)

text \<open>A context of this invocation.\<close>

definition own_queue :: "'s ctx \<Rightarrow> bool" where
  "own_queue x = (x_queue x = i_queue (x_iv x))"

lemma lease_reports:
  fixes x :: "'s ctx"
  assumes "own_queue x"
  shows "reports x (assertLeaseHeld x)"
  unfolding world.keeps_def
proof
  fix p :: "'s pass"
  have "moved x p (beat_lands x p)" using beat_reports assms by (simp add: own_queue_def)
  moreover have "moved x (beat_lands x p) (fst (assertLeaseHeld x p))"
    by (auto simp: assertLeaseHeld_def Let_def enroll_def known_def intro!: moved_still split: option.split)
  ultimately show "moved x p (fst (assertLeaseHeld x p))" by (rule world.rel_trans)
qed

text \<open>The pass's own signals.\<close>

lemma own_reports: "reports x (enroll (SleepSignal wake key state))" "reports x (enroll RollbackPhaseSignal)"
  by (auto simp: world.keeps_def moved_def enroll_def known_def told_def)

lemma small_reports:
  "reports x (register key reg out)" "reports x (takeWake key)" "reports x (storageName raw what room)"
  by (intro still; auto simp: act_defs register_def takeWake_def storageName_def Let_def known_def split: option.split)+

lemma refuse_reports: "reports x refuseForwardProgress"
  unfolding refuseForwardProgress_def by (auto intro!: world.keeps_rules own_reports)

lemma modify_reports: "(\<And>p. p_world (f p) = p_world p \<and> known (f p) \<subseteq> known p) \<Longrightarrow> reports x (modify f)"
  by (rule still) (simp add: modify_def)

lemma in_step_reports:
  fixes x :: "'s ctx"
  assumes "reports x m"
  shows "reports x (in_step m)"
  unfolding world.keeps_def
proof
  fix p :: "'s pass"
  have "moved x (p\<lparr>p_in_step := True\<rparr>) (fst (m (p\<lparr>p_in_step := True\<rparr>)))" by (rule world.keeps_at[OF assms])
  then show "moved x p (fst (in_step m p))"
    by (cases "m (p\<lparr>p_in_step := True\<rparr>)") (simp add: in_step_def moved_def known_def)
qed

lemmas report_rules = world.keeps_rules small_reports refuse_reports own_reports call_reports in_step_reports modify_reports

section \<open>The calls of a task\<close>

lemma enter_reports: "own_queue x \<Longrightarrow> reports x (enterDurableOp x what)"
  unfolding enterDurableOp_def by (auto intro!: report_rules lease_reports)

lemma commit_reports: "reports x (commitCheckpoint x key label raw)"
  unfolding commitCheckpoint_def by (intro report_rules) (simp_all add: made_checkpoint known_def)

lemma step_reports:
  assumes "own_queue x" "reports x body"
  shows "reports x (ctx_step x name opts body)"
proof -
  have "reports x (markStarted x key)" for key
    unfolding markStarted_def Let_def by (auto intro!: report_rules commit_reports simp: known_def)
  then have "reports x (runStep x key name body reg)" for key reg
    unfolding runStep_def by (auto intro!: report_rules commit_reports assms simp: known_def split: option.split)
  then show ?thesis unfolding ctx_step_def by (auto intro!: report_rules enter_reports assms)
qed

lemma sleep_reports:
  assumes "own_queue x"
  shows "reports x (sleepFor x seconds)" "reports x (sleepUntil x epochMs)"
proof -
  have "reports x (suspendPoint x kind wake)" for kind wake
    unfolding suspendPoint_def by (auto intro!: report_rules)
  then show "reports x (sleepFor x seconds)" "reports x (sleepUntil x epochMs)"
    unfolding sleepFor_def sleepUntil_def by (auto intro!: report_rules enter_reports assms)
qed

text \<open>An await enrols its signal only where the store's answer parked the run.\<close>

lemma memo_reports: "reports x (commitEventMemo x t key m)"
  unfolding commitEventMemo_def by (auto intro!: report_rules commit_reports)

lemma sent_reports:
  fixes x :: "'s ctx"
  assumes made: "\<And>s t r. send s = (t, r) \<Longrightarrow> call_made (x_store x) s (failing r) t"
    and park: "\<And>s t. send s = (t, Inr None) \<Longrightarrow> parks (x_store x) (x_queue x) (x_run x) s t"
  shows "reports x (and_then (storeCall send) (registeredAwait x timedOut key))"
  unfolding world.keeps_def
proof
  fix p :: "'s pass"
  obtain q r where q: "storeCall send p = (q, r)" by force
  have "reports x (storeCall send)" using made by (rule call_reports)
  then have m: "moved x p q" using world.keeps_at[of x "storeCall send" p] q by simp
  show "moved x p (fst (and_then (storeCall send) (registeredAwait x timedOut key) p))"
  proof (cases r)
    case (Inl t)
    then show ?thesis using m q by (simp add: and_then_def)
  next
    case (Inr out)
    show ?thesis
    proof (cases out)
      case (Some payload)
      have "moved x q (fst (registeredAwait x timedOut key out q))"
        using world.keeps_at[OF memo_reports] Some by (simp add: registeredAwait_def)
      then show ?thesis using m q Inr world.rel_trans by (simp add: and_then_def) blast
    next
      case None
      then have "send (p_world p) = (p_world q, Inr None)"
        using q Inr by (auto simp: storeCall_def enroll_def split: option.splits prod.splits sum.splits)
      then have "told x AwaitSignal (p_world p) (p_world q)" by (intro told_park park)
      then show ?thesis using m q Inr None by (auto simp: and_then_def registeredAwait_def enroll_def moved_def known_def)
    qed
  qed
qed

lemma await_reports:
  assumes "own_queue x"
  shows "reports x (await_event x name timeout)" "reports x (await_task x child wait)"
proof -
  have settled: "reports x (settledAwait x t key)" for t key
    unfolding settledAwait_def by (auto intro!: report_rules memo_reports split: option.split)
  have through: "reports x (await_through x t key send)"
    if "\<And>s t r. send s = (t, r) \<Longrightarrow> call_made (x_store x) s (failing r) t"
      "\<And>s t. send s = (t, Inr None) \<Longrightarrow> parks (x_store x) (x_queue x) (x_run x) s t" for t key send
    unfolding await_through_def
    by (intro world.keeps_then settled) (auto intro!: report_rules sent_reports that split: option.split)
  have "reports x (await_through x t key (w_await (x_store x) (x_queue x) (wr_task (x_run x)) (wr_run (x_run x)) (wr_token (x_run x)) k n o'))"
    "reports x (await_through x t key (w_await_task (x_store x) (x_queue x) (wr_task (x_run x)) (wr_run (x_run x)) (wr_token (x_run x)) k n o'))"
    for t key k n o'
    by (rule through; auto simp: parks_def intro: made_await made_await_task)+
  then show "reports x (await_event x name timeout)" "reports x (await_task x child wait)"
    unfolding await_event_def await_task_def
    by (auto intro!: report_rules enter_reports assms split: prod.split)
qed

lemma spawn_reports:
  assumes "own_queue x"
  shows "reports x (spawn_child x name params queue opts)" "reports x (emit_event x event payload)"
proof -
  have "reports x (runSpawn x key name params queue opts)" for key name
    unfolding runSpawn_def
    by (auto intro!: report_rules commit_reports made_spawn split: option.split js_value.split)
  then show "reports x (spawn_child x name params queue opts)" "reports x (emit_event x event payload)"
    unfolding spawn_child_def emit_event_def
    by (auto intro!: report_rules enter_reports lease_reports assms made_emit)
qed

lemma exec_reports:
  fixes x :: "'s ctx"
  assumes "own_queue x"
  shows "reports x (exec_prog x pr)" "reports x (exec_call x c)"
proof (induction pr and c)
  case (Call c k)
  show ?case
    unfolding world.keeps_def exec_prog.simps
  proof
    fix p :: "'s pass"
    obtain q r where c: "exec_call x c p = (q, r)" by force
    have "moved x p q" using world.keeps_at[OF Call(1), of p] c by simp
    then show "moved x p (fst (case exec_call x c p of (p', r) \<Rightarrow> exec_prog x (k r) p'))"
      using c world.rel_trans world.keeps_at[OF Call(2)[of "k r"], of q] by auto
  qed
qed (auto intro!: report_rules step_reports sleep_reports await_reports spawn_reports assms split: prod.split)

lemma rollback_reports: "own_queue x \<Longrightarrow> reports x (runRollback x key)"
  unfolding runRollback_def
  by (auto intro!: report_rules lease_reports commit_reports exec_reports simp: known_def split: option.split)

end
