(* ===== verification/Worker_Ends.thy ===== *)
theory Worker_Ends
  imports Worker_Calls
begin

text \<open>
  What an invocation says is what its store said last. An outcome a worker answers with is that of the
  one write that came last and was answered; a suspension is a park, by the write of a sleep or by an
  await; a lost lease, a cancelled run and an outage were told by a call of the store.
\<close>

section \<open>The word that ends an invocation\<close>

text \<open>The run a claim's activation handed over, some calls after one state and before another.\<close>

definition handed :: "'s worker_store \<Rightarrow> invocation \<Rightarrow> 's \<Rightarrow> 's \<Rightarrow> worker_run \<Rightarrow> bool" where
  "handed store iv s t w =
     (\<exists>u v answer. calls store s u \<and> w_activate store (i_queue iv) (i_run iv) (i_token iv) (i_gen iv) u = (v, Inr (Some answer)) \<and>
        decodeClaimedRunAnswer answer = Inr w \<and> calls store v t)"

text \<open>What the outcome of an invocation that began in one world says of a later world and of the last.\<close>

definition last_write :: "'s worker_store \<Rightarrow> invocation \<Rightarrow> 's \<Rightarrow> worker_outcome \<Rightarrow> 's \<Rightarrow> 's \<Rightarrow> bool" where
  "last_write store iv s out u t =
     (let q = i_queue iv; r = i_run iv; k = i_token iv in
      case out of
        WCompleted \<Rightarrow> \<exists>res. w_complete store q r k res u = (t, Inr ())
      | WSuspended \<Rightarrow> (\<exists>wake key state. w_suspend store q r k wake key state u = (t, Inr ())) \<or>
          (\<exists>w v. handed store iv s u w \<and> parks store q w u v \<and> calls store v t)
      | WRetryScheduled \<Rightarrow> \<exists>reason delay. w_fail store q r k reason (Some delay) u = (t, Inr False)
      | WFailed \<Rightarrow> \<exists>reason. w_fail store q r k reason None u = (t, Inr False)
      | WRollingBack \<Rightarrow> (\<exists>reason retry. w_fail store q r k reason retry u = (t, Inr True)) \<or>
          (\<exists>reason retry failed. w_fail_rollback store q r k reason retry failed u = (t, Inr True))
      | WRolledBack \<Rightarrow> \<exists>reason ended. w_fail store q r k reason None u = (t, Inr ended)
      | WRollbackFailed \<Rightarrow> \<exists>reason retry failed rolling. w_fail_rollback store q r k reason retry failed u = (t, Inr rolling)
      | WSuperseded \<Rightarrow> w_task_name store q r k (i_gen iv) u = (t, Inr None) \<or> w_activate store q r k (i_gen iv) u = (t, Inr None)
      | WDeferred \<Rightarrow> \<exists>secs. w_defer store q r k (i_gen iv) secs u = (t, Inr ())
      | WIncompatible field \<Rightarrow> \<exists>v. w_activate store q r k (i_gen iv) u = (t, Inr (Some v)) \<and>
          decodeClaimedRunAnswer v = Inl field
      | _ \<Rightarrow> \<exists>c v. infrastructureOutcome c = Some out \<and> refuses store iv c u v \<and> calls store v t)"

definition closes :: "'s worker_store \<Rightarrow> invocation \<Rightarrow> 's \<Rightarrow> 's \<Rightarrow> thrown + worker_outcome \<Rightarrow> bool" where
  "closes store iv s t r =
     (calls store s t \<and> (\<forall>out. r = Inr out \<longrightarrow> (\<exists>u. calls store s u \<and> last_write store iv s out u t)))"

lemma closesI: "calls store s u \<Longrightarrow> calls store u t \<Longrightarrow> last_write store iv s out u t \<Longrightarrow> closes store iv s t (Inr out)"
  by (auto simp: closes_def intro: calls_follow)

lemma closes_thrown: "closes store iv s t (Inl e) = calls store s t"
  by (simp add: closes_def)

lemma handed_before: "handed store iv s t w \<Longrightarrow> calls store r s \<Longrightarrow> handed store iv r t w"
  unfolding handed_def by (meson calls_follow)

lemma last_before:
  assumes "last_write store iv s out u t" "calls store r s"
  shows "last_write store iv r out u t"
proof (cases out)
  case WSuspended
  show ?thesis
    using assms(1) unfolding WSuspended last_write_def Let_def worker_outcome.case
    by (blast intro: handed_before[OF _ assms(2)])
qed (use assms(1) in \<open>simp_all add: last_write_def\<close>)

lemma closes_before: "closes store iv s t r \<Longrightarrow> calls store p s \<Longrightarrow> closes store iv p t r"
  unfolding closes_def by (blast intro: calls_follow last_before)

text \<open>A call that refused the worker, followed by calls that did not matter.\<close>

lemma refused_closes:
  assumes "calls store s u" "refuses store iv c u v" "calls store v t" "infrastructureOutcome c = Some out"
  shows "closes store iv s t (Inr out)"
proof (rule closesI[OF assms(1) calls_follow[OF refused_calls[OF assms(2)] assms(3)]])
  have "out \<in> {WLeaseLost, WCancelled, WAborted}"
    using assms(4) by (auto simp: infrastructureOutcome_def split: control.splits)
  moreover have "\<exists>c v. infrastructureOutcome c = Some out \<and> refuses store iv c u v \<and> calls store v t"
    using assms(2-4) by blast
  ultimately show "last_write store iv s out u t" by (elim insertE) (simp_all add: last_write_def)
qed

lemma failed_closes:
  assumes "calls store s u" "call_made store u (Some e) t"
  shows "closes store iv s t (trustedStoreOutcome e)"
proof (cases "trustedStoreOutcome e")
  case (Inl x)
  then show ?thesis using calls_follow[OF assms(1) calls_one[OF assms(2)]] by (simp add: closes_thrown)
next
  case (Inr out)
  then obtain c where c: "trustedStoreControl e = Some c" "infrastructureOutcome c = Some out"
    by (auto simp: trustedStoreOutcome_def split: option.splits) (cases "trustedStoreControl e"; simp)
  then have "refuses store iv c u t" using assms(2) by (auto simp: refuses_def)
  then show ?thesis using refused_closes[OF assms(1) _ calls_none c(2)] Inr by simp
qed

section \<open>A pass\<close>

text \<open>A pass whose controls were all told since the world it began in.\<close>

definition accounted :: "'s ctx \<Rightarrow> 's \<Rightarrow> 's pass \<Rightarrow> bool" where
  "accounted x s p =
     (own_queue x \<and> calls (x_store x) s (p_world p) \<and>
      (\<exists>b. handed (x_store x) (x_iv x) s b (x_run x) \<and> calls (x_store x) b (p_world p) \<and>
        (\<forall>c\<in>known p. told x c b (p_world p))))"

lemma accounted_on:
  assumes "accounted x s p" "moved x p q"
  shows "accounted x s q"
proof -
  obtain b where b: "handed (x_store x) (x_iv x) s b (x_run x)" "calls (x_store x) b (p_world p)"
      "\<forall>c\<in>known p. told x c b (p_world p)" using assms(1) by (auto simp: accounted_def)
  note q = assms(2)[unfolded moved_def]
  have "told x c b (p_world q)" if "c \<in> known q" for c
    using that b q told_between[of x c] calls_none by blast
  then show ?thesis using assms(1) b q unfolding accounted_def by (meson calls_follow)
qed

definition ends :: "'s ctx \<Rightarrow> ('s, worker_outcome) act \<Rightarrow> bool" where
  "ends x m = (\<forall>s p q r. accounted x s p \<longrightarrow> m p = (q, r) \<longrightarrow> closes (x_store x) (x_iv x) s (p_world q) r)"

lemma ends_at: "ends x m \<Longrightarrow> accounted x s p \<Longrightarrow> m p = (q, r) \<Longrightarrow> closes (x_store x) (x_iv x) s (p_world q) r"
  by (simp add: ends_def)

lemma told_closes:
  assumes "accounted x s p" "c \<in> known p" "infrastructureOutcome c = Some out"
  shows "closes (x_store x) (x_iv x) s (p_world p) (Inr out)"
proof -
  obtain b where b: "handed (x_store x) (x_iv x) s b (x_run x)" "told x c b (p_world p)" using assms(1,2) by (auto simp: accounted_def)
  have "calls (x_store x) s b" using b(1) by (auto simp: handed_def) (meson calls_follow calls_one made_activate)
  moreover obtain u v where "calls (x_store x) b u" "refuses (x_store x) (x_iv x) c u v" "calls (x_store x) v (p_world p)"
    using b(2) assms(3) by (auto simp: told_def infrastructureOutcome_def split: control.splits)
  ultimately show ?thesis using refused_closes assms(3) calls_follow by metis
qed

lemma parked_closes:
  assumes "accounted x s p" "AwaitSignal \<in> known p"
  shows "closes (x_store x) (x_iv x) s (p_world p) (Inr WSuspended)"
proof -
  obtain b where b: "handed (x_store x) (x_iv x) s b (x_run x)" "told x AwaitSignal b (p_world p)" using assms by (auto simp: accounted_def)
  then obtain u v where u: "calls (x_store x) b u" "parks (x_store x) (x_queue x) (x_run x) u v" "calls (x_store x) v (p_world p)"
    by (auto simp: told_def)
  have h: "handed (x_store x) (x_iv x) s u (x_run x)" using b(1) u(1) unfolding handed_def by (meson calls_follow)
  have "calls (x_store x) s u" using h by (auto simp: handed_def) (meson calls_follow calls_one made_activate)
  moreover have "calls (x_store x) u (p_world p)" using parked_calls[OF u(2)] u(3) calls_follow by metis
  moreover have "last_write (x_store x) (x_iv x) s WSuspended u (p_world p)"
    using h u(2,3) assms(1) unfolding last_write_def Let_def worker_outcome.case by (auto simp: accounted_def own_queue_def)
  ultimately show ?thesis by (rule closesI)
qed

lemma snapshot_known: "snapshot p t = Some c \<Longrightarrow> c \<in> known p"
  by (auto simp: snapshot_def known_def split: thrown.splits if_splits)

lemma ended_known: "p_ended p = Some c \<Longrightarrow> c \<in> known p"
  by (simp add: known_def)

lemma infrastructure_closes:
  assumes "accounted x s p"
  shows "Option.bind (snapshot p t) infrastructureOutcome = Some out \<Longrightarrow> closes (x_store x) (x_iv x) s (p_world p) (Inr out)"
    "Option.bind (p_ended p) infrastructureOutcome = Some out \<Longrightarrow> closes (x_store x) (x_iv x) s (p_world p) (Inr out)"
  by (auto dest!: bind_eq_Some_conv[THEN iffD1] intro: told_closes[OF assms] snapshot_known ended_known)

text \<open>The writes that end a pass.\<close>

lemma directly_ends:
  assumes "\<And>u t r. operation u = (t, r) \<Longrightarrow> call_made (x_store x) u (failing r) t"
    "\<And>a s u t. operation u = (t, Inr a) \<Longrightarrow> own_queue x \<Longrightarrow> last_write (x_store x) (x_iv x) s (out a) u t"
  shows "ends x (directly operation out)"
  unfolding ends_def
proof (intro allI impI)
  fix s p q r assume a: "accounted x s p" and d: "directly operation out p = (q, r)"
  obtain t b where t: "operation (p_world p) = (t, b)" by force
  have s: "calls (x_store x) s (p_world p)" "own_queue x" using a by (simp_all add: accounted_def)
  note made = assms(1)[OF t]
  show "closes (x_store x) (x_iv x) s (p_world q) r"
  proof (cases b)
    case (Inl e)
    then show ?thesis using failed_closes[OF s(1)] made d t by (auto simp: directly_def failing_def)
  next
    case (Inr a)
    then have "p_world q = t" "r = Inr (out a)" using d t by (auto simp: directly_def)
    then show ?thesis using closesI[OF s(1) calls_one[OF made] assms(2)[OF t[unfolded Inr] s(2)]] by simp
  qed
qed

lemma write_ends:
  "ends x (directly (w_complete (x_store x) (x_queue x) (i_run (x_iv x)) (i_token (x_iv x)) res) (\<lambda>_. WCompleted))"
  "ends x (directly (w_fail (x_store x) (x_queue x) (i_run (x_iv x)) (i_token (x_iv x)) reason None) (\<lambda>_. WRolledBack))"
  "ends x (directly (w_fail_rollback (x_store x) (x_queue x) (i_run (x_iv x)) (i_token (x_iv x)) reason retry failed) (\<lambda>_. WRollbackFailed))"
  "ends x (directly (w_fail_rollback (x_store x) (x_queue x) (i_run (x_iv x)) (i_token (x_iv x)) reason retry failed)
    (\<lambda>rolling. if rolling then WRollingBack else WRollbackFailed))"
  "ends x (directly (w_suspend (x_store x) (x_queue x) (i_run (x_iv x)) (i_token (x_iv x)) wake key state) (\<lambda>_. WSuspended))"
  "ends x (directly (w_fail (x_store x) (x_queue x) (i_run (x_iv x)) (i_token (x_iv x)) reason (delay_of d))
    (\<lambda>rolling. if rolling then WRollingBack else if d = Exhausted then WFailed else WRetryScheduled))"
proof -
  note d = last_write_def Let_def own_queue_def
  show "ends x (directly (w_complete (x_store x) (x_queue x) (i_run (x_iv x)) (i_token (x_iv x)) res) (\<lambda>_. WCompleted))"
    by (rule directly_ends, rule made_complete) (simp_all add: d, blast?)
  show "ends x (directly (w_fail (x_store x) (x_queue x) (i_run (x_iv x)) (i_token (x_iv x)) reason None) (\<lambda>_. WRolledBack))"
    by (rule directly_ends, rule made_fail) (simp_all add: d, blast?)
  show "ends x (directly (w_fail_rollback (x_store x) (x_queue x) (i_run (x_iv x)) (i_token (x_iv x)) reason retry failed) (\<lambda>_. WRollbackFailed))"
    by (rule directly_ends, rule made_fail_rollback) (simp_all add: d, blast?)
  show "ends x (directly (w_suspend (x_store x) (x_queue x) (i_run (x_iv x)) (i_token (x_iv x)) wake key state) (\<lambda>_. WSuspended))"
    by (rule directly_ends, rule made_suspend) (simp_all add: d, blast?)
  show "ends x (directly (w_fail_rollback (x_store x) (x_queue x) (i_run (x_iv x)) (i_token (x_iv x)) reason retry failed)
      (\<lambda>rolling. if rolling then WRollingBack else WRollbackFailed))"
    by (rule directly_ends, rule made_fail_rollback, assumption, rename_tac b s u t) (case_tac b; simp add: d; blast)
  show "ends x (directly (w_fail (x_store x) (x_queue x) (i_run (x_iv x)) (i_token (x_iv x)) reason (delay_of d))
      (\<lambda>rolling. if rolling then WRollingBack else if d = Exhausted then WFailed else WRetryScheduled))"
    by (rule directly_ends, rule made_fail, assumption, rename_tac b s u t)
      (case_tac b; cases d; simp add: d delay_of_def; blast)
qed
lemma user_failure_ends: "ends x (recordUserFailure x t)"
  unfolding ends_def
proof (intro allI impI)
  fix s p q r assume a: "accounted x s p" and f: "recordUserFailure x t p = (q, r)"
  define fails where "fails = (\<lambda>d. directly (w_fail (x_store x) (x_queue x) (i_run (x_iv x)) (i_token (x_iv x)) (h_failure (x_host x) t) (delay_of d))
      (\<lambda>rolling. if rolling then WRollingBack else if d = Exhausted then WFailed else WRetryScheduled))"
  obtain d where "and_then (checked d) fails p = (q, r)" using f unfolding recordUserFailure_def fails_def by blast
  then have "(\<exists>e. q = p \<and> r = Inl e) \<or> (\<exists>d. fails d p = (q, r))"
    by (cases d) (auto simp: and_then_def checked_def)
  then show "closes (x_store x) (x_iv x) s (p_world q) r"
    using a ends_at[OF write_ends(6) a] unfolding fails_def by (auto simp: closes_thrown accounted_def)
qed

lemma classify_ends: "ends x (classify x t)"
  unfolding ends_def
proof (intro allI impI)
  fix s p q r assume a: "accounted x s p" and c: "classify x t p = (q, r)"
  show "closes (x_store x) (x_iv x) s (p_world q) r"
  proof (cases "Option.bind (snapshot p t) infrastructureOutcome")
    case (Some w)
    then have "r = Inr w \<and> q = p" using c by (auto simp: classify_def infrastructureOutcome_def split: option.splits control.splits)
    then show ?thesis using infrastructure_closes(1)[OF a Some] by simp
  next
    case None
    show ?thesis
    proof (cases "snapshot p t")
      case None
      then show ?thesis using c ends_at[OF user_failure_ends a] by (simp add: classify_def)
    next
      case (Some k)
      show ?thesis
      proof (cases k)
        case (SleepSignal wake key state)
        then show ?thesis using c Some ends_at[OF write_ends(5) a] by (simp add: classify_def)
      next
        case AwaitSignal
        then have "q = p \<and> r = Inr WSuspended" using c Some by (simp add: classify_def)
        then show ?thesis using parked_closes[OF a] snapshot_known[OF Some] AwaitSignal by simp
      next
        case RollbackPhaseSignal
        then show ?thesis using c Some ends_at[OF user_failure_ends a]
          by (simp add: classify_def infrastructureOutcome_def)
      qed (use None Some in \<open>simp_all add: infrastructureOutcome_def\<close>)
    qed
  qed
qed

lemma rollbacks_end: "accounted x s p \<Longrightarrow> run_rollbacks x cause p = (q, r) \<Longrightarrow> closes (x_store x) (x_iv x) s (p_world q) r"
proof (induction x cause p arbitrary: q r rule: run_rollbacks.induct)
  case (1 x cause p)
  note turn = run_rollbacks.simps[of x cause p]
  show ?case
  proof (cases "nextRollback (x_host x) p")
    case NoneLeft
    then show ?thesis using ends_at[OF write_ends(2) "1.prems"(1)] "1.prems"(2) by (simp add: turn)
  next
    case (Halt failed)
    then show ?thesis using ends_at[OF write_ends(3) "1.prems"(1)] "1.prems"(2) by (simp add: turn)
  next
    case (RunNext key)
    obtain a b where a: "runRollback x key p = (a, b)" by force
    have "own_queue x" using "1.prems"(1) by (simp add: accounted_def)
    then have "moved x p a" using world.keeps_at[OF rollback_reports, of x p key] a by simp
    then have on: "accounted x s a" by (rule accounted_on[OF "1.prems"(1)])
    show ?thesis
    proof (cases b)
      case (Inr u)
      then have "run_rollbacks x cause a = (q, r)" using "1.prems"(2) RunNext a by (simp add: turn)
      then show ?thesis using "1.IH"[OF RunNext a[symmetric] Inr on] by simp
    next
      case (Inl t)
      show ?thesis
      proof (cases "Option.bind (snapshot a t) infrastructureOutcome")
        case (Some w)
        then have "q = a \<and> r = Inr w" using "1.prems"(2) RunNext a Inl by (simp add: turn)
        then show ?thesis using infrastructure_closes(1)[OF on Some] by simp
      next
        case None
        show ?thesis
        proof (cases "rollbackFailure (x_host x) a key t")
          case (Inl e)
          then have "q = a \<and> r = Inl e" using None "1.prems"(2) RunNext a \<open>b = Inl t\<close> by (simp add: turn)
          then show ?thesis using on by (simp add: closes_thrown accounted_def)
        next
          case (Inr f)
          then have "directly (w_fail_rollback (x_store x) (x_queue x) (i_run (x_iv x)) (i_token (x_iv x)) cause (snd f) (fst f))
              (\<lambda>rolling. if rolling then WRollingBack else WRollbackFailed) a = (q, r)"
            using None "1.prems"(2) RunNext a Inl by (cases f) (simp add: turn)
          then show ?thesis using ends_at[OF write_ends(4) on] by blast
        qed
      qed
    qed
  qed
qed

lemma directly_moves:
  assumes "\<And>u t r. operation u = (t, r) \<Longrightarrow> call_made (x_store x) u (failing r) t"
  shows "moved x p (fst (directly operation out p))"
proof -
  obtain t b where t: "operation (p_world p) = (t, b)" by force
  have "calls (x_store x) (p_world p) t" by (rule calls_one[OF assms[OF t]])
  then show ?thesis using t by (auto simp: directly_def moved_def known_def split: sum.split)
qed

lemma rollbacks_move: "own_queue x \<Longrightarrow> moved x p (fst (run_rollbacks x cause p))"
proof (induction x cause p rule: run_rollbacks.induct)
  case (1 x cause p)
  note turn = run_rollbacks.simps[of x cause p] and writes = directly_moves[OF made_fail] directly_moves[OF made_fail_rollback]
  show ?case
  proof (cases "nextRollback (x_host x) p")
    case (RunNext key)
    obtain a b where a: "runRollback x key p = (a, b)" by force
    have "moved x p a" using world.keeps_at[OF rollback_reports[OF "1.prems"], of p key] a by simp
    moreover have "moved x a (fst (run_rollbacks x cause p))"
    proof (cases b)
      case (Inl t)
      then show ?thesis using RunNext a by (auto simp: turn world.rel_refl intro!: writes split: option.split sum.split)
    next
      case (Inr u)
      then show ?thesis using "1.IH"[OF RunNext a[symmetric] Inr "1.prems"] RunNext a by (simp add: turn)
    qed
    ultimately show ?thesis by (rule world.rel_trans)
  qed (simp_all add: turn writes)
qed

lemma exec_on:
  assumes "accounted x s p" "exec_prog x pr p = (q, r)"
  shows "accounted x s q"
proof -
  have "own_queue x" using assms(1) by (simp add: accounted_def)
  then have "moved x p q" using world.keeps_at[OF exec_reports(1), of x p pr] assms(2) by simp
  then show ?thesis by (rule accounted_on[OF assms(1)])
qed

lemma forward_ends: "ends x (forward x pr)"
  unfolding ends_def
proof (intro allI impI)
  fix s p q r assume a: "accounted x s p" and f: "forward x pr p = (q, r)"
  obtain b v where b: "exec_prog x pr p = (b, v)" by force
  note on = exec_on[OF a b]
  show "closes (x_store x) (x_iv x) s (p_world q) r"
  proof (cases v)
    case (Inl t)
    then show ?thesis using f b ends_at[OF classify_ends on] by (simp add: forward_def)
  next
    case (Inr res)
    show ?thesis
    proof (cases "Option.bind (p_ended b) infrastructureOutcome")
      case (Some w)
      then have "q = b \<and> r = Inr w" using f b Inr by (simp add: forward_def)
      then show ?thesis using infrastructure_closes(2)[OF on Some] by simp
    next
      case None
      then show ?thesis
        using f b Inr ends_at[OF classify_ends on] ends_at[OF write_ends(1) on] by (auto simp: forward_def split: sum.splits)
    qed
  qed
qed

lemma roll_back_ends:
  assumes "accounted x s p" "rollBack x pr cause p = (q, r)"
  shows "closes (x_store x) (x_iv x) s (p_world q) r"
proof -
  obtain b v where b: "exec_prog x pr p = (b, v)" by force
  note on = exec_on[OF assms(1) b]
  show ?thesis
  proof (cases "run_rollbacks x cause b = (q, r)")
    case True
    then show ?thesis by (rule rollbacks_end[OF on])
  next
    case False
    then obtain t where t: "v = Inl t" using assms(2) b by (cases v) (simp_all add: rollBack_def)
    show ?thesis
    proof (cases "Option.bind (snapshot b t) infrastructureOutcome")
      case (Some out)
      then have "q = b \<and> r = Inr out" using assms(2) b t by (simp add: rollBack_def)
      then show ?thesis using infrastructure_closes(1)[OF on Some] by simp
    qed (use False assms(2) b t in \<open>simp add: rollBack_def\<close>)
  qed
qed
lemma roll_back_on:
  assumes "accounted x s p" "rollBack x pr cause p = (q, r)"
  shows "accounted x s q"
proof -
  obtain b v where b: "exec_prog x pr p = (b, v)" by force
  note on = exec_on[OF assms(1) b]
  have "own_queue x" using assms(1) by (simp add: accounted_def)
  then have "accounted x s (fst (run_rollbacks x cause b))" by (rule accounted_on[OF on rollbacks_move])
  moreover have "q = b \<or> q = fst (run_rollbacks x cause b)" using assms(2) b by (auto simp: rollBack_def split: sum.splits option.splits)
  ultimately show ?thesis using on by blast
qed

lemma pass_ends: "ends x (run_pass x handler)"
  unfolding ends_def
proof (intro allI impI)
  fix s p q r assume a: "accounted x s p" and f: "run_pass x handler p = (q, r)"
  show "closes (x_store x) (x_iv x) s (p_world q) r"
  proof (cases "p_cause p")
    case None
    then show ?thesis using f ends_at[OF forward_ends a] by (auto simp: run_pass_def Let_def)
  next
    case (Some cause)
    then obtain pr where pr: "(case rollBack x pr cause p of (q, Inl t) \<Rightarrow> classify x t q | (q, Inr out) \<Rightarrow> (q, Inr out)) = (q, r)"
      using f by (auto simp: run_pass_def Let_def)
    obtain b v where b: "rollBack x pr cause p = (b, v)" by force
    show ?thesis
      using pr b roll_back_ends[OF a b] ends_at[OF classify_ends roll_back_on[OF a b]] by (cases v) auto
  qed
qed

section \<open>The invocation\<close>

lemma sent_closes:
  assumes "sent operation continue s = (t, r)"
    "\<And>u v b. operation u = (v, b) \<Longrightarrow> call_made store u (failing b) v"
    "\<And>a u. operation s = (u, Inr a) \<Longrightarrow> calls store s u \<Longrightarrow> continue a u = (t, r) \<Longrightarrow> closes store iv s t r"
  shows "closes store iv s t r"
proof -
  obtain u b where u: "operation s = (u, b)" by force
  note made = assms(2)[OF u]
  show ?thesis
  proof (cases b)
    case (Inl e)
    then have "t = u \<and> r = trustedStoreOutcome e" using assms(1) u by (simp add: sent_def)
    then show ?thesis using failed_closes[OF calls_none] made Inl by (simp add: failing_def)
  next
    case (Inr a)
    then show ?thesis using assms(3)[of u a] assms(1) u calls_one[OF made] by (simp add: sent_def)
  qed
qed

lemma executes_closes:
  assumes "executes h store iv handler w u = (t, r)" "handed store iv s u w"
  shows "closes store iv s t r"
proof -
  have su: "calls store s u" using assms(2) by (auto simp: handed_def) (meson calls_follow calls_one made_activate)
  have "closes store iv u t r \<or> closes store iv s t r"
  proof (cases "w_checkpoints store (i_queue iv) (wr_task w) (wr_attempt w) u")
    case (Pair v b)
    note made = made_checkpoints[OF Pair]
    show ?thesis
    proof (cases b)
      case (Inl e)
      then have "t = v \<and> r = trustedStoreOutcome e" using assms(1) Pair by (simp add: executes_def sent_def)
      moreover have "closes store iv u v (trustedStoreOutcome e)"
        using failed_closes[OF calls_none] made Inl by (simp add: failing_def)
      ultimately show ?thesis by simp
    next
      case (Inr cps)
      let ?x = "\<lparr>x_host = h, x_store = store, x_queue = i_queue iv, x_iv = iv, x_run = w\<rparr>"
      have e: "(case replayContext h w cps v of Inl t \<Rightarrow> (v, Inl t)
          | Inr p \<Rightarrow> (case run_pass ?x handler p of (q, out) \<Rightarrow> (p_world q, out))) = (t, r)"
        using assms(1) Pair Inr by (simp add: executes_def sent_def)
      have sv: "calls store u v" by (rule calls_one[OF made])
      show ?thesis
      proof (cases "replayContext h w cps v")
        case (Inl t)
        then show ?thesis using e sv by (auto simp: closes_thrown)
      next
        case (Inr p)
        have p: "p_world p = v" "known p = {}"
          using read_kept[OF Inr[unfolded replayContext_def]] by (simp_all add: known_def blank_pass_def)
        have "handed store iv s v w" using assms(2) sv unfolding handed_def by (meson calls_follow)
        then have "accounted ?x s p" using p calls_follow[OF su sv] by (auto simp: accounted_def own_queue_def)
        then show ?thesis using ends_at[OF pass_ends, of ?x s p handler] e Inr by (auto split: prod.splits)
      qed
    qed
  qed
  then show ?thesis using closes_before[OF _ su] by blast
qed

lemma invocation_closes: "runClaimedRun h store registry iv s = (t, r) \<Longrightarrow> closes store iv s t r"
  unfolding runClaimedRun_def
proof (erule sent_closes, erule made_task_name)
  fix found u
  assume n: "w_task_name store (i_queue iv) (i_run iv) (i_token iv) (i_gen iv) s = (u, Inr found)" "calls store s u"
    and c: "(case found of None \<Rightarrow> (u, Inr WSuperseded)
      | Some name \<Rightarrow> (case registry name of
          None \<Rightarrow> sent (w_defer store (i_queue iv) (i_run iv) (i_token iv) (i_gen iv) (Finite (of_nat (15 + jitter (i_run iv)))))
            (\<lambda>_ s2. (s2, Inr WDeferred)) u
        | Some handler \<Rightarrow> sent (w_activate store (i_queue iv) (i_run iv) (i_token iv) (i_gen iv)) (\<lambda>answer s2.
            case answer of None \<Rightarrow> (s2, Inr WSuperseded)
            | Some v \<Rightarrow> (case decodeClaimedRunAnswer v of Inl field \<Rightarrow> (s2, Inr (WIncompatible field))
                | Inr w \<Rightarrow> executes h store iv handler w s2)) u)) = (t, r)"
  show "closes store iv s t r"
  proof (cases found)
    case None
    then have "last_write store iv s WSuperseded s t" "r = Inr WSuperseded" "t = u"
      using c n by (auto simp: last_write_def Let_def)
    then show ?thesis using closesI[OF calls_none n(2)] by simp
  next
    case (Some name)
    have "closes store iv u t r"
    proof (cases "registry name")
      case None
      show ?thesis
      proof (rule sent_closes[OF c[unfolded Some None option.case]], erule made_defer)
        fix a v assume "w_defer store (i_queue iv) (i_run iv) (i_token iv) (i_gen iv) (Finite (of_nat (15 + jitter (i_run iv)))) u = (v, Inr a)"
          "calls store u v" "(v, Inr WDeferred) = (t, r)"
        then show "closes store iv u t r"
          using closesI[OF calls_none, of store u t iv WDeferred] by (auto simp: last_write_def Let_def)
      qed
    next
      case (Some handler)
      show ?thesis
      proof (rule sent_closes[OF c[unfolded \<open>found = Some name\<close> Some option.case]], erule made_activate)
        fix a v assume a: "w_activate store (i_queue iv) (i_run iv) (i_token iv) (i_gen iv) u = (v, Inr a)" "calls store u v"
          and e: "(case a of None \<Rightarrow> (v, Inr WSuperseded)
            | Some w \<Rightarrow> (case decodeClaimedRunAnswer w of Inl field \<Rightarrow> (v, Inr (WIncompatible field))
                | Inr w \<Rightarrow> executes h store iv handler w v)) = (t, r)"
        note close = closesI[OF calls_none, of store u t iv]
        show "closes store iv u t r"
        proof (cases a)
          case None
          then show ?thesis using e a close[of WSuperseded] by (auto simp: last_write_def Let_def)
        next
          case (Some j)
          show ?thesis
          proof (cases "decodeClaimedRunAnswer j")
            case (Inl field)
            then show ?thesis using e a Some close[of "WIncompatible field"] by (auto simp: last_write_def Let_def)
          next
            case (Inr w)
            have "handed store iv u v w" using a Some Inr by (auto simp: handed_def)
            then show ?thesis using e Some Inr executes_closes by auto
          qed
        qed
      qed
    qed
    then show ?thesis by (rule closes_before[OF _ n(2)])
  qed
qed

lemma invocation_calls: "calls store s (fst (runClaimedRun h store registry iv s))"
  using invocation_closes[of h store registry iv s] by (metis closes_def prod.collapse)

lemma invocation_ends:
  assumes "runClaimedRun h store registry iv s = (t, Inr out)"
  shows "\<exists>u. calls store s u \<and> last_write store iv s out u t"
  using invocation_closes[OF assms] by (simp add: closes_def)

end
