(* ===== verification/Worker_World.thy ===== *)
theory Worker_World
  imports Worker_Ends
begin

text \<open>
  A worker touches the world only through the operations of its store. The locale states what a
  relation on worlds must satisfy to hold from the start of an invocation to its end: that every
  operation keeps it. Its interpretation is the store over the engine's databases, with the other
  processes of the system and the network beside the worker.
\<close>

section \<open>The interface\<close>

locale worker_world =
  fixes moves :: "'s \<Rightarrow> 's \<Rightarrow> bool" and store :: "'s worker_store"
  assumes stays: "moves s s"
    and follows: "moves s t \<Longrightarrow> moves t u \<Longrightarrow> moves s u"
    and task_name: "moves s (fst (w_task_name store queue rid token gen s))"
    and defer_launch: "moves s (fst (w_defer store queue rid token gen secs s))"
    and activates: "moves s (fst (w_activate store queue rid token gen s))"
    and beats: "moves s (fst (w_beat store queue rid token lease s))"
    and checkpoints: "moves s (fst (w_checkpoints store queue task attempt s))"
    and checkpoint: "moves s (fst (w_checkpoint store queue task rid token name state lease s))"
    and awaits: "moves s (fst (w_await store queue task rid token key name timeout s))"
    and awaits_task: "moves s (fst (w_await_task store queue task rid token key child timeout s))"
    and spawns: "moves s (fst (w_spawn store queue name params opts s))"
    and emits: "moves s (fst (w_emit store queue name payload s))"
    and suspends: "moves s (fst (w_suspend store queue rid token wake key state s))"
    and completes: "moves s (fst (w_complete store queue rid token res s))"
    and fails: "moves s (fst (w_fail store queue rid token reason retry s))"
    and fails_rollback: "moves s (fst (w_fail_rollback store queue rid token reason retry failed s))"

text \<open>So every call keeps it, and a whole invocation.\<close>

context worker_world
begin

lemma calls_move: "calls store s t \<Longrightarrow> moves s t"
proof -
  have one: "moves u v" if "call_made store u e v" for u e v
    using that
    by cases (metis fst_conv task_name defer_launch activates beats checkpoints checkpoint awaits awaits_task spawns emits
        suspends completes fails fails_rollback)+
  show "moves s t" if "calls store s t"
    using that unfolding calls_def by induction (use stays one follows in blast)+
qed

lemma invocation_moves: "moves s (fst (runClaimedRun h store registry iv s))"
  by (rule calls_move[OF invocation_calls])

lemma invocation_ends_moving:
  assumes "runClaimedRun h store registry iv s = (t, Inr out)"
  shows "\<exists>u. moves s u \<and> last_write store iv s out u t"
  using invocation_ends[OF assms] calls_move by blast

end

section \<open>The store over the engine\<close>

text \<open>What surrounds a worker: the identifiers it draws, the database's clock, the batches other
  processes run before a call of its and between the batches of one, when its heartbeat is due,
  and what the network makes of a call. A call whose answer is lost has been made.\<close>

datatype link = Works | Unreachable | AnswerLost | Refused

record surroundings =
  v_seed :: "nat \<Rightarrow> nat \<Rightarrow> db \<Rightarrow> string"
  v_id :: "nat \<Rightarrow> nat \<Rightarrow> string"
  v_clock :: "nat \<Rightarrow> nat \<Rightarrow> instant"
  v_others :: "nat \<Rightarrow> nat \<Rightarrow> db \<Rightarrow> db"
  v_link :: "nat \<Rightarrow> link"
  v_due :: "nat \<Rightarrow> bool"
  v_memo :: memo
  v_encode :: "int \<times> string \<Rightarrow> string"
  v_decode :: "string \<Rightarrow> (int \<times> string) option"

type_synonym world = "nat \<times> db"

definition reaching :: "surroundings \<Rightarrow> (nat \<Rightarrow> db \<Rightarrow> 'a reply) \<Rightarrow> ('a \<Rightarrow> 'b) \<Rightarrow> (world, 'b) op" where
  "reaching v operation out = (\<lambda>(n, db).
     let d = v_others v n 0 db in
     case v_link v n of
       Unreachable \<Rightarrow> ((n + 1, d), Inl Unavailable)
     | Refused \<Rightarrow> ((n + 1, d), Inl Permanent)
     | AnswerLost \<Rightarrow> ((n + 1, fst (operation n d)), Inl Unavailable)
     | Works \<Rightarrow> (case operation n d of (d', r) \<Rightarrow> ((n + 1, d'), map_sum Raised out r)))"

definition payload_of :: "await_answer \<Rightarrow> string option" where
  "payload_of a = (case a of Parked \<Rightarrow> None | Emitted c \<Rightarrow> Some (case c of Text p \<Rightarrow> p | _ \<Rightarrow> []))"

definition engine_store :: "surroundings \<Rightarrow> world worker_store" where
  "engine_store v =
     \<lparr>w_task_name = (\<lambda>queue rid token gen. reaching v (\<lambda>n d. (d, claimedTaskName queue rid token gen d)) id),
      w_defer = (\<lambda>queue rid token gen secs.
        reaching v (\<lambda>n d. deferLaunch (v_seed v n 0 d) (v_clock v n 0) queue rid token gen secs d) id),
      w_activate = (\<lambda>queue rid token gen.
        reaching v (\<lambda>n d. activate (v_seed v n 0 d) (v_clock v n 0) queue rid token gen d) (map_option answer_value)),
      w_beat = (\<lambda>queue rid token lease (n, db).
        if v_due v n then
          (case reaching v (\<lambda>n d. heartbeat (v_seed v n 0 d) (v_clock v n 0) queue rid token lease d) id (n, db) of
             (s, r) \<Rightarrow> (s, Some r))
        else ((n + 1, db), None)),
      w_checkpoints = (\<lambda>queue task attempt.
        reaching v (\<lambda>n d. (d, Inr (getCheckpoints queue task attempt d))) (map (\<lambda>c. (c_name c, c_state c)))),
      w_checkpoint = (\<lambda>queue task rid token name state lease.
        reaching v (\<lambda>n d. setCheckpoint (v_seed v n 0 d) (v_clock v n 0) queue task rid token name state lease d) id),
      w_await = (\<lambda>queue task rid token key name timeout.
        reaching v (\<lambda>n d. awaitEvent (v_seed v n 0 d) (v_clock v n 0) queue task rid token key name timeout d) payload_of),
      w_await_task = (\<lambda>queue task rid token key child timeout.
        reaching v (\<lambda>n d. awaitTaskDone (v_seed v n) (v_clock v n) (\<lambda>i. v_others v n (i + 1))
            queue task rid token key child timeout d) payload_of),
      w_spawn = (\<lambda>queue name params opts.
        reaching v (\<lambda>n d. spawn (v_seed v n 0) (v_clock v n) (v_others v n 1) (v_id v n 0) (v_id v n 1)
            queue name params opts d) id),
      w_emit = (\<lambda>queue name payload.
        reaching v (\<lambda>n d. emitEvent (v_seed v n 0 d) (v_clock v n 0) queue name payload d) id),
      w_suspend = (\<lambda>queue rid token wake key state.
        reaching v (\<lambda>n d. suspendRun (v_seed v n 0 d) (v_clock v n 0) queue rid token wake key state d) id),
      w_complete = (\<lambda>queue rid token res.
        reaching v (\<lambda>n d. complete (v_seed v n 0 d) (v_clock v n 0) (v_memo v) queue rid token res d) id),
      w_fail = (\<lambda>queue rid token reason retry.
        reaching v (\<lambda>n d. fail (v_seed v n 0 d) (v_id v n 0) (v_clock v n 0) (v_memo v) queue rid token reason retry d) id),
      w_fail_rollback = (\<lambda>queue rid token reason retry failed.
        reaching v (\<lambda>n d. failRollback (v_encode v) (v_decode v) (v_seed v n 0 d) (v_id v n 0) (v_clock v n 0) (v_memo v)
            queue rid token reason retry failed d) id)\<rparr>"

text \<open>Stamps are never drawn twice, the clock is one the store takes, and the others run the engine's
  transactions.\<close>

definition surrounds :: "surroundings \<Rightarrow> bool" where
  "surrounds v =
     ((\<forall>n i d. fresh (v_seed v n i d) d) \<and> (\<forall>n i. valid_clock (v_clock v n i)) \<and>
      (\<forall>n i d. leads_to d (v_others v n i d)) \<and> (\<forall>n i. stamps_tell (v_others v n i)))"

definition engine_moves :: "surroundings \<Rightarrow> world \<Rightarrow> world \<Rightarrow> bool" where
  "engine_moves v s t =
     (surrounds v \<and> reachable (snd s) \<and> memo_ok (v_memo v) (snd s) \<longrightarrow> leads_to (snd s) (snd t))"

lemma engine_follows: "engine_moves v s t \<Longrightarrow> engine_moves v t u \<Longrightarrow> engine_moves v s u"
  unfolding engine_moves_def by (meson memo_stable reachable_leads rtranclp_trans)

lemma reaching_moves:
  assumes "\<And>n d. surrounds v \<Longrightarrow> reachable d \<Longrightarrow> memo_ok (v_memo v) d \<Longrightarrow> leads_to d (fst (operation n d))"
  shows "engine_moves v s (fst (reaching v operation out s))"
  unfolding engine_moves_def
proof
  assume h: "surrounds v \<and> reachable (snd s) \<and> memo_ok (v_memo v) (snd s)"
  obtain n db where s: "s = (n, db)" by (cases s)
  let ?d = "v_others v n 0 db"
  have d: "leads_to db ?d" using h by (simp add: surrounds_def)
  then have "reachable ?d" "memo_ok (v_memo v) ?d" using h s reachable_leads memo_stable by auto
  then have "leads_to ?d (fst (operation n ?d))" using assms h by blast
  then have e: "leads_to db (fst (operation n ?d))" using d by (meson rtranclp_trans)
  show "leads_to (snd s) (snd (fst (reaching v operation out s)))"
    using s d e by (cases "v_link v n") (auto simp: reaching_def Let_def split: prod.split)
qed

interpretation served: worker_world "engine_moves v" "engine_store v" for v
proof
  note surrounds_def [simp] and store = engine_store_def
  show "engine_moves v s s" for s by (simp add: engine_moves_def)
  show "engine_moves v s t \<Longrightarrow> engine_moves v t u \<Longrightarrow> engine_moves v s u" for s t u by (rule engine_follows)
  show "engine_moves v s (fst (w_task_name (engine_store v) queue rid token gen s))" for s queue rid token gen
    unfolding store by simp (rule reaching_moves, simp)
  show "engine_moves v s (fst (w_defer (engine_store v) queue rid token gen secs s))" for s queue rid token gen secs
    unfolding store by simp (rule reaching_moves, simp add: park_calls)
  show "engine_moves v s (fst (w_activate (engine_store v) queue rid token gen s))" for s queue rid token gen
    unfolding store by simp (rule reaching_moves, simp add: lease_calls)
  show "engine_moves v s (fst (w_beat (engine_store v) queue rid token lease s))" for s queue rid token lease
  proof -
    have "engine_moves v s (fst (reaching v (\<lambda>n d. heartbeat (v_seed v n 0 d) (v_clock v n 0) queue rid token lease d) id s))"
      by (rule reaching_moves) (simp add: lease_calls)
    then show ?thesis unfolding store by (cases s) (auto simp: engine_moves_def split: prod.splits)
  qed
  show "engine_moves v s (fst (w_checkpoints (engine_store v) queue task attempt s))" for s queue task attempt
    unfolding store by simp (rule reaching_moves, simp)
  show "engine_moves v s (fst (w_checkpoint (engine_store v) queue task rid token name state lease s))"
    for s queue task rid token name state lease
    unfolding store by simp (rule reaching_moves, simp add: lease_calls)
  show "engine_moves v s (fst (w_await (engine_store v) queue task rid token key name timeout s))"
    for s queue task rid token key name timeout
    unfolding store by simp (rule reaching_moves, simp add: event_calls)
  show "engine_moves v s (fst (w_await_task (engine_store v) queue task rid token key child timeout s))"
    for s queue task rid token key child timeout
    unfolding store by simp (rule reaching_moves, simp add: await_child_leads)
  show "engine_moves v s (fst (w_spawn (engine_store v) queue name params opts s))" for s queue name params opts
    unfolding store by simp (rule reaching_moves, simp add: spawn_leads)
  show "engine_moves v s (fst (w_emit (engine_store v) queue name payload s))" for s queue name payload
    unfolding store by simp (rule reaching_moves, simp add: event_calls)
  show "engine_moves v s (fst (w_suspend (engine_store v) queue rid token wake key state s))" for s queue rid token wake key state
    unfolding store by simp (rule reaching_moves, simp add: park_calls)
  show "engine_moves v s (fst (w_complete (engine_store v) queue rid token res s))" for s queue rid token res
    unfolding store by simp (rule reaching_moves, simp add: ending_calls reachable_inv)
  show "engine_moves v s (fst (w_fail (engine_store v) queue rid token reason retry s))" for s queue rid token reason retry
    unfolding store by simp (rule reaching_moves, simp add: ending_calls reachable_inv)
  show "engine_moves v s (fst (w_fail_rollback (engine_store v) queue rid token reason retry failed s))"
    for s queue rid token reason retry failed
    unfolding store by simp (rule reaching_moves, simp add: ending_calls reachable_inv)
qed

text \<open>A whole invocation.\<close>

lemma worker_leads:
  assumes "surrounds v" "reachable (snd s)" "memo_ok (v_memo v) (snd s)"
  shows "leads_to (snd s) (snd (fst (runClaimedRun h (engine_store v) registry iv s)))"
  using served.invocation_moves[of v s h registry iv] assms by (simp add: engine_moves_def)

end
