(* ===== verification/Inline_Worker.thy ===== *)
theory Inline_Worker
  imports Worker_World Tick
begin

text \<open>
  The system in one process: a driver whose launcher runs the worker of each claim to its end, over
  the same database. What the tick asks of a launcher the worker's invocation gives.
\<close>

text \<open>What the launcher reports of the worker's outcome. A pass that may be followed by another has not
  ended its task.\<close>

definition INLINE_ENDING_KINDS :: "worker_outcome \<Rightarrow> string" where
  "INLINE_ENDING_KINDS out =
     (case out of
        WCompleted \<Rightarrow> ''completed''
      | WSuspended \<Rightarrow> ''unknown''
      | WRetryScheduled \<Rightarrow> ''unknown''
      | WFailed \<Rightarrow> ''failed''
      | WRollingBack \<Rightarrow> ''unknown''
      | WRolledBack \<Rightarrow> ''failed''
      | WRollbackFailed \<Rightarrow> ''failed''
      | WSuperseded \<Rightarrow> ''unknown''
      | WLeaseLost \<Rightarrow> ''crashed''
      | WCancelled \<Rightarrow> ''unknown''
      | WAborted \<Rightarrow> ''crashed''
      | WDeferred \<Rightarrow> ''unknown''
      | WIncompatible field \<Rightarrow> ''crashed'')"

text \<open>A launch that throws reports nothing.\<close>

definition inlineLauncher ::
  "surroundings \<Rightarrow> host \<Rightarrow> (string \<Rightarrow> handler option) \<Rightarrow> string \<Rightarrow> claimed_run \<Rightarrow> db \<Rightarrow> db \<times> launch_payload option" where
  "inlineLauncher v h registry queue c d =
     (let iv = \<lparr>i_queue = queue, i_run = cr_run c, i_token = cr_token c, i_gen = cr_claim_gen c\<rparr> in
      case runClaimedRun h (engine_store v) registry iv (0, d) of
        (s, Inl t) \<Rightarrow> (snd s, None)
      | (s, Inr out) \<Rightarrow>
          (snd s, Some (ended_outcome_of (JsObject
             [(''runId'', JsString (i_run iv)), (''claimToken'', JsString (i_token iv)), (''kind'', JsString (INLINE_ENDING_KINDS out))]))))"

text \<open>The tick of one inline slot. The outcome it hands its observer beside the result is left out.\<close>

definition inlineTick ::
  "db scheduler_store \<Rightarrow> surroundings \<Rightarrow> host \<Rightarrow> (string \<Rightarrow> handler option) \<Rightarrow> string \<Rightarrow> string \<Rightarrow> tick_options \<Rightarrow>
   db \<Rightarrow> db \<times> (exn + tick_result)" where
  "inlineTick store v h registry queue token opts =
     tick store (inlineLauncher v h registry queue) [] token (opts\<lparr>o_claim_limit := Finite 1\<rparr>)"

text \<open>A worker of the same process that remembers no run: it reads the task of the run it ends.\<close>

lemma inline_leads:
  assumes "surrounds v" "v_memo v = []" "reachable d"
  shows "leads_to d (fst (inlineLauncher v h registry queue c d))"
proof -
  let ?iv = "\<lparr>i_queue = queue, i_run = cr_run c, i_token = cr_token c, i_gen = cr_claim_gen c\<rparr>"
  obtain s r where s: "runClaimedRun h (engine_store v) registry ?iv (0, d) = (s, r)" using prod.exhaust by blast
  have "leads_to d (snd s)" using worker_leads[of v "(0, d)" h registry ?iv] assms s by (simp add: memo_ok_def)
  then show ?thesis using s by (cases r) (simp_all add: inlineLauncher_def Let_def)
qed

lemma inline_scheduler:
  assumes "\<And>d. fresh (draw d) d" "\<And>i. valid_clock (clock i)" "\<And>i d. leads_to d (between i d)"
    "\<And>i d. leads_to d (others i d)" "surrounds v" "v_memo v = []"
  shows "scheduler (libsql_store draw newId clock others between short queue) (inlineLauncher v h registry queue) reachable leads_to"
  by (rule libsql_scheduler) (use assms inline_leads in auto)

text \<open>Drawn from one source, alone on the database, with any network and any heartbeat.\<close>

definition alone :: "surroundings \<Rightarrow> surroundings" where
  "alone v = v\<lparr>v_seed := (\<lambda>_ _. draw_seed), v_clock := (\<lambda>n i. in_range (v_clock v n i)), v_others := (\<lambda>_ _ d. d), v_memo := []\<rparr>"

lemma alone_surrounds: "surrounds (alone v)" "v_memo (alone v) = []"
  using draw_seed_fresh in_range_valid stamps_tell_idle by (simp_all add: surrounds_def alone_def id_def)

interpretation inline: scheduler
  "libsql_store draw_seed newId (\<lambda>i. in_range (clock i)) (\<lambda>i d. d) (\<lambda>i d. d) short queue"
  "inlineLauncher (alone v) h registry queue" reachable leads_to
  for newId clock short v h registry queue
  by (rule inline_scheduler) (simp_all add: draw_seed_fresh in_range_valid alone_surrounds)

end
