(* ===== verification/Retained.thy ===== *)
theory Retained
  imports Unit_Facts
begin

text \<open>
  What is true of a unit until it is purged. A transaction never takes back what \<open>extends\<close> keeps, and a
  purge of one task leaves every other unit as it was, so a fact about one task that both respect holds in
  every database that transactions and purges of other tasks lead to.
\<close>

definition purges :: "string \<Rightarrow> db \<Rightarrow> db \<Rightarrow> bool" where
  "purges task db db' =
     (\<exists>seed now queue key parent ws res. fresh seed db \<and> spawningParent key = Known parent \<and>
        run_batch (purge_batch seed now queue task key parent ws) db = (db', Inr res) \<and> won res = Some ''purge'')"

text \<open>Any step but a purge of the task.\<close>

definition spares :: "string \<Rightarrow> db \<Rightarrow> db \<Rightarrow> bool" where
  "spares task db db' = (store_step db db' \<and> \<not> purges task db db')"

lemma spares_steps: "(spares task)\<^sup>*\<^sup>* db db' \<Longrightarrow> store_step\<^sup>*\<^sup>* db db'"
  by (rule rtranclp_mono[THEN predicate2D, rotated]) (auto simp: spares_def)

text \<open>A purge removes the whole unit of the task it names, or nothing.\<close>

lemma purges_unit:
  assumes "inv d" "purges task d d'"
  obtains t queue where "t \<in> set (tasks d)" "t_id t = task" "t_queue t = queue" "d' = unit_gone queue task d"
proof -
  obtain seed now queue key parent ws res where p: "fresh seed d"
      "run_batch (purge_batch seed now queue task key parent ws) d = (d', Inr res)" "won res = Some ''purge''"
    using assms(2) by (auto simp: purges_def)
  from purge_batch_cases[OF inv_keys[OF assms(1)] p(1,2)] p(3)
  obtain t where "t \<in> set (tasks d)" "purge_admits now queue task key parent ws d t" "d' = unit_gone queue task d"
    by (metis Inr_inject option.distinct(1))
  then show thesis using that by (auto simp: purge_admits_def)
qed

text \<open>A transaction is no purge.\<close>

lemma txn_spares:
  assumes "inv d" "txn d d'"
  shows "spares task d d'"
proof -
  have "\<not> purges task d d'"
  proof
    assume "purges task d d'"
    then obtain t queue where t: "t \<in> set (tasks d)" "t_id t = task" "d' = unit_gone queue task d"
      by (rule purges_unit[OF assms(1)])
    obtain u where "u \<in> set (tasks d')" "task_ident u = task_ident t" by (rule extends_tasks[OF txn_extends[OF assms(2)] t(1)])
    then show False using t by (auto simp: delete_where_def task_ident_def)
  qed
  then show ?thesis using assms(2) by (auto simp: spares_def intro: store_step.transaction)
qed

lemma leads_spares: "leads_to db db' \<Longrightarrow> inv db \<Longrightarrow> (spares task)\<^sup>*\<^sup>* db db'"
  by (induction rule: rtranclp_induct) (auto intro: rtranclp.rtrancl_into_rtrancl txn_spares engine.steps_good)

locale unit_fact =
  fixes task :: string and known :: "db \<Rightarrow> bool"
  assumes grown_known: "extends d d' \<Longrightarrow> known d \<Longrightarrow> known d'"
    and spared: "other \<noteq> task \<Longrightarrow> known d \<Longrightarrow> known (unit_gone queue other d)"
begin

lemma step_known:
  assumes "inv d" "spares task d d'" "known d"
  shows "known d'"
proof -
  have "store_step d d'" "\<not> purges task d d'" using assms(2) by (simp_all add: spares_def)
  then show ?thesis
  proof cases
    case transaction
    then show ?thesis using grown_known[OF txn_extends assms(3)] by blast
  next
    case (purge seed key parent now queue other ws ans)
    from purge_batch_cases[OF inv_keys[OF assms(1)] purge(1,3)]
    consider "d' = d" | res where "ans = Inr res" "won res = Some ''purge''" "d' = unit_gone queue other d" by metis
    then show ?thesis
    proof cases
      case 2
      then have "other \<noteq> task" using purge \<open>\<not> purges task d d'\<close> by (auto simp: purges_def)
      then show ?thesis using spared[OF _ assms(3)] 2(3) by simp
    qed (use assms(3) in simp)
  qed
qed

lemma kept:
  assumes "reachable db" "(spares task)\<^sup>*\<^sup>* db db'" "known db"
  shows "known db'"
  using assms(2)
proof (induction rule: rtranclp_induct)
  case (step d d')
  have "inv d" using reachable_inv rtranclp_trans[OF assms(1) spares_steps[OF step(1)]] by blast
  then show ?case using step_known step by blast
qed (use assms(3) in simp)

end

text \<open>A task that completed or was cancelled keeps its row, and a task its id, queue and key.\<close>

interpretation settled_row: unit_fact "t_id t" "\<lambda>d. settled t \<and> t \<in> set (tasks d)" for t
  by unfold_locales (auto simp: extends_def delete_where_def)

interpretation named_task: unit_fact "t_id t" "\<lambda>d. \<exists>u\<in>set (tasks d). task_ident u = task_ident t" for t
proof
  fix d d'
  assume "extends d d'" "\<exists>u\<in>set (tasks d). task_ident u = task_ident t"
  then show "\<exists>u\<in>set (tasks d'). task_ident u = task_ident t" by (metis extends_tasks)
qed (auto simp: delete_where_def task_ident_def)

text \<open>So a key's second spawn finds the task of its first, as long as that task is not purged.\<close>

lemma spawn_once_kept:
  assumes "reachable db1'" "keys_ok db1" "spawnOnce seed now task rid rq db1 = (db1', Inr (Some a))" "sr_created a" "sp_key rq \<noteq> None"
    "(spares (sr_task a))\<^sup>*\<^sup>* db1' db2" "fresh seed2 db2" "sp_queue rq2 = sp_queue rq" "sp_key rq2 = sp_key rq"
    "spawnOnce seed2 now2 task2 rid2 rq2 db2 = (db2', Inr ans)"
  shows "db2' = db2 \<and> (\<exists>a2. ans = Some a2 \<and> sr_task a2 = sr_task a \<and> \<not> sr_created a2)"
proof -
  note c = spawn_created[OF assms(3,4,2)]
  let ?t = "spawned_task seed now task rq"
  have id: "t_id ?t = sr_task a" using c(1) by (simp add: spawned_task_def)
  have "\<exists>u\<in>set (tasks db1'). task_ident u = task_ident ?t" using c(2) by blast
  then obtain u where u: "u \<in> set (tasks db2)" "task_ident u = task_ident ?t"
    using named_task.kept[OF assms(1) assms(6)[folded id]] by blast
  have f: "t_id u = sr_task a" "t_queue u = sp_queue rq2" "t_idem u = sp_key rq2"
    using u(2) id assms(8,9) by (simp_all add: task_ident_def spawned_task_def)
  have "inv db2" using reachable_inv rtranclp_trans[OF assms(1) spares_steps[OF assms(6)]] by blast
  from spawn_key_held[OF this assms(7) u(1) f(2,3) _ assms(10)] show ?thesis using assms(5,9) f(1) by simp
qed

text \<open>A task that completed answers the same result.\<close>

definition answers_completed :: "string \<Rightarrow> string \<Rightarrow> string \<Rightarrow> db \<Rightarrow> bool" where
  "answers_completed queue task res db =
     (\<exists>rollback. getTaskResult queue task db =
        Inr (Some (\<lparr>o_state = Completed, o_completed = Some res, o_failure = None\<rparr>, rollback)))"

lemma completed_kept:
  assumes "reachable db" "t \<in> set (tasks db)" "t_state t = Completed" "t_completed t = Some res" "(spares (t_id t))\<^sup>*\<^sup>* db db'"
  shows "answers_completed (t_queue t) (t_id t) res db'"
proof -
  have "inv db'" using reachable_inv rtranclp_trans[OF assms(1) spares_steps[OF assms(5)]] by blast
  moreover have "t \<in> set (tasks db')" using settled_row.kept[OF assms(1,5)] assms(2,3) by (simp add: settled_def)
  ultimately show ?thesis using completed_result[OF _ _ assms(3)] assms(4) by (simp add: answers_completed_def)
qed

end
