(* ===== verification/Worker_Results.thy ===== *)
theory Worker_Results
  imports Inline_Worker Retained
begin

text \<open>
  What a worker's outcome means for its task. A worker that answers \<open>completed\<close> has completed the run of
  its claim, and the result its task function ended with is the task's result from then on.
\<close>

lemma completed_stays:
  assumes "reachable db" "memo_ok m db" "fresh seed db" "valid_clock now"
    "complete seed now m queue rid token res db = (db', Inr ())"
  shows "\<exists>task. knows_run rid task db \<and> (\<forall>db''. (spares task)\<^sup>*\<^sup>* db' db'' \<longrightarrow> answers_completed queue task res db'')"
proof -
  note i = reachable_inv[OF assms(1)]
  obtain r t where r: "r \<in> set (runs db)" "whereClaimedRun rid queue token r"
    and t: "t \<in> set (tasks db')" "t_id t = r_task r" "t_queue t = queue" "t_state t = Completed" "t_completed t = Some res"
    by (rule complete_settles[OF i assms(3,4,2,5)])
  have "call m db db'" using call_complete[OF assms(3,4), of m queue rid token res] assms(5) by simp
  then have "reachable db'" using call_leads[OF _ i assms(2)] reachable_leads[OF assms(1)] by blast
  then have "\<forall>db''. (spares (r_task r))\<^sup>*\<^sup>* db' db'' \<longrightarrow> answers_completed queue (r_task r) res db''"
    using completed_kept t by metis
  moreover have "knows_run rid (r_task r) db" using r by (auto simp: knows_run_def whereClaimedRun_def)
  ultimately show ?thesis by blast
qed

text \<open>A call that was answered was made on what the others left, and its answer is the operation's.\<close>

lemma reached:
  assumes "reaching v operation out s = (t, Inr b)"
  obtains a where "operation (fst s) (v_others v (fst s) 0 (snd s)) = (snd t, Inr a)" "b = out a"
proof -
  obtain n db where s: "s = (n, db)" by (cases s)
  have w: "v_link v n = Works" using assms s by (cases "v_link v n") (auto simp: reaching_def Let_def)
  obtain d r where d: "operation n (v_others v n 0 db) = (d, r)" by force
  then have "snd t = d \<and> map_sum Raised out r = Inr b" using assms s w by (auto simp: reaching_def Let_def)
  then show thesis using that d s by (cases r) auto
qed

lemma worker_completes:
  assumes "surrounds v" "reachable (snd s)" "memo_ok (v_memo v) (snd s)"
    "runClaimedRun h (engine_store v) registry iv s = (t, Inr WCompleted)"
  shows "\<exists>task res. knows_run (i_run iv) task (snd t) \<and>
    (\<forall>db. (spares task)\<^sup>*\<^sup>* (snd t) db \<longrightarrow> answers_completed (i_queue iv) task res db)"
proof -
  obtain u res where u: "engine_moves v s u" "w_complete (engine_store v) (i_queue iv) (i_run iv) (i_token iv) res u = (t, Inr ())"
    using served.invocation_ends_moving[OF assms(4)] by (auto simp: last_write_def Let_def)
  let ?n = "fst u" and ?d = "v_others v (fst u) 0 (snd u)"
  have "leads_to (snd s) (snd u)" using u(1) assms(1-3) by (simp add: engine_moves_def)
  moreover have "leads_to (snd u) ?d" using assms(1) by (simp add: surrounds_def)
  ultimately have l: "leads_to (snd s) ?d" by (rule rtranclp_trans)
  have c: "complete (v_seed v ?n 0 ?d) (v_clock v ?n 0) (v_memo v) (i_queue iv) (i_run iv) (i_token iv) res ?d = (snd t, Inr ())"
    using u(2) by (auto simp: engine_store_def elim: reached)
  have ok: "fresh (v_seed v ?n 0 ?d) ?d" "valid_clock (v_clock v ?n 0)" using assms(1) by (simp_all add: surrounds_def)
  note before = reachable_leads[OF assms(2) l] memo_stable[OF l assms(3)]
  have "leads_to ?d (snd t)" using ending_calls(1)[OF reachable_inv[OF before(1)] before(2) ok] c by (metis fst_conv)
  then show ?thesis using completed_stays[OF before ok c] knows_stable by blast
qed

end
