(* ===== verification/Memos.thy ===== *)
theory Memos
  imports Pass_Rules
begin

text \<open>
  What a pass writes down. A call that commits writes the memo of its key once, where there was none;
  an await resolves from its memo, one it found or one it wrote. Only a step's start marker may be
  written over, and no call answers from it.
\<close>

section \<open>What a pass commits\<close>

lemma commit_cases:
  assumes "commitCheckpoint x key label raw p = (q, r)"
  obtains (refused) t where "r = Inl t" "p_seen q = p_seen p" "p_uses q = p_uses p" "p_in_step q = p_in_step p"
  | (committed) state v where "r = Inr v" "p_seen q = (p_seen p)(key \<mapsto> v)" "p_uses q = p_uses p" "p_in_step q = p_in_step p"
      "serializeTaskValue (x_host x) label raw = Inr state" "parseTaskValueJson (x_host x) state = Inr v"
proof -
  let ?send = "\<lambda>state. storeCall (w_checkpoint (x_store x) (x_queue x) (wr_task (x_run x)) (wr_run (x_run x))
      (wr_token (x_run x)) key state (Finite (wr_lease (x_run x)))) p"
  note d = commitCheckpoint_def and_then_def checked_def modify_def give_def
  show thesis
  proof (cases "serializeTaskValue (x_host x) label raw")
    case (Inl t)
    then have "q = p \<and> r = Inl t" using assms by (auto simp: d)
    then show thesis using refused by blast
  next
    case s: (Inr state)
    show thesis
    proof (cases "parseTaskValueJson (x_host x) state")
      case (Inl t)
      then have "q = p \<and> r = Inl t" using assms s by (simp add: d)
      then show thesis using refused by blast
    next
      case v: (Inr v)
      obtain p1 r1 where c: "?send state = (p1, r1)" by force
      have m: "memo_of p1 = memo_of p" "p_in_step p1 = p_in_step p"
        using memo_kept[OF store_call_memo] call_in_step c by (metis fst_conv)+
      show thesis
      proof (cases r1)
        case (Inl t)
        then have "q = p1 \<and> r = Inl t" using assms s v c by (simp add: d)
        then show thesis using refused m by (simp add: memo_of_def)
      next
        case (Inr u)
        then have "q = p1\<lparr>p_seen := (p_seen p1)(key \<mapsto> v)\<rparr> \<and> r = Inr v" using assms s v c by (simp add: d)
        then show thesis using committed m s v by (simp add: memo_of_def)
      qed
    qed
  qed
qed

text \<open>What the guard of a durable call leaves alone.\<close>

lemma enter_memo:
  assumes "enterDurableOp x what p = (q, r)"
  shows "memo_of q = memo_of p" "saga_of q = saga_of p" "p_in_step q = p_in_step p" "p_in_step p \<Longrightarrow> \<exists>t. r = Inl t"
proof -
  obtain p1 r1 where l: "assertLeaseHeld x p = (p1, r1)" by force
  have p1: "memo_of p1 = memo_of p" "saga_of p1 = saga_of p" "p_in_step p1 = p_in_step p"
    using memo_kept[OF lease_memo] saga_kept[OF lease_still] lease_in_step l by (metis fst_conv)+
  moreover have "q = p1"
    using assms l by (auto simp: enterDurableOp_def and_then_def reading_def throw_def give_def split: sum.splits if_splits)
  ultimately show "memo_of q = memo_of p" "saga_of q = saga_of p" "p_in_step q = p_in_step p" by simp_all
  show "\<exists>t. r = Inl t" if "p_in_step p" using enter_refused[OF that, of x what] assms by auto
qed

lemma name_memo:
  assumes "storageName raw what room p = (q, r)"
  shows "p_seen q = p_seen p" "p_in_step q = p_in_step p" "saga_of q = saga_of p"
    "p_uses q = (p_uses p)(raw := p_uses p raw + 1)"
    "r = Inr key \<Longrightarrow> key = (if p_uses p raw + 1 = 1 then raw else raw @ ''#'' @ decimal (p_uses p raw + 1))"
  using assms by (auto simp: storageName_def Let_def saga_of_def map_sum_Inr split: if_splits)

section \<open>Memos are written once\<close>

text \<open>A memo an await can resolve from, and \<open>JSON\<close> on the two an await writes.\<close>

definition resolves :: "json \<Rightarrow> bool" where
  "resolves memo =
     (memo \<noteq> JNull \<and> (member ''timedOut'' memo = Some (JBool True) \<or> member ''payloadJson'' memo \<noteq> None))"

definition readable :: "'s pass \<Rightarrow> bool" where
  "readable p = (\<forall>k memo. prefix ''$await'' k \<and> p_seen p k = Some memo \<longrightarrow> resolves memo)"

definition memo_round_trips :: "host \<Rightarrow> bool" where
  "memo_round_trips h =
     ((\<forall>s. h_parse h (h_stringify h (JObject [(''payloadJson'', JText s)])) = Some (JObject [(''payloadJson'', JText s)])) \<and>
      h_parse h (h_stringify h (JObject [(''timedOut'', JBool True)])) = Some (JObject [(''timedOut'', JBool True)]))"

text \<open>From one pass to a later moment of it: only unseen keys were written, but for start markers.\<close>

definition writes_once :: "'s pass \<Rightarrow> 's pass \<Rightarrow> bool" where
  "writes_once p q =
     (readable p \<and> \<not> p_in_step p \<longrightarrow>
        readable q \<and> \<not> p_in_step q \<and>
        (\<forall>k v. p_seen p k = Some v \<and> \<not> prefix SAGA_STARTED_PREFIX k \<longrightarrow> p_seen q k = Some v))"

interpretation written: pass_relation writes_once
  by unfold_locales (auto simp: writes_once_def)

lemma same_writes_once:
  "p_seen q = p_seen p \<Longrightarrow> p_in_step q = p_in_step p \<Longrightarrow> writes_once p q"
  by (simp add: writes_once_def readable_def)

lemma new_writes_once:
  assumes "p_seen q = (p_seen p)(key \<mapsto> v)" "p_in_step q = p_in_step p"
    "p_seen p key = None" "prefix ''$await'' key \<longrightarrow> resolves v"
  shows "writes_once p q"
  using assms by (auto simp: writes_once_def readable_def)

lemma marker_writes_once:
  assumes "p_seen q = (p_seen p)(SAGA_STARTED_PREFIX @ key \<mapsto> v)" "p_in_step q = p_in_step p"
  shows "writes_once p q"
  using assms by (auto simp: writes_once_def readable_def SAGA_STARTED_PREFIX_def)

text \<open>The parts of a pass that write nothing.\<close>

lemma written_still: "memo_of (fst (m p)) = memo_of p \<Longrightarrow> p_in_step (fst (m p)) = p_in_step p \<Longrightarrow> writes_once p (fst (m p))"
  by (rule same_writes_once) (simp_all add: memo_of_def)

lemma written_enter: "written.keeps (enterDurableOp x what)"
  unfolding written.keeps_def using enter_memo by (metis prod.collapse written_still)

lemma written_name: "written.keeps (storageName raw what room)"
  unfolding written.keeps_def using name_memo by (metis prod.collapse same_writes_once)

lemma written_lease: "written.keeps (assertLeaseHeld x)"
  unfolding written.keeps_def by (intro allI written_still memo_kept[OF lease_memo] lease_in_step)

lemma written_call: "written.keeps (storeCall operation)"
  unfolding written.keeps_def by (intro allI written_still memo_kept[OF store_call_memo] call_in_step)

lemma written_small:
  "written.keeps (enroll c)" "written.keeps (register key reg out)" "written.keeps refuseForwardProgress"
  "written.keeps (takeWake key)" "written.keeps (modify (\<lambda>q. q\<lparr>p_cut := y\<rparr>))"
  by (auto simp: written.keeps_def act_defs register_def refuseForwardProgress_def takeWake_def
      intro!: same_writes_once split: option.splits)

section \<open>Each call\<close>

text \<open>The body of a step runs behind the guard, so around it only the step's marker is written.\<close>

lemma marker_cases:
  assumes "and_then (markStarted x key) (\<lambda>_. register key reg None) p = (q, r)"
  shows "p_uses q = p_uses p \<and> p_in_step q = p_in_step p \<and>
    (p_seen q = p_seen p \<or> (\<exists>v. p_seen q = (p_seen p)(SAGA_STARTED_PREFIX @ key \<mapsto> v)))"
proof (cases "p_starts p key = None")
  case False
  then have "q = fst (register key reg None p)"
    using assms by (auto simp: markStarted_def reading_def give_def and_then_def)
  then show ?thesis by (auto simp: register_def modify_def split: option.split)
next
  case True
  let ?c = "commitCheckpoint x (SAGA_STARTED_PREFIX @ key) ''step start marker'' (Some (JInt (p_top p + 1)))"
  obtain a ra where c: "?c p = (a, ra)" by force
  then show ?thesis
  proof (cases rule: commit_cases)
    case (refused t)
    then have "q = a"
      using assms True c by (auto simp: markStarted_def reading_def and_then_def Let_def)
    then show ?thesis using refused by simp
  next
    case (committed state v)
    let ?b = "a\<lparr>p_starts := (p_starts a)(key \<mapsto> p_top p + 1), p_started := p_started a @ [key], p_top := p_top p + 1\<rparr>"
    have "q = fst (register key reg None ?b)"
      using assms True c committed(1) by (auto simp: markStarted_def reading_def and_then_def Let_def modify_def)
    then have "p_uses q = p_uses a \<and> p_in_step q = p_in_step a \<and> p_seen q = p_seen a"
      by (auto simp: register_def modify_def split: option.split)
    then show ?thesis using committed by auto
  qed
qed

lemma step_body_cases:
  assumes "in_step (and_then (if reg = None then give () else and_then (markStarted x key) (\<lambda>_. register key reg None))
      (\<lambda>_. exec_prog x body)) p = (q, r)" "\<not> p_in_step p"
  shows "p_uses q = p_uses p \<and> \<not> p_in_step q \<and>
    (p_seen q = p_seen p \<or> (\<exists>v. p_seen q = (p_seen p)(SAGA_STARTED_PREFIX @ key \<mapsto> v)))"
proof -
  let ?p = "p\<lparr>p_in_step := True\<rparr>"
  obtain a ra where m: "(if reg = None then give () else and_then (markStarted x key) (\<lambda>_. register key reg None)) ?p = (a, ra)"
    by force
  have a: "p_uses a = p_uses p \<and> p_in_step a \<and>
      (p_seen a = p_seen p \<or> (\<exists>v. p_seen a = (p_seen p)(SAGA_STARTED_PREFIX @ key \<mapsto> v)))"
  proof (cases "reg = None")
    case True
    then show ?thesis using m by (auto simp: give_def)
  next
    case False
    then show ?thesis using m marker_cases[of x key reg ?p a ra] False by simp
  qed
  obtain b where b: "q = b\<lparr>p_in_step := False\<rparr>" "memo_of b = memo_of a"
  proof (cases ra)
    case (Inl t)
    then have "q = a\<lparr>p_in_step := False\<rparr>" using assms(1) m by (auto simp: in_step_def and_then_def)
    then show thesis by (rule that) simp
  next
    case (Inr u)
    then have "q = (fst (exec_prog x body a))\<lparr>p_in_step := False\<rparr>"
      using assms(1) m by (auto simp: in_step_def and_then_def split: prod.splits)
    then show thesis by (rule that) (use quiet_exec(1)[of x body] a in \<open>simp add: quiet_def\<close>)
  qed
  then show ?thesis using a by (simp add: memo_of_def)
qed

text \<open>What a step that answered has stored: its result, under the key its name has at this call.\<close>

lemma runStep_cases:
  assumes "runStep x key name (exec_prog x body) reg p = (q, r)" "\<not> p_in_step p" "\<not> prefix ''$'' key"
  shows "p_uses q = p_uses p" "writes_once p q" "\<not> p_in_step q"
    "r = Inr v \<Longrightarrow> p_seen q key = Some v"
proof -
  have all: "p_uses q = p_uses p \<and> writes_once p q \<and> \<not> p_in_step q \<and> (r = Inr v \<longrightarrow> p_seen q key = Some v)"
  proof (cases "p_seen p key")
    case (Some w)
    then have "r = Inr w \<and> q = fst (register key reg (Some w) p)"
      using assms(1) by (auto simp: runStep_def reading_def and_then_def register_def modify_def give_def)
    then show ?thesis using Some assms(2) by (auto simp: register_def modify_def intro: same_writes_once split: option.split)
  next
    case None
    show ?thesis
    proof (cases "p_cause p = None")
      case False
      then have "\<exists>t. r = Inl t" "p_seen q = p_seen p \<and> p_uses q = p_uses p \<and> p_in_step q = p_in_step p"
        using assms(1) None
        by (auto simp: runStep_def reading_def and_then_def register_def modify_def give_def enroll_def split: if_splits option.splits)
      then show ?thesis using assms(2) same_writes_once by auto
    next
      case True
      let ?b = "in_step (and_then (if reg = None then give () else and_then (markStarted x key) (\<lambda>_. register key reg None))
          (\<lambda>_. exec_prog x body))"
      obtain a ra where b: "?b p = (a, ra)" by force
      note sb = step_body_cases[OF b assms(2)]
      have wa: "writes_once p a" using sb assms(2) same_writes_once[of a p] marker_writes_once[of a p key] by auto
      show ?thesis
      proof (cases ra)
        case (Inl t)
        then have "q = a \<and> r = Inl t" using assms(1) None True b by (auto simp: runStep_def reading_def and_then_def)
        then show ?thesis using sb wa by simp
      next
        case (Inr raw)
        obtain c rc where c: "commitCheckpoint x key name raw a = (c, rc)" by force
        then show ?thesis
        proof (cases rule: commit_cases)
          case (refused t)
          then have "q = c \<and> r = Inl t" using assms(1) None True b Inr c by (auto simp: runStep_def reading_def and_then_def)
          then show ?thesis using refused sb wa written.rel_trans[OF wa same_writes_once[of c a]] by simp
        next
          case (committed state w)
          then have q: "q = fst (register key reg (Some w) c) \<and> r = Inr w"
            using assms(1) None True b Inr c
            by (auto simp: runStep_def reading_def and_then_def register_def modify_def give_def)
          have "p_seen a key = None" using sb None assms(3) by (auto simp: SAGA_STARTED_PREFIX_def)
          moreover have "\<not> prefix ''$await'' key" using assms(3) by (auto simp: prefix_def)
          ultimately have "writes_once a c" using committed by (intro new_writes_once) auto
          moreover have "p_seen q = p_seen c \<and> p_uses q = p_uses c \<and> p_in_step q = p_in_step c"
            using q by (auto simp: register_def modify_def split: option.split)
          ultimately show ?thesis using q committed sb written.rel_trans[OF wa] written.rel_trans same_writes_once by (metis fun_upd_same sum.inject(2))
        qed
      qed
    qed
  qed
  then show "p_uses q = p_uses p" "writes_once p q" "\<not> p_in_step q" "r = Inr v \<Longrightarrow> p_seen q key = Some v" by simp_all
qed

lemma parsed_name: "parseUserName what raw = Inr n \<Longrightarrow> n = raw \<and> \<not> prefix ''$'' n \<and> CHR ''#'' \<notin> set n"
  by (auto simp: parseUserName_def split: if_splits)

lemma plain_key: "\<not> prefix ''$'' raw \<Longrightarrow> \<not> prefix ''$'' (if b then raw else raw @ ''#'' @ ds)"
  by (cases raw) auto

lemma written_if: "(\<not> p_in_step p \<Longrightarrow> writes_once p q) \<Longrightarrow> writes_once p q"
  by (auto simp: writes_once_def)

lemma step_written:
  fixes x :: "'s ctx"
  shows "written.keeps (ctx_step x name opts (exec_prog x body))"
  unfolding ctx_step_def
proof (rule written.keeps_bind[OF written.keeps_pure(3)])
  fix p q :: "'s pass" and parsed assume "checked (parseUserName ''step name'' name) p = (q, Inr parsed)"
  then have n: "\<not> prefix ''$'' parsed" using parsed_name by (auto simp: checked_def)
  have k: "written.keeps (and_then (storageName parsed ''step name'' room) (\<lambda>key. runStep x key name (exec_prog x body) reg))" for room reg
  proof (rule written.keeps_bind[OF written_name])
    fix a b :: "'s pass" and key assume s: "storageName parsed ''step name'' room a = (b, Inr key)"
    then have "\<not> prefix ''$'' key" using name_memo(5)[OF s refl] plain_key[OF n] by simp
    then show "writes_once b (fst (runStep x key name (exec_prog x body) reg b))"
      using runStep_cases(2)[of x key name body reg b] by (metis prod.collapse written_if)
  qed
  show "writes_once q (fst (and_then (enterDurableOp x ''ctx.step'') (\<lambda>_.
      and_then (reading (\<lambda>p. checked (rollbackRegistration x name opts p))) (\<lambda>reg.
      and_then (storageName parsed ''step name'' (if reg = None then IDENTIFIER_CHARACTERS else SAGA_STEP_KEY_CHARACTERS))
       (\<lambda>key. runStep x key name (exec_prog x body) reg))) q))"
    by (rule written.keeps_at) (intro written.keeps_rules written_enter k)
qed

lemma suspend_written: "written.keeps (suspendPoint x kind wake)"
  unfolding suspendPoint_def
  by (intro written.keeps_rules written_name) (auto intro: written.keeps_rules written_small)

text \<open>An await writes its memo where there was none.\<close>

lemma memo_values:
  assumes "memo_round_trips (x_host x)" "commitCheckpoint x key label (Some memo) p = (q, Inr v)"
    "memo = JObject [(''payloadJson'', JText s)] \<or> memo = JObject [(''timedOut'', JBool True)]"
  shows "v = memo" "resolves memo" "p_seen q = (p_seen p)(key \<mapsto> memo)" "p_uses q = p_uses p" "p_in_step q = p_in_step p"
proof -
  have "v = memo \<and> p_seen q = (p_seen p)(key \<mapsto> v) \<and> p_uses q = p_uses p \<and> p_in_step q = p_in_step p"
    using assms(2)
  proof (cases rule: commit_cases)
    case (committed state w)
    then have "h_parse (x_host x) (h_stringify (x_host x) memo) = Some v"
      by (auto simp: serializeTaskValue_def parseTaskValueJson_def split: option.splits)
    then show ?thesis using assms(1,3) committed by (auto simp: memo_round_trips_def)
  qed simp
  then show "v = memo" "p_seen q = (p_seen p)(key \<mapsto> memo)" "p_uses q = p_uses p" "p_in_step q = p_in_step p" by simp_all
  show "resolves memo" using assms(3) by (auto simp: resolves_def)
qed

lemma commit_memo_cases:
  assumes "memo_round_trips (x_host x)" "commitEventMemo x timedOut key memo p = (q, r)"
    "memo = JObject [(''payloadJson'', JText s)] \<or> memo = JObject [(''timedOut'', JBool True)]"
  shows "(p_seen q = p_seen p \<and> (\<exists>t. r = Inl t) \<or> p_seen q = (p_seen p)(key \<mapsto> memo) \<and> resolves memo \<and> r = eventMemoPayload timedOut memo) \<and>
    p_uses q = p_uses p \<and> p_in_step q = p_in_step p"
proof -
  obtain a ra where c: "commitCheckpoint x key ''event wake marker'' (Some memo) p = (a, ra)" by force
  show ?thesis
  proof (cases ra)
    case (Inl t)
    then have "q = a \<and> r = Inl t" using assms(2) c by (simp add: commitEventMemo_def and_then_def)
    moreover have "p_seen a = p_seen p \<and> p_uses a = p_uses p \<and> p_in_step a = p_in_step p"
      using c[unfolded Inl] by (cases rule: commit_cases) auto
    ultimately show ?thesis by simp
  next
    case (Inr v)
    then have "q = a \<and> r = eventMemoPayload timedOut memo"
      using assms(2) c by (simp add: commitEventMemo_def and_then_def checked_def)
    then show ?thesis using memo_values[OF assms(1) c[unfolded Inr] assms(3)] by simp
  qed
qed


text \<open>An await that answered did so from the memo under its key, one it found or one it wrote.\<close>

lemma take_wake: "takeWake key p = (q, r) \<Longrightarrow> p_seen q = p_seen p \<and> p_uses q = p_uses p \<and> p_in_step q = p_in_step p \<and> (\<exists>w. r = Inr w)"
  by (auto simp: takeWake_def split: option.splits if_splits)

lemma memo_wake: "memoOfWake w = JObject [(''payloadJson'', JText (case w of WakePayload ev st s \<Rightarrow> s | _ \<Rightarrow> []))] \<or>
    memoOfWake w = JObject [(''timedOut'', JBool True)]"
  by (cases w) (simp_all add: memoOfWake_def)

definition wrote_memo :: "thrown \<Rightarrow> string \<Rightarrow> 's pass \<Rightarrow> 's pass \<Rightarrow> (thrown + json option) \<Rightarrow> bool" where
  "wrote_memo timedOut key p q r =
     (p_uses q = p_uses p \<and> p_in_step q = p_in_step p \<and>
      (p_seen q = p_seen p \<and> (\<exists>t. r = Inl t) \<or>
       (\<exists>memo. p_seen q = (p_seen p)(key \<mapsto> memo) \<and> resolves memo \<and> r = eventMemoPayload timedOut memo \<and>
          (p_seen p key = None \<or> p_seen p key = Some memo))))"

lemma commit_wrote:
  assumes "memo_round_trips (x_host x)" "commitEventMemo x t key memo p = (q, r)" "p_seen p key = None"
    "memo = JObject [(''payloadJson'', JText s)] \<or> memo = JObject [(''timedOut'', JBool True)]"
  shows "wrote_memo t key p q r"
  using commit_memo_cases[OF assms(1,2,4)] assms(3) by (auto simp: wrote_memo_def)

lemma settled_wrote:
  assumes "memo_round_trips (x_host x)" "settledAwait x t key p = (q, r)" "\<forall>m. p_seen p key = Some m \<longrightarrow> resolves m"
  shows "wrote_memo t key p q r \<or> r = Inr None \<and> p_seen q = p_seen p \<and> p_uses q = p_uses p \<and> p_in_step q = p_in_step p \<and> p_seen p key = None"
proof (cases "p_seen p key")
  case (Some memo)
  obtain a w where a: "takeWake key p = (a, w)" by force
  note k = take_wake[OF a]
  then have "q = a" "r = eventMemoPayload t memo" using assms(2) Some a by (auto simp: settledAwait_def reading_def and_then_def checked_def)
  moreover have "(p_seen p)(key \<mapsto> memo) = p_seen p" using Some by auto
  ultimately show ?thesis using k Some assms(3) by (auto simp: wrote_memo_def)
next
  case None
  show ?thesis
  proof (cases "p_cause p = None")
    case False
    then show ?thesis using assms(2) None
      by (auto simp: settledAwait_def reading_def and_then_def refuseForwardProgress_def enroll_def wrote_memo_def)
  next
    case True
    obtain a w where a: "takeWake key p = (a, Inr w)" using take_wake by (metis surj_pair)
    note k = take_wake[OF a]
    have e: "(case w of None \<Rightarrow> give None | Some wk \<Rightarrow> commitEventMemo x t key (memoOfWake wk)) a = (q, r)"
      using assms(2) None True a by (simp add: settledAwait_def reading_def and_then_def refuseForwardProgress_def give_def)
    show ?thesis
    proof (cases w)
      case None
      then show ?thesis using e k \<open>p_seen p key = None\<close> by (auto simp: give_def)
    next
      case (Some wk)
      then have "wrote_memo t key a q r" using e k \<open>p_seen p key = None\<close> commit_wrote[OF assms(1) _ _ memo_wake] by simp
      then show ?thesis using k by (simp add: wrote_memo_def)
    qed
  qed
qed

lemma through_wrote:
  assumes "memo_round_trips (x_host x)" "await_through x t key send p = (q, r)" "\<forall>m. p_seen p key = Some m \<longrightarrow> resolves m"
  shows "wrote_memo t key p q r"
proof -
  obtain a ra where a: "settledAwait x t key p = (a, ra)" by force
  note s = settled_wrote[OF assms(1) a assms(3)]
  show ?thesis
  proof (cases ra)
    case (Inl e)
    then show ?thesis using assms(2) a s by (auto simp: await_through_def and_then_def)
  next
    case (Inr v)
    show ?thesis
    proof (cases v)
      case (Some j)
      then show ?thesis using assms(2) a s Inr by (auto simp: await_through_def and_then_def give_def)
    next
      case None
      have n: "\<not> wrote_memo t key p a (Inr None)"
        by (auto simp: wrote_memo_def eventMemoPayload_def resolves_def split: if_splits)
      then have k: "p_seen a = p_seen p" "p_uses a = p_uses p" "p_in_step a = p_in_step p" "p_seen p key = None"
        using s Inr None by auto
      obtain b rb where b: "storeCall send a = (b, rb)" by force
      have kb: "p_seen b = p_seen p" "p_uses b = p_uses p" "p_in_step b = p_in_step p"
        using memo_kept[OF store_call_memo, of send a] call_in_step[of send a] b k by (simp_all add: memo_of_def)
      have e: "(case rb of Inl e \<Rightarrow> (b, Inl e) | Inr out \<Rightarrow> registeredAwait x t key out b) = (q, r)"
        using assms(2) a b Inr None by (simp add: await_through_def and_then_def)
      consider (err) e where "rb = Inl e" | (park) "rb = Inr None" | (told) s where "rb = Inr (Some s)"
        by (cases rb) auto
      then show ?thesis
      proof cases
        case told
        then have "wrote_memo t key b q r" using e kb k(4) commit_wrote[OF assms(1)] by (simp add: registeredAwait_def)
        then show ?thesis using kb by (simp add: wrote_memo_def)
      qed (use e kb in \<open>auto simp: registeredAwait_def enroll_def wrote_memo_def\<close>)
    qed
  qed
qed

lemma wrote_once: "wrote_memo t key p q r \<Longrightarrow> writes_once p q"
  by (auto simp: wrote_memo_def writes_once_def readable_def split: if_splits)

end
