(* ===== verification/Recall.thy ===== *)
theory Recall
  imports Memos
begin

text \<open>
  A call answers from its memo. What a call is handed is a function of the memos and of how often its
  name was used before; a pass that replays gives that answer, whatever its store would answer, as
  long as the lease holds and an emit lands.
\<close>

section \<open>What a call answers from the memos\<close>

definition used_key :: "(string \<Rightarrow> nat) \<Rightarrow> string \<Rightarrow> string" where
  "used_key uses raw = (let n = uses raw + 1 in if n = 1 then raw else raw @ ''#'' @ decimal n)"

definition raw_name :: "call \<Rightarrow> string option" where
  "raw_name c =
     (case c of
        Step name opts body \<Rightarrow> Some name
      | SleepFor seconds \<Rightarrow> Some sleep_key
      | SleepUntil epochMs \<Rightarrow> Some sleep_until_key
      | EmitEvent name payload \<Rightarrow> None
      | AwaitEvent name timeout \<Rightarrow> Some (await_key name)
      | Spawn name params queue opts \<Rightarrow> Some (spawn_key name)
      | AwaitTask child timeout \<Rightarrow> (case childTaskOf child of Inl t \<Rightarrow> None | Inr (task, queue) \<Rightarrow> Some (await_task_key task)))"

definition used :: "call \<Rightarrow> (string \<Rightarrow> nat) \<Rightarrow> string \<Rightarrow> nat" where
  "used c uses = (case raw_name c of None \<Rightarrow> uses | Some raw \<Rightarrow> uses(raw := uses raw + 1))"

definition memo_at :: "call \<Rightarrow> (string \<Rightarrow> json option) \<Rightarrow> (string \<Rightarrow> nat) \<Rightarrow> json option" where
  "memo_at c seen uses = Option.bind (raw_name c) (\<lambda>raw. seen (used_key uses raw))"

text \<open>The answer a call has from the memos alone. An emit keeps no memo and answers nothing.\<close>

definition recalled :: "host \<Rightarrow> call \<Rightarrow> (string \<Rightarrow> json option) \<Rightarrow> (string \<Rightarrow> nat) \<Rightarrow> answer option" where
  "recalled h c seen uses =
     (case c of
        Step name opts body \<Rightarrow> map_option Answered (memo_at c seen uses)
      | SleepFor seconds \<Rightarrow> map_option (\<lambda>_. Done) (memo_at c seen uses)
      | SleepUntil epochMs \<Rightarrow> map_option (\<lambda>_. Done) (memo_at c seen uses)
      | EmitEvent name payload \<Rightarrow> Some Done
      | AwaitEvent name timeout \<Rightarrow>
          Option.bind (memo_at c seen uses) (\<lambda>memo.
            case eventMemoPayload (EventTimeout name) memo of Inr (Some v) \<Rightarrow> Some (Answered v) | _ \<Rightarrow> None)
      | Spawn name params queue opts \<Rightarrow>
          Option.bind (memo_at c seen uses) (\<lambda>memo.
            case childTaskOf memo of Inr (task, q) \<Rightarrow> Some (ChildTask task q) | Inl t \<Rightarrow> None)
      | AwaitTask child timeout \<Rightarrow>
          Option.bind (memo_at c seen uses) (\<lambda>memo.
            case childTaskOf child of
              Inl t \<Rightarrow> None
            | Inr (task, queue) \<Rightarrow>
                (case eventMemoPayload (TaskTimeout task) memo of
                   Inr (Some v) \<Rightarrow>
                     (case decodeTaskOutcome task (case v of JText s \<Rightarrow> h_parse h s | _ \<Rightarrow> None) of
                        Inr out \<Rightarrow> Some (ChildOutcome out)
                      | Inl e \<Rightarrow> None)
                 | _ \<Rightarrow> None)))"

text \<open>The arguments a call takes, whatever the memos hold.\<close>

definition accepted :: "'s ctx \<Rightarrow> 's pass \<Rightarrow> call \<Rightarrow> bool" where
  "accepted x p c =
     (case c of
        Step name opts body \<Rightarrow> \<not> isl (parseUserName ''step name'' name) \<and> \<not> isl (rollbackRegistration x name opts p)
      | SleepFor seconds \<Rightarrow> \<not> isl (userDurationToMs ''sleepFor seconds'' seconds False)
      | SleepUntil epochMs \<Rightarrow> \<not> isl (userEpochMs ''sleepUntil epochMs'' epochMs)
      | EmitEvent name payload \<Rightarrow>
          \<not> isl (parseUserName ''event name'' name) \<and> \<not> isl (requireRoom ''event name'' name IDENTIFIER_CHARACTERS) \<and>
          \<not> isl (userJsonValue (x_host x) ''event payload'' payload)
      | AwaitEvent name timeout \<Rightarrow>
          \<not> isl (parseUserName ''event name'' name) \<and> \<not> isl (optional_timeout ''awaitEvent timeoutSeconds'' timeout)
      | Spawn name params queue opts \<Rightarrow> \<not> isl (parseUserName ''task name'' name)
      | AwaitTask child timeout \<Rightarrow>
          (case childTaskOf child of
             Inl t \<Rightarrow> False
           | Inr (task, queue) \<Rightarrow>
               \<not> isl (parseUserName ''child task id'' task) \<and> \<not> isl (optional_timeout ''awaitTask timeoutSeconds'' timeout)))"

section \<open>A call that is replayed\<close>

definition lease_steady :: "'s ctx \<Rightarrow> bool" where
  "lease_steady x =
     (\<forall>queue rid token lease s. snd (w_beat (x_store x) queue rid token lease s) \<notin> {Some (Inr LostLease), Some (Inr CancelledLease)})"

definition emits_land :: "'s ctx \<Rightarrow> bool" where
  "emits_land x = (\<forall>queue name payload s. \<exists>s'. w_emit (x_store x) queue name payload s = (s', Inr ()))"

text \<open>A pass that nothing has ended yet.\<close>

definition calm :: "'s pass \<Rightarrow> bool" where
  "calm p = (\<not> p_in_step p \<and> p_latch p = None \<and> p_ended p = None \<and> (p_corrupt p = None \<or> p_cause p \<noteq> None))"

definition replaying :: "(string \<Rightarrow> json option) \<Rightarrow> (string \<Rightarrow> nat) \<Rightarrow> 's pass \<Rightarrow> bool" where
  "replaying seen uses p = (calm p \<and> p_seen p = seen \<and> p_uses p = uses)"

lemma calm_lease:
  assumes "lease_steady x" "replaying seen uses p"
  shows "\<exists>q. assertLeaseHeld x p = (q, Inr ()) \<and> replaying seen uses q \<and> p_cause q = p_cause p"
proof -
  let ?q = "beat_lands x p"
  obtain s r where b: "w_beat (x_store x) (x_queue x) (i_run (x_iv x)) (i_token (x_iv x)) (Finite (wr_lease (x_run x))) (p_world p) = (s, r)"
    by force
  have "r \<notin> {Some (Inr LostLease), Some (Inr CancelledLease)}" using assms(1) b unfolding lease_steady_def by (metis snd_conv)
  then have l: "p_latch ?q = p_latch p \<and> p_ended ?q = p_ended p"
    using b by (auto simp: beat_lands_def split: option.split sum.split lease_state.split)
  moreover have "saga_of ?q = saga_of p" "memo_of ?q = memo_of p" "p_in_step ?q = p_in_step p"
    using beat_still beat_memo by simp_all
  ultimately have "replaying seen uses ?q \<and> p_cause ?q = p_cause p" using assms(2) by (simp add: replaying_def calm_def saga_of_def memo_of_def)
  moreover have "p_latch ?q = None" using l assms(2) by (simp add: replaying_def calm_def)
  ultimately show ?thesis by (auto simp: assertLeaseHeld_def)
qed

lemma calm_enter:
  assumes "lease_steady x" "replaying seen uses p"
  shows "\<exists>q. enterDurableOp x what p = (q, Inr ()) \<and> replaying seen uses q \<and> p_cause q = p_cause p"
proof -
  obtain q where "assertLeaseHeld x p = (q, Inr ())" "replaying seen uses q" "p_cause q = p_cause p" using calm_lease[OF assms] by blast
  then show ?thesis by (auto simp: enterDurableOp_def and_then_def reading_def give_def replaying_def calm_def)
qed

lemma calm_name:
  assumes "replaying seen uses p" "seen (used_key uses raw) = Some memo"
  shows "\<exists>q. storageName raw what room p = (q, Inr (used_key uses raw)) \<and> replaying seen (uses(raw := uses raw + 1)) q"
  using assms by (auto simp: storageName_def Let_def used_key_def replaying_def calm_def)

lemma calm_wake: "replaying seen uses p \<Longrightarrow> \<exists>q w. takeWake key p = (q, Inr w) \<and> replaying seen uses q"
  by (auto simp: takeWake_def replaying_def calm_def split: option.split)

lemma calm_register: "replaying seen uses p \<Longrightarrow> \<exists>q. register key reg out p = (q, Inr ()) \<and> replaying seen uses q"
  by (auto simp: register_def modify_def replaying_def calm_def split: option.split)

lemma calm_settled:
  assumes "replaying seen uses p" "seen key = Some memo" "eventMemoPayload t memo = Inr (Some v)"
  shows "\<exists>q. await_through x t key send p = (q, Inr (Some v)) \<and> replaying seen uses q"
proof -
  have "p_seen p key = Some memo" using assms(1,2) by (simp add: replaying_def)
  moreover obtain q w where "takeWake key p = (q, Inr w)" "replaying seen uses q" using calm_wake[OF assms(1)] by blast
  ultimately show ?thesis
    using assms(3) by (simp add: await_through_def settledAwait_def and_then_def reading_def checked_def give_def)
qed

lemma not_islE: "\<not> isl r \<Longrightarrow> (\<And>a. r = Inr a \<Longrightarrow> thesis) \<Longrightarrow> thesis"
  by (cases r) auto

lemma registration_again:
  fixes x y :: "'s ctx"
  assumes "\<not> isl (rollbackRegistration x name opts p)" "calm q"
  shows "\<not> isl (rollbackRegistration y name opts q)"
proof (cases opts)
  case (Options field config)
  show ?thesis
  proof (cases field)
    case (Handler h)
    let ?ms = "case config of JsUndefined \<Rightarrow> Some [] | JsObject ms \<Rightarrow> Some ms | _ \<Rightarrow> None"
    let ?strategy = "\<lambda>x::'s ctx. \<lambda>ms. if readRetryField ms ''retryStrategy'' = JsUndefined then Inr (wr_retry (x_run x))
        else normalizeRetryStrategy (readRetryField ms ''retryStrategy'')"
    note d = rollbackRegistration_def Options Handler Let_def
    obtain ms where ms: "?ms = Some ms" using assms(1) by (cases ?ms) (simp_all add: d)
    obtain most where most: "rollback_max_attempts (readRetryField ms ''maxAttempts'') = Some most"
      using assms(1) ms by (cases "rollback_max_attempts (readRetryField ms ''maxAttempts'')") (simp_all add: d)
    have "\<not> isl (?strategy x ms)" using assms(1) ms most by (cases "?strategy x ms") (simp_all add: d)
    then have "\<not> isl (?strategy y ms)" by (simp split: if_splits)
    then obtain strategy where "?strategy y ms = Inr strategy" by (rule not_islE)
    then show ?thesis using ms most assms(2) by (auto simp: d calm_def)
  qed (use assms(1) Options in \<open>simp_all add: rollbackRegistration_def split: if_splits\<close>)
qed (use assms(1) in \<open>simp_all add: rollbackRegistration_def\<close>)

lemma memo_atE:
  assumes "memo_at c seen uses = Some memo"
  obtains raw where "raw_name c = Some raw" "seen (used_key uses raw) = Some memo" "used c uses = uses(raw := uses raw + 1)"
  using assms by (auto simp: memo_at_def used_def bind_eq_Some_conv)


text \<open>A call that has its memo answers from it: no body runs, and only an emit reaches the store.\<close>

lemma and_then_some: "\<exists>q. m p = (q, Inr a) \<and> P q \<Longrightarrow> (\<And>q. P q \<Longrightarrow> \<exists>r. f a q = (r, b) \<and> Q r) \<Longrightarrow> \<exists>r. and_then m f p = (r, b) \<and> Q r"
  by (auto simp: and_then_def)

lemma parsed_same: "\<not> isl (parseUserName what raw) \<Longrightarrow> parseUserName what raw = Inr raw"
  using parsed_name by (auto elim!: not_islE)

lemma payload_case: "(case r of Inl e \<Rightarrow> None | Inr None \<Rightarrow> None | Inr (Some v) \<Rightarrow> f v) = Some a \<Longrightarrow> \<exists>v. r = Inr (Some v) \<and> f v = Some a"
  by (auto split: sum.splits option.splits)

lemma child_case: "(case r of Inl e \<Rightarrow> None | Inr (t, q) \<Rightarrow> Some (ChildTask t q)) = Some a \<Longrightarrow> \<exists>t q. r = Inr (t, q) \<and> a = ChildTask t q"
  by (auto split: sum.splits)

lemma recalls:
  assumes "lease_steady x" "emits_land x" "replaying seen uses p" "accepted x p c"
    "recalled (x_host x) c seen uses = Some a"
  shows "\<exists>q. exec_call x c p = (q, Inr a) \<and> replaying seen (used c uses) q"
proof (cases c)
  case (Step name opts body)
  have n: "parseUserName ''step name'' name = Inr name" using assms(4) Step parsed_same by (simp add: accepted_def)
  obtain v where v: "seen (used_key uses name) = Some v" "a = Answered v"
    using assms(5) Step by (auto simp: recalled_def memo_at_def raw_name_def)
  obtain p1 where p1: "enterDurableOp x ''ctx.step'' p = (p1, Inr ())" "replaying seen uses p1"
    using calm_enter[OF assms(1,3)] by blast
  obtain reg where reg: "rollbackRegistration x name opts p1 = Inr reg"
    using registration_again[of x name opts p p1 x] assms(4) Step p1(2) by (auto simp: accepted_def replaying_def elim: not_islE)
  obtain p2 where p2: "storageName name ''step name'' (if reg = None then IDENTIFIER_CHARACTERS else SAGA_STEP_KEY_CHARACTERS) p1 =
      (p2, Inr (used_key uses name))" "replaying seen (uses(name := uses name + 1)) p2"
    using calm_name[OF p1(2) v(1)] by blast
  obtain q where q: "register (used_key uses name) reg (Some v) p2 = (q, Inr ())" "replaying seen (uses(name := uses name + 1)) q"
    using calm_register[OF p2(2)] by blast
  have "p_seen p2 (used_key uses name) = Some v" using p2(2) v(1) by (simp add: replaying_def)
  then have "exec_call x c p = (q, Inr a)"
    using Step n p1(1) reg p2(1) q(1) v(2)
    by (simp add: ctx_step_def runStep_def and_then_def reading_def checked_def give_def)
  then show ?thesis using q(2) Step by (simp add: used_def raw_name_def)
next
  case (SleepFor seconds)
  obtain memo where v: "seen (used_key uses sleep_key) = Some memo" "a = Done"
    using assms(5) SleepFor by (auto simp: recalled_def memo_at_def raw_name_def)
  obtain ms where ms: "userDurationToMs ''sleepFor seconds'' seconds False = Inr ms"
    using assms(4) SleepFor by (auto simp: accepted_def elim: not_islE)
  obtain p1 where p1: "enterDurableOp x ''ctx.sleepFor'' p = (p1, Inr ())" "replaying seen uses p1"
    using calm_enter[OF assms(1,3)] by blast
  obtain q where q: "storageName sleep_key ''sleep'' IDENTIFIER_CHARACTERS p1 = (q, Inr (used_key uses sleep_key))"
    "replaying seen (uses(sleep_key := uses sleep_key + 1)) q"
    using calm_name[OF p1(2) v(1)] by blast
  then have "p_seen q (used_key uses sleep_key) = Some memo" using v(1) by (simp add: replaying_def)
  then have "exec_call x c p = (q, Inr a)"
    using SleepFor ms p1(1) q(1) v(2) by (simp add: sleepFor_def suspendPoint_def and_then_def reading_def checked_def give_def)
  then show ?thesis using q(2) SleepFor by (simp add: used_def raw_name_def)
next
  case (SleepUntil epochMs)
  obtain memo where v: "seen (used_key uses sleep_until_key) = Some memo" "a = Done"
    using assms(5) SleepUntil by (auto simp: recalled_def memo_at_def raw_name_def)
  obtain ms where ms: "userEpochMs ''sleepUntil epochMs'' epochMs = Inr ms"
    using assms(4) SleepUntil by (auto simp: accepted_def elim: not_islE)
  obtain p1 where p1: "enterDurableOp x ''ctx.sleepUntil'' p = (p1, Inr ())" "replaying seen uses p1"
    using calm_enter[OF assms(1,3)] by blast
  obtain q where q: "storageName sleep_until_key ''sleep'' IDENTIFIER_CHARACTERS p1 = (q, Inr (used_key uses sleep_until_key))"
    "replaying seen (uses(sleep_until_key := uses sleep_until_key + 1)) q"
    using calm_name[OF p1(2) v(1)] by blast
  then have "p_seen q (used_key uses sleep_until_key) = Some memo" using v(1) by (simp add: replaying_def)
  then have "exec_call x c p = (q, Inr a)"
    using SleepUntil ms p1(1) q(1) v(2) by (simp add: sleepUntil_def suspendPoint_def and_then_def reading_def checked_def give_def)
  then show ?thesis using q(2) SleepUntil by (simp add: used_def raw_name_def)
next
  case (EmitEvent name payload)
  have n: "parseUserName ''event name'' name = Inr name" using assms(4) EmitEvent parsed_same by (simp add: accepted_def)
  obtain u v where uv: "requireRoom ''event name'' name IDENTIFIER_CHARACTERS = Inr u" "userJsonValue (x_host x) ''event payload'' payload = Inr v"
    using assms(4) EmitEvent by (auto simp: accepted_def elim!: not_islE)
  obtain p1 where p1: "assertLeaseHeld x p = (p1, Inr ())" "replaying seen uses p1" using calm_lease[OF assms(1,3)] by blast
  obtain s where s: "w_emit (x_store x) (x_queue x) name v (p_world p1) = (s, Inr ())" using assms(2) unfolding emits_land_def by blast
  have "p_ended p1 = None" using p1(2) by (simp add: replaying_def calm_def)
  then obtain q where "exec_call x c p = (q, Inr Done)" "replaying seen uses q"
    using EmitEvent n uv p1 s
    by (cases "p_cause p1 \<noteq> None \<and> \<not> p_in_step p1")
      (auto simp: emit_event_def storeCall_def and_then_def reading_def checked_def give_def replaying_def calm_def)
  then show ?thesis using assms(5) EmitEvent by (simp add: used_def raw_name_def recalled_def)
next
  case (AwaitEvent name timeout)
  let ?raw = "await_key name"
  have n: "parseUserName ''event name'' name = Inr name" using assms(4) AwaitEvent parsed_same by (simp add: accepted_def)
  obtain t where t: "optional_timeout ''awaitEvent timeoutSeconds'' timeout = Inr t"
    using assms(4) AwaitEvent by (auto simp: accepted_def elim: not_islE)
  obtain memo v where v: "seen (used_key uses ?raw) = Some memo" "eventMemoPayload (EventTimeout name) memo = Inr (Some v)" "a = Answered v"
    using assms(5) AwaitEvent by (auto simp: recalled_def memo_at_def raw_name_def bind_eq_Some_conv dest!: payload_case)
  obtain p1 where p1: "enterDurableOp x ''ctx.awaitEvent'' p = (p1, Inr ())" "replaying seen uses p1"
    using calm_enter[OF assms(1,3)] by blast
  obtain p2 where p2: "storageName ?raw ''event name'' IDENTIFIER_CHARACTERS p1 = (p2, Inr (used_key uses ?raw))"
    "replaying seen (uses(?raw := uses ?raw + 1)) p2"
    using calm_name[OF p1(2) v(1)] by blast
  obtain q where q: "await_through x (EventTimeout name) (used_key uses ?raw)
      (w_await (x_store x) (x_queue x) (wr_task (x_run x)) (wr_run (x_run x)) (wr_token (x_run x)) (used_key uses ?raw) name timeout) p2 =
      (q, Inr (Some v))" "replaying seen (uses(?raw := uses ?raw + 1)) q"
    using calm_settled[OF p2(2) v(1,2)] by blast
  then have "exec_call x c p = (q, Inr a)"
    using AwaitEvent n t p1(1) p2(1) v(3) by (simp add: await_event_def and_then_def checked_def give_def answered_json_def)
  then show ?thesis using q(2) AwaitEvent by (simp add: used_def raw_name_def)
next
  case (Spawn name params queue opts)
  let ?raw = "spawn_key name"
  have n: "parseUserName ''task name'' name = Inr name" using assms(4) Spawn parsed_same by (simp add: accepted_def)
  obtain memo task q where v: "seen (used_key uses ?raw) = Some memo" "childTaskOf memo = Inr (task, q)" "a = ChildTask task q"
    using assms(5) Spawn by (auto simp: recalled_def memo_at_def raw_name_def bind_eq_Some_conv dest!: child_case)
  obtain p1 where p1: "enterDurableOp x ''ctx.spawn'' p = (p1, Inr ())" "replaying seen uses p1"
    using calm_enter[OF assms(1,3)] by blast
  obtain p2 where p2: "storageName ?raw ''task name'' IDENTIFIER_CHARACTERS p1 = (p2, Inr (used_key uses ?raw))"
    "replaying seen (uses(?raw := uses ?raw + 1)) p2"
    using calm_name[OF p1(2) v(1)] by blast
  have "p_seen p2 (used_key uses ?raw) = Some memo" using p2(2) v(1) by (simp add: replaying_def)
  then have "exec_call x c p = (p2, Inr a)"
    using Spawn n p1(1) p2(1) v(2,3) by (simp add: spawn_child_def runSpawn_def and_then_def reading_def checked_def give_def)
  then show ?thesis using p2(2) Spawn by (simp add: used_def raw_name_def)
next
  case (AwaitTask child timeout)
  obtain task queue where k: "childTaskOf child = Inr (task, queue)" "\<not> isl (parseUserName ''child task id'' task)"
    "\<not> isl (optional_timeout ''awaitTask timeoutSeconds'' timeout)"
    using assms(4) AwaitTask by (auto simp: accepted_def split: sum.splits)
  obtain t where t: "optional_timeout ''awaitTask timeoutSeconds'' timeout = Inr t" using k(3) by (rule not_islE)
  note n = parsed_same[OF k(2)]
  let ?raw = "await_task_key task"
  let ?decoded = "\<lambda>v. decodeTaskOutcome task (case v of JText s \<Rightarrow> h_parse (x_host x) s | _ \<Rightarrow> None)"
  obtain memo where m: "seen (used_key uses ?raw) = Some memo"
    "(case eventMemoPayload (TaskTimeout task) memo of Inl e \<Rightarrow> None | Inr None \<Rightarrow> None
      | Inr (Some v) \<Rightarrow> (case ?decoded v of Inl e \<Rightarrow> None | Inr out \<Rightarrow> Some (ChildOutcome out))) = Some a"
    using assms(5) AwaitTask k(1) by (auto simp: recalled_def memo_at_def raw_name_def bind_eq_Some_conv)
  obtain v where p: "eventMemoPayload (TaskTimeout task) memo = Inr (Some v)"
    "(case ?decoded v of Inl e \<Rightarrow> None | Inr out \<Rightarrow> Some (ChildOutcome out)) = Some a"
    using payload_case[OF m(2)] by blast
  obtain out where out: "?decoded v = Inr out" "a = ChildOutcome out" using p(2) by (cases "?decoded v") simp_all
  note v = m(1) p(1) out
  obtain p1 where p1: "enterDurableOp x ''ctx.awaitTask'' p = (p1, Inr ())" "replaying seen uses p1"
    using calm_enter[OF assms(1,3)] by blast
  obtain p2 where p2: "storageName ?raw ''child task id'' IDENTIFIER_CHARACTERS p1 = (p2, Inr (used_key uses ?raw))"
    "replaying seen (uses(?raw := uses ?raw + 1)) p2"
    using calm_name[OF p1(2) v(1)] by blast
  obtain q where q: "await_through x (TaskTimeout task) (used_key uses ?raw)
      (w_await_task (x_store x) (x_queue x) (wr_task (x_run x)) (wr_run (x_run x)) (wr_token (x_run x)) (used_key uses ?raw) task timeout) p2 =
      (q, Inr (Some v))" "replaying seen (uses(?raw := uses ?raw + 1)) q"
    using calm_settled[OF p2(2) v(1,2)] by blast
  then have "exec_call x c p = (q, Inr a)"
    using AwaitTask k(1) n t p1(1) p2(1) v(3,4)
    by (cases v) (simp_all add: await_task_def and_then_def checked_def give_def recast_def)
  then show ?thesis using q(2) AwaitTask k(1) by (simp add: used_def raw_name_def)
qed

end
