(* ===== verification/Replay.thy ===== *)
theory Replay
  imports Recall
begin

text \<open>
  A task function runs again on every retry and after every wake. The second time it is handed what
  it was handed the first: a call whose result was committed answers from its checkpoint, under the
  same key, whatever the store of the second pass would answer.
\<close>

section \<open>A call that answers for the first time\<close>

text \<open>What a first pass leaves of a call: its memo, from which the same call has the same answer.\<close>

definition left_memo :: "'s ctx \<Rightarrow> call \<Rightarrow> 's pass \<Rightarrow> 's pass \<Rightarrow> (thrown + answer) \<Rightarrow> bool" where
  "left_memo x c p q r =
     (writes_once p q \<and>
      (\<forall>a. r = Inr a \<longrightarrow> accepted x p c \<and> recalled (x_host x) c (p_seen q) (p_uses p) = Some a \<and> p_uses q = used c (p_uses p)))"

lemma registration_saga:
  assumes "p_corrupt q = p_corrupt p" "p_cause q = p_cause p"
  shows "rollbackRegistration x name opts q = rollbackRegistration x name opts p"
  unfolding rollbackRegistration_def assms ..

lemma entered:
  assumes "enterDurableOp x what p = (q, Inr u)"
  shows "p_seen q = p_seen p" "p_uses q = p_uses p" "p_in_step q = p_in_step p" "p_corrupt q = p_corrupt p" "p_cause q = p_cause p"
  using enter_memo[OF assms] by (simp_all add: memo_of_def saga_of_def)

lemma named:
  assumes "storageName raw what room p = (q, Inr key)"
  shows "p_seen q = p_seen p" "p_in_step q = p_in_step p" "p_uses q = (p_uses p)(raw := p_uses p raw + 1)" "key = used_key (p_uses p) raw"
  using name_memo[OF assms] by (simp_all add: used_key_def Let_def)

lemma step_leaves:
  assumes "exec_call x (Step name opts body) p = (q, Inr a)" "\<not> p_in_step p"
  shows "accepted x p (Step name opts body)" "recalled (x_host x) (Step name opts body) (p_seen q) (p_uses p) = Some a"
    "p_uses q = used (Step name opts body) (p_uses p)"
proof -
  obtain n where n: "parseUserName ''step name'' name = Inr n"
    using assms(1) by (auto simp: ctx_step_def elim!: and_then_okE dest!: checked_okE)
  have nn: "n = name" "\<not> prefix ''$'' name" using parsed_name[OF n] by auto
  obtain p1 u where p1: "enterDurableOp x ''ctx.step'' p = (p1, Inr u)"
    and rest: "and_then (reading (\<lambda>p. checked (rollbackRegistration x name opts p))) (\<lambda>reg.
      and_then (storageName name ''step name'' (if reg = None then IDENTIFIER_CHARACTERS else SAGA_STEP_KEY_CHARACTERS))
       (\<lambda>key. and_then (runStep x key name (exec_prog x body) reg) (\<lambda>v. give (Answered v)))) p1 = (q, Inr a)"
    using assms(1) n nn by (auto simp: ctx_step_def and_then_def checked_def split: prod.splits sum.splits)
  obtain reg where reg: "rollbackRegistration x name opts p1 = Inr reg"
    using rest by (auto simp: and_then_def reading_def checked_def split: sum.splits)
  obtain p2 key where p2: "storageName name ''step name'' (if reg = None then IDENTIFIER_CHARACTERS else SAGA_STEP_KEY_CHARACTERS) p1 = (p2, Inr key)"
    and last: "and_then (runStep x key name (exec_prog x body) reg) (\<lambda>v. give (Answered v)) p2 = (q, Inr a)"
    using rest reg by (auto simp: and_then_def reading_def checked_def split: sum.splits prod.splits)
  obtain v where v: "runStep x key name (exec_prog x body) reg p2 = (q, Inr v)" "a = Answered v"
    using last by (auto simp: give_def elim!: and_then_okE)
  note e = entered[OF p1] and k = named[OF p2]
  have "\<not> prefix ''$'' key" using k(4) plain_key[OF nn(2)] by (simp add: used_key_def Let_def)
  then have s: "p_uses q = p_uses p2" "p_seen q key = Some v" using runStep_cases[OF v(1)] assms(2) e(3) k(2) by auto
  show "accepted x p (Step name opts body)" using n reg registration_saga[OF e(4,5)] by (simp add: accepted_def)
  show "recalled (x_host x) (Step name opts body) (p_seen q) (p_uses p) = Some a"
    using s(2) k(4) e(2) v(2) by (simp add: recalled_def memo_at_def raw_name_def)
  show "p_uses q = used (Step name opts body) (p_uses p)" using s(1) k(3) e(2) by (simp add: used_def raw_name_def)
qed

lemma sleep_leaves:
  assumes "and_then (enterDurableOp x what) (\<lambda>_. and_then (checked bound) (\<lambda>_. suspendPoint x kind wake)) p = (q, Inr u)"
  shows "\<not> isl bound" "p_seen q (used_key (p_uses p) kind) \<noteq> None" "p_uses q = (p_uses p)(kind := p_uses p kind + 1)"
proof -
  obtain p1 w b where p1: "enterDurableOp x what p = (p1, Inr w)" "bound = Inr b" "suspendPoint x kind wake p1 = (q, Inr u)"
    using assms by (auto elim!: and_then_okE dest!: checked_okE)
  obtain p2 key where p2: "storageName kind ''sleep'' IDENTIFIER_CHARACTERS p1 = (p2, Inr key)"
    and r: "(if p_seen p2 key \<noteq> None then give () else and_then refuseForwardProgress (\<lambda>_.
      enroll (SleepSignal wake key (h_stringify (x_host x) (wake_json wake))))) p2 = (q, Inr u)"
    using p1(3) by (auto simp: suspendPoint_def reading_def elim!: and_then_okE)
  have "p_seen p2 key \<noteq> None \<and> q = p2"
    using r by (auto simp: give_def enroll_def and_then_def split: if_splits sum.splits prod.splits)
  then show "\<not> isl bound" "p_seen q (used_key (p_uses p) kind) \<noteq> None" "p_uses q = (p_uses p)(kind := p_uses p kind + 1)"
    using p1(2) entered[OF p1(1)] named[OF p2] by auto
qed

lemma name_prefixed: "prefix pre raw \<Longrightarrow> prefix pre (used_key uses raw)"
  by (auto simp: used_key_def Let_def prefix_def)

text \<open>An await: the name, the memo under it, and what the await makes of the memo.\<close>

lemma await_leaves:
  assumes "memo_round_trips (x_host x)" "readable p" "\<not> p_in_step p" "prefix ''$await'' raw"
    "and_then (enterDurableOp x what) (\<lambda>_. and_then (checked bound) (\<lambda>_. and_then (storageName raw label room) (\<lambda>key.
       await_through x timedOut key (send key)))) p = (q, r)"
  shows "writes_once p q"
    "r = Inr v \<Longrightarrow> \<not> isl bound \<and> p_uses q = (p_uses p)(raw := p_uses p raw + 1) \<and>
      (\<exists>memo j. p_seen q (used_key (p_uses p) raw) = Some memo \<and> eventMemoPayload timedOut memo = Inr (Some j) \<and> v = Some j)"
proof -
  obtain p1 r1 where p1: "enterDurableOp x what p = (p1, r1)" by force
  have k1: "p_seen p1 = p_seen p" "p_uses p1 = p_uses p" "p_in_step p1 = p_in_step p"
    using enter_memo[OF p1] by (simp_all add: memo_of_def)
  obtain p2 r2 where p2: "storageName raw label room p1 = (p2, r2)" by force
  have k2: "p_seen p2 = p_seen p" "p_in_step p2 = p_in_step p" using name_memo(1,2)[OF p2] k1 by simp_all
  have both: "writes_once p q \<and> (r = Inr v \<longrightarrow> \<not> isl bound \<and> p_uses q = (p_uses p)(raw := p_uses p raw + 1) \<and>
      (\<exists>memo j. p_seen q (used_key (p_uses p) raw) = Some memo \<and> eventMemoPayload timedOut memo = Inr (Some j) \<and> v = Some j))"
  proof (cases "\<exists>u b key. r1 = Inr u \<and> bound = Inr b \<and> r2 = Inr key")
    case False
    then have "(q = p1 \<or> q = p2) \<and> (\<exists>t. r = Inl t)"
      using assms(5) p1 p2 by (auto simp: and_then_def checked_def split: sum.splits)
    then show ?thesis using k1 k2 same_writes_once by auto
  next
    case True
    then obtain key where key: "r2 = Inr key" "\<not> isl bound" by auto
    have e: "await_through x timedOut key (send key) p2 = (q, r)"
      using assms(5) p1 p2 True key(1) by (auto simp: and_then_def checked_def)
    have n: "key = used_key (p_uses p) raw" "p_uses p2 = (p_uses p)(raw := p_uses p raw + 1)"
      using named[OF p2[unfolded key(1)]] k1 by simp_all
    have "\<forall>m. p_seen p2 key = Some m \<longrightarrow> resolves m"
      using assms(2) name_prefixed[OF assms(4)] n(1) k2(1) unfolding readable_def by metis
    then have w: "wrote_memo timedOut key p2 q r" by (rule through_wrote[OF assms(1) e])
    have "writes_once p q"
      using written.rel_trans[OF same_writes_once[of p2 p] wrote_once[OF w]] k2 by simp
    moreover have "\<exists>memo j. p_seen q (used_key (p_uses p) raw) = Some memo \<and> eventMemoPayload timedOut memo = Inr (Some j) \<and> v = Some j"
      if ok: "r = Inr v"
    proof -
      obtain memo where m: "p_seen q = (p_seen p2)(key \<mapsto> memo)" "resolves memo" "eventMemoPayload timedOut memo = Inr v"
        using w ok by (auto simp: wrote_memo_def)
      obtain j where "v = Some j" using m(2,3) by (auto simp: resolves_def eventMemoPayload_def split: if_splits)
      then show ?thesis using m(1,3) n(1) by simp
    qed
    ultimately show ?thesis using w n key(2) by (simp add: wrote_memo_def)
  qed
  then show "writes_once p q"
    "r = Inr v \<Longrightarrow> \<not> isl bound \<and> p_uses q = (p_uses p)(raw := p_uses p raw + 1) \<and>
      (\<exists>memo j. p_seen q (used_key (p_uses p) raw) = Some memo \<and> eventMemoPayload timedOut memo = Inr (Some j) \<and> v = Some j)"
    by simp_all
qed


text \<open>A spawn: nothing of the pass but the memo it commits once the child is there.\<close>

definition commits :: "string \<Rightarrow> ('s, string \<times> string) act \<Rightarrow> bool" where
  "commits key m =
     (\<forall>p q r. m p = (q, r) \<longrightarrow> p_uses q = p_uses p \<and> p_in_step q = p_in_step p \<and>
        (p_seen q = p_seen p \<and> (\<exists>t. r = Inl t) \<or> (\<exists>memo. p_seen q = (p_seen p)(key \<mapsto> memo) \<and> r = childTaskOf memo)))"

lemma commits_then:
  assumes "memo_still.keeps m" "\<And>p. p_in_step (fst (m p)) = p_in_step p" "\<And>a. commits key (f a)"
  shows "commits key (and_then m f)"
  unfolding commits_def
proof (intro allI impI)
  fix p q r assume h: "and_then m f p = (q, r)"
  obtain a ra where a: "m p = (a, ra)" by force
  have k: "p_seen a = p_seen p" "p_uses a = p_uses p" "p_in_step a = p_in_step p"
    using memo_kept[OF assms(1), of p] assms(2)[of p] a by (simp_all add: memo_of_def)
  show "p_uses q = p_uses p \<and> p_in_step q = p_in_step p \<and>
      (p_seen q = p_seen p \<and> (\<exists>t. r = Inl t) \<or> (\<exists>memo. p_seen q = (p_seen p)(key \<mapsto> memo) \<and> r = childTaskOf memo))"
  proof (cases ra)
    case (Inl t)
    then show ?thesis using h a k by (auto simp: and_then_def)
  next
    case (Inr u)
    then have "f u a = (q, r)" using h a by (simp add: and_then_def)
    then have "p_uses q = p_uses a \<and> p_in_step q = p_in_step a \<and>
        (p_seen q = p_seen a \<and> (\<exists>t. r = Inl t) \<or> (\<exists>memo. p_seen q = (p_seen a)(key \<mapsto> memo) \<and> r = childTaskOf memo))"
      using assms(3)[of u] unfolding commits_def by blast
    then show ?thesis using k by simp
  qed
qed

lemma commit_commits: "commits key (and_then (commitCheckpoint x key label raw) (\<lambda>v. checked (childTaskOf v)))"
  unfolding commits_def
proof (intro allI impI)
  fix p q r assume h: "and_then (commitCheckpoint x key label raw) (\<lambda>v. checked (childTaskOf v)) p = (q, r)"
  obtain a ra where a: "commitCheckpoint x key label raw p = (a, ra)" by force
  then show "p_uses q = p_uses p \<and> p_in_step q = p_in_step p \<and>
      (p_seen q = p_seen p \<and> (\<exists>t. r = Inl t) \<or> (\<exists>memo. p_seen q = (p_seen p)(key \<mapsto> memo) \<and> r = childTaskOf memo))"
  proof (cases rule: commit_cases)
    case (refused t)
    then show ?thesis using h a by (auto simp: and_then_def)
  next
    case (committed state v)
    then show ?thesis using h a by (auto simp: and_then_def checked_def)
  qed
qed

lemma recast_fst: "fst (recast f m p) = fst (m p)"
  by (simp add: recast_def split: prod.split sum.split)

lemma spawn_commits:
  assumes "p_seen p key = None" "runSpawn x key name params queue opts p = (q, r)"
  shows "p_uses q = p_uses p \<and> p_in_step q = p_in_step p \<and>
    (p_seen q = p_seen p \<and> (\<exists>t. r = Inl t) \<or> (\<exists>memo. p_seen q = (p_seen p)(key \<mapsto> memo) \<and> r = childTaskOf memo))"
proof -
  have refuse: "memo_still.keeps refuseForwardProgress" "p_in_step (fst (refuseForwardProgress a)) = p_in_step a" for a :: "'a pass"
    by (auto simp: memo_still.keeps_def same_memo_def refuseForwardProgress_def act_defs memo_of_def)
  have recast: "memo_still.keeps (recast f (storeCall operation))" "p_in_step (fst (recast f (storeCall operation) a)) = p_in_step a"
    for f and operation :: "('a, 'b) op" and a
    using memo_still.keeps_recast[OF store_call_memo] call_in_step[of operation a] recast_fst[of f "storeCall operation" a] by auto
  let ?queue = "case queue of JsUndefined \<Rightarrow> give (x_queue x)
      | JsString q \<Rightarrow> if q = [] then throw (FatalTask name) else give q | _ \<Rightarrow> throw (FatalTask name)"
  have queue: "memo_still.keeps ?queue" "p_in_step (fst (?queue a)) = p_in_step a" for a :: "'a pass"
    by (auto simp: memo_still.keeps_pure give_def throw_def split: js_value.split)
  have "commits key (and_then refuseForwardProgress (\<lambda>_.
      and_then (checked (serializeTaskValue (x_host x) ''child task params'' params)) (\<lambda>paramsJson.
      and_then ?queue (\<lambda>queue.
      and_then (recast (spawn_refused name)
         (storeCall (w_spawn (x_store x) queue name paramsJson
            (opts\<lparr>so_key := None,
                  so_child := Some \<lparr>co_queue = x_queue x, co_run = wr_run (x_run x), co_task = wr_task (x_run x),
                                    co_token = wr_token (x_run x), co_replay = key\<rparr>\<rparr>)))) (\<lambda>spawned.
      and_then (commitCheckpoint x key ''child task''
         (Some (JObject [(''taskId'', JText (sr_task spawned)), (''queue'', JText queue)]))) (\<lambda>v.
      checked (childTaskOf v)))))))"
    by (intro commits_then commit_commits refuse recast queue memo_still.keeps_pure) (simp add: checked_def)
  then show ?thesis using assms unfolding commits_def by (simp add: runSpawn_def reading_def)
qed

lemma spawn_leaves:
  assumes "\<not> p_in_step p" "exec_call x (Spawn name params queue opts) p = (q, r)"
  shows "left_memo x (Spawn name params queue opts) p q r"
proof -
  let ?c = "Spawn name params queue opts"
  show ?thesis
  proof (cases "parseUserName ''task name'' name")
    case (Inl t)
    then have "q = p \<and> (\<exists>t. r = Inl t)" using assms(2) by (auto simp: spawn_child_def and_then_def checked_def)
    then show ?thesis using written.rel_refl by (auto simp: left_memo_def)
  next
    case n: (Inr n)
    then have nn: "parseUserName ''task name'' name = Inr name" using parsed_name by auto
    let ?rest = "\<lambda>key. and_then (runSpawn x key name params queue opts) (\<lambda>(task, q). give (ChildTask task q))"
    let ?room = "storageName (spawn_key name) ''task name'' IDENTIFIER_CHARACTERS"
    obtain p1 r1 where p1: "enterDurableOp x ''ctx.spawn'' p = (p1, r1)" by force
    have k1: "p_seen p1 = p_seen p" "p_uses p1 = p_uses p" "p_in_step p1 = p_in_step p"
      using enter_memo[OF p1] by (simp_all add: memo_of_def)
    obtain p2 r2 where p2: "?room p1 = (p2, r2)" by force
    have k2: "p_seen p2 = p_seen p" "p_in_step p2 = p_in_step p" using name_memo(1,2)[OF p2] k1 by simp_all
    show ?thesis
    proof (cases "\<exists>u key. r1 = Inr u \<and> r2 = Inr key")
      case False
      then have "(q = p1 \<or> q = p2) \<and> (\<exists>t. r = Inl t)"
        using assms(2) nn p1 p2 by (auto simp: spawn_child_def and_then_def checked_def split: sum.splits)
      then show ?thesis using k1 k2 same_writes_once by (auto simp: left_memo_def)
    next
      case True
      then obtain key where key: "r2 = Inr key" by blast
      have n: "key = used_key (p_uses p) (spawn_key name)" "p_uses p2 = (p_uses p)(spawn_key name := p_uses p (spawn_key name) + 1)"
        using named[OF p2[unfolded key]] k1 by simp_all
      have e: "?rest key p2 = (q, r)" using assms(2) nn p1 p2 True key by (auto simp: spawn_child_def and_then_def checked_def split: prod.splits)
      have "(writes_once p2 q \<and> p_uses q = p_uses p2) \<and> (\<forall>a. r = Inr a \<longrightarrow>
          (\<exists>memo task k. p_seen q key = Some memo \<and> childTaskOf memo = Inr (task, k) \<and> a = ChildTask task k))"
      proof -
        obtain a ra where a: "runSpawn x key name params queue opts p2 = (a, ra)" by force
        have qa: "q = a" "r = map_sum id (\<lambda>(task, k). ChildTask task k) ra"
          using e a by (cases ra; auto simp: and_then_def give_def)+
        show ?thesis
        proof (cases "p_seen p2 key")
          case (Some memo)
          then have "a = p2" "ra = childTaskOf memo" using a by (auto simp: runSpawn_def reading_def checked_def)
          then show ?thesis using qa Some written.rel_refl by (auto simp: map_sum_Inr)
        next
          case None
          note sc = spawn_commits[OF None a]
          have "\<not> prefix ''$await'' key"
            using n(1) by (auto simp: used_key_def Let_def spawn_key_def)
          then have "writes_once p2 a" using sc None same_writes_once new_writes_once by blast
          then show ?thesis using sc qa by (auto simp: map_sum_Inr)
        qed
      qed
      then show ?thesis
        using written.rel_trans[OF same_writes_once[of p2 p]] k2 n nn
        by (auto simp: left_memo_def accepted_def recalled_def memo_at_def raw_name_def used_def)
    qed
  qed
qed

lemma emit_leaves:
  assumes "exec_call x (EmitEvent name payload) p = (q, r)"
  shows "left_memo x (EmitEvent name payload) p q r"
proof -
  have "written.keeps (emit_event x name payload)"
    unfolding emit_event_def by (intro written.keeps_rules written_lease) (simp add: written_call written.keeps_pure)
  then have w: "writes_once p q"
    using assms written.keeps_at[of "exec_call x (EmitEvent name payload)" p] by (simp add: written.keeps_rules)
  have "memo_still.keeps (emit_event x name payload)"
    unfolding emit_event_def by (intro memo_still.keeps_rules lease_memo) (simp add: store_call_memo memo_still.keeps_pure)
  then have m: "memo_of q = memo_of p"
    using assms memo_kept[of "exec_call x (EmitEvent name payload)" p] by (simp add: memo_still.keeps_rules)
  have "accepted x p (EmitEvent name payload)" if ok: "r = Inr a" for a
  proof -
    obtain n u v where "parseUserName ''event name'' name = Inr n" "requireRoom ''event name'' n IDENTIFIER_CHARACTERS = Inr u"
      "userJsonValue (x_host x) ''event payload'' payload = Inr v"
      using assms ok by (auto simp: emit_event_def elim!: and_then_okE dest!: checked_okE)
    then show ?thesis using parsed_name[of "''event name''" name n] by (auto simp: accepted_def)
  qed
  moreover have "a = Done" if "r = Inr a" for a
    using assms that by (auto simp: give_def elim!: and_then_okE)
  ultimately show ?thesis using w m by (auto simp: left_memo_def recalled_def used_def raw_name_def memo_of_def)
qed


lemma mapped_Inr: "(map_sum f g x = Inr y) = (\<exists>a. x = Inr a \<and> y = g a)"
  by (cases x) auto

lemma await_event_leaves:
  assumes "memo_round_trips (x_host x)" "readable p" "\<not> p_in_step p" "exec_call x (AwaitEvent name timeout) p = (q, r)"
  shows "left_memo x (AwaitEvent name timeout) p q r"
proof (cases "parseUserName ''event name'' name")
  case (Inl t)
  then have "q = p \<and> (\<exists>t. r = Inl t)" using assms(4) by (auto simp: await_event_def and_then_def checked_def)
  then show ?thesis using written.rel_refl by (auto simp: left_memo_def)
next
  case (Inr n)
  then have nn: "parseUserName ''event name'' name = Inr name" using parsed_name by auto
  let ?raw = "await_key name" and ?bound = "optional_timeout ''awaitEvent timeoutSeconds'' timeout"
  let ?send = "\<lambda>key. w_await (x_store x) (x_queue x) (wr_task (x_run x)) (wr_run (x_run x)) (wr_token (x_run x)) key name timeout"
  let ?m = "and_then (enterDurableOp x ''ctx.awaitEvent'') (\<lambda>_. and_then (checked ?bound) (\<lambda>_.
      and_then (storageName ?raw ''event name'' IDENTIFIER_CHARACTERS) (\<lambda>key.
       await_through x (EventTimeout name) key (?send key))))"
  have pre: "prefix ''$await'' ?raw" by (simp add: await_key_def)
  obtain rv where m: "?m p = (q, rv)" "r = map_sum id answered_json rv"
    using assms(4) nn by (auto simp: await_event_def and_then_def checked_def give_def split: prod.splits sum.splits)
  note w = await_leaves(1)[OF assms(1-3) pre m(1)]
  have "accepted x p (AwaitEvent name timeout) \<and> recalled (x_host x) (AwaitEvent name timeout) (p_seen q) (p_uses p) = Some a \<and>
      p_uses q = used (AwaitEvent name timeout) (p_uses p)" if ok: "r = Inr a" for a
  proof -
    obtain v where v: "rv = Inr v" "a = answered_json v" using m(2) ok by (cases rv) auto
    show ?thesis using await_leaves(2)[OF assms(1-3) pre m(1) v(1)] v(2) nn
      by (auto simp: accepted_def recalled_def memo_at_def raw_name_def used_def answered_json_def)
  qed
  then show ?thesis using w by (simp add: left_memo_def)
qed

lemma await_task_leaves:
  assumes "memo_round_trips (x_host x)" "readable p" "\<not> p_in_step p" "exec_call x (AwaitTask child timeout) p = (q, r)"
  shows "left_memo x (AwaitTask child timeout) p q r"
proof (cases "childTaskOf child")
  case (Inl t)
  then have "q = p \<and> (\<exists>t. r = Inl t)" using assms(4) by (auto simp: await_task_def and_then_def checked_def)
  then show ?thesis using written.rel_refl by (auto simp: left_memo_def)
next
  case k: (Inr tq)
  obtain task queue where tq: "tq = (task, queue)" by (cases tq)
  show ?thesis
  proof (cases "parseUserName ''child task id'' task")
    case (Inl t)
    then have "q = p \<and> (\<exists>t. r = Inl t)" using assms(4) k tq by (auto simp: await_task_def and_then_def checked_def)
    then show ?thesis using written.rel_refl by (auto simp: left_memo_def)
  next
    case (Inr n)
    then have nn: "parseUserName ''child task id'' task = Inr task" using parsed_name by auto
    let ?raw = "await_task_key task" and ?bound = "optional_timeout ''awaitTask timeoutSeconds'' timeout"
    let ?send = "\<lambda>key. w_await_task (x_store x) (x_queue x) (wr_task (x_run x)) (wr_run (x_run x)) (wr_token (x_run x)) key task timeout"
    let ?m = "and_then (enterDurableOp x ''ctx.awaitTask'') (\<lambda>_. and_then (checked ?bound) (\<lambda>_.
        and_then (storageName ?raw ''child task id'' IDENTIFIER_CHARACTERS) (\<lambda>key.
         await_through x (TaskTimeout task) key (?send key))))"
    let ?decoded = "\<lambda>v. decodeTaskOutcome task (case v of Some (JText s) \<Rightarrow> h_parse (x_host x) s | _ \<Rightarrow> None)"
    have pre: "prefix ''$await'' ?raw" by (simp add: await_task_key_def)
    obtain rv where m: "?m p = (q, rv)" "\<And>a. r = Inr a \<Longrightarrow> \<exists>v out. rv = Inr v \<and> ?decoded v = Inr out \<and> a = ChildOutcome out"
      using assms(4) k tq nn
      by (auto simp: await_task_def and_then_def checked_def give_def recast_def mapped_Inr split: prod.splits sum.splits)
    note w = await_leaves(1)[OF assms(1-3) pre m(1)]
    have "accepted x p (AwaitTask child timeout) \<and> recalled (x_host x) (AwaitTask child timeout) (p_seen q) (p_uses p) = Some a \<and>
        p_uses q = used (AwaitTask child timeout) (p_uses p)" if ok: "r = Inr a" for a
    proof -
      obtain v out where v: "rv = Inr v" "?decoded v = Inr out" "a = ChildOutcome out" using m(2)[OF ok] by blast
      show ?thesis using await_leaves(2)[OF assms(1-3) pre m(1) v(1)] v(2,3) nn k tq
        by (auto simp: accepted_def recalled_def memo_at_def raw_name_def used_def)
    qed
    then show ?thesis using w by (simp add: left_memo_def)
  qed
qed

lemma sleep_written: "written.keeps (sleepFor x seconds)" "written.keeps (sleepUntil x epochMs)"
  unfolding sleepFor_def sleepUntil_def
  by (intro written.keeps_rules written_enter suspend_written)+

lemma call_leaves:
  assumes "memo_round_trips (x_host x)" "readable p" "\<not> p_in_step p" "exec_call x c p = (q, r)"
  shows "left_memo x c p q r"
proof (cases c)
  case (Step name opts body)
  have "written.keeps (exec_call x c)"
    unfolding Step exec_call.simps by (intro written.keeps_rules step_written)
  then have "writes_once p q" using written.keeps_at[of "exec_call x c" p] assms(4) by simp
  then show ?thesis using step_leaves[of x name opts body p q] assms(3,4) Step by (auto simp: left_memo_def)
next
  case (SleepFor seconds)
  have w: "writes_once p q"
    using written.keeps_at[of "exec_call x c" p] assms(4) SleepFor by (simp add: written.keeps_rules sleep_written)
  have "accepted x p c \<and> recalled (x_host x) c (p_seen q) (p_uses p) = Some a \<and> p_uses q = used c (p_uses p)" if ok: "r = Inr a" for a
  proof -
    obtain u where u: "sleepFor x seconds p = (q, Inr u)" "a = Done"
      using assms(4) SleepFor ok by (auto simp: give_def elim!: and_then_okE)
    show ?thesis using sleep_leaves[OF u(1)[unfolded sleepFor_def]] u(2) SleepFor
      by (auto simp: accepted_def recalled_def memo_at_def raw_name_def used_def)
  qed
  then show ?thesis using w by (simp add: left_memo_def)
next
  case (SleepUntil epochMs)
  have w: "writes_once p q"
    using written.keeps_at[of "exec_call x c" p] assms(4) SleepUntil by (simp add: written.keeps_rules sleep_written)
  have "accepted x p c \<and> recalled (x_host x) c (p_seen q) (p_uses p) = Some a \<and> p_uses q = used c (p_uses p)" if ok: "r = Inr a" for a
  proof -
    obtain u where u: "sleepUntil x epochMs p = (q, Inr u)" "a = Done"
      using assms(4) SleepUntil ok by (auto simp: give_def elim!: and_then_okE)
    show ?thesis using sleep_leaves[OF u(1)[unfolded sleepUntil_def]] u(2) SleepUntil
      by (auto simp: accepted_def recalled_def memo_at_def raw_name_def used_def)
  qed
  then show ?thesis using w by (simp add: left_memo_def)
qed (use assms emit_leaves spawn_leaves await_event_leaves await_task_leaves in auto)

section \<open>A whole pass\<close>

text \<open>What the task function is handed, call by call.\<close>

primrec answers :: "'s ctx \<Rightarrow> prog \<Rightarrow> 's pass \<Rightarrow> (thrown + answer) list" where
  "answers x (Finish v) p = []"
| "answers x (Raise t) p = []"
| "answers x (Call c k) p = (case exec_call x c p of (q, r) \<Rightarrow> r # answers x (k r) q)"


lemma used_key_no_marker:
  assumes "raw_name c = Some raw" "accepted x p c"
  shows "\<not> prefix SAGA_STARTED_PREFIX (used_key uses raw)"
proof (cases c)
  case (Step name opts body)
  then have "\<not> prefix ''$'' raw" using assms parsed_name by (fastforce simp: raw_name_def accepted_def elim!: not_islE)
  then have "\<not> prefix ''$'' (used_key uses raw)" using plain_key by (simp add: used_key_def Let_def)
  then show ?thesis by (auto simp: SAGA_STARTED_PREFIX_def prefix_def)
qed (use assms(1) in \<open>auto simp: raw_name_def used_key_def Let_def SAGA_STARTED_PREFIX_def sleep_key_def sleep_until_key_def
      await_key_def spawn_key_def await_task_key_def split: sum.splits\<close>)

lemma recalled_later:
  assumes "recalled h c seen uses = Some a" "accepted x p c"
    "\<And>k v. seen k = Some v \<Longrightarrow> \<not> prefix SAGA_STARTED_PREFIX k \<Longrightarrow> seen' k = Some v"
  shows "recalled h c seen' uses = Some a"
proof (cases "memo_at c seen uses")
  case None
  then show ?thesis using assms(1) by (cases c) (simp_all add: recalled_def)
next
  case (Some memo)
  then obtain raw where "raw_name c = Some raw" "seen (used_key uses raw) = Some memo" by (rule memo_atE)
  then have e: "memo_at c seen' uses = memo_at c seen uses"
    using assms(3) used_key_no_marker[OF _ assms(2)] by (simp add: memo_at_def)
  have "recalled h c seen' uses = recalled h c seen uses" unfolding recalled_def e by (rule refl)
  then show ?thesis using assms(1) by simp
qed

lemma call_written: "memo_round_trips (x_host x) \<Longrightarrow> exec_call x c p = (q, r) \<Longrightarrow> writes_once p q"
  using call_leaves[of x p c q r] by (auto simp: left_memo_def writes_once_def)

lemma prog_written:
  fixes x :: "'s ctx"
  assumes "memo_round_trips (x_host x)"
  shows "writes_once p (fst (exec_prog x pr p))" "True"
proof (induction pr and "c :: call" arbitrary: p)
  case (Call c k)
  obtain q r where q: "exec_call x c p = (q, r)" by force
  then show ?case using written.rel_trans[OF call_written[OF assms q] Call(2)[of "k r" q]] by simp
qed (simp_all add: act_defs written.rel_refl)

lemma accepted_again:
  fixes x y :: "'s ctx"
  assumes "accepted x p c" "x_host y = x_host x" "calm q"
  shows "accepted y q c"
  using assms registration_again[of x _ _ p q y] by (auto simp: accepted_def split: call.splits sum.splits)

text \<open>A second pass over the memos of a first is handed what the first was, up to the first call that
  did not answer, and where every call answered it ends the same.\<close>

lemma replays:
  fixes x y :: "'s ctx"
  assumes "memo_round_trips (x_host x)" "x_host y = x_host x" "lease_steady y" "emits_land y"
  shows "readable p \<Longrightarrow> \<not> p_in_step p \<Longrightarrow> replaying seen (p_uses p) p2 \<Longrightarrow>
      (\<And>k v. p_seen (fst (exec_prog x pr p)) k = Some v \<Longrightarrow> \<not> prefix SAGA_STARTED_PREFIX k \<Longrightarrow> seen k = Some v) \<Longrightarrow>
      prefix (takeWhile (\<lambda>r. \<not> isl r) (answers x pr p)) (answers y pr p2) \<and>
      ((\<forall>r\<in>set (answers x pr p). \<not> isl r) \<longrightarrow> snd (exec_prog y pr p2) = snd (exec_prog x pr p))"
    "True"
proof (induction pr and "c :: call" arbitrary: p p2)
  case (Call c k)
  obtain q r where q: "exec_call x c p = (q, r)" by force
  show ?case
  proof (cases r)
    case (Inl t)
    then show ?thesis using q by simp
  next
    case (Inr a)
    have l: "writes_once p q" "accepted x p c" "recalled (x_host x) c (p_seen q) (p_uses p) = Some a" "p_uses q = used c (p_uses p)"
      using call_leaves[OF assms(1) Call.prems(1,2) q] Inr by (simp_all add: left_memo_def)
    have ready: "readable q" "\<not> p_in_step q" using l(1) Call.prems(1,2) by (simp_all add: writes_once_def)
    have later: "p_seen (fst (exec_prog x (k r) q)) j = Some v" if "p_seen q j = Some v" "\<not> prefix SAGA_STARTED_PREFIX j" for j v
      using prog_written(1)[OF assms(1), of q "k r"] ready that by (simp add: writes_once_def)
    have end_seen: "seen j = Some v" if "p_seen (fst (exec_prog x (k r) q)) j = Some v" "\<not> prefix SAGA_STARTED_PREFIX j" for j v
      using Call.prems(4)[of j v] that q by simp
    have rec: "recalled (x_host y) c seen (p_uses p) = Some a"
      unfolding assms(2) by (rule recalled_later[OF l(3,2)]) (use later end_seen in blast)
    have acc: "accepted y p2 c" using accepted_again[OF l(2) assms(2)] Call.prems(3) by (simp add: replaying_def)
    obtain q2 where q2: "exec_call y c p2 = (q2, Inr a)" "replaying seen (used c (p_uses p)) q2"
      using recalls[OF assms(3,4) Call.prems(3) acc rec] by blast
    have "replaying seen (p_uses q) q2" using q2(2) l(4) by simp
    from Call(2)[of "k r" q q2, OF _ ready this end_seen]
    show ?thesis using q q2(1) Inr by simp
  qed
qed (simp_all add: act_defs)

end
