(* ===== verification/Activation.thy ===== *)
theory Activation
  imports Refusals Claimed_Answer
begin

text \<open>
  The two sides of an activation. What the store answers a worker that activated its claim is a value
  the worker's decoder takes, field by field, with the same run in it.
\<close>

lemma activation_row:
  assumes "inv db" "fresh seed db" "activate seed now queue rid token gen db = (db', Inr (Some c))"
  obtains r t where "inv db'" "r \<in> set (runs db')" "t \<in> set (tasks db')" "t_id t = r_task r" "live (r_state r)"
    "decodeClaimedRun token r t = Inr c"
proof -
  obtain g where g: "requirePositiveClaimGeneration ''activate.claimGen'' gen = Inr g" "g = gen"
    using assms(3) by (auto simp: activate_def requirePositiveClaimGeneration_def split: if_splits)
  obtain res where b: "run_batch (activate_batch seed now queue rid token gen) db = (db', Inr res)" and won: "won res = Some ''activate''"
    and row: "\<exists>r t. activatedRun seed rid db' = Some (r, t) \<and> decodeClaimedRun token r t = Inr c"
    using assms(3) g by (auto simp: activate_def map_sum_Inr split: prod.splits sum.splits if_splits option.splits)
  obtain r t where rt: "activatedRun seed rid db' = Some (r, t)" "decodeClaimedRun token r t = Inr c" using row by blast
  note row = activated_row[OF assms(1,2) g(1)[unfolded g(2)] b rt(1) won]
  show thesis by (rule that[OF _ _ _ _ _ rt(2)]) (use row in simp_all)
qed

text \<open>The names are the ones the ids and the spawn gave; the decoder asks of them that they are not empty.\<close>

definition nameable :: "string \<Rightarrow> claimed_run \<Rightarrow> bool" where
  "nameable token c = (token \<noteq> [] \<and> cr_run c \<noteq> [] \<and> cr_task c \<noteq> [] \<and> cr_task_name c \<noteq> [] \<and> wake_well_formed (cr_wake c))"

lemma activation_taken:
  assumes "inv db" "fresh seed db" "activate seed now queue rid token gen db = (db', Inr (Some c))" "nameable token c"
  shows "\<exists>w. decodeClaimedRunAnswer (answer_value c) = Inr w \<and> wr_run w = cr_run c \<and> wr_task w = cr_task c \<and>
    wr_token w = token \<and> wr_attempt w = cr_attempt c \<and> wr_infra w = cr_infra c \<and>
    wr_lease w = of_int (cr_lease_ms c) / 1000 \<and> wr_max_attempts w = cr_max_attempts c \<and> wr_retry w = cr_retry c"
proof -
  obtain r t where rt: "inv db'" "r \<in> set (runs db')" "t \<in> set (tasks db')" "t_id t = r_task r" "live (r_state r)"
    "decodeClaimedRun token r t = Inr c"
    by (rule activation_row[OF assms(1-3)])
  have "storedCurrentRunAccounting r t" using inv_live_run(2)[OF rt(1,2,5,3,4)] by (simp add: carries_def)
  then obtain a i where n: "t_infra t = Num i" "r_attempt r = Num (a + i + 1)" "0 \<le> a" using accountingD by blast
  have c: "cr_run c = r_id r" "cr_task c = r_task r" "cr_task_name c = t_name t" "cr_infra c = i" "cr_attempt c = a + i + 1"
    using rt(6) n by (auto simp: decodeClaimedRun_def persisted_integer_def split: sum.splits if_splits)
  show ?thesis
    by (rule answer_taken[OF rt(6)]) (use assms(4) c n(3) in \<open>auto simp: nameable_def\<close>)
qed

end
