(* ===== verification/Worker_Scenario.thy ===== *)
theory Worker_Scenario
  imports Worker_Results Replay Activation Scenario Loop
begin

text \<open>
  Workers for the witnesses: a task of one step and its claim over the short life's databases, and a
  store that answers every call, for passes that are evaluated on their own.
\<close>

text \<open>Just enough of \<open>JSON\<close>: the number 7, the start markers of two steps, and an await's memos.\<close>

definition demo_stringify :: "json \<Rightarrow> string" where
  "demo_stringify j =
     (case j of
        JInt i \<Rightarrow> if i = 1 then ''1'' else if i = 2 then ''2'' else ''7''
      | JObject ms \<Rightarrow> (case ms of (k, JText s) # _ \<Rightarrow> CHR ''p'' # s | _ \<Rightarrow> ''t'')
      | _ \<Rightarrow> ''n'')"

definition demo_parse :: "string \<Rightarrow> json option" where
  "demo_parse s =
     (if s = ''1'' then Some (JInt 1) else if s = ''2'' then Some (JInt 2) else if s = ''7'' then Some (JInt 7)
      else if s = ''t'' then Some (JObject [(''timedOut'', JBool True)])
      else if s = ''n'' then Some JNull
      else case s of c # cs \<Rightarrow> if c = CHR ''p'' then Some (JObject [(''payloadJson'', JText cs)]) else None | [] \<Rightarrow> None)"

definition demo_host :: host where
  "demo_host = \<lparr>h_stringify = demo_stringify, h_parse = demo_parse, h_failure = (\<lambda>_. ''n'')\<rparr>"

lemma demo_memos: "memo_round_trips demo_host"
  by (simp add: memo_round_trips_def demo_host_def demo_stringify_def demo_parse_def)

definition demo_surroundings :: surroundings where
  "demo_surroundings =
     \<lparr>v_seed = (\<lambda>_ _. draw_seed), v_id = (\<lambda>n i. replicate (n + 1) CHR ''r''), v_clock = (\<lambda>_ _. 2100), v_others = (\<lambda>_ _ d. d),
      v_link = (\<lambda>_. Works), v_due = (\<lambda>n. n = 3), v_memo = [], v_encode = (\<lambda>_. ''n''), v_decode = (\<lambda>_. None)\<rparr>"

lemma demo_surrounds: "surrounds demo_surroundings" "memo_ok (v_memo demo_surroundings) db"
  using draw_seed_fresh stamps_tell_idle
  by (simp_all add: surrounds_def demo_surroundings_def valid_clock_def MAX_EPOCH_MS_def memo_ok_def id_def)

definition demo_program :: prog where
  "demo_program =
     Call (Step ''pay'' NoOptions (Finish (Some (JInt 7))))
       (\<lambda>r. case r of Inr (Answered v) \<Rightarrow> Finish (Some v) | _ \<Rightarrow> Raise (UserThrew ''lost''))"

definition demo_registry :: "string \<Rightarrow> handler option" where
  "demo_registry name = (if name = ''email'' then Some (\<lambda>params attempt. demo_program) else None)"

definition demo_invocation :: invocation where
  "demo_invocation = \<lparr>i_queue = ''q'', i_run = ''r1'', i_token = ''w'', i_gen = 1\<rparr>"

abbreviation demo_run :: "world \<times> (thrown + worker_outcome)" where
  "demo_run \<equiv> runClaimedRun demo_host (engine_store demo_surroundings) demo_registry demo_invocation (0, db_claimed)"

lemma demo_completes: "snd demo_run = Inr WCompleted"
  by code_simp

lemma demo_run_is: "demo_run = (fst demo_run, Inr WCompleted)"
  using demo_completes by (metis prod.collapse)

lemma demo_reached: "reachable (snd (fst demo_run))"
proof -
  have "leads_to (snd (0 :: nat, db_claimed)) (snd (fst demo_run))"
    by (rule worker_leads[OF demo_surrounds(1) _ demo_surrounds(2)]) (simp add: reachable_claimed)
  then show ?thesis using reachable_leads[OF reachable_claimed] by simp
qed

text \<open>One tick of a driver that runs its workers in line.\<close>

abbreviation demo_tick :: "db \<times> (exn + tick_result)" where
  "demo_tick \<equiv> tick (libsql_store draw_seed (\<lambda>d. ''n'') (\<lambda>i. 2000) (\<lambda>i d. d) (\<lambda>i d. d) False ''q'')
     (inlineLauncher demo_surroundings demo_host demo_registry ''q'') [] ''w'' demo_options db_spawned"

section \<open>A store of its own\<close>

definition silent_store :: "nat worker_store" where
  "silent_store =
     \<lparr>w_task_name = (\<lambda>_ _ _ _ s. (s, Inr None)), w_defer = (\<lambda>_ _ _ _ _ s. (s, Inr ())),
      w_activate = (\<lambda>_ _ _ _ s. (s, Inr None)), w_beat = (\<lambda>_ _ _ _ s. (s, None)),
      w_checkpoints = (\<lambda>_ _ _ s. (s, Inr [])), w_checkpoint = (\<lambda>_ _ _ _ _ _ _ s. (s + 1, Inr ())),
      w_await = (\<lambda>_ _ _ _ _ _ _ s. (s, Inr None)), w_await_task = (\<lambda>_ _ _ _ _ _ _ s. (s, Inr None)),
      w_spawn = (\<lambda>_ _ _ _ s. (s, Inl Unavailable)), w_emit = (\<lambda>_ _ _ s. (s, Inr ())),
      w_suspend = (\<lambda>_ _ _ _ _ _ s. (s, Inr ())), w_complete = (\<lambda>_ _ _ _ s. (s, Inr ())),
      w_fail = (\<lambda>_ _ _ _ _ s. (s, Inr False)), w_fail_rollback = (\<lambda>_ _ _ _ _ _ s. (s, Inr False))\<rparr>"

text \<open>The same store once no checkpoint can be written.\<close>

definition barred_store :: "nat worker_store" where
  "barred_store = silent_store\<lparr>w_checkpoint := (\<lambda>_ _ _ _ _ _ _ s. (s, Inl Unavailable))\<rparr>"

definition demo_worker_run :: worker_run where
  "demo_worker_run =
     \<lparr>wr_run = ''r1'', wr_token = ''w'', wr_task = ''t1'', wr_task_name = ''email'', wr_attempt = 1, wr_infra = 0,
      wr_gen = 1, wr_lease = 30, wr_params = ''n'',
      wr_retry = NoRetry, wr_max_attempts = 3, wr_wake = None\<rparr>"

definition demo_ctx :: "nat worker_store \<Rightarrow> nat ctx" where
  "demo_ctx store = \<lparr>x_host = demo_host, x_store = store, x_queue = ''q'', x_iv = demo_invocation, x_run = demo_worker_run\<rparr>"

definition demo_pass :: "nat pass" where
  "demo_pass = blank_pass demo_worker_run 0"

text \<open>The second pass of the program: the memos of the first, in a store that takes no checkpoint.\<close>

definition demo_replay :: "nat pass" where
  "demo_replay = demo_pass\<lparr>p_seen := p_seen (fst (exec_prog (demo_ctx silent_store) demo_program demo_pass))\<rparr>"

text \<open>Two steps that started, one after the other, and a failure to roll them back for.\<close>

definition demo_registration :: registration where
  "demo_registration =
     \<lparr>rr_name = ''undo'', rr_handler = (\<lambda>_ _. Finish None), rr_max = 3, rr_retry = NoRetry, rr_output = None\<rparr>"

definition demo_owing :: "nat pass" where
  "demo_owing = demo_pass\<lparr>p_starts := [''a'' \<mapsto> 1, ''b'' \<mapsto> 2], p_started := [''a'', ''b''], p_top := 2,
     p_registered := [''a'' \<mapsto> demo_registration, ''b'' \<mapsto> demo_registration], p_cause := Some ''7''\<rparr>"

end
