(* ===== verification/Delivery.thy ===== *)
theory Delivery
  imports Prelude
begin

text \<open>
  The order in which a pass hands the results of calls that are queued together to its task (sdk
  \<open>delivery-order.ts\<close>). Each result has a number; a result is handed_over over when every lower number was
  handed_over over or given up. A promise of the code is a waker, and the event loop's turn an operation
  that follows a release some time later.
\<close>

section \<open>State\<close>

definition COMPACT_AT :: nat where "COMPACT_AT = 1024"

record 'e delivery =
  d_queue :: "nat list"
  d_head :: nat
  d_floor :: nat
  d_done :: "nat set"
  d_waiting :: "nat \<Rightarrow> nat option"
  d_resolvers :: "nat list"
  d_waitingCount :: nat
  d_open :: bool
  d_draining :: bool
  d_idlers :: "nat list"
  d_endedBy :: "'e option"
  d_next :: nat
  d_firstLive :: nat
  d_settling :: bool
  d_turn :: bool
  d_progress :: nat
  d_beatProgress :: nat
  d_wakers :: nat
  d_resolved :: "nat set"
  d_turns :: nat

text \<open>\<open>d_wakers\<close> numbers the promises, \<open>d_resolved\<close> holds those that were resolved, and \<open>d_turns\<close>
  counts the turns that were asked of the event loop and have not come.\<close>

definition new_order :: "nat list \<Rightarrow> nat \<Rightarrow> 'e delivery" where
  "new_order recorded highest =
     \<lparr>d_queue = recorded, d_head = 0, d_floor = 0, d_done = {}, d_waiting = Map.empty, d_resolvers = [],
      d_waitingCount = 0, d_open = False, d_draining = False, d_idlers = [], d_endedBy = None,
      d_next = highest + 1, d_firstLive = highest + 1, d_settling = False, d_turn = False,
      d_progress = 0, d_beatProgress = 0, d_wakers = 0, d_resolved = {}, d_turns = 0\<rparr>"

definition assign :: "'e delivery \<Rightarrow> 'e delivery \<times> nat" where
  "assign d = (d\<lparr>d_next := d_next d + 1, d_queue := d_queue d @ [d_next d]\<rparr>, d_next d)"

definition reserve :: "'e delivery \<Rightarrow> 'e delivery \<times> nat" where
  "reserve d = (d\<lparr>d_next := d_next d + 1\<rparr>, d_next d)"

section \<open>The head of the queue\<close>

function skip_done :: "'e delivery \<Rightarrow> 'e delivery" where
  "skip_done d =
     (if d_head d < length (d_queue d) \<and> d_queue d ! d_head d \<in> d_done d then
        let seq = d_queue d ! d_head d
        in skip_done (d\<lparr>d_done := d_done d - {seq}, d_floor := seq + 1, d_head := d_head d + 1\<rparr>)
      else d)"
  by pat_completeness auto

termination
  by (relation "measure (\<lambda>d. length (d_queue d) - d_head d)") auto

declare skip_done.simps [simp del]

definition compact :: "'e delivery \<Rightarrow> 'e delivery" where
  "compact d = (if COMPACT_AT \<le> d_head d then d\<lparr>d_queue := drop (d_head d) (d_queue d), d_head := 0\<rparr> else d)"

definition advance :: "'e delivery \<Rightarrow> 'e delivery" where
  "advance d = compact (skip_done d)"

definition isDone :: "'e delivery \<Rightarrow> nat \<Rightarrow> bool" where
  "isDone d seq = (seq < d_floor d \<or> seq \<in> d_done d)"

definition at_head :: "'e delivery \<Rightarrow> nat option" where
  "at_head d = (if d_head d < length (d_queue d) then Some (d_queue d ! d_head d) else None)"

definition isTurn :: "nat \<Rightarrow> 'e delivery \<Rightarrow> 'e delivery \<times> bool" where
  "isTurn seq d = (let d1 = advance d in (d1, at_head d1 = Some seq \<and> \<not> d_settling d1))"

section \<open>Waiting and waking\<close>

definition order_busy :: "'e delivery \<Rightarrow> bool" where
  "order_busy d = (d_settling d \<or> 0 < d_waitingCount d)"

definition resolve_waker :: "nat \<Rightarrow> 'e delivery \<Rightarrow> 'e delivery" where
  "resolve_waker w d =
     (if w \<in> d_resolved d then d
      else d\<lparr>d_resolved := insert w (d_resolved d), d_waitingCount := d_waitingCount d - 1\<rparr>)"

definition notifyIdle :: "'e delivery \<Rightarrow> 'e delivery" where
  "notifyIdle d = (if order_busy d then d else d\<lparr>d_idlers := [], d_resolved := d_resolved d \<union> set (d_idlers d)\<rparr>)"

definition wait_turn :: "nat \<Rightarrow> 'e delivery \<Rightarrow> 'e delivery \<times> nat option" where
  "wait_turn seq d =
     (if d_open d \<or> isDone d seq then (d, None)
      else let (d1, turn) = isTurn seq d in
        if turn then (d1, None)
        else let w = d_wakers d1 in
          (d1\<lparr>d_beatProgress := if d_waitingCount d1 = 0 then d_progress d1 else d_beatProgress d1,
              d_waitingCount := d_waitingCount d1 + 1, d_wakers := w + 1,
              d_waiting := (d_waiting d1)(seq \<mapsto> w), d_resolvers := d_resolvers d1 @ [w]\<rparr>, Some w))"

text \<open>What is queued from the head on, and what skipping does to it.\<close>

definition queued :: "'e delivery \<Rightarrow> nat list" where
  "queued d = drop (d_head d) (d_queue d)"

fun skip_marked :: "nat list \<Rightarrow> nat set \<Rightarrow> nat list" where
  "skip_marked [] A = []"
| "skip_marked (s # ss) A = (if s \<in> A then skip_marked ss (A - {s}) else s # ss)"

lemma pending_Cons: "d_head d < length (d_queue d) \<Longrightarrow> queued d = d_queue d ! d_head d # drop (d_head d + 1) (d_queue d)"
  by (simp add: queued_def Cons_nth_drop_Suc)

lemma head_pending: "at_head d = (case queued d of [] \<Rightarrow> None | s # ss \<Rightarrow> Some s)"
proof (cases "d_head d < length (d_queue d)")
  case True
  then show ?thesis by (simp add: at_head_def pending_Cons)
qed (simp add: at_head_def queued_def)

lemma pending_skip: "queued (skip_done d) = skip_marked (queued d) (d_done d)"
proof (induction d rule: skip_done.induct)
  case (1 d)
  show ?case
  proof (cases "d_head d < length (d_queue d)")
    case True
    then show ?thesis
      using 1 by (subst skip_done.simps) (auto simp: Let_def pending_Cons[OF True], simp add: queued_def)
  qed (subst skip_done.simps, simp add: queued_def)
qed

lemma pending_advance: "queued (advance d) = skip_marked (queued d) (d_done d)"
proof -
  have "queued (compact e) = queued e" for e :: "'a delivery" by (simp add: compact_def queued_def)
  then show ?thesis by (simp add: advance_def pending_skip)
qed

lemma skips_length: "length (skip_marked ss A) \<le> length ss"
  by (induction ss A rule: skip_marked.induct) auto

text \<open>A turn of the loop gives the head up, so the next one skip_marked it.\<close>

definition turns_left :: "'e delivery \<Rightarrow> nat" where
  "turns_left d = 2 * length (queued d) - (case queued d of [] \<Rightarrow> 0 | s # ss \<Rightarrow> if s \<in> d_done d then 1 else 0)"

lemma given_up_falls:
  assumes "at_head (advance d) = Some seq"
  shows "turns_left ((advance d)\<lparr>d_done := insert seq (d_done (advance d))\<rparr>) < turns_left d"
proof -
  obtain rest where r: "skip_marked (queued d) (d_done d) = seq # rest"
    using assms by (auto simp: head_pending pending_advance split: list.splits)
  obtain s ss where p: "queued d = s # ss" using r by (cases "queued d") auto
  have "length (skip_marked ss (d_done d - {s})) \<le> length ss" by (rule skips_length)
  then have l: "length (seq # rest) \<le> length (queued d) - (if s \<in> d_done d then 1 else 0)"
    using r p by (auto split: if_splits)
  have "queued ((advance d)\<lparr>d_done := insert seq (d_done (advance d))\<rparr>) = seq # rest"
    using r pending_advance[of d] by (simp add: queued_def)
  then show ?thesis using l p by (auto simp: turns_left_def)
qed

function wake_order :: "'e delivery \<Rightarrow> 'e delivery" where
  "wake_order d =
     (let d1 = advance d in
      if d_settling d1 then d1
      else if d_waitingCount d1 = 0 then notifyIdle (d1\<lparr>d_draining := False\<rparr>)
      else case at_head d1 of
        None \<Rightarrow> d1
      | Some seq \<Rightarrow>
          (case d_waiting d1 seq of
             Some w \<Rightarrow> notifyIdle (resolve_waker w (d1\<lparr>d_waiting := (d_waiting d1)(seq := None)\<rparr>))
           | None \<Rightarrow>
               if \<not> d_draining d1 \<or> d_firstLive d1 \<le> seq then d1
               else wake_order (d1\<lparr>d_done := insert seq (d_done d1)\<rparr>)))"
  by pat_completeness auto


termination
  by (relation "measure turns_left") (auto intro: given_up_falls)

declare wake_order.simps [simp del]

section \<open>What the calls of a pass do\<close>

definition release :: "nat \<Rightarrow> bool \<Rightarrow> 'e delivery \<Rightarrow> 'e delivery" where
  "release seq settle d =
     (let d1 = d\<lparr>d_done := insert seq (d_done d), d_progress := d_progress d + 1\<rparr> in
      if settle \<and> d_turn d1 then d1\<lparr>d_settling := True, d_turns := d_turns d1 + 1\<rparr>
      else wake_order d1)"

text \<open>The turn a release asked for has come (\<open>settleAfter\<close> past its await).\<close>

definition turned :: "'e delivery \<Rightarrow> 'e delivery" where
  "turned d = notifyIdle (wake_order (d\<lparr>d_settling := False, d_turns := d_turns d - 1\<rparr>))"

definition useTurn :: "'e delivery \<Rightarrow> 'e delivery" where
  "useTurn d = d\<lparr>d_turn := True\<rparr>"

definition open_order :: "'e delivery \<Rightarrow> 'e delivery" where
  "open_order d = notifyIdle (fold resolve_waker (d_resolvers d) (d\<lparr>d_open := True, d_resolvers := []\<rparr>))"

definition end_order :: "'e \<Rightarrow> 'e delivery \<Rightarrow> 'e delivery" where
  "end_order e d = open_order (d\<lparr>d_endedBy := (case d_endedBy d of None \<Rightarrow> Some e | Some x \<Rightarrow> Some x)\<rparr>)"

definition abandon :: "nat \<Rightarrow> 'e delivery \<Rightarrow> 'e delivery" where
  "abandon seq d = wake_order (d\<lparr>d_done := insert seq (d_done d)\<rparr>)"

definition order_idle :: "'e delivery \<Rightarrow> 'e delivery \<times> nat" where
  "order_idle d = (let w = d_wakers d in (d\<lparr>d_wakers := w + 1, d_idlers := d_idlers d @ [w]\<rparr>, w))"

definition stalled :: "'e delivery \<Rightarrow> bool" where
  "stalled d = (0 < d_waitingCount d)"

definition order_beat :: "'e delivery \<Rightarrow> 'e delivery" where
  "order_beat d =
     (let stuck = stalled d \<and> d_progress d = d_beatProgress d;
          d1 = d\<lparr>d_beatProgress := d_progress d\<rparr>
      in if stuck then wake_order (d1\<lparr>d_draining := True\<rparr>) else d1)"

definition giveUpOnHead :: "'e delivery \<Rightarrow> 'e delivery \<times> bool" where
  "giveUpOnHead d =
     (let d1 = advance d in
      case at_head d1 of
        None \<Rightarrow> (d1, False)
      | Some seq \<Rightarrow>
          if d_firstLive d1 \<le> seq \<or> d_waiting d1 seq \<noteq> None then (d1, False) else (abandon seq d1, True))"

section \<open>What holds while calls are handed_over over\<close>

text \<open>\<open>Q\<close> holds every number that was recorded or assigned. What is queued is in ascending order, and
  a number of \<open>Q\<close> that is queued no more is done; a waker that waits has a number that is queued or
  done.\<close>

definition order_ok :: "nat set \<Rightarrow> 'e delivery \<Rightarrow> bool" where
  "order_ok Q d =
     (sorted_wrt (<) (queued d) \<and> set (queued d) \<subseteq> Q \<and> (\<forall>s\<in>Q. s < d_next d) \<and>
      (\<forall>s\<in>Q. s \<in> set (queued d) \<or> s < d_floor d) \<and> (\<forall>s\<in>set (queued d). d_floor d \<le> s) \<and>
      d_floor d \<le> d_next d)"

lemma skips_ascending:
  assumes "sorted_wrt (<) ss"
  shows "skip_marked ss A = dropWhile (\<lambda>s. s \<in> A) ss"
  using assms
proof (induction ss A rule: skip_marked.induct)
  case (2 s ss A)
  have "dropWhile (\<lambda>t. t \<in> A - {s}) ss = dropWhile (\<lambda>t. t \<in> A) ss"
    using 2(2) by (induction ss) auto
  then show ?case using 2 by auto
qed simp


text \<open>Skipping keeps the order, and what is done of \<open>Q\<close>.\<close>

definition skip_head :: "'e delivery \<Rightarrow> 'e delivery" where
  "skip_head d = (let seq = d_queue d ! d_head d in d\<lparr>d_done := d_done d - {seq}, d_floor := seq + 1, d_head := d_head d + 1\<rparr>)"

lemma skipped_ok:
  assumes "order_ok Q d" "d_head d < length (d_queue d)" "d_queue d ! d_head d \<in> d_done d"
  shows "order_ok Q (skip_head d)" "s \<in> Q \<Longrightarrow> isDone (skip_head d) s = isDone d s"
proof -
  let ?h = "d_queue d ! d_head d"
  have p: "queued d = ?h # queued (skip_head d)"
    using pending_Cons[OF assms(2)] by (simp add: queued_def skip_head_def Let_def)
  have q: "d_floor (skip_head d) = ?h + 1" "d_done (skip_head d) = d_done d - {?h}" "d_next (skip_head d) = d_next d"
    by (simp_all add: skip_head_def Let_def)
  have later: "\<forall>s\<in>set (queued (skip_head d)). ?h < s" "sorted_wrt (<) (queued (skip_head d))" "?h \<in> Q"
    using assms(1) p by (simp_all add: order_ok_def)
  show "order_ok Q (skip_head d)"
    using assms(1) p q later by (auto simp: order_ok_def Suc_le_eq)
  show "isDone (skip_head d) s = isDone d s" if "s \<in> Q"
  proof -
    have s: "s = ?h \<or> s \<in> set (queued (skip_head d)) \<or> s < d_floor d" using assms(1) p that by (auto simp: order_ok_def)
    have "d_floor d \<le> ?h" using assms(1) p by (simp add: order_ok_def)
    then show ?thesis using s later(1) q(1,2) assms(3) by (auto simp: isDone_def)
  qed
qed

lemma skip_done_ok:
  "order_ok Q d \<Longrightarrow> order_ok Q (skip_done d) \<and> (\<forall>s\<in>Q. isDone (skip_done d) s = isDone d s)"
proof (induction d rule: skip_done.induct)
  case (1 d)
  show ?case
  proof (cases "d_head d < length (d_queue d) \<and> d_queue d ! d_head d \<in> d_done d")
    case True
    then have "skip_done d = skip_done (skip_head d)" by (subst skip_done.simps) (simp add: skip_head_def Let_def)
    moreover have "order_ok Q (skip_head d)" "\<forall>s\<in>Q. isDone (skip_head d) s = isDone d s" using skipped_ok 1(2) True by blast+
    ultimately show ?thesis using 1(1)[OF True refl] by (simp add: skip_head_def Let_def)
  next
    case False
    then have "skip_done d = d" by (subst skip_done.simps) auto
    then show ?thesis using 1(2) by simp
  qed
qed

lemma advance_ok:
  assumes "order_ok Q d"
  shows "order_ok Q (advance d)" "s \<in> Q \<Longrightarrow> isDone (advance d) s = isDone d s"
  using skip_done_ok[OF assms]
  by (auto simp: advance_def compact_def order_ok_def queued_def isDone_def)

lemma skip_done_rest:
  "d_waiting (skip_done d) = d_waiting d \<and> d_resolvers (skip_done d) = d_resolvers d \<and> d_waitingCount (skip_done d) = d_waitingCount d \<and>
   d_open (skip_done d) = d_open d \<and> d_draining (skip_done d) = d_draining d \<and> d_idlers (skip_done d) = d_idlers d \<and>
   d_next (skip_done d) = d_next d \<and> d_firstLive (skip_done d) = d_firstLive d \<and> d_settling (skip_done d) = d_settling d \<and>
   d_wakers (skip_done d) = d_wakers d \<and> d_resolved (skip_done d) = d_resolved d \<and> d_turns (skip_done d) = d_turns d"
proof (induction d rule: skip_done.induct)
  case (1 d)
  then show ?case
    by (cases "d_head d < length (d_queue d) \<and> d_queue d ! d_head d \<in> d_done d") (subst (1 2 3 4 5 6 7 8 9 10 11 12) skip_done.simps, simp add: Let_def)+
qed

lemma advance_rest [simp]:
  "d_waiting (advance d) = d_waiting d" "d_resolvers (advance d) = d_resolvers d" "d_waitingCount (advance d) = d_waitingCount d"
  "d_open (advance d) = d_open d" "d_draining (advance d) = d_draining d" "d_idlers (advance d) = d_idlers d"
  "d_next (advance d) = d_next d" "d_firstLive (advance d) = d_firstLive d" "d_settling (advance d) = d_settling d"
  "d_wakers (advance d) = d_wakers d" "d_resolved (advance d) = d_resolved d" "d_turns (advance d) = d_turns d"
  using skip_done_rest[of d] by (simp_all add: advance_def compact_def)

text \<open>A second advance finds nothing to skip.\<close>

lemma head_not_done:
  assumes "order_ok Q d" "at_head (advance d) = Some s"
  shows "s \<notin> d_done (advance d)" "\<forall>t\<in>Q. t < s \<longrightarrow> isDone (advance d) t"
proof -
  have o: "order_ok Q (advance d)" by (rule advance_ok(1)[OF assms(1)])
  obtain rest where p: "queued (advance d) = s # rest" using assms(2) by (auto simp: head_pending split: list.splits)
  have up: "sorted_wrt (<) (queued d)" using assms(1) by (simp add: order_ok_def)
  then have n: "s \<notin> d_done d"
    using p skips_ascending[OF up] pending_advance[of d] by (metis dropWhile_eq_Cons_conv)
  have "d_floor (advance d) \<le> s" "s \<in> Q" using o p by (simp_all add: order_ok_def)
  then have "\<not> isDone d s \<or> s < d_floor d" using n by (auto simp: isDone_def)
  moreover have "s \<in> set (queued d)" using p skips_ascending[OF up] pending_advance[of d] by (metis list.set_intros(1) set_dropWhileD)
  ultimately have "\<not> isDone d s" using assms(1) by (auto simp: order_ok_def)
  then show "s \<notin> d_done (advance d)" using advance_ok(2)[OF assms(1) \<open>s \<in> Q\<close>] by (simp add: isDone_def)
  show "\<forall>t\<in>Q. t < s \<longrightarrow> isDone (advance d) t"
  proof (intro ballI impI)
    fix t assume t: "t \<in> Q" "t < s"
    then have "t \<notin> set (queued (advance d))" using o p by (auto simp: order_ok_def)
    then show "isDone (advance d) t" using o t(1) by (auto simp: order_ok_def isDone_def)
  qed
qed


section \<open>What a wake_order does\<close>

definition given_up :: "nat \<Rightarrow> 'e delivery \<Rightarrow> 'e delivery" where
  "given_up seq d = (advance d)\<lparr>d_done := insert seq (d_done (advance d))\<rparr>"

definition handed_over :: "nat \<Rightarrow> nat \<Rightarrow> 'e delivery \<Rightarrow> 'e delivery" where
  "handed_over seq w d = notifyIdle (resolve_waker w ((advance d)\<lparr>d_waiting := (d_waiting d)(seq := None)\<rparr>))"

lemma wake_rule :
  assumes "\<And>d. d_settling d \<Longrightarrow> P d (advance d)"
    and "\<And>d. \<not> d_settling d \<Longrightarrow> d_waitingCount d = 0 \<Longrightarrow> P d (notifyIdle ((advance d)\<lparr>d_draining := False\<rparr>))"
    and "\<And>d. \<not> d_settling d \<Longrightarrow> at_head (advance d) = None \<Longrightarrow> P d (advance d)"
    and "\<And>d seq w. \<not> d_settling d \<Longrightarrow> d_waitingCount d \<noteq> 0 \<Longrightarrow> at_head (advance d) = Some seq \<Longrightarrow> d_waiting d seq = Some w \<Longrightarrow> P d (handed_over seq w d)"
    and "\<And>d seq. \<not> d_settling d \<Longrightarrow> at_head (advance d) = Some seq \<Longrightarrow> d_waiting d seq = None \<Longrightarrow>
        \<not> d_draining d \<or> d_firstLive d \<le> seq \<Longrightarrow> P d (advance d)"
    and "\<And>d seq. \<not> d_settling d \<Longrightarrow> at_head (advance d) = Some seq \<Longrightarrow> d_waiting d seq = None \<Longrightarrow> d_draining d \<Longrightarrow>
        seq < d_firstLive d \<Longrightarrow> P (given_up seq d) (wake_order (given_up seq d)) \<Longrightarrow> P d (wake_order (given_up seq d))"
  shows "P d (wake_order d)"
proof (induction d rule: wake_order.induct)
  case (1 d)
  note w = wake_order.simps[of d, unfolded Let_def]
  consider (a) "d_settling d" | (b) "\<not> d_settling d" "d_waitingCount d = 0" | (c) "\<not> d_settling d" "d_waitingCount d \<noteq> 0" "at_head (advance d) = None"
    | (e) seq wk where "\<not> d_settling d" "d_waitingCount d \<noteq> 0" "at_head (advance d) = Some seq" "d_waiting d seq = Some wk"
    | (f) seq where "\<not> d_settling d" "d_waitingCount d \<noteq> 0" "at_head (advance d) = Some seq" "d_waiting d seq = None" "\<not> d_draining d \<or> d_firstLive d \<le> seq"
    | (g) seq where "\<not> d_settling d" "d_waitingCount d \<noteq> 0" "at_head (advance d) = Some seq" "d_waiting d seq = None" "d_draining d" "seq < d_firstLive d"
    by (metis not_le option.exhaust)
  then show ?case
  proof cases
    case g
    have "P (given_up seq d) (wake_order (given_up seq d))" unfolding given_up_def by (rule 1[OF refl]) (use g in auto)
    then show ?thesis using w g assms(6)[of d seq] by (simp add: given_up_def)
  qed (use w assms(1-5) in \<open>auto simp: handed_over_def\<close>)
qed

lemma pending_update [simp]:
  "queued (d\<lparr>d_draining := b\<rparr>) = queued d" "queued (d\<lparr>d_waiting := m\<rparr>) = queued d" "queued (d\<lparr>d_done := A\<rparr>) = queued d"
  "queued (d\<lparr>d_beatProgress := n\<rparr>) = queued d" "queued (d\<lparr>d_settling := b\<rparr>) = queued d"
  by (simp_all add: queued_def)

lemma notify_rest [simp]:
  "d_waiting (notifyIdle d) = d_waiting d" "d_waitingCount (notifyIdle d) = d_waitingCount d" "d_open (notifyIdle d) = d_open d"
  "d_next (notifyIdle d) = d_next d" "d_firstLive (notifyIdle d) = d_firstLive d" "d_settling (notifyIdle d) = d_settling d"
  "d_wakers (notifyIdle d) = d_wakers d" "d_done (notifyIdle d) = d_done d" "queued (notifyIdle d) = queued d" "d_floor (notifyIdle d) = d_floor d"
  "d_resolvers (notifyIdle d) = d_resolvers d"
  by (simp_all add: notifyIdle_def queued_def)

lemma resolve_rest [simp]:
  "d_waiting (resolve_waker w d) = d_waiting d" "d_open (resolve_waker w d) = d_open d" "d_idlers (resolve_waker w d) = d_idlers d"
  "d_next (resolve_waker w d) = d_next d" "d_firstLive (resolve_waker w d) = d_firstLive d" "d_settling (resolve_waker w d) = d_settling d"
  "d_wakers (resolve_waker w d) = d_wakers d" "d_done (resolve_waker w d) = d_done d" "queued (resolve_waker w d) = queued d" "d_floor (resolve_waker w d) = d_floor d"
  "d_resolvers (resolve_waker w d) = d_resolvers d" "d_resolved (resolve_waker w d) = insert w (d_resolved d)"
  by (auto simp: resolve_waker_def queued_def)

lemma same_order:
  "queued e = queued d \<Longrightarrow> d_floor e = d_floor d \<Longrightarrow> d_next e = d_next d \<Longrightarrow> order_ok Q e = order_ok Q d"
  by (simp add: order_ok_def)

lemma handed_rest [simp]:
  "queued (handed_over seq w d) = queued (advance d)" "d_done (handed_over seq w d) = d_done (advance d)" "d_floor (handed_over seq w d) = d_floor (advance d)"
  "d_next (handed_over seq w d) = d_next d" "d_firstLive (handed_over seq w d) = d_firstLive d" "d_open (handed_over seq w d) = d_open d"
  "d_settling (handed_over seq w d) = d_settling d" "d_waiting (handed_over seq w d) = (d_waiting d)(seq := None)" "d_wakers (handed_over seq w d) = d_wakers d"
  by (simp_all add: handed_over_def)

lemma given_up_rest [simp]:
  "d_next (given_up seq d) = d_next d" "d_firstLive (given_up seq d) = d_firstLive d" "d_open (given_up seq d) = d_open d"
  "d_settling (given_up seq d) = d_settling d" "d_waiting (given_up seq d) = d_waiting d" "d_wakers (given_up seq d) = d_wakers d"
  "d_waitingCount (given_up seq d) = d_waitingCount d" "d_resolved (given_up seq d) = d_resolved d" "d_idlers (given_up seq d) = d_idlers d"
  "d_draining (given_up seq d) = d_draining d" "queued (given_up seq d) = queued (advance d)" "d_floor (given_up seq d) = d_floor (advance d)"
  "d_done (given_up seq d) = insert seq (d_done (advance d))"
  by (simp_all add: given_up_def queued_def)

text \<open>A wake_order keeps what is done, and gives up recorded numbers only.\<close>

definition wake_keeps :: "nat set \<Rightarrow> 'e delivery \<Rightarrow> 'e delivery \<Rightarrow> bool" where
  "wake_keeps Q d e =
     (order_ok Q d \<longrightarrow> order_ok Q e \<and> d_next e = d_next d \<and> d_open e = d_open d \<and>
       d_firstLive e = d_firstLive d \<and> d_settling e = d_settling d \<and> d_wakers e = d_wakers d \<and>
       (\<forall>s\<in>Q. (isDone d s \<longrightarrow> isDone e s) \<and> (isDone e s \<longrightarrow> isDone d s \<or> d_draining d \<and> s < d_firstLive d)))"

lemma advanced_keeps:
  assumes "queued e = queued (advance d)" "d_floor e = d_floor (advance d)" "d_done e = d_done (advance d)" "d_next e = d_next d"
    "d_open e = d_open d" "d_firstLive e = d_firstLive d" "d_settling e = d_settling d" "d_wakers e = d_wakers d"
  shows "wake_keeps Q d e"
  unfolding wake_keeps_def
proof (intro impI conjI ballI)
  fix s assume o: "order_ok Q d"
  have same: "isDone e s = isDone (advance d) s" for s unfolding isDone_def assms(2,3) ..
  show "order_ok Q e" using advance_ok(1)[OF o] same_order[of e "advance d" Q] assms(1,2,4) by simp
  show "isDone e s" if "s \<in> Q" "isDone d s" using that same advance_ok(2)[OF o that(1)] by simp
  show "isDone d s \<or> d_draining d \<and> s < d_firstLive d" if "s \<in> Q" "isDone e s"
    using that same advance_ok(2)[OF o that(1)] by simp
qed (use assms in simp_all)

lemma wake_ok: "wake_keeps Q d (wake_order d)"
proof (rule wake_rule[where P = "wake_keeps Q"])
  fix d :: "'a delivery" and seq
  assume seq: "d_draining d" "seq < d_firstLive d" and ih: "wake_keeps Q (given_up seq d) (wake_order (given_up seq d))"
  show "wake_keeps Q d (wake_order (given_up seq d))"
    unfolding wake_keeps_def
  proof
    assume o: "order_ok Q d"
    note a = advance_ok[OF o]
    have g: "order_ok Q (given_up seq d)" using a(1) same_order[of "given_up seq d" "advance d"] by simp
    have "isDone (given_up seq d) s = (isDone d s \<or> s = seq)" if "s \<in> Q" for s
      using a(2)[OF that] by (auto simp: isDone_def)
    then show "order_ok Q (wake_order (given_up seq d)) \<and> d_next (wake_order (given_up seq d)) = d_next d \<and> d_open (wake_order (given_up seq d)) = d_open d \<and>
        d_firstLive (wake_order (given_up seq d)) = d_firstLive d \<and> d_settling (wake_order (given_up seq d)) = d_settling d \<and>
        d_wakers (wake_order (given_up seq d)) = d_wakers d \<and>
        (\<forall>s\<in>Q. (isDone d s \<longrightarrow> isDone (wake_order (given_up seq d)) s) \<and>
          (isDone (wake_order (given_up seq d)) s \<longrightarrow> isDone d s \<or> d_draining d \<and> s < d_firstLive d))"
      using seq ih g by (auto simp: wake_keeps_def)
  qed
qed (auto intro!: advanced_keeps)

text \<open>What a wake_order resolves besides the order_idle: the waker of the head, once everything below it is done.\<close>

definition wake_hands :: "nat set \<Rightarrow> 'e delivery \<Rightarrow> 'e delivery \<Rightarrow> bool" where
  "wake_hands Q d e =
     (order_ok Q d \<longrightarrow> (\<forall>w \<in> d_resolved e - d_resolved d. w \<in> set (d_idlers d) \<or>
        \<not> d_settling e \<and> (\<exists>seq. d_waiting d seq = Some w \<and> (\<forall>s\<in>Q. s < seq \<longrightarrow> isDone e s))))"

lemma notified: "w \<in> d_resolved (notifyIdle d) \<Longrightarrow> w \<in> d_resolved d \<or> w \<in> set (d_idlers d)"
  by (auto simp: notifyIdle_def split: if_splits)

lemma wake_in_order: "wake_hands Q d (wake_order d)"
proof (rule wake_rule[where P = "wake_hands Q"])
  fix d :: "'a delivery" and seq w
  assume h: "at_head (advance d) = Some seq" "d_waiting d seq = Some w" and turned: "\<not> d_settling d"
  show "wake_hands Q d (handed_over seq w d)"
    unfolding wake_hands_def
  proof (intro impI ballI)
    fix v assume o: "order_ok Q d" and v: "v \<in> d_resolved (handed_over seq w d) - d_resolved d"
    have "v = w \<or> v \<in> set (d_idlers d)" using v unfolding handed_over_def by (auto dest!: notified)
    moreover have "isDone (handed_over seq w d) s" if "s \<in> Q" "s < seq" for s
      using head_not_done(2)[OF o h(1)] that by (auto simp: isDone_def)
    moreover have "\<not> d_settling (handed_over seq w d)" using turned by simp
    ultimately show "v \<in> set (d_idlers d) \<or> \<not> d_settling (handed_over seq w d) \<and>
        (\<exists>n. d_waiting d n = Some v \<and> (\<forall>s\<in>Q. s < n \<longrightarrow> isDone (handed_over seq w d) s))"
      using h(2) by blast
  qed
next
  fix d :: "'a delivery" and seq
  assume ih: "wake_hands Q (given_up seq d) (wake_order (given_up seq d))"
  have "order_ok Q (given_up seq d)" if "order_ok Q d"
    using advance_ok(1)[OF that] same_order[of "given_up seq d" "advance d"] by simp
  then show "wake_hands Q d (wake_order (given_up seq d))" using ih by (simp add: wake_hands_def)
qed (auto simp: wake_hands_def dest!: notified)


section \<open>A pass\<close>

text \<open>Every sequence of operations of a pass, with the numbers that were recorded or assigned. A call
  waits for a number it was given and waits for it once.\<close>

inductive order_reached :: "nat set \<Rightarrow> 'e delivery \<Rightarrow> bool" where
  start: "order_reached (set recorded) (new_order recorded highest)"
    if "sorted_wrt (<) recorded" "\<forall>s\<in>set recorded. s \<le> highest"
| assigned: "order_reached (insert (snd (assign d)) Q) (fst (assign d))" if "order_reached Q d"
| reserved: "order_reached Q (fst (reserve d))" if "order_reached Q d"
| waited: "order_reached Q (fst (wait_turn seq d))" if "order_reached Q d" "seq \<in> Q" "d_waiting d seq = None"
| released: "order_reached Q (release seq settle d)" if "order_reached Q d" "seq \<in> Q"
| turn_came: "order_reached Q (turned d)" if "order_reached Q d" "0 < d_turns d"
| turn_used: "order_reached Q (useTurn d)" if "order_reached Q d"
| opened: "order_reached Q (open_order d)" if "order_reached Q d"
| ended: "order_reached Q (end_order e d)" if "order_reached Q d"
| abandoned: "order_reached Q (abandon seq d)" if "order_reached Q d" "seq \<in> Q"
| idled: "order_reached Q (fst (order_idle d))" if "order_reached Q d"
| beaten: "order_reached Q (order_beat d)" if "order_reached Q d"
| head_given_up: "order_reached Q (fst (giveUpOnHead d))" if "order_reached Q d"

lemma pending_more [simp]:
  "queued (d\<lparr>d_progress := n\<rparr>) = queued d" "queued (d\<lparr>d_turns := n\<rparr>) = queued d" "queued (d\<lparr>d_turn := b\<rparr>) = queued d"
  "queued (d\<lparr>d_open := b\<rparr>) = queued d" "queued (d\<lparr>d_resolvers := ws\<rparr>) = queued d" "queued (d\<lparr>d_endedBy := x\<rparr>) = queued d"
  "queued (d\<lparr>d_wakers := n\<rparr>) = queued d" "queued (d\<lparr>d_idlers := ws\<rparr>) = queued d" "queued (d\<lparr>d_next := n\<rparr>) = queued d"
  "queued (d\<lparr>d_waitingCount := n\<rparr>) = queued d" "queued (d\<lparr>d_resolved := A\<rparr>) = queued d"
  by (simp_all add: queued_def)

lemma fold_resolve [simp]:
  "d_open (fold resolve_waker ws d) = d_open d" "d_next (fold resolve_waker ws d) = d_next d" "queued (fold resolve_waker ws d) = queued d"
  "d_floor (fold resolve_waker ws d) = d_floor d" "d_done (fold resolve_waker ws d) = d_done d" "d_settling (fold resolve_waker ws d) = d_settling d"
  "d_waiting (fold resolve_waker ws d) = d_waiting d"
  by (induction ws arbitrary: d) simp_all

lemma wake_order_ok: "order_ok Q d \<Longrightarrow> order_ok Q (wake_order d)"
  using wake_ok[of Q d] by (simp add: wake_keeps_def)

definition head_ok :: "'e delivery \<Rightarrow> bool" where
  "head_ok d = (d_head d \<le> length (d_queue d))"

lemma head_ok_update [simp]:
  "head_ok (d\<lparr>d_done := A\<rparr>) = head_ok d" "head_ok (d\<lparr>d_progress := n\<rparr>) = head_ok d" "head_ok (d\<lparr>d_draining := b\<rparr>) = head_ok d"
  "head_ok (d\<lparr>d_beatProgress := n\<rparr>) = head_ok d" "head_ok (d\<lparr>d_settling := b\<rparr>) = head_ok d" "head_ok (d\<lparr>d_turns := n\<rparr>) = head_ok d"
  "head_ok (d\<lparr>d_turn := b\<rparr>) = head_ok d" "head_ok (d\<lparr>d_open := b\<rparr>) = head_ok d" "head_ok (d\<lparr>d_resolvers := ws\<rparr>) = head_ok d"
  "head_ok (d\<lparr>d_endedBy := x\<rparr>) = head_ok d" "head_ok (d\<lparr>d_wakers := n\<rparr>) = head_ok d" "head_ok (d\<lparr>d_idlers := ws\<rparr>) = head_ok d"
  "head_ok (d\<lparr>d_next := n\<rparr>) = head_ok d" "head_ok (d\<lparr>d_waiting := m\<rparr>) = head_ok d" "head_ok (d\<lparr>d_waitingCount := n\<rparr>) = head_ok d"
  "head_ok (notifyIdle d) = head_ok d" "head_ok (resolve_waker w d) = head_ok d"
  by (simp_all add: head_ok_def notifyIdle_def resolve_waker_def)

lemma head_ok_fold [simp]: "head_ok (fold resolve_waker ws d) = head_ok d"
  by (induction ws arbitrary: d) simp_all

lemma skip_head_ok: "head_ok d \<Longrightarrow> head_ok (skip_done d)"
proof (induction d rule: skip_done.induct)
  case (1 d)
  then show ?case
    by (cases "d_head d < length (d_queue d) \<and> d_queue d ! d_head d \<in> d_done d") (subst skip_done.simps, auto simp: Let_def head_ok_def)+
qed

lemma advance_head_ok: "head_ok d \<Longrightarrow> head_ok (advance d)"
  using skip_head_ok[of d] by (simp add: advance_def compact_def head_ok_def)

lemma wake_head_ok: "head_ok d \<longrightarrow> head_ok (wake_order d)"
  by (rule wake_rule[where P = "\<lambda>d e. head_ok d \<longrightarrow> head_ok e"]) (auto simp: advance_head_ok handed_over_def given_up_def)

lemma marked_order [simp]:
  "order_ok Q (d\<lparr>d_done := A\<rparr>) = order_ok Q d" "order_ok Q (d\<lparr>d_progress := n\<rparr>) = order_ok Q d"
  "order_ok Q (d\<lparr>d_draining := b\<rparr>) = order_ok Q d" "order_ok Q (d\<lparr>d_beatProgress := n\<rparr>) = order_ok Q d"
  "order_ok Q (d\<lparr>d_settling := b\<rparr>) = order_ok Q d" "order_ok Q (d\<lparr>d_turns := n\<rparr>) = order_ok Q d"
  "order_ok Q (d\<lparr>d_turn := b\<rparr>) = order_ok Q d" "order_ok Q (d\<lparr>d_open := b\<rparr>) = order_ok Q d" "order_ok Q (d\<lparr>d_resolvers := ws\<rparr>) = order_ok Q d"
  "order_ok Q (d\<lparr>d_endedBy := x\<rparr>) = order_ok Q d" "order_ok Q (d\<lparr>d_wakers := k\<rparr>) = order_ok Q d" "order_ok Q (d\<lparr>d_idlers := ws\<rparr>) = order_ok Q d"
  "order_ok Q (d\<lparr>d_waiting := m\<rparr>) = order_ok Q d" "order_ok Q (d\<lparr>d_waitingCount := n\<rparr>) = order_ok Q d"
  "order_ok Q (notifyIdle d) = order_ok Q d" "order_ok Q (fold resolve_waker ws d) = order_ok Q d"
  by (simp_all add: order_ok_def)

lemma assign_order:
  assumes "order_ok Q d" "head_ok d"
  shows "order_ok (insert (d_next d) Q) (fst (assign d))" "head_ok (fst (assign d))"
proof -
  have "queued (fst (assign d)) = queued d @ [d_next d]" using assms(2) by (simp add: assign_def queued_def head_ok_def)
  then show "order_ok (insert (d_next d) Q) (fst (assign d))"
    using assms(1) by (auto simp: order_ok_def assign_def sorted_wrt_append less_Suc_eq)
  show "head_ok (fst (assign d))" using assms(2) by (simp add: assign_def head_ok_def)
qed

lemma reached_ok: "order_reached Q d \<Longrightarrow> order_ok Q d \<and> head_ok d"
proof (induction rule: order_reached.induct)
  case (start recorded highest)
  then show ?case by (auto simp: order_ok_def new_order_def queued_def head_ok_def less_Suc_eq_le)
next
  case (assigned Q d)
  then show ?case using assign_order[of Q d] by (simp add: assign_def)
next
  case (reserved Q d)
  then show ?case by (auto simp: reserve_def order_ok_def less_Suc_eq)
next
  case (waited Q d seq)
  then show ?case
    using advance_ok(1)[of Q d] advance_head_ok[of d] by (auto simp: wait_turn_def isTurn_def Let_def)
next
  case (released Q d seq settle)
  then show ?case by (auto simp: release_def Let_def intro!: wake_order_ok wake_head_ok[rule_format])
next
  case (beaten Q d)
  then show ?case by (auto simp: order_beat_def Let_def intro!: wake_order_ok wake_head_ok[rule_format])
next
  case (head_given_up Q d)
  then show ?case
    using advance_ok(1)[of Q d] advance_head_ok[of d]
    by (auto simp: giveUpOnHead_def abandon_def Let_def intro!: wake_order_ok wake_head_ok[rule_format] split: option.split)
qed (auto simp: turned_def useTurn_def open_order_def end_order_def abandon_def order_idle_def Let_def intro!: wake_order_ok wake_head_ok[rule_format])

lemmas reached_order = conjunct1[OF reached_ok]


section \<open>Nobody waits whose turn it is\<close>

definition wakers_known :: "nat set \<Rightarrow> 'e delivery \<Rightarrow> bool" where
  "wakers_known Q d =
     (dom (d_waiting d) \<subseteq> Q \<and>
      (\<forall>seq w. d_waiting d seq = Some w \<longrightarrow> w < d_wakers d \<and> w \<in> set (d_resolvers d)) \<and>
      (\<forall>w \<in> d_resolved d. w < d_wakers d) \<and> (\<forall>w \<in> set (d_idlers d). w < d_wakers d))"

definition waits_counted :: "'e delivery \<Rightarrow> bool" where
  "waits_counted d =
     (finite (dom (d_waiting d)) \<and> d_waitingCount d = card (dom (d_waiting d)) \<and> inj_on (d_waiting d) (dom (d_waiting d)) \<and>
      (\<forall>seq w. d_waiting d seq = Some w \<longrightarrow> w \<notin> d_resolved d \<and> w \<notin> set (d_idlers d)))"

definition waits_known :: "nat set \<Rightarrow> 'e delivery \<Rightarrow> bool" where
  "waits_known Q d = (d_open d \<or> wakers_known Q d \<and> waits_counted d)"

definition head_served :: "'e delivery \<Rightarrow> bool" where
  "head_served d = (d_open d \<or> d_settling d \<or> (\<forall>seq. at_head (advance d) = Some seq \<longrightarrow> d_waiting d seq = None))"

lemma advance_again:
  assumes "order_ok Q d" "queued e = queued (advance d)" "d_done e = d_done (advance d)"
  shows "at_head (advance e) = at_head (advance d)"
proof (cases "queued (advance d)")
  case Nil
  then show ?thesis using assms(2) pending_advance[of e] by (simp add: head_pending)
next
  case (Cons s ss)
  then have "at_head (advance d) = Some s" by (simp add: head_pending)
  then have "s \<notin> d_done e" using head_not_done(1)[OF assms(1)] assms(3) by simp
  then show ?thesis using assms(2) pending_advance[of e] Cons by (simp add: head_pending)
qed

lemma counted_notify: "waits_known Q d \<Longrightarrow> waits_known Q (notifyIdle d)"
  by (auto simp: waits_known_def wakers_known_def waits_counted_def notifyIdle_def)

lemma counted_update [simp]:
  "waits_known Q (d\<lparr>d_done := A\<rparr>) = waits_known Q d" "waits_known Q (d\<lparr>d_progress := n\<rparr>) = waits_known Q d"
  "waits_known Q (d\<lparr>d_draining := b\<rparr>) = waits_known Q d" "waits_known Q (d\<lparr>d_beatProgress := n\<rparr>) = waits_known Q d"
  "waits_known Q (d\<lparr>d_settling := b\<rparr>) = waits_known Q d" "waits_known Q (d\<lparr>d_turns := n\<rparr>) = waits_known Q d"
  "waits_known Q (d\<lparr>d_turn := b\<rparr>) = waits_known Q d" "waits_known Q (d\<lparr>d_endedBy := x\<rparr>) = waits_known Q d"
  "waits_known Q (advance d) = waits_known Q d" "waits_known Q (given_up seq d) = waits_known Q d"
  by (simp_all add: waits_known_def wakers_known_def waits_counted_def given_up_def)

lemma known_resolve: "wakers_known Q d \<Longrightarrow> w < d_wakers d \<Longrightarrow> wakers_known Q (resolve_waker w d)"
  by (simp add: wakers_known_def)

lemma known_cleared: "wakers_known Q d \<Longrightarrow> wakers_known Q (d\<lparr>d_waiting := (d_waiting d)(seq := None)\<rparr>)"
  by (auto simp: wakers_known_def)

lemma waits_resolve:
  assumes "waits_counted d" "d_waiting d seq = Some w"
  shows "waits_counted (resolve_waker w (d\<lparr>d_waiting := (d_waiting d)(seq := None)\<rparr>))" (is "waits_counted ?e")
proof -
  have c: "finite (dom (d_waiting d))" "d_waitingCount d = card (dom (d_waiting d))" "inj_on (d_waiting d) (dom (d_waiting d))"
    "\<And>s v. d_waiting d s = Some v \<Longrightarrow> v \<notin> d_resolved d \<and> v \<notin> set (d_idlers d)"
    using assms(1) by (auto simp: waits_counted_def)
  have w: "w \<notin> d_resolved d" using c(4)[OF assms(2)] by simp
  have other: "v \<noteq> w" if "d_waiting d s = Some v" "s \<noteq> seq" for s v
    using inj_onD[OF c(3), of s seq] that assms(2) by auto
  have f: "d_waiting ?e = (d_waiting d)(seq := None)" "d_resolved ?e = insert w (d_resolved d)"
    "d_idlers ?e = d_idlers d" "d_waitingCount ?e = d_waitingCount d - 1"
    using w by (simp_all add: resolve_waker_def)
  have 1: "dom (d_waiting ?e) = dom (d_waiting d) - {seq}" using f(1) by auto
  have 2: "inj_on (d_waiting ?e) (dom (d_waiting ?e))"
    using c(3) unfolding f(1) inj_on_def by auto
  have 3: "v \<notin> d_resolved ?e \<and> v \<notin> set (d_idlers ?e)" if "d_waiting ?e s = Some v" for s v
    using that c(4)[of s v] other[of s v] f by (auto split: if_splits)
  show ?thesis
    using c(1,2) assms(2) f(4) 1 2 3 by (auto simp: waits_counted_def card_Diff_singleton domI)
qed

lemma counted_handed:
  assumes "waits_known Q d" "d_waiting d seq = Some w"
  shows "waits_known Q (handed_over seq w d)"
  unfolding handed_over_def
proof (rule counted_notify)
  have a: "waits_known Q (advance d)" "d_waiting (advance d) seq = Some w" using assms by simp_all
  have "d_open d \<or> w < d_wakers (advance d)" using assms by (auto simp: waits_known_def wakers_known_def)
  then show "waits_known Q (resolve_waker w ((advance d)\<lparr>d_waiting := (d_waiting d)(seq := None)\<rparr>))"
    using a waits_resolve[of "advance d" seq w] known_resolve[OF known_cleared, of Q "advance d" w seq] by (auto simp: waits_known_def)
qed

definition wake_serves :: "nat set \<Rightarrow> 'e delivery \<Rightarrow> 'e delivery \<Rightarrow> bool" where
  "wake_serves Q d e = (order_ok Q d \<and> waits_known Q d \<longrightarrow> waits_known Q e \<and> head_served e)"

lemma wake_served: "wake_serves Q d (wake_order d)"
proof (rule wake_rule[where P = "wake_serves Q"])
  fix d :: "'a delivery" assume a: "\<not> d_settling d" "d_waitingCount d = 0"
  show "wake_serves Q d (notifyIdle ((advance d)\<lparr>d_draining := False\<rparr>))"
    unfolding wake_serves_def
  proof
    assume o: "order_ok Q d \<and> waits_known Q d"
    have "d_open d \<or> (\<forall>s. d_waiting d s = None)" using o a(2) by (auto simp: waits_known_def waits_counted_def)
    then have "head_served (notifyIdle ((advance d)\<lparr>d_draining := False\<rparr>))" by (auto simp: head_served_def)
    then show "waits_known Q (notifyIdle ((advance d)\<lparr>d_draining := False\<rparr>)) \<and> head_served (notifyIdle ((advance d)\<lparr>d_draining := False\<rparr>))"
      using counted_notify[of Q "(advance d)\<lparr>d_draining := False\<rparr>"] o by simp
  qed
next
  fix d :: "'a delivery" and seq w assume h: "at_head (advance d) = Some seq" "d_waiting d seq = Some w"
  show "wake_serves Q d (handed_over seq w d)"
    unfolding wake_serves_def
  proof
    assume o: "order_ok Q d \<and> waits_known Q d"
    have "at_head (advance (handed_over seq w d)) = Some seq" using advance_again[of Q d "handed_over seq w d"] o h(1) by simp
    then show "waits_known Q (handed_over seq w d) \<and> head_served (handed_over seq w d)" using counted_handed[OF _ h(2)] o by (simp add: head_served_def)
  qed
next
  fix d :: "'a delivery" and seq assume ih: "wake_serves Q (given_up seq d) (wake_order (given_up seq d))"
  have "order_ok Q (given_up seq d)" if "order_ok Q d"
    using advance_ok(1)[OF that] same_order[of "given_up seq d" "advance d"] by simp
  then show "wake_serves Q d (wake_order (given_up seq d))" using ih by (simp add: wake_serves_def)
qed (use advance_again in \<open>fastforce simp: wake_serves_def head_served_def\<close>)+

lemma next_head: "at_head (advance d) = (case skip_marked (queued d) (d_done d) of [] \<Rightarrow> None | s # ss \<Rightarrow> Some s)"
  by (simp add: head_pending pending_advance)

lemma served_same:
  "queued e = queued d \<Longrightarrow> d_done e = d_done d \<Longrightarrow> d_waiting e = d_waiting d \<Longrightarrow> d_open e = d_open d \<Longrightarrow>
   d_settling e = d_settling d \<Longrightarrow> head_served e = head_served d"
  by (simp add: head_served_def next_head)

lemma served_advance: "order_ok Q d \<Longrightarrow> head_served (advance d) = head_served d"
  using advance_again[of Q d "advance d"] by (simp add: head_served_def)

lemma skips_end:
  assumes "skip_marked (ss @ [n]) A = s # rest"
  shows "s = n \<or> (\<exists>more. skip_marked ss A = s # more)"
  using assms by (induction ss A rule: skip_marked.induct) (auto split: if_splits)

lemma waited_counted:
  assumes "waits_known Q d" "\<not> d_open d" "seq \<in> Q" "d_waiting d seq = None"
  shows "waits_known Q (d\<lparr>d_beatProgress := b, d_waitingCount := d_waitingCount d + 1, d_wakers := d_wakers d + 1,
            d_waiting := (d_waiting d)(seq \<mapsto> d_wakers d), d_resolvers := d_resolvers d @ [d_wakers d]\<rparr>)"
proof -
  have k: "wakers_known Q d" and c: "waits_counted d" using assms(1,2) by (auto simp: waits_known_def)
  have "w \<noteq> d_wakers d" if "d_waiting d s = Some w" for s w
    using k that unfolding wakers_known_def by (metis less_irrefl)
  then have "d_waiting d s \<noteq> Some (d_wakers d)" for s by blast
  then have i: "inj_on ((d_waiting d)(seq \<mapsto> d_wakers d)) (insert seq (dom (d_waiting d)))"
    using c assms(4) by (auto simp: waits_counted_def inj_on_def)
  have n: "d_wakers d \<notin> d_resolved d" "d_wakers d \<notin> set (d_idlers d)" using k by (auto simp: wakers_known_def)
  have "seq \<notin> dom (d_waiting d)" using assms(4) by blast
  then show ?thesis using k c i n assms(3) by (auto simp: waits_known_def wakers_known_def waits_counted_def less_Suc_eq)
qed

lemma waited_served:
  assumes "order_ok Q d" "head_served d" "\<not> d_open d" "at_head (advance d) \<noteq> Some seq \<or> d_settling d"
    and e: "queued e = queued (advance d)" "d_done e = d_done (advance d)" "d_waiting e = (d_waiting d)(seq \<mapsto> w)"
      "d_open e = d_open d" "d_settling e = d_settling d"
  shows "head_served e"
  using assms(2-4) advance_again[OF assms(1) e(1,2)] e(3-5) by (auto simp: head_served_def)

lemma woken: "order_ok Q d \<Longrightarrow> waits_known Q d \<Longrightarrow> waits_known Q (wake_order d) \<and> head_served (wake_order d)"
  using wake_served[of Q d] by (simp add: wake_serves_def)

lemma reached_served: "order_reached Q d \<Longrightarrow> waits_known Q d \<and> head_served d"
proof (induction rule: order_reached.induct)
  case (start recorded highest)
  then show ?case by (simp add: waits_known_def wakers_known_def waits_counted_def head_served_def new_order_def)
next
  case (assigned Q d)
  let ?e = "fst (assign d)"
  have o: "order_ok Q d" "head_ok d" using reached_ok assigned(1) by blast+
  have c: "waits_known (insert (d_next d) Q) ?e"
    using assigned(2) by (auto simp: waits_known_def wakers_known_def waits_counted_def assign_def)
  have new: "d_open d \<or> d_waiting d (d_next d) = None"
    using assigned(2) o(1) by (auto simp: waits_known_def wakers_known_def order_ok_def)
  have p: "queued ?e = queued d @ [d_next d]" using o(2) by (simp add: assign_def queued_def head_ok_def)
  have f: "d_done ?e = d_done d" "d_open ?e = d_open d" "d_settling ?e = d_settling d" "d_waiting ?e = d_waiting d"
    by (simp_all add: assign_def)
  have "head_served ?e"
    using assigned(2) new skips_end[of "queued d" "d_next d" "d_done d"]
    by (fastforce simp: head_served_def next_head p f split: list.splits)
  then show ?case using c by (simp add: assign_def)
next
  case (reserved Q d)
  have "head_served (fst (reserve d)) = head_served d" by (rule served_same) (simp_all add: reserve_def)
  then show ?case using reserved by (simp add: reserve_def waits_known_def wakers_known_def waits_counted_def)
next
  case (waited Q d seq)
  have o: "order_ok Q d" by (rule reached_order[OF waited(1)])
  show ?case
  proof (cases "d_open d \<or> isDone d seq \<or> (at_head (advance d) = Some seq \<and> \<not> d_settling d)")
    case True
    then have "fst (wait_turn seq d) = d \<or> fst (wait_turn seq d) = advance d" by (auto simp: wait_turn_def isTurn_def Let_def)
    then show ?thesis using waited served_advance[OF o] by auto
  next
    case False
    let ?e = "fst (wait_turn seq d)"
    have e: "?e = (advance d)\<lparr>d_beatProgress := if d_waitingCount (advance d) = 0 then d_progress (advance d) else d_beatProgress (advance d),
        d_waitingCount := d_waitingCount (advance d) + 1, d_wakers := d_wakers (advance d) + 1,
        d_waiting := (d_waiting (advance d))(seq \<mapsto> d_wakers (advance d)), d_resolvers := d_resolvers (advance d) @ [d_wakers (advance d)]\<rparr>"
      using False by (auto simp: wait_turn_def isTurn_def Let_def)
    have "waits_known Q ?e" unfolding e by (rule waited_counted) (use waited False in simp_all)
    moreover have "head_served ?e"
      by (rule waited_served[OF o _ _ _ , of seq _ "d_wakers d"]) (use waited False in \<open>auto simp: e\<close>)
    ultimately show ?thesis by blast
  qed
next
  case (released Q d seq settle)
  have o: "order_ok Q d" by (rule reached_order[OF released(1)])
  show ?case
    using released woken[of Q "d\<lparr>d_done := insert seq (d_done d), d_progress := d_progress d + 1\<rparr>"] o
    by (auto simp: release_def Let_def) (simp add: head_served_def)
next
  case (turn_came Q d)
  have "order_ok Q d" by (rule reached_order[OF turn_came(1)])
  then have "waits_known Q (wake_order (d\<lparr>d_settling := False, d_turns := d_turns d - 1\<rparr>)) \<and> head_served (wake_order (d\<lparr>d_settling := False, d_turns := d_turns d - 1\<rparr>))"
    by (intro woken) (use turn_came in simp_all)
  then show ?case using counted_notify served_same[of "notifyIdle e" e for e] unfolding turned_def by auto
next
  case (turn_used Q d)
  have "head_served (useTurn d) = head_served d" by (rule served_same) (simp_all add: useTurn_def)
  then show ?case using turn_used by (simp add: useTurn_def)
next
  case (opened Q d)
  then show ?case by (simp add: open_order_def waits_known_def head_served_def)
next
  case (ended Q d e)
  then show ?case by (simp add: open_order_def end_order_def waits_known_def head_served_def)
next
  case (abandoned Q d seq)
  have "order_ok Q d" by (rule reached_order[OF abandoned(1)])
  then show ?case unfolding abandon_def by (intro woken) (use abandoned in simp_all)
next
  case (idled Q d)
  have "head_served (fst (order_idle d)) = head_served d" by (rule served_same) (simp_all add: order_idle_def Let_def)
  moreover have "waits_known Q (fst (order_idle d))"
    using idled by (auto simp: order_idle_def Let_def waits_known_def wakers_known_def waits_counted_def less_Suc_eq dest: less_not_refl2)
  ultimately show ?case using idled by simp
next
  case (beaten Q d)
  have o: "order_ok Q d" by (rule reached_order[OF beaten(1)])
  have "head_served (d\<lparr>d_beatProgress := n\<rparr>) = head_served d" for n by (rule served_same) simp_all
  then show ?case
    using beaten o woken[of Q "d\<lparr>d_beatProgress := d_progress d, d_draining := True\<rparr>"] by (auto simp: order_beat_def Let_def)
next
  case (head_given_up Q d)
  have o: "order_ok Q d" by (rule reached_order[OF head_given_up(1)])
  have a: "waits_known Q (advance d)" "head_served (advance d)" using head_given_up served_advance[OF o] by simp_all
  have "waits_known Q (abandon s (advance d)) \<and> head_served (abandon s (advance d))" for s
    unfolding abandon_def by (intro woken) (use a advance_ok(1)[OF o] in simp_all)
  then show ?case using a by (auto simp: giveUpOnHead_def Let_def split: option.split)
qed

section \<open>What a pass can rely on\<close>

lemma wake_idlers: "set (d_idlers (wake_order d)) \<subseteq> set (d_idlers d)"
  by (rule wake_rule[where P = "\<lambda>d e. set (d_idlers e) \<subseteq> set (d_idlers d)"]) (auto simp: handed_over_def notifyIdle_def)

text \<open>The number of a call that waits and is not done has a lower one that is not done.\<close>

lemma turn_is_head:
  assumes "order_ok Q d" "seq \<in> Q" "\<not> isDone d seq"
  shows "at_head (advance d) = Some seq \<longleftrightarrow> (\<forall>s\<in>Q. s < seq \<longrightarrow> isDone d s)"
    and "at_head (advance d) \<noteq> None"
proof -
  have o: "order_ok Q (advance d)" and same: "isDone (advance d) s = isDone d s" if "s \<in> Q" for s
    using advance_ok[OF assms(1)] that by blast+
  have "seq \<in> set (queued (advance d))" using advance_ok(1)[OF assms(1)] assms(2,3) same[OF assms(2)] by (auto simp: order_ok_def isDone_def)
  then obtain h rest where q: "queued (advance d) = h # rest" by (cases "queued (advance d)") auto
  then have h: "at_head (advance d) = Some h" by (simp add: head_pending)
  then show "at_head (advance d) \<noteq> None" by simp
  have hQ: "h \<in> Q" "h \<le> seq" "d_floor (advance d) \<le> h"
    using advance_ok(1)[OF assms(1)] q \<open>seq \<in> set (queued (advance d))\<close> by (auto simp: order_ok_def)
  have "\<not> isDone d h" using head_not_done(1)[OF assms(1) h] hQ same[OF hQ(1)] by (simp add: isDone_def)
  then show "at_head (advance d) = Some seq \<longleftrightarrow> (\<forall>s\<in>Q. s < seq \<longrightarrow> isDone d s)"
    using head_not_done(2)[OF assms(1) h] same hQ h by (metis le_neq_implies_less option.inject)
qed

lemma turn_taken:
  assumes "order_reached Q d" "\<not> d_open d" "seq \<in> Q" "\<not> isDone d seq"
  shows "snd (wait_turn seq d) = None \<longleftrightarrow> \<not> d_settling d \<and> (\<forall>s\<in>Q. s < seq \<longrightarrow> isDone d s)"
  using turn_is_head(1)[OF reached_order[OF assms(1)] assms(3,4)] assms(2,4) by (auto simp: wait_turn_def isTurn_def Let_def)

text \<open>The states one operation of a pass can leave, short of opening the order.\<close>

definition in_turn :: "nat \<Rightarrow> bool \<Rightarrow> 'e delivery \<Rightarrow> 'e delivery set" where
  "in_turn n settle d =
     {fst (assign d), fst (reserve d), fst (wait_turn n d), release n settle d, turned d, useTurn d, abandon n d,
      fst (order_idle d), order_beat d, fst (giveUpOnHead d)}"

lemma quiet_operations:
  "d_resolved (fst (assign d)) = d_resolved d" "d_resolved (fst (reserve d)) = d_resolved d"
  "d_resolved (fst (wait_turn n d)) = d_resolved d" "d_resolved (useTurn d) = d_resolved d"
  "d_resolved (fst (order_idle d)) = d_resolved d"
  by (simp_all add: assign_def reserve_def wait_turn_def isTurn_def useTurn_def order_idle_def Let_def)

lemma woken_in_order:
  assumes "order_reached Q d" "\<not> d_open d" "d_waiting d seq = Some w" "w \<in> d_resolved d'" "d' \<in> in_turn n settle d"
  shows "\<not> d_settling d' \<and> (\<forall>s\<in>Q. s < seq \<longrightarrow> isDone d' s)"
proof -
  have o: "order_ok Q d" by (rule reached_order[OF assms(1)])
  have c: "w \<notin> d_resolved d" "w \<notin> set (d_idlers d)" "\<And>s. d_waiting d s = Some w \<Longrightarrow> s = seq"
    using reached_served[OF assms(1)] assms(2,3) by (auto simp: waits_known_def waits_counted_def inj_on_def dom_def)
  have wk: "\<not> d_settling (wake_order e) \<and> (\<forall>s\<in>Q. s < seq \<longrightarrow> isDone (wake_order e) s)"
    if "order_ok Q e" "d_waiting e = d_waiting d" "d_idlers e = d_idlers d" "d_resolved e = d_resolved d" "w \<in> d_resolved (wake_order e)" for e
    using wake_in_order[of Q e] that c unfolding wake_hands_def by auto
  from assms(4,5) consider "d' = release n settle d" | "d' = turned d" | "d' = abandon n d" | "d' = order_beat d" | "d' = fst (giveUpOnHead d)"
    unfolding in_turn_def using c(1) quiet_operations by (metis insertE singletonD)
  then show ?thesis
  proof cases
    case 1
    show ?thesis
      using assms(4) c(1) o wk[of "d\<lparr>d_done := insert n (d_done d), d_progress := d_progress d + 1\<rparr>"]
      unfolding 1 by (auto simp: release_def Let_def split: if_splits)
  next
    case 2
    let ?e = "wake_order (d\<lparr>d_settling := False, d_turns := d_turns d - 1\<rparr>)"
    have "w \<notin> set (d_idlers ?e)" using wake_idlers[of "d\<lparr>d_settling := False, d_turns := d_turns d - 1\<rparr>"] c(2) by auto
    then have "w \<in> d_resolved ?e" using assms(4) notified[of w ?e] unfolding 2 turned_def by blast
    then have "\<not> d_settling ?e \<and> (\<forall>s\<in>Q. s < seq \<longrightarrow> isDone ?e s)" by (intro wk) (use o in simp_all)
    then show ?thesis unfolding 2 turned_def by (simp add: isDone_def)
  next
    case 3
    show ?thesis using assms(4) unfolding 3 abandon_def by (intro wk) (use o in simp_all)
  next
    case 4
    show ?thesis
      using assms(4) c(1) o wk[of "d\<lparr>d_beatProgress := d_progress d, d_draining := True\<rparr>"]
      unfolding 4 by (auto simp: order_beat_def Let_def split: if_splits)
  next
    case 5
    have "w \<in> d_resolved (abandon s (advance d)) \<Longrightarrow>
        \<not> d_settling (abandon s (advance d)) \<and> (\<forall>t\<in>Q. t < seq \<longrightarrow> isDone (abandon s (advance d)) t)" for s
      unfolding abandon_def by (rule wk) (use advance_ok(1)[OF o] in simp_all)
    then show ?thesis using assms(4) c(1) unfolding 5 by (auto simp: giveUpOnHead_def Let_def split: option.splits if_splits)
  qed
qed

text \<open>Opening the order lets every call go that waits.\<close>

lemma fold_grows: "d_resolved d \<subseteq> d_resolved (fold resolve_waker ws d)"
proof (induction ws arbitrary: d)
  case (Cons w ws)
  from Cons[of "resolve_waker w d"] show ?case by simp
qed simp

lemma fold_resolved: "set ws \<subseteq> d_resolved (fold resolve_waker ws d)"
proof (induction ws arbitrary: d)
  case (Cons w ws)
  from Cons[of "resolve_waker w d"] fold_grows[of "resolve_waker w d" ws] show ?case by simp
qed simp

lemma opened_all:
  assumes "order_reached Q d" "\<not> d_open d" "d_waiting d seq = Some w" "d' \<in> {open_order d, end_order e d}"
  shows "w \<in> d_resolved d' \<and> (\<forall>n. snd (wait_turn n d') = None)"
proof -
  have w: "w \<in> set (d_resolvers d)" using reached_served[OF assms(1)] assms(2,3) by (auto simp: waits_known_def wakers_known_def)
  have "d_open (open_order d0) \<and> w \<in> d_resolved (open_order d0)" if "d_resolvers d0 = d_resolvers d" for d0 :: "'a delivery"
    using fold_resolved[of "d_resolvers d" "d0\<lparr>d_open := True, d_resolvers := []\<rparr>"] w that
    by (auto simp: open_order_def notifyIdle_def)
  then show ?thesis using assms(4) by (auto simp: end_order_def wait_turn_def)
qed

lemma waker_unresolved:
  assumes "order_reached Q d" "\<not> d_open d" "d_waiting d seq = Some w"
  shows "w \<notin> d_resolved d"
  using reached_served[OF assms(1)] assms(2,3) by (auto simp: waits_known_def waits_counted_def)

text \<open>A wake that drains hands a result over, or gives up every recorded number that is left.\<close>

definition wake_drains :: "nat set \<Rightarrow> 'e delivery \<Rightarrow> 'e delivery \<Rightarrow> bool" where
  "wake_drains Q d e =
     (order_ok Q d \<and> waits_known Q d \<and> \<not> d_open d \<and> d_draining d \<and> \<not> d_settling d \<and> 0 < d_waitingCount d \<longrightarrow>
        d_waitingCount e < d_waitingCount d \<or> (\<forall>s\<in>Q. s < d_firstLive d \<longrightarrow> isDone e s))"

lemma wake_drained: "wake_drains Q d (wake_order d)"
proof (rule wake_rule[where P = "wake_drains Q"])
  fix d :: "'a delivery" assume h: "at_head (advance d) = None"
  have "isDone (advance d) s" if "order_ok Q d" "s \<in> Q" for s
    using advance_ok(1)[OF that(1)] that(2) h by (auto simp: order_ok_def head_pending isDone_def split: list.splits)
  then show "wake_drains Q d (advance d)" by (auto simp: wake_drains_def)
next
  fix d :: "'a delivery" and seq w assume "at_head (advance d) = Some seq" and w: "d_waiting d seq = Some w"
  have "d_waitingCount (handed_over seq w d) = d_waitingCount d - 1" if "w \<notin> d_resolved d"
    using that by (simp add: handed_over_def resolve_waker_def)
  then show "wake_drains Q d (handed_over seq w d)"
    using w unfolding wake_drains_def waits_known_def waits_counted_def by auto
next
  fix d :: "'a delivery" and seq
  assume h: "at_head (advance d) = Some seq" and stop: "\<not> d_draining d \<or> d_firstLive d \<le> seq"
  show "wake_drains Q d (advance d)"
    using head_not_done(2)[OF _ h] stop unfolding wake_drains_def by (meson less_le_trans)
next
  fix d :: "'a delivery" and seq assume ih: "wake_drains Q (given_up seq d) (wake_order (given_up seq d))"
  have "order_ok Q (given_up seq d)" if "order_ok Q d"
    using advance_ok(1)[OF that] same_order[of "given_up seq d" "advance d"] by simp
  then show "wake_drains Q d (wake_order (given_up seq d))" using ih by (simp add: wake_drains_def)
qed (simp_all add: wake_drains_def)

lemma beat_goes_on:
  assumes "order_reached Q d" "\<not> d_open d" "\<not> d_settling d" "stalled d" "d_progress d = d_beatProgress d"
  shows "d_waitingCount (order_beat d) < d_waitingCount d \<or> (\<forall>s\<in>Q. s < d_firstLive d \<longrightarrow> isDone (order_beat d) s)"
  using wake_drained[of Q "d\<lparr>d_beatProgress := d_progress d, d_draining := True\<rparr>"] assms
    reached_order[OF assms(1)] reached_served[OF assms(1)]
  by (simp add: wake_drains_def order_beat_def Let_def stalled_def)

lemma beat_spares_live:
  assumes "order_reached Q d" "s \<in> Q" "isDone (order_beat d) s"
  shows "isDone d s \<or> s < d_firstLive d"
proof (cases "stalled d \<and> d_progress d = d_beatProgress d")
  case True
  define e where "e = d\<lparr>d_beatProgress := d_progress d, d_draining := True\<rparr>"
  have "order_beat d = wake_order e" using True by (simp add: order_beat_def Let_def e_def)
  moreover have "order_ok Q e" "d_firstLive e = d_firstLive d" "isDone e s = isDone d s"
    using reached_order[OF assms(1)] by (simp_all add: e_def isDone_def)
  ultimately show ?thesis using wake_ok[of Q e] assms(2,3) unfolding wake_keeps_def by auto
next
  case False
  then have "order_beat d = d\<lparr>d_beatProgress := d_progress d\<rparr>" by (auto simp: order_beat_def Let_def)
  then show ?thesis using assms(3) by (simp add: isDone_def)
qed

text \<open>A settling order is owed a turn of the event loop.\<close>

lemma wake_turns: "d_turns (wake_order d) = d_turns d \<and> d_settling (wake_order d) = d_settling d"
  by (rule wake_rule[where P = "\<lambda>d e. d_turns e = d_turns d \<and> d_settling e = d_settling d"])
    (simp_all add: handed_over_def given_up_def notifyIdle_def resolve_waker_def)

lemma fold_turns: "d_turns (fold resolve_waker ws d) = d_turns d"
  by (induction ws arbitrary: d) (simp_all add: resolve_waker_def)

lemma notify_turns [simp]: "d_turns (notifyIdle d) = d_turns d"
  by (simp add: notifyIdle_def)

lemma settling_owed: "order_reached Q d \<Longrightarrow> d_settling d \<longrightarrow> 0 < d_turns d"
proof (induction rule: order_reached.induct)
  case (waited Q d seq)
  then show ?case by (auto simp: wait_turn_def isTurn_def Let_def)
next
  case (head_given_up Q d)
  then show ?case by (auto simp: giveUpOnHead_def abandon_def wake_turns Let_def split: option.split)
qed (simp_all add: new_order_def assign_def reserve_def release_def turned_def useTurn_def open_order_def end_order_def abandon_def
    order_idle_def order_beat_def wake_turns fold_turns Let_def)

lemma waiter_behind:
  assumes "order_reached Q d" "\<not> d_open d" "\<not> d_settling d" "d_waiting d seq \<noteq> None" "\<not> isDone d seq"
  shows "\<exists>s\<in>Q. s < seq \<and> \<not> isDone d s"
proof -
  have s: "waits_known Q d" "head_served d" using reached_served[OF assms(1)] by auto
  then have "seq \<in> Q" using assms(2,4) by (auto simp: waits_known_def wakers_known_def)
  moreover have "at_head (advance d) \<noteq> Some seq" using s(2) assms(2-4) by (auto simp: head_served_def)
  ultimately show ?thesis using turn_is_head(1)[OF reached_order[OF assms(1)] _ assms(5)] by blast
qed

end
