(* ===== verification/Spec2Isabelle.thy ===== *)
theory Spec2Isabelle
  imports Further Worker_Scenario Delivery
begin

text \<open>
  A model of durablerun's scheduler core, with the theorems that make it correct.

  The program. durablerun runs durable tasks over a SQL database. A caller spawns a task; a driver
  claims the runs that are due, in leases; a worker activates its claim, stores checkpoints, sleeps
  on instants or on events, and completes or fails its run; a sweep fails what expired and cancels
  what is past its deadline. Every operation of the store validates its arguments, sends one
  \<open>FencedBatch\<close> of SQL statements in one transaction, and reads the answer off the row counts. There
  is no lock between operations: a compare-and-set statement checks the rows it needs and stamps
  what it writes, and every later statement of the batch acts only on rows with that stamp.

  Theories and sources, under src/packages. \<open>Sql_Values\<close>: column values, SQL comparison and
  arithmetic. \<open>Validate\<close>: the checks of the port (core/src/validate.ts, contract.ts). \<open>Schema\<close>: the
  tables as lists of row records in one record \<open>db\<close> (store-libsql/src/schema.ts). \<open>Fence\<close>: stamps,
  statements and \<open>run_batch\<close> (core/src/fenced-batch.ts, contract.ts). \<open>Fragments\<close>: the predicates the
  statements share (store-libsql/src/fragments.ts). \<open>Lease\<close>, \<open>Claim\<close>, \<open>Suspend\<close>, \<open>Child_Tasks\<close>, \<open>Events\<close>,
  \<open>Finish\<close>, \<open>Sweep\<close> and \<open>Revive\<close>: the operations of store-libsql/src/store.ts with the statements of
  core/src/statements/ and the rules of core/src/child-tasks.ts, task-done.ts, task-result.ts and
  sagas.ts. A statement is a function from a database to a database and a row count, a batch is a
  list of them in the code's order, and an operation threads the database and answers an error or a
  value. The names are the source's.

  The invariant and the engine. \<open>Invariant\<close> says what a good database is, task by task: the keys, the
  one live run of a live task and its accounting, the outcome columns, the waits of parked runs, the
  completion events. \<open>Rows\<close>, \<open>Effects\<close>, \<open>Waking\<close>, \<open>Ending\<close> and \<open>Placing\<close> say what groups of statements do to
  such a database; the \<open>Preserve\<close> theories prove that each batch keeps it. \<open>History\<close> orders databases by
  what a later one keeps of an earlier one. \<open>Engine\<close> has the transition system \<open>txn\<close>, one rule for each
  batch, whichever worker sends it, and interprets the locales for an invariant and a history;
  a purge, which deletes, is a step beside \<open>txn\<close>: it keeps the invariant and not the history. \<open>Operations\<close>
  proves that a call of an operation is nothing or one of those steps, so interleaving
  calls interleaves transactions. \<open>Lifecycle\<close> has the abstract task the engine refines.

  Outcomes. \<open>Answers\<close>: what a batch can answer. \<open>Candidates\<close>, \<open>Claim_Facts\<close>: the claim against one ordered
  scan. \<open>Worker_Facts\<close>, \<open>Outcomes\<close>, \<open>Unit_Facts\<close>, \<open>Charges\<close>, \<open>Event_Facts\<close>, \<open>Saga_Facts\<close>: what each operation
  leaves. \<open>Refusals\<close>: an operation that raises has written nothing. \<open>Progress\<close>: a due run is claimable and
  an expired claim is acted on. \<open>Names\<close>, \<open>Payload\<close>, \<open>Child_Results\<close>: stamps, ranges, the next wake, the
  payload of a completion event and what a parent learns from it. \<open>Scenario\<close> has the concrete databases
  the witnesses are evaluated on.

  Retention. \<open>Purge\<close> (core/src/retention.ts, statements/purge.ts; store-libsql/src/retention.ts): a policy's
  windows, the listing of candidates in a leg for each ended state, the barrier and the batch that
  deletes a unit. \<open>Preserve_Purge\<close> executes the batch and keeps the invariant; \<open>Retention_Facts\<close> says what
  the port answers. \<open>Retained\<close>: the locale \<open>unit_fact\<close> gives what is known of a task to every database that
  transactions and purges of other tasks (\<open>spares\<close>) lead to; a task that ended for good and a task's key
  are interpretations.

  Drivers. \<open>Retry\<close> (core/src/retry.ts): the parser of a retry strategy, its delays and the decision to
  retry. \<open>Tick\<close> (driver/src/tick.ts, wake.ts, core/src/launch.ts, limits.ts): one pass of a driver over a
  record of the store's operations, with what a launcher reports reconciled; the locale \<open>scheduler\<close> says
  what the pass needs of a store and is interpreted on the operations above. \<open>Loop\<close> (driver/src/loop.ts):
  the resident loop's checked options and what it decides after a pass. A launcher and the other
  callers are arguments that may act on the database between any two operations, and the order in which
  the launches of one pass get to act (\<open>Promise.all\<close>) is an argument too.

  Workers. \<open>Task_Calls\<close>: the options of a spawn (core/src/types.ts, store.ts) and what a spawn and a child
  await lead to. \<open>Claimed_Answer\<close> (core/src/claimed-run-answer.ts): the decoder of an activation's answer;
  \<open>Activation\<close> proves it takes what the store answers. \<open>Context\<close> (sdk/src/context.ts, task-control.ts): a
  task function is the tree of the durable calls it makes, and a pass runs it over a record of the
  store's operations: memos and their names, steps with rollbacks to register, sleeps, events, children,
  the lease checks and the engine's signals. \<open>Worker\<close> (sdk/src/run-worker.ts): the invocation around a
  pass, up to the one write that ends it, and the rollback pass. \<open>Pass_Rules\<close> has the locale of a relation
  that the parts of a pass keep; \<open>Rollbacks\<close> uses it for the order of rollbacks. \<open>Memos\<close>, \<open>Recall\<close> and
  \<open>Replay\<close>: a memo is written once, a call with a memo answers a function of the memos (\<open>recalled\<close>), so a
  second pass is handed what the first was. \<open>Worker_Calls\<close>: a call of a store as a labelled step
  (\<open>call_made\<close>), and a pass as a run of calls that keeps account of what each told it. \<open>Worker_Ends\<close>: an
  outcome is what the store said last (\<open>last_write\<close>), over any store. \<open>Worker_World\<close>: the locale
  \<open>worker_world\<close> asks of a relation on worlds that every store operation keeps it, and gives it to a whole
  invocation; it is interpreted on \<open>engine_store\<close>, which makes a worker's calls through the operations
  above, each with a seed and a clock of its own, other processes before it and a network that may lose it
  or its answer. \<open>Worker_Results\<close>: what an outcome means for the task.
  \<open>Delivery\<close> (sdk/src/delivery-order.ts): the queue of numbers that orders the results of calls pending
  together, with every sequence of a pass's operations on it (\<open>order_reached\<close>). A promise is a numbered
  waker, the event loop's turn an operation of its own.
  \<open>Inline_Worker\<close> (driver/src/inline.ts): the driver whose launcher runs the worker in line.
  \<open>Worker_Scenario\<close> has the task and the stores the witnesses run; \<open>Further\<close> has smaller facts.

  Hypotheses. A batch draws a seed no row carries (\<open>fresh\<close>), as a random UUID is assumed to be, and
  reads a clock in range (\<open>valid_clock\<close>). The ids of new rows are arguments; a duplicate makes the
  batch abort on its key. The memo of runs is an argument that must be true of the database
  (\<open>memo_ok\<close>), and the engine proves it stays so. JavaScript numbers are rationals or not finite.
  JSON columns that statements look into are parsed documents; others are text. The encoding of a
  rollback's attempt record is a pair of parameters. \<open>Payload\<close> parses the objects of strings
  \<open>encodeTaskOutcome\<close> writes.

  Fuel and bounds. No definition runs on fuel but \<open>parse_members\<close>, whose fuel is the length of the text,
  and each member reads at least a quote. \<open>run_rollbacks\<close> recurses on a measure, the started steps not yet
  rolled back; a task function is a finite tree of calls, so a pass over it ends. A child await has the
  two rounds of the code, and between its batches an argument acts as the other writers. Counters are
  unbounded integers; the code keeps them in the ranges of \<open>contract.ts\<close>, and those are part of the
  invariant.

  Not modelled. The fault injection of \<open>buggify\<close>, but for the short batch of a claim; the clock is read
  once for a compare-and-set (twice where a batch has two). The text of messages. The pipelining of
  a sweep: its items are separate transactions. The materialization of a child's ending (\<open>txn\<close> rule
  materialize) takes what the code read of the child as a side condition; in a reachable database it
  writes nothing. The PostgreSQL and MySQL stores, which run the same batches in their dialects; SQL
  text and query plans; timers, the stop of a loop and the time limit of a launch. Of the SDK: a pass
  whose task has calls pending together (the order of their results is modelled alone), the markers that
  record that order, and the walk that serializes a JavaScript value (a value is its JSON data); the heartbeat beside a pass is a beat that lands or not
  at each lease check. Operator reads, the drivers' hosting, HTTP, the command line and the test harness.
\<close>

section \<open>Every interleaving of batches\<close>

text \<open>C1. Whatever batches of whatever workers, drivers, callers and purges are interleaved, the database
  they lead to satisfies the invariant: the keys of the schema, one live run for a live task and
  none for an ended one, the accounting of attempts, the waits of the parked runs and the
  completion events of the ended tasks.\<close>

theorem every_interleaving_keeps_inv:
  assumes "store_step\<^sup>*\<^sup>* empty_db db"
  shows "inv db"
  using reachable_inv[OF assms] .

theorem every_interleaving_keeps_inv_witness: "reachable db_purged \<and> tasks db_purged = [] \<and> inv db_purged"
proof -
  have "tasks db_purged = []" by code_simp
  then show ?thesis using every_interleaving_keeps_inv[OF reachable_purged] reachable_purged by blast
qed

text \<open>C2. A call of any operation of the store, errors included, is nothing or one of those
  transactions, and it leaves the memo of runs it handed out true.\<close>

theorem calls_are_transactions:
  assumes "reachable db" "memo_ok m db" "call m db db'"
  shows "leads_to db db' \<and> memo_ok m db' \<and> inv db'"
  using call_leads[OF assms(3) reachable_inv[OF assms(1)] assms(2)] memo_stable assms(1,2)
    reachable_inv reachable_leads by blast

theorem calls_are_transactions_witness:
  "leads_to db_active (fst (complete ''h'' 2600 [(''r1'', ''t1'')] ''q'' ''r1'' ''w'' ''42'' db_active))"
proof -
  have "memo_ok [(''r1'', ''t1'')] db_active" by code_simp
  moreover have "call [(''r1'', ''t1'')] db_active
      (fst (complete ''h'' 2600 [(''r1'', ''t1'')] ''q'' ''r1'' ''w'' ''42'' db_active))"
    by (rule call_complete; code_simp)
  ultimately show ?thesis using calls_are_transactions reachable_active by blast
qed

text \<open>C3. An operation that answers an error has written nothing: whatever it raises, the database
  is the one it was called on.\<close>

theorem errors_write_nothing:
  assumes "reachable db" "raises m db db' e"
  shows "db' = db"
  by (rule raises_unchanged[OF assms(2) reachable_inv[OF assms(1)]])

theorem errors_write_nothing_witness:
  "\<not> answered (setCheckpoint ''x'' 2200 ''q'' ''t1'' ''r1'' ''stale'' ''pay'' ''1'' (Finite 30) db_active) \<and>
   fst (setCheckpoint ''x'' 2200 ''q'' ''t1'' ''r1'' ''stale'' ''pay'' ''1'' (Finite 30) db_active) = db_active"
proof -
  let ?x = "setCheckpoint ''x'' 2200 ''q'' ''t1'' ''r1'' ''stale'' ''pay'' ''1'' (Finite 30) db_active"
  have c: "fresh ''x'' db_active" "\<not> answered ?x" by code_simp+
  then obtain e where "raises [] db_active (fst ?x) e" using refused_reply raises.intros(2) by metis
  then show ?thesis using errors_write_nothing[OF reachable_active] c(2) by blast
qed

text \<open>C4. The abstract task. Whatever transactions and purges are interleaved, each task id goes through
  the abstract machine: absent, then active, then ended; an ended task is active again only after a
  failure, and goes only by a purge. Without purges a completed or a cancelled one never moves.\<close>

theorem tasks_follow_lifecycle:
  assumes "reachable db" "store_step\<^sup>*\<^sup>* db db'"
  shows "kept_lifecycle\<^sup>*\<^sup>* (status_of tid db) (status_of tid db') \<and>
    (leads_to db db' \<longrightarrow> lifecycle\<^sup>*\<^sup>* (status_of tid db) (status_of tid db'))"
  using kept_task.steps_simulate[OF inv_steps[OF assms(2) reachable_inv[OF assms(1)]]] task_lifecycle.steps_simulate
  by blast

theorem tasks_follow_lifecycle_witness: "kept_lifecycle\<^sup>*\<^sup>* Absent (Ended Completed)"
proof -
  have "status_of ''t1'' empty_db = Absent" "status_of ''t1'' db_done = Ended Completed" by code_simp+
  then show ?thesis using tasks_follow_lifecycle[OF rtranclp.rtrancl_refl reachable_done, of "''t1''"] by simp
qed

text \<open>C5. A task never has two live runs, and its own state is that of its live run.\<close>

theorem one_live_run:
  assumes "reachable db" "r \<in> set (runs db)" "s \<in> set (runs db)" "r_task r = r_task s"
    "live (r_state r)" "live (r_state s)"
  shows "r = s \<and> (\<exists>t\<in>set (tasks db). t_id t = r_task r \<and> t_state t = r_state r)"
proof -
  note i = reachable_inv[OF assms(1)]
  obtain t where t: "t \<in> set (tasks db)" "t_id t = r_task r" using inv_owner[OF i assms(2)] by metis
  note l = inv_live_run[OF i assms(2,5) t]
  have "r = s" using carries_unique[OF l(2), of s] assms(3,4,6) t(2) by (simp add: unit_runs_def)
  then show ?thesis using t l(3) by blast
qed

theorem one_live_run_witness:
  "hd (runs db_active) = hd (runs db_active) \<and> live (r_state (hd (runs db_active))) \<and>
   (\<exists>t\<in>set (tasks db_active). t_id t = r_task (hd (runs db_active)) \<and> t_state t = r_state (hd (runs db_active)))"
proof -
  have "hd (runs db_active) \<in> set (runs db_active)" "live (r_state (hd (runs db_active)))" by code_simp+
  then show ?thesis using one_live_run[OF reachable_active] by blast
qed

text \<open>C6. A task that has ended has no live run, its columns hold the outcome of its state and no
  other, and its completion event is recorded with a text for whoever awaits it.\<close>

theorem ended_task_recorded:
  assumes "reachable db" "t \<in> set (tasks db)" "\<not> live (t_state t)"
  shows "(\<forall>r\<in>set (runs db). r_task r = t_id t \<longrightarrow> \<not> live (r_state r)) \<and>
    decodeTaskResult t = Inr (task_outcome t) \<and>
    (\<exists>e\<in>set (events db). e_key e = (t_queue t, taskDoneEventName (t_id t)) \<and> is_text_cell (e_payload e))"
proof -
  note i = reachable_inv[OF assms(1)]
  have u: "unit_ok t (unit_runs db (t_id t)) (event_keys db)" using inv_unit[OF i assms(2)] .
  have ev: "event_ok e" if "e \<in> set (events db)" for e using i that by (simp add: inv_def rows_ok_def)
  show ?thesis
    using u assms(3) ev by (auto simp: unit_ok_def unit_runs_def event_keys_def event_ok_def decodeTaskResult_def contradictions_none)
qed

theorem ended_task_recorded_witness:
  "decodeTaskResult (hd (tasks db_done)) = Inr (task_outcome (hd (tasks db_done))) \<and>
   e_key (hd (events db_done)) = (''q'', ''$task-done:t1'')"
proof -
  have "hd (tasks db_done) \<in> set (tasks db_done)" "\<not> live (t_state (hd (tasks db_done)))" by code_simp+
  then have "decodeTaskResult (hd (tasks db_done)) = Inr (task_outcome (hd (tasks db_done)))"
    using ended_task_recorded[OF reachable_done] by blast
  moreover have "e_key (hd (events db_done)) = (''q'', ''$task-done:t1'')" by code_simp
  ultimately show ?thesis by simp
qed

section \<open>Workers\<close>

text \<open>C7. A worker is transactions. Whatever task function an invocation runs, and wherever the network
  fails or others act between its calls, it leads from a reachable database to a reachable one
  through the transactions of the store, and the invariant holds where it stops.\<close>

theorem worker_is_transactions:
  assumes "surrounds v" "reachable (snd s)" "memo_ok (v_memo v) (snd s)"
    "runClaimedRun h (engine_store v) registry iv s = (t, out)"
  shows "leads_to (snd s) (snd t) \<and> reachable (snd t) \<and> inv (snd t)"
  using worker_leads[OF assms(1-3), of h registry iv] assms(4) reachable_leads[OF assms(2)] reachable_inv by (metis fst_conv)

theorem worker_is_transactions_witness:
  "snd demo_run = Inr WCompleted \<and> reachable (snd (fst demo_run)) \<and> inv (snd (fst demo_run))"
  using worker_is_transactions[OF demo_surrounds(1) _ demo_surrounds(2) demo_run_is] reachable_claimed demo_completes by simp

text \<open>C8. A second pass is handed what the first was. Over the memos a first pass left, a pass of the same
  task function answers its calls with the answers the first had, in order and up to the first call
  that had none, whatever its store would answer, as long as its lease holds and its emits land;
  where every call was answered, it ends the same.\<close>

theorem replay_hands_same:
  fixes x y :: "'s ctx"
  assumes "memo_round_trips (x_host x)" "x_host y = x_host x" "lease_steady y" "emits_land y"
    "readable p" "\<not> p_in_step p" "replaying seen (p_uses p) p2"
    "\<forall>k v. p_seen (fst (exec_prog x pr p)) k = Some v \<and> \<not> prefix SAGA_STARTED_PREFIX k \<longrightarrow> seen k = Some v"
  shows "prefix (takeWhile (\<lambda>r. \<not> isl r) (answers x pr p)) (answers y pr p2) \<and>
    ((\<forall>r\<in>set (answers x pr p). \<not> isl r) \<longrightarrow> snd (exec_prog y pr p2) = snd (exec_prog x pr p))"
  by (rule replays(1)[OF assms(1-7)]) (use assms(8) in blast)

theorem replay_hands_same_witness:
  "answers (demo_ctx silent_store) demo_program demo_pass = [Inr (Answered (JInt 7))] \<and>
   snd (exec_prog (demo_ctx barred_store) demo_program demo_replay) = Inr (Some (JInt 7))"
proof -
  let ?x = "demo_ctx silent_store" and ?y = "demo_ctx barred_store"
  have a: "answers ?x demo_program demo_pass = [Inr (Answered (JInt 7))]"
    "snd (exec_prog ?x demo_program demo_pass) = Inr (Some (JInt 7))" "\<not> p_in_step demo_pass" by code_simp+
  have h: "memo_round_trips (x_host ?x)" "x_host ?y = x_host ?x" using demo_memos by (simp_all add: demo_ctx_def)
  have y: "lease_steady ?y" "emits_land ?y"
    by (simp_all add: lease_steady_def emits_land_def demo_ctx_def barred_store_def silent_store_def)
  have p: "readable demo_pass" by (simp add: readable_def demo_pass_def blank_pass_def)
  have r: "replaying (p_seen demo_replay) (p_uses demo_pass) demo_replay"
    by (simp add: replaying_def calm_def demo_replay_def demo_pass_def blank_pass_def)
  show ?thesis
    using replay_hands_same[OF h y p a(3) r, of demo_program] a by (simp add: demo_replay_def)
qed

text \<open>C9. A worker says what its store said last. Over any store, an invocation makes calls of the store and
  nothing else, and its outcome is the last word of one: completed, failed with or without a retry, rolling
  or rolled back, deferred, incompatible or superseded when that very call, its last, was answered so;
  suspended when its last call parked the run with a sleep, or when an await of the run that its activation
  handed over had parked it; a lost lease, a cancelled run or an abort when a call of it had failed with
  the error of that outcome, or a beat of its lease was refused so.\<close>

theorem outcome_is_last_write:
  assumes "runClaimedRun h store registry iv s = (t, Inr out)"
  shows "\<exists>u. calls store s u \<and> last_write store iv s out u t"
  by (rule invocation_ends[OF assms])

theorem outcome_is_last_write_witness:
  "\<exists>u res. calls (engine_store demo_surroundings) (0, db_claimed) u \<and>
     w_complete (engine_store demo_surroundings) ''q'' ''r1'' ''w'' res u = (fst demo_run, Inr ())"
  using outcome_is_last_write[OF demo_run_is] by (auto simp: last_write_def Let_def demo_invocation_def)

text \<open>C10. A worker's word is the task's result. When an invocation answers that it completed, the run of
  its claim belongs to a task whose result is the completed state with a value, in the database the
  invocation left and in every one that transactions and purges of other tasks lead to from it. A purge of
  the task itself takes its result away.\<close>

theorem completed_worker_read_back:
  assumes "surrounds v" "reachable (snd s)" "memo_ok (v_memo v) (snd s)"
    "runClaimedRun h (engine_store v) registry iv s = (t, Inr WCompleted)"
  shows "\<exists>task res. knows_run (i_run iv) task (snd t) \<and>
    (\<forall>db. (spares task)\<^sup>*\<^sup>* (snd t) db \<longrightarrow> answers_completed (i_queue iv) task res db)"
  by (rule worker_completes[OF assms])

theorem completed_worker_read_back_witness:
  "\<exists>task res. knows_run ''r1'' task (snd (fst demo_run)) \<and> answers_completed ''q'' task res (snd (fst demo_run)) \<and>
     answers_completed ''q'' task res (fst (driverHeartbeat 3000 ''q'' ''d'' (Finite 30) (snd (fst demo_run))))"
proof -
  let ?d = "snd (fst demo_run)" and ?e = "fst (driverHeartbeat 3000 ''q'' ''d'' (Finite 30) (snd (fst demo_run)))"
  have r: "reachable ?d" by (rule demo_reached)
  have "leads_to ?d ?e" by (rule one_txn, rule txn.beat, rule surjective_pairing)
  then have l: "(spares task)\<^sup>*\<^sup>* ?d ?e" for task by (rule leads_spares) (rule reachable_inv[OF r])
  have "reachable (snd (0, db_claimed))" using reachable_claimed by simp
  from completed_worker_read_back[OF demo_surrounds(1) this demo_surrounds(2) demo_run_is] l
  show ?thesis unfolding demo_invocation_def by (force intro: rtranclp.rtrancl_refl)
qed

text \<open>C11. Rollbacks run newest first, and each once. Of the steps that started, those a rollback pass has
  rolled back when it stops are registered ones and come after all that are left; a pass that
  answers that it rolled back has rolled back every one.\<close>

theorem rollbacks_newest_first:
  assumes "run_rollbacks x cause p = (q, r)"
  shows "(\<forall>k \<in> p_rolled q - p_rolled p. k \<in> set (p_started p) \<and> p_registered p k \<noteq> None \<and>
      (\<forall>j \<in> set (p_started p). started_index p k < started_index p j \<and> 0 < started_index p j \<longrightarrow> j \<in> p_rolled q)) \<and>
    (r = Inr WRolledBack \<longrightarrow> (\<forall>k \<in> set (p_started p). 0 < started_index p k \<longrightarrow> k \<in> p_rolled q))"
  using rollbacks_in_order[OF assms] unfolding rolled_in_order_def by blast

theorem rollbacks_newest_first_witness:
  "snd (run_rollbacks (demo_ctx silent_store) ''7'' demo_owing) = Inr WRolledBack \<and>
   ''a'' \<in> p_rolled (fst (run_rollbacks (demo_ctx silent_store) ''7'' demo_owing))"
proof -
  let ?x = "run_rollbacks (demo_ctx silent_store) ''7'' demo_owing"
  have o: "snd ?x = Inr WRolledBack" "''a'' \<in> set (p_started demo_owing)" "0 < started_index demo_owing ''a''" by code_simp+
  have "?x = (fst ?x, Inr WRolledBack)" using o(1) by (metis prod.collapse)
  from rollbacks_newest_first[OF this] show ?thesis using o by blast
qed

text \<open>C12. A rollback pass ends. A turn that runs the rollback that is next leaves fewer of the started
  steps to roll back, so a pass takes no more turns than steps started.\<close>

theorem rollback_owes_fewer:
  assumes "nextRollback h p = RunNext key" "runRollback x key p = (q, Inr u)"
  shows "length (owed q) < length (owed p) \<and> length (owed p) \<le> length (p_started p)"
  using owed_falls[OF assms] by (simp add: owed_def)

theorem rollback_owes_fewer_witness:
  "nextRollback demo_host demo_owing = RunNext ''b'' \<and>
   length (owed (fst (runRollback (demo_ctx silent_store) ''b'' demo_owing))) < length (owed demo_owing)"
proof -
  let ?x = "runRollback (demo_ctx silent_store) ''b'' demo_owing"
  have o: "nextRollback demo_host demo_owing = RunNext ''b''" "snd ?x = Inr ()" by code_simp+
  have "?x = (fst ?x, Inr ())" using o(2) by (metis prod.collapse)
  from rollback_owes_fewer[OF o(1) this] show ?thesis using o(1) by blast
qed

text \<open>C13. An activation is taken. What the store answers a worker that activated its claim the worker's
  decoder takes, with the ids, the attempt, the lease and the maximum of the claimed run.\<close>

theorem activation_is_taken:
  assumes "reachable db" "fresh seed db" "activate seed now queue rid token gen db = (db', Inr (Some c))" "nameable token c"
  shows "\<exists>w. decodeClaimedRunAnswer (answer_value c) = Inr w \<and> wr_run w = cr_run c \<and> wr_task w = cr_task c \<and>
    wr_token w = token \<and> wr_attempt w = cr_attempt c \<and> wr_infra w = cr_infra c \<and>
    wr_lease w = of_int (cr_lease_ms c) / 1000 \<and> wr_max_attempts w = cr_max_attempts c \<and> wr_retry w = cr_retry c"
  by (rule activation_taken[OF reachable_inv[OF assms(1)] assms(2-4)])

theorem activation_is_taken_witness:
  "\<exists>c w. snd (activate ''x'' 2100 ''q'' ''r1'' ''w'' 1 db_claimed) = Inr (Some c) \<and>
     decodeClaimedRunAnswer (answer_value c) = Inr w \<and> wr_run w = ''r1'' \<and> wr_lease w = 30"
proof -
  let ?x = "activate ''x'' 2100 ''q'' ''r1'' ''w'' 1 db_claimed"
  have c: "fresh ''x'' db_claimed" "answered ?x"
    "case snd ?x of Inr (Some c) \<Rightarrow> nameable ''w'' c \<and> cr_run c = ''r1'' \<and> cr_lease_ms c = 30000 | _ \<Rightarrow> False"
    by code_simp+
  obtain c' where c': "snd ?x = Inr (Some c')" "nameable ''w'' c'" "cr_run c' = ''r1''" "cr_lease_ms c' = 30000"
  proof (cases "snd ?x")
    case (Inr o')
    then show ?thesis using c(3) that by (cases o') simp_all
  qed (use c(3) in simp)
  have x: "?x = (fst ?x, Inr (Some c'))" using c'(1) by (metis prod.collapse)
  obtain w where "decodeClaimedRunAnswer (answer_value c') = Inr w" "wr_run w = cr_run c'" "wr_lease w = of_int (cr_lease_ms c') / 1000"
    using activation_is_taken[OF reachable_claimed c(1) x c'(2)] by blast
  then show ?thesis using c' by auto
qed

text \<open>C14. The results of calls that are pending together reach the task in the order of
  their numbers, whatever order the store answers them in. In every state a pass can bring the order to
  before it opens it, a call whose number is not done goes on at once exactly when every lower number was
  handed over or given up and the event loop has turned since the last; and of all a pass can do next,
  nothing but opening the order wakes a call that waits, unless every lower number is then done and the
  loop has turned. Opening or ending the order, which a pass does once it cannot go on, lets every call go
  that waits, and any call that asks from then on.\<close>

theorem deliveries_in_order:
  assumes "order_reached Q d" "\<not> d_open d"
  shows "(\<forall>seq\<in>Q. \<not> isDone d seq \<longrightarrow>
       (snd (wait_turn seq d) = None \<longleftrightarrow> \<not> d_settling d \<and> (\<forall>s\<in>Q. s < seq \<longrightarrow> isDone d s))) \<and>
    (\<forall>seq w. d_waiting d seq = Some w \<longrightarrow> w \<notin> d_resolved d \<and>
       (\<forall>n settle. \<forall>d' \<in> in_turn n settle d. w \<in> d_resolved d' \<longrightarrow> \<not> d_settling d' \<and> (\<forall>s\<in>Q. s < seq \<longrightarrow> isDone d' s)) \<and>
       (\<forall>e. \<forall>d' \<in> {open_order d, end_order e d}. w \<in> d_resolved d' \<and> (\<forall>n. snd (wait_turn n d') = None)))"
proof (rule conjI)
  show "\<forall>seq\<in>Q. \<not> isDone d seq \<longrightarrow>
      (snd (wait_turn seq d) = None \<longleftrightarrow> \<not> d_settling d \<and> (\<forall>s\<in>Q. s < seq \<longrightarrow> isDone d s))"
    using turn_taken[OF assms] by blast
next
  have all: "w \<notin> d_resolved d \<and>
      (\<forall>n settle. \<forall>d' \<in> in_turn n settle d. w \<in> d_resolved d' \<longrightarrow> \<not> d_settling d' \<and> (\<forall>s\<in>Q. s < seq \<longrightarrow> isDone d' s)) \<and>
      (\<forall>e. \<forall>d' \<in> {open_order d, end_order e d}. w \<in> d_resolved d' \<and> (\<forall>n. snd (wait_turn n d') = None))"
    if w: "d_waiting d seq = Some w" for seq w
  proof (intro conjI)
    show "w \<notin> d_resolved d" by (rule waker_unresolved[OF assms w])
    show "\<forall>n settle. \<forall>d' \<in> in_turn n settle d. w \<in> d_resolved d' \<longrightarrow> \<not> d_settling d' \<and> (\<forall>s\<in>Q. s < seq \<longrightarrow> isDone d' s)"
      using woken_in_order[OF assms w] by blast
    show "\<forall>e. \<forall>d' \<in> {open_order d, end_order e d}. w \<in> d_resolved d' \<and> (\<forall>n. snd (wait_turn n d') = None)"
      by (intro allI ballI) (rule opened_all[OF assms w])
  qed
  show "\<forall>seq w. d_waiting d seq = Some w \<longrightarrow> w \<notin> d_resolved d \<and>
      (\<forall>n settle. \<forall>d' \<in> in_turn n settle d. w \<in> d_resolved d' \<longrightarrow> \<not> d_settling d' \<and> (\<forall>s\<in>Q. s < seq \<longrightarrow> isDone d' s)) \<and>
      (\<forall>e. \<forall>d' \<in> {open_order d, end_order e d}. w \<in> d_resolved d' \<and> (\<forall>n. snd (wait_turn n d') = None))"
    by (intro allI impI) (erule all)
qed

theorem deliveries_in_order_witness:
  "\<exists>d :: unit delivery. snd (wait_turn 5 d) \<noteq> None \<and> snd (wait_turn 3 d) = None \<and> d_waiting d 5 = Some 0 \<and>
     d_resolved d = {} \<and> d_resolved (release 3 False d) = {0} \<and> isDone (release 3 False d) 3 \<and>
     0 \<notin> d_resolved (release 3 True (useTurn d)) \<and> 0 \<in> d_resolved (open_order d)"
proof -
  let ?start = "new_order [3, 5] 5 :: unit delivery"
  let ?d = "fst (wait_turn 5 ?start)"
  have o: "order_reached (set [3, 5]) ?start" by (rule order_reached.start) simp_all
  have r: "order_reached (set [3, 5]) ?d" by (rule order_reached.waited[OF o]) (simp_all add: new_order_def)
  have r2: "order_reached (set [3, 5]) (useTurn ?d)" by (rule order_reached.turn_used[OF r])
  have c: "\<not> d_open ?d" "\<not> isDone ?d 3" "\<not> isDone ?d 5" "d_waiting ?d 5 = Some 0" "d_resolved ?d = {}"
    "0 \<in> d_resolved (release 3 False ?d)" "d_resolved (release 3 False ?d) = {0}" "\<not> d_settling ?d"
    "\<not> d_open (useTurn ?d)" "d_waiting (useTurn ?d) 5 = Some 0" "d_settling (release 3 True (useTurn ?d))" by code_simp+
  note first = deliveries_in_order[OF r c(1)] and second = deliveries_in_order[OF r2 c(9)]
  note wake = mp[OF spec[OF spec[OF conjunct2[OF first]]] c(4)] and wake2 = mp[OF spec[OF spec[OF conjunct2[OF second]]] c(10)]
  have "snd (wait_turn 3 ?d) = None" using conjunct1[OF first] c(2,8) by auto
  moreover have "snd (wait_turn 5 ?d) \<noteq> None" using conjunct1[OF first] c(2,3) by auto
  moreover have "isDone (release 3 False ?d) 3"
    using spec[OF spec[OF conjunct1[OF conjunct2[OF wake]]], of 3 False] c(6) by (simp add: in_turn_def)
  moreover have "0 \<in> d_resolved (open_order ?d)" using conjunct2[OF conjunct2[OF wake]] by simp
  moreover have "0 \<notin> d_resolved (release 3 True (useTurn ?d))"
    using spec[OF spec[OF conjunct1[OF conjunct2[OF wake2]]], of 3 True] c(11) by (auto simp: in_turn_def)
  ultimately show ?thesis using c(4,5,7) by blast
qed

text \<open>C15. No result is held back without a reason, and no pass waits for a call
  the task never makes. While the order is not between a result and the turn after it (and then it is
  owed one), a call that waits has a lower number that is not done; a beat that finds nothing was handed
  over since the one before hands a result over, or gives up every number of an earlier pass; and a beat
  gives up no number of this pass.\<close>

theorem waiting_call_goes_on:
  assumes "order_reached Q d" "\<not> d_open d"
  shows "(d_settling d \<longrightarrow> 0 < d_turns d) \<and>
    (\<not> d_settling d \<and> d_waiting d seq \<noteq> None \<and> \<not> isDone d seq \<longrightarrow> (\<exists>s\<in>Q. s < seq \<and> \<not> isDone d s)) \<and>
    (\<not> d_settling d \<and> stalled d \<and> d_progress d = d_beatProgress d \<longrightarrow>
       d_waitingCount (order_beat d) < d_waitingCount d \<or> (\<forall>s\<in>Q. s < d_firstLive d \<longrightarrow> isDone (order_beat d) s)) \<and>
    (\<forall>s\<in>Q. isDone (order_beat d) s \<longrightarrow> isDone d s \<or> s < d_firstLive d)"
  using settling_owed[OF assms(1)] waiter_behind[OF assms] beat_goes_on[OF assms] beat_spares_live[OF assms(1)] by blast

theorem waiting_call_goes_on_witness:
  "\<exists>d :: unit delivery. stalled d \<and> d_waiting d 5 = Some 0 \<and> \<not> isDone d 3 \<and> 0 \<in> d_resolved (order_beat d)"
proof -
  let ?start = "new_order [3, 5] 5 :: unit delivery"
  let ?d = "fst (wait_turn 5 ?start)"
  have o: "order_reached (set [3, 5]) ?start" by (rule order_reached.start) simp_all
  have r: "order_reached (set [3, 5]) ?d" by (rule order_reached.waited[OF o]) (simp_all add: new_order_def)
  have c: "\<not> d_open ?d" "stalled ?d" "\<not> d_settling ?d" "d_waiting ?d 5 = Some 0" "\<not> isDone ?d 5" by code_simp+
  have "0 \<in> d_resolved (order_beat ?d)" by code_simp
  moreover have "\<not> isDone ?d 3" using waiting_call_goes_on[OF r c(1), of 5] c(3-5) by auto
  ultimately show ?thesis using c(2,4) by blast
qed

section \<open>Events and children\<close>

text \<open>C16. No wakeup is lost: while a wait is registered its event has not been recorded, and the
  run it names sleeps on exactly that event, so the emit that records it finds the run.\<close>

theorem no_lost_wakeup:
  assumes "reachable db" "w \<in> set (waits db)" "w_status w = Waiting"
  shows "(w_queue w, w_event w) \<notin> e_key ` set (events db) \<and>
    (\<exists>r\<in>set (runs db). r_id r = w_run w \<and> r_state r = Sleeping \<and> r_wake_event r = Some (w_event w) \<and>
       r_wake_step r = Some (w_step w) \<and> r_available r = w_timeout w)"
proof -
  have "wait_ok (set (runs db)) (event_keys db) w"
    using reachable_inv[OF assms(1)] assms(2) by (simp add: inv_def waits_ok_def)
  then show ?thesis using assms(3)
    by (auto simp: wait_ok_def event_keys_def parked_on_def wait_witness_def)
qed

theorem no_lost_wakeup_witness:
  "waits db_parked \<noteq> [] \<and> (''q'', ''go'') \<notin> e_key ` set (events db_parked)"
proof -
  have w: "hd (waits db_parked) \<in> set (waits db_parked)" "w_status (hd (waits db_parked)) = Waiting"
    "(w_queue (hd (waits db_parked)), w_event (hd (waits db_parked))) = (''q'', ''go'')" "waits db_parked \<noteq> []"
    by code_simp+
  then show ?thesis using no_lost_wakeup[OF reachable_parked w(1,2)] by simp
qed

text \<open>C17. An emit wakes the runs that wait. The run of every wait registered for the event is
  pending at the emit's instant with the event's name, the wait's step and the emitted payload, and
  the wait is gone.\<close>

theorem emit_wakes_waiting:
  assumes "reachable db" "fresh seed db" "emitEvent seed now queue name payload db = (db', Inr ())"
    "r \<in> set (runs db)" "w \<in> set (waits db)" "w_status w = Waiting" "w_run w = r_id r" "w_queue w = queue" "w_event w = name"
  shows "(\<exists>r'\<in>set (runs db'). r_id r' = r_id r \<and> r_state r' = Pending \<and> r_available r' = Num now \<and>
      r_wake_event r' = Some name \<and> r_wake_step r' = Some (w_step w) \<and> r_payload r' = Text payload) \<and>
    w \<notin> set (waits db')"
proof -
  note i = reachable_inv[OF assms(1)]
  obtain res where "run_batch (emitEvent_batch seed now queue name payload) db = (db', Inr res)"
    using assms(3) fromPort_not_done by (fastforce simp: emitEvent_def split: sum.splits prod.splits option.splits if_splits)
  from emit_wakes[OF i assms(2) this assms(4,5) wait_parked[OF i assms(4,5,7,6)] assms(8,9)]
  show ?thesis by blast
qed

theorem emit_wakes_waiting_witness:
  "\<exists>r\<in>set (runs (fst (emitEvent ''i'' 2700 ''q'' ''go'' ''7'' db_parked))).
     r_id r = ''r1'' \<and> r_state r = Pending \<and> r_wake_step r = Some ''step'' \<and> r_payload r = Text ''7''"
proof -
  let ?x = "emitEvent ''i'' 2700 ''q'' ''go'' ''7'' db_parked" and ?r = "hd (runs db_parked)" and ?w = "hd (waits db_parked)"
  have c: "fresh ''i'' db_parked" "answered ?x" "?r \<in> set (runs db_parked)" "?w \<in> set (waits db_parked)" "w_status ?w = Waiting"
    "w_run ?w = r_id ?r" "w_queue ?w = ''q''" "w_event ?w = ''go''" "r_id ?r = ''r1''" "w_step ?w = ''step''" by code_simp+
  have "?x = (fst ?x, Inr ())" using answered_reply[OF c(2)] by auto
  from emit_wakes_waiting[OF reachable_parked c(1) this c(3-8)] show ?thesis using c(9,10) by auto
qed

text \<open>C18. What an await answers. With the event recorded it answers the stored payload and writes
  nothing; otherwise the run sleeps under a wait on exactly that event, step and deadline, and its
  task with it.\<close>

theorem await_answers_event:
  assumes "reachable db" "fresh seed db"
    "awaitEvent seed now queue task rid token step name timeout db = (db', Inr a)"
  shows "case a of
      Emitted p \<Rightarrow> db' = db \<and> (\<exists>e\<in>set (events db). e_key e = (queue, name) \<and> e_payload e = p)
    | Parked \<Rightarrow> (queue, name) \<notin> event_keys db \<and>
        (\<exists>w. w_run w = rid \<and> w_step w = step \<and> w_event w = name \<and> w_task w = task \<and> w_queue w = queue \<and>
           (timeout = None \<longrightarrow> w_timeout w = Null) \<and>
           (\<forall>s. timeout = Some s \<longrightarrow> (\<exists>ms. durationToMs ''timeoutSeconds'' s True = Inr ms \<and> w_timeout w = Num (now + ms))) \<and>
           parked_under queue w db')"
  by (rule await_answers[OF reachable_inv[OF assms(1)] assms(2,3)])

theorem await_answers_event_witness:
  "\<exists>w. w_event w = ''go'' \<and> w_timeout w = Num 7300 \<and>
     parked_under ''q'' w (fst (awaitEvent ''e'' 2300 ''q'' ''t1'' ''r1'' ''w'' ''step'' ''go'' (Some (Finite 5)) db_active))"
proof -
  let ?x = "awaitEvent ''e'' 2300 ''q'' ''t1'' ''r1'' ''w'' ''step'' ''go'' (Some (Finite 5)) db_active"
  have c: "fresh ''e'' db_active" "snd ?x = Inr Parked" "durationToMs ''timeoutSeconds'' (Finite 5) True = Inr 5000" by code_simp+
  have "?x = (fst ?x, Inr Parked)" using c(2) by (auto intro: prod_eqI)
  from await_answers_event[OF reachable_active c(1) this] show ?thesis using c(3) by auto
qed

text \<open>C19. A parent learns its child's outcome. Awaiting a child of its own queue that has ended, the
  holder of a live claim is answered by the first batch; nothing is written, and what it is answered
  decodes to an outcome of an ended task.\<close>

theorem ended_child_known:
  assumes "reachable db" "fresh (seeds 0 db) db" "between 0 db = db"
    "t \<in> set (tasks db)" "t_id t = child" "t_queue t = queue" "\<not> live (t_state t)"
    "stillClaimed queue rid task token (\<lambda>t. live (t_state t)) db"
    "awaitedTaskDone child = Inr (TaskDone child)"
    "timeout = None \<or> (\<exists>s ms. timeout = Some s \<and> durationToMs ''timeoutSeconds'' s True = Inr ms)"
  shows "\<exists>p res. awaitTaskDone seeds clock between queue task rid token step child timeout db = (db, Inr (Emitted (Text p))) \<and>
    decodeTaskOutcome child (parse_object p) = Inr res \<and> \<not> live (o_state res) \<and> contradictionsOf res = []"
proof -
  have g: "inv db" "outcomes_recorded db" using completion_events.reachable_good[OF assms(1)] by auto
  obtain e where e: "e \<in> set (events db)" "e_name e = taskDoneEventName child"
    "awaitNamedEvent (seeds 0 db) (clock 0) queue task rid token step (TaskDone child) timeout db = (db, Inr (Some (Emitted (e_payload e))))"
    using ended_child_hits[OF g(1) assms(2,4-8,10)] by blast
  obtain p res where "e_payload e = Text p" "ended_outcome res" "decodeTaskOutcome child (parse_object p) = Inr res"
    using recorded_decodes[OF g(2) e(1,2)] by blast
  then show ?thesis
    using ended_child_answered[where seeds = seeds and clock = clock and between = between, OF assms(9,3) e(3)] by (auto simp: ended_outcome_def)
qed

theorem ended_child_known_witness:
  "\<exists>p res. awaitTaskDone (\<lambda>i d. ''x'') (\<lambda>i. 3000) (\<lambda>i d. d) ''q'' ''t2'' ''s1'' ''v'' ''step'' ''t1'' None db_parent =
     (db_parent, Inr (Emitted (Text p))) \<and> decodeTaskOutcome ''t1'' (parse_object p) = Inr res"
proof -
  let ?t = "hd (tasks db_parent)"
  have c: "fresh ''x'' db_parent" "db_parent = db_parent" "?t \<in> set (tasks db_parent)"
    "t_id ?t = ''t1''" "t_queue ?t = ''q''" "\<not> live (t_state ?t)"
    "stillClaimed ''q'' ''s1'' ''t2'' ''v'' (\<lambda>t. live (t_state t)) db_parent" "awaitedTaskDone ''t1'' = Inr (TaskDone ''t1'')"
    by code_simp+
  show ?thesis
    using ended_child_known[where seeds = "\<lambda>i d. ''x''" and clock = "\<lambda>i. 3000" and between = "\<lambda>i d. d" and timeout = None
        and step = "''step''", OF reachable_parent c] by blast
qed

section \<open>Nothing is stuck\<close>

text \<open>C20. A due run is claimed. A pending or sleeping run whose instant has come, of a task whose
  retry policy and headers are admissible and whose deadline has not passed, is among the runs a
  claim with a new token answers, when the claim's limit covers the runs that are eligible.\<close>

theorem due_run_claimed:
  assumes "reachable db" "fresh seed db" "valid_clock now" "\<not> token_holds queue token db"
    "durationToMs ''leaseSeconds'' lease True = Inr ms" "requirePositiveInt ''limit'' limit 1 = Inr bound"
    "addition_fits (Num now) ms" "length (filter (due_eligible now queue db) (runs db)) \<le> nat bound"
    "r \<in> set (runs db)" "r_queue r = queue" "r_state r = Pending \<or> r_state r = Sleeping" "runAvailableDue r now"
    "t \<in> set (tasks db)" "runOwnedByTask r t" "cancelNotDue t now" "durableTaskRetryAdmissible t"
    "durableTaskHeadersAdmissible t" "storedIncrementableClaimGeneration r"
  shows "\<exists>db' cs. claim seed now False queue token lease limit db = (db', Inr cs) \<and> r_id r \<in> set (map cr_run cs)"
proof -
  note i = reachable_inv[OF assms(1)]
  have "due_eligible now queue db r" using due_claimable[OF i assms(9,11-18)] assms(10) by simp
  then show ?thesis by (rule due_claimed[OF i assms(2-7,9) _ assms(8)])
qed

theorem due_run_claimed_witness:
  "\<exists>db' cs. claim ''b'' 2000 False ''q'' ''w'' (Finite 30) (Finite 10) db_spawned = (db', Inr cs) \<and>
     ''r1'' \<in> set (map cr_run cs)"
proof -
  let ?r = "hd (runs db_spawned)" and ?t = "hd (tasks db_spawned)"
  have c: "fresh ''b'' db_spawned" "valid_clock 2000" "\<not> token_holds ''q'' ''w'' db_spawned"
    "durationToMs ''leaseSeconds'' (Finite 30) True = Inr 30000" "requirePositiveInt ''limit'' (Finite 10) 1 = Inr 10"
    "addition_fits (Num 2000) 30000" "length (filter (due_eligible 2000 ''q'' db_spawned) (runs db_spawned)) \<le> nat 10"
    "?r \<in> set (runs db_spawned)" "r_queue ?r = ''q''" "r_state ?r = Pending \<or> r_state ?r = Sleeping" "runAvailableDue ?r 2000"
    "?t \<in> set (tasks db_spawned)" "runOwnedByTask ?r ?t" "cancelNotDue ?t 2000" "durableTaskRetryAdmissible ?t"
    "durableTaskHeadersAdmissible ?t" "storedIncrementableClaimGeneration ?r" "r_id ?r = ''r1''"
    by code_simp+
  then show ?thesis using due_run_claimed[OF reachable_spawned c(1-17)] by simp
qed

text \<open>C21. An expired claim is acted on. A running run whose lease has expired yields an item of the
  sweep whatever its counters are, and the batch of that item leaves the run not running: reopened,
  failed with a successor, or failed for good.\<close>

theorem expired_claim_released:
  assumes "reachable db" "r \<in> set (runs db)" "r_state r = Running" "runClaimExpired r now"
    "0 \<le> now" "now + 60000 \<le> MAX_EPOCH_MS"
  shows "\<exists>item. expired_item r = Inr item \<and>
    (\<forall>seed sid db' x. sweep_one seed sid now now (r_queue r) item db = (db', Inr x) \<longrightarrow>
       (\<forall>r'\<in>set (runs db'). r_id r' = r_id r \<longrightarrow> r_state r' \<noteq> Running))"
  using expired_acted[OF reachable_inv[OF assms(1)] assms(2-6)] swept_released[OF reachable_inv[OF assms(1)] assms(2)]
  by (metis sum.distinct(1))

theorem expired_claim_released_witness:
  "filter (\<lambda>r. r_id r = ''r1'' \<and> r_state r = Running)
     (runs (fst (sweep_one ''x'' ''r2'' 40000 40000 ''q'' (ClaimTimeoutItem ''r1'' ''t1'' 1) db_active))) = []"
proof -
  let ?r = "hd (runs db_active)" and ?x = "sweep_one ''x'' ''r2'' 40000 40000 ''q'' (ClaimTimeoutItem ''r1'' ''t1'' 1) db_active"
  have c: "?r \<in> set (runs db_active)" "r_state ?r = Running" "runClaimExpired ?r 40000" "0 \<le> (40000::int)" "40000 + 60000 \<le> MAX_EPOCH_MS"
    "expired_item ?r = Inr (ClaimTimeoutItem ''r1'' ''t1'' 1)" "r_queue ?r = ''q''" "r_id ?r = ''r1''" "answered ?x"
    by code_simp+
  obtain a where "?x = (fst ?x, Inr a)" using answered_reply[OF c(9)] by blast
  then show ?thesis using expired_claim_released[OF reachable_active c(1-5)] c(6-8) by (auto simp: filter_empty_conv)
qed

section \<open>Drivers\<close>

text \<open>C22. A tick is transactions. Whatever the launcher does and reports, in whatever order the launches of a tick
  get to act, and whoever acts between its operations, a tick leads from a reachable database to a reachable one, and every run it claimed is
  counted once as launched, failed or ended.\<close>

theorem tick_is_transactions:
  assumes "reachable db" "\<forall>d. fresh (draw d) d" "\<forall>i. valid_clock (clock i)" "\<forall>i d. leads_to d (between i d)"
    "\<forall>i d. leads_to d (others i d)" "\<forall>c d. reachable d \<longrightarrow> leads_to d (fst (launcher c d))"
    "tick (libsql_store draw newId clock others between short queue) launcher turns token opts db = (db', res)"
  shows "leads_to db db' \<and> inv db' \<and>
    (case res of Inl e \<Rightarrow> True | Inr r \<Rightarrow> tr_launched r + tr_failed r + tr_ended r = tr_claimed r)"
proof -
  have "scheduler (libsql_store draw newId clock others between short queue) launcher reachable leads_to"
    by (rule libsql_scheduler) (use assms(2-6) in blast)+
  from scheduler.tick_later[OF this assms(1), of turns token opts] have l: "leads_to db db'" using assms(7) by simp
  have "inv db'" using reachable_inv[OF reachable_leads[OF assms(1) l]] .
  then show ?thesis using l tick_counts assms(7) by (auto split: sum.split)
qed

theorem tick_is_transactions_witness:
  "leads_to db_spawned (fst demo_tick) \<and> inv (fst demo_tick)"
proof -
  have c: "\<forall>d. fresh (draw_seed d) d" "\<forall>i::nat. valid_clock 2000" "\<forall>(i::nat) d. leads_to d d"
    "\<forall>c d. reachable d \<longrightarrow> leads_to d (fst (inlineLauncher demo_surroundings demo_host demo_registry ''q'' c d))"
    using draw_seed_fresh inline_leads[OF demo_surrounds(1)] by (auto simp: valid_clock_def MAX_EPOCH_MS_def demo_surroundings_def)
  have x: "demo_tick = (fst demo_tick, snd demo_tick)" by simp
  show ?thesis
    using tick_is_transactions[where clock = "\<lambda>i. 2000" and between = "\<lambda>i d. d" and others = "\<lambda>i d. d",
        OF reachable_spawned c(1-3) c(3,4) x] by blast
qed

text \<open>C23. No wake is forgotten. The request a tick's result makes never fails; when it makes none
  nothing of the queue comes due at any instant, and one it schedules is at the earliest.\<close>

theorem no_wake_forgotten:
  assumes "tick (libsql_store draw newId clock others between short queue) launcher turns token opts db = (db', Inr res)"
  shows "\<exists>wake. scheduleTickWake queue res = Inr wake \<and>
    (case wake of
       None \<Rightarrow> \<not> (\<exists>n. 0 \<le> n \<and> n \<le> MAX_EPOCH_MS \<and> comes_due queue db' n)
     | Some (Immediate q) \<Rightarrow> q = queue \<and> tr_backlog res
     | Some (Scheduled q w) \<Rightarrow> q = queue \<and> comes_due queue db' w \<and> \<not> (\<exists>n. 0 \<le> n \<and> n < w \<and> comes_due queue db' n))"
proof -
  have w: "nextWakeAtEpochMs queue db' = Inr (tr_next_wake res)" by (rule tick_reads_wake[OF assms])
  show ?thesis
  proof (cases "tr_backlog res")
    case False
    show ?thesis
    proof (cases "tr_next_wake res")
      case None
      then show ?thesis using next_wake_earliest[OF w] False by (simp add: scheduleTickWake_def)
    next
      case (Some n)
      have n: "comes_due queue db' n" "0 \<le> n" "n \<le> MAX_EPOCH_MS" "\<forall>k. 0 \<le> k \<and> k \<le> MAX_EPOCH_MS \<and> comes_due queue db' k \<longrightarrow> n \<le> k"
        using next_wake_earliest[OF w] Some by auto
      then have "requireEpochMs ''next wake'' (Finite (of_int n)) = Inr n" by (simp add: epoch_passes)
      then show ?thesis using Some False n by (force simp: scheduleTickWake_def)
    qed
  qed (simp add: scheduleTickWake_def)
qed

theorem no_wake_forgotten_witness:
  "\<exists>res. snd (tick (libsql_store draw_seed (\<lambda>d. ''n'') (\<lambda>i. 500) (\<lambda>i d. d) (\<lambda>i d. d) False ''q'')
     (\<lambda>c d. (d, None)) [] ''w'' demo_options empty_db) = Inr res \<and> (\<exists>wake. scheduleTickWake ''q'' res = Inr wake)"
proof -
  let ?x = "tick (libsql_store draw_seed (\<lambda>d. ''n'') (\<lambda>i. 500) (\<lambda>i d. d) (\<lambda>i d. d) False ''q'')
     (\<lambda>c d. (d, None)) [] ''w'' demo_options empty_db"
  have "answered ?x" by code_simp
  then obtain res where x: "?x = (fst ?x, Inr res)" using answered_reply by blast
  have "snd ?x = Inr res" by (subst x) (rule snd_conv)
  then show ?thesis using no_wake_forgotten[OF x] by blast
qed

section \<open>Claims\<close>



section \<open>What a run does to its task\<close>

text \<open>C25. What a worker stored, its next attempt reads. A checkpoint write that succeeded is among
  the checkpoints of the task read for the run's attempt, under its name and with its state.\<close>

theorem checkpoint_read_back:
  assumes "reachable db" "fresh seed db" "setCheckpoint seed now queue task rid token name state n db = (db', Inr ())"
  shows "\<exists>a. (\<exists>r\<in>set (runs db'). r_id r = rid \<and> r_attempt r = Num a) \<and>
    (\<exists>c\<in>set (getCheckpoints queue task a db'). c_name c = name \<and> c_state c = state)"
  by (rule checkpoint_readback[OF reachable_inv[OF assms(1)] assms(2,3)])

theorem checkpoint_read_back_witness:
  "\<exists>a. \<exists>c\<in>set (getCheckpoints ''q'' ''t1'' a
      (fst (setCheckpoint ''x'' 2200 ''q'' ''t1'' ''r1'' ''w'' ''pay'' ''1'' (Finite 30) db_active))). c_name c = ''pay'' \<and> c_state c = ''1''"
proof -
  let ?x = "setCheckpoint ''x'' 2200 ''q'' ''t1'' ''r1'' ''w'' ''pay'' ''1'' (Finite 30) db_active"
  have c: "fresh ''x'' db_active" "answered ?x" by code_simp+
  have "?x = (fst ?x, Inr ())" using answered_reply[OF c(2)] by auto
  from checkpoint_read_back[OF reachable_active c(1) this] show ?thesis by blast
qed

text \<open>C26. A failure with a retry left charges one attempt. The run is failed for the reason given,
  the next run has the next ordinal, the delay from now and what the failed one carried, and the
  task's user attempts are one more.\<close>

theorem failure_charges_attempt:
  assumes "reachable db" "fresh seed db" "valid_clock now" "memo_ok m db"
    "durationToMs ''retry.delaySeconds'' s False = Inr ms"
    "fail seed sid now m queue rid token json (Some s) db = (db', Inr b)"
    "r \<in> set (runs db)" "r_id r = rid" "t \<in> set (tasks db)" "t_id t = r_task r"
    "t_attempts t = Num a" "t_max_attempts t = Num mx" "a + 1 < mx"
  shows "succeeded_by json sid r (queued_state ms) (now + ms) (retry_booked seed now sid ms t) db'"
  by (rule fail_retries[OF reachable_inv[OF assms(1)] assms(2-13)])

theorem failure_charges_attempt_witness:
  "\<exists>n\<in>set (runs (fst (fail ''f'' ''r2'' 2400 [(''r1'', ''t1'')] ''q'' ''r1'' ''w'' ''boom'' (Some (Finite 5)) db_active))).
     r_id n = ''r2'' \<and> r_attempt n = Num 2 \<and> r_state n = Sleeping \<and> r_available n = Num 7400"
proof -
  let ?x = "fail ''f'' ''r2'' 2400 [(''r1'', ''t1'')] ''q'' ''r1'' ''w'' ''boom'' (Some (Finite 5)) db_active"
  let ?r = "hd (runs db_active)" and ?t = "hd (tasks db_active)"
  have c: "fresh ''f'' db_active" "valid_clock 2400" "memo_ok [(''r1'', ''t1'')] db_active"
    "durationToMs ''retry.delaySeconds'' (Finite 5) False = Inr 5000" "answered ?x"
    "?r \<in> set (runs db_active)" "r_id ?r = ''r1''" "?t \<in> set (tasks db_active)" "t_id ?t = r_task ?r"
    "t_attempts ?t = Num 0" "t_max_attempts ?t = Num 3" "cell_plus (r_attempt ?r) (Num 1) = Num 2" "queued_state 5000 = Sleeping"
    by code_simp+
  obtain b where "?x = (fst ?x, Inr b)" using answered_reply[OF c(5)] by blast
  from failure_charges_attempt[OF reachable_active c(1-4) this c(6-11)] show ?thesis
    unfolding succeeded_by_def using c(12,13) by auto
qed

text \<open>C27. An expired claim charges the infrastructure, not the task's own attempts. Below the cap
  the sweep fails the run and queues the next five seconds on; one more infrastructure retry is
  counted and the user attempts stay.\<close>

theorem timeout_charges_infra:
  assumes "reachable db" "fresh seed db" "knows_run rid task db"
    "sweepClaimTimeout seed sid now queue rid task gen db = (db', Inr (Some x))"
    "r \<in> set (runs db)" "r_id r = rid" "t \<in> set (tasks db)" "t_id t = r_task r"
    "t_infra t = Num i" "i < INFRA_RETRY_CAP"
  shows "succeeded_by REASON_CLAIM_TIMEOUT sid r Pending (now + 5000) (timeout_booked seed now sid t) db'"
  by (rule timeout_charges[OF reachable_inv[OF assms(1)] assms(2) knows_names[OF reachable_inv[OF assms(1)] assms(3)] assms(4-10)])

theorem timeout_charges_infra_witness:
  "\<exists>n\<in>set (runs (fst (sweepClaimTimeout ''x'' ''r2'' 40000 ''q'' ''r1'' ''t1'' 1 db_active))).
     r_id n = ''r2'' \<and> r_attempt n = Num 2 \<and> r_state n = Pending \<and> r_available n = Num 45000"
proof -
  let ?x = "sweepClaimTimeout ''x'' ''r2'' 40000 ''q'' ''r1'' ''t1'' 1 db_active"
  let ?r = "hd (runs db_active)" and ?t = "hd (tasks db_active)"
  have c: "fresh ''x'' db_active" "knows_run ''r1'' ''t1'' db_active" "snd ?x = Inr (Some (SweptClaimTimeout ''r1'' ''t1'' ''r2''))"
    "?r \<in> set (runs db_active)" "r_id ?r = ''r1''" "?t \<in> set (tasks db_active)" "t_id ?t = r_task ?r"
    "t_infra ?t = Num 0" "0 < INFRA_RETRY_CAP" "cell_plus (r_attempt ?r) (Num 1) = Num 2"
    by code_simp+
  have "?x = (fst ?x, Inr (Some (SweptClaimTimeout ''r1'' ''t1'' ''r2'')))" using c(3) by (auto intro: prod_eqI)
  from timeout_charges_infra[OF reachable_active c(1,2) this c(4-9)] show ?thesis
    unfolding succeeded_by_def using c(10) by auto
qed

text \<open>C28. The budget of a live task: its user attempts are below its maximum, its infrastructure
  retries within the cap, and its live run is the next ordinal after both.\<close>

theorem retry_budget:
  assumes "reachable db" "t \<in> set (tasks db)" "live (t_state t)"
  shows "\<exists>r a m i. r \<in> set (runs db) \<and> r_task r = t_id t \<and> r_state r = t_state t \<and>
    t_attempts t = Num a \<and> t_max_attempts t = Num m \<and> t_infra t = Num i \<and>
    0 \<le> a \<and> a < m \<and> m \<le> MAX_COUNT \<and> 0 \<le> i \<and> i \<le> INFRA_RETRY_CAP \<and>
    r_attempt r = Num (a + i + 1)"
proof -
  obtain r where r: "carries t (unit_runs db (t_id t)) r"
    using inv_unit[OF reachable_inv[OF assms(1)] assms(2)] assms(3) by (auto simp: unit_ok_def)
  then have "storedCurrentRunAccounting r t" "r \<in> set (runs db)" "r_task r = t_id t" "r_state r = t_state t"
    by (auto simp: carries_def unit_runs_def)
  then show ?thesis using accountingD by metis
qed

theorem retry_budget_witness:
  "\<exists>r a m i. r \<in> set (runs db_rolling) \<and> t_attempts (hd (tasks db_rolling)) = Num a \<and>
     t_max_attempts (hd (tasks db_rolling)) = Num m \<and> a < m \<and> r_attempt r = Num (a + i + 1)"
proof -
  have "hd (tasks db_rolling) \<in> set (tasks db_rolling)" "live (t_state (hd (tasks db_rolling)))" by code_simp+
  then show ?thesis using retry_budget[OF reachable_rolling] by blast
qed

text \<open>C29. Reviving a failed task. A retry that succeeds was asked of a failed task; it raises the
  maximum by one, charges the ordinals used so far, clears the outcome and queues a run with the
  next ordinal that is due at once and carries what the top run carried.\<close>

theorem retry_revives_failed:
  assumes "reachable db" "fresh seed db" "retryTask seed rid now queue task db = (db', Inr (Some (rid', n)))"
  shows "rid' = rid \<and> (\<exists>t p m. t \<in> set (tasks db) \<and> t_id t = task \<and> t_state t = Failed \<and> t_max_attempts t = Num m \<and>
    p \<in> unit_runs db task \<and> r_attempt p = topOrdinal db t \<and> n = cell_plus (r_attempt p) (Num 1) \<and>
    (\<exists>t'\<in>set (tasks db'). t_id t' = task \<and> t_state t' = Pending \<and> t_max_attempts t' = Num (m + 1) \<and>
       t_attempts t' = cell_minus (topOrdinal db t) (t_infra t) \<and> t_failure t' = None \<and> t_last_run t' = Some rid) \<and>
    (\<exists>r\<in>set (runs db'). r_id r = rid \<and> r_task r = task \<and> r_attempt r = n \<and> r_state r = Pending \<and>
       r_available r = Num now \<and> r_wake_event r = r_wake_event p \<and> r_payload r = r_payload p))"
  by (rule retryTask_charges[OF reachable_inv[OF assms(1)] assms(2,3)]) blast

theorem retry_revives_failed_witness:
  "\<exists>t\<in>set (tasks (fst (retryTask ''x'' ''r3'' 3000 ''q'' ''t1'' db_failed))).
     t_id t = ''t1'' \<and> t_state t = Pending \<and> t_failure t = None"
proof -
  let ?x = "retryTask ''x'' ''r3'' 3000 ''q'' ''t1'' db_failed"
  have c: "fresh ''x'' db_failed" "snd ?x = Inr (Some (''r3'', Num 2))" by code_simp+
  have "?x = (fst ?x, Inr (Some (''r3'', Num 2)))" using c(2) by (auto intro: prod_eqI)
  from retry_revives_failed[OF reachable_failed c(1) this] show ?thesis by blast
qed

text \<open>C30. Cancelling a live task. A cancellation that succeeds was asked of a live task, outside a
  saga when the caller said so; the task and its one live run are cancelled and the run's lease is
  gone.\<close>

theorem cancel_ends_unit:
  assumes "reachable db" "fresh seed db" "cancelTask seed now queue task unless_saga db = (db', Inr True)"
  shows "\<exists>t c. t \<in> set (tasks db) \<and> t_id t = task \<and> t_queue t = queue \<and> live (t_state t) \<and>
    carries t (unit_runs db task) c \<and> (unless_saga \<longrightarrow> \<not> sagaBeganOf db task) \<and>
    stamp_task seed ''cancel'' (Num now) (cancel_set now db t) \<in> set (tasks db') \<and>
    cancelled_run seed now c \<in> set (runs db')"
  by (rule cancel_ends[OF reachable_inv[OF assms(1)] assms(2,3)]) blast

theorem cancel_ends_unit_witness:
  "\<exists>r\<in>set (runs (fst (cancelTask ''x'' 3000 ''q'' ''t1'' True db_active))). r_state r = Cancelled \<and> r_claimed_by r = None"
proof -
  let ?x = "cancelTask ''x'' 3000 ''q'' ''t1'' True db_active"
  have c: "fresh ''x'' db_active" "snd ?x = Inr True" by code_simp+
  have "?x = (fst ?x, Inr True)" using c(2) by (auto intro: prod_eqI)
  from cancel_ends_unit[OF reachable_active c(1) this] obtain t where "cancelled_run ''x'' 3000 t \<in> set (runs (fst ?x))" by blast
  moreover have "r_state (cancelled_run ''x'' 3000 t) = Cancelled \<and> r_claimed_by (cancelled_run ''x'' 3000 t) = None"
    by (simp add: cancelled_run_def)
  ultimately show ?thesis by blast
qed

text \<open>C31. A key spawns once. After a spawn with an idempotency key created a task, every later
  spawn of that queue and key, whatever transactions ran in between and whatever other tasks were purged,
  writes nothing and answers that task as one it did not create. Only a purge of that task frees its key.\<close>

theorem spawn_key_once:
  assumes "reachable db1" "valid_clock now" "valid_request rq" "fresh seed db1"
    "spawnOnce seed now task rid rq db1 = (db1', Inr (Some a))" "sr_created a" "sp_key rq \<noteq> None"
    "(spares (sr_task a))\<^sup>*\<^sup>* db1' db2" "fresh seed2 db2" "sp_queue rq2 = sp_queue rq" "sp_key rq2 = sp_key rq"
    "spawnOnce seed2 now2 task2 rid2 rq2 db2 = (db2', Inr ans)"
  shows "db2' = db2 \<and> (\<exists>a2. ans = Some a2 \<and> sr_task a2 = sr_task a \<and> \<not> sr_created a2)"
proof -
  have "leads_to db1 db1'" using unit_calls(3)[OF assms(4,2,3), of task rid] assms(5) by simp
  then have "reachable db1'" using reachable_leads assms(1) by blast
  from spawn_once_kept[OF this inv_keys[OF reachable_inv[OF assms(1)]] assms(5-12)] show ?thesis .
qed

theorem spawn_key_once_witness:
  "fst (spawnOnce ''z'' 3000 ''t9'' ''r9'' (demo_request ''q'' (Some ''k'')) db_beaten) = db_beaten"
proof -
  let ?rq = "demo_request ''q'' (Some ''k'')"
  let ?a = "\<lparr>sr_task = ''t1'', sr_run = Some ''r1'', sr_created = True\<rparr>"
  let ?x = "spawnOnce ''a'' 1000 ''t1'' ''r1'' ?rq empty_db"
  let ?y = "spawnOnce ''z'' 3000 ''t9'' ''r9'' ?rq db_beaten"
  have c: "valid_clock 1000" "valid_request ?rq" "fresh ''a'' empty_db" "snd ?x = Inr (Some ?a)" "sr_created ?a" "sp_key ?rq \<noteq> None"
    "fresh ''z'' db_beaten" "answered ?y" by code_simp+
  have x: "?x = (fst ?x, Inr (Some ?a))" using c(4) by (auto intro: prod_eqI)
  obtain ans where y: "?y = (fst ?y, Inr ans)" using answered_reply[OF c(8)] by blast
  have r: "reachable (fst ?x)" using reachable_leads[OF rtranclp.rtrancl_refl] unit_calls(3)[OF c(3,1,2)] by blast
  have "leads_to (fst ?x) db_beaten" unfolding db_beaten_def by (rule one_txn, rule txn.beat, rule surjective_pairing)
  from spawn_key_once[OF rtranclp.rtrancl_refl c(1,2,3) x c(5,6) leads_spares[OF this reachable_inv[OF r]] c(7) refl refl y]
  show ?thesis by blast
qed



section \<open>Retry policies\<close>

text \<open>C33. The decision to retry. For a strategy that parses, the failed attempt is the last exactly
  when the strategy is none or the maximum is reached; otherwise the delay is the strategy's, rounded
  to a millisecond, within a duration's range, and one the store's failure accepts as it is.\<close>

theorem retry_decided:
  assumes "normalizeRetryStrategy v = Inr s" "requirePositiveInt ''failedAttempt'' a 1 = Inr attempt"
    "requirePositiveInt ''maxAttempts'' mx 1 = Inr maximum"
  shows "(decideRetry v a mx = Inr Exhausted \<longleftrightarrow> s = NoRetry \<or> maximum \<le> attempt) \<and>
    (s \<noteq> NoRetry \<and> attempt < maximum \<longrightarrow>
       (\<exists>ms. decideRetry v a mx = Inr (RetryIn (of_int ms / 1000)) \<and> 0 \<le> ms \<and> ms \<le> MAX_DURATION_MS \<and>
         ms = js_round (retry_delay s attempt * 1000) \<and>
         durationToMs ''retry.delaySeconds'' (Finite (of_int ms / 1000)) False = Inr ms))"
  using decide_retry[OF assms] by force

theorem retry_decided_witness:
  "decideRetry (strategy_value DEFAULT_RETRY) (Finite 5) (Finite 5) = Inr Exhausted"
proof -
  have c: "normalizeRetryStrategy (strategy_value DEFAULT_RETRY) = Inr DEFAULT_RETRY"
    "requirePositiveInt ''failedAttempt'' (Finite 5) 1 = Inr 5" "requirePositiveInt ''maxAttempts'' (Finite 5) 1 = Inr 5"
    by code_simp+
  then show ?thesis using retry_decided[OF c] by simp
qed

text \<open>C34. A policy the parser made is one the store hands out. The document of a parsed strategy
  passes the SQL that admits a task to a claim, and parsing what was parsed changes nothing.\<close>

theorem parsed_policy_admitted:
  assumes "normalizeRetryStrategy v = Inr s" "t_retry t = Doc (strategy_doc s)"
    "\<forall>b f m. s = ExponentialRetry b f m \<longrightarrow> f \<le> 17976931348623157 * 10 ^ 292"
  shows "durableTaskRetryAdmissible t \<and> normalizeRetryStrategy (strategy_value s) = Inr s"
  using normal_admissible[OF normalize_normal[OF assms(1)] assms(2,3)] normalize_again[OF normalize_normal[OF assms(1)]]
  by blast

theorem parsed_policy_admitted_witness:
  "durableTaskRetryAdmissible ((hd (tasks db_spawned))\<lparr>t_retry := Doc (strategy_doc DEFAULT_RETRY)\<rparr>)"
proof -
  have c: "normalizeRetryStrategy (strategy_value DEFAULT_RETRY) = Inr DEFAULT_RETRY" by code_simp
  have f: "\<forall>b f m. DEFAULT_RETRY = ExponentialRetry b f m \<longrightarrow> f \<le> 17976931348623157 * 10 ^ 292"
    by (simp add: DEFAULT_RETRY_def)
  show ?thesis using parsed_policy_admitted[OF c _ f, of "(hd (tasks db_spawned))\<lparr>t_retry := Doc (strategy_doc DEFAULT_RETRY)\<rparr>"]
    by simp
qed

section \<open>What stays\<close>

text \<open>C35. A task that completed or was cancelled is never written again, until it is purged: through any
  transactions and any purges of other tasks its row stays as it was, every column of it.\<close>

theorem settled_forever:
  assumes "reachable db" "(spares (t_id t))\<^sup>*\<^sup>* db db'" "t \<in> set (tasks db)" "t_state t = Completed \<or> t_state t = Cancelled"
  shows "t \<in> set (tasks db')"
  using settled_row.kept[OF assms(1,2)] assms(3,4) by (simp add: settled_def)

theorem settled_forever_witness:
  "hd (tasks db_done) \<in> set (tasks db_parent) \<and> t_state (hd (tasks db_done)) = Completed \<and> db_parent \<noteq> db_done"
proof -
  have c: "hd (tasks db_done) \<in> set (tasks db_done)" "t_state (hd (tasks db_done)) = Completed"
    "length (tasks db_parent) \<noteq> length (tasks db_done)" by code_simp+
  have "(spares (t_id (hd (tasks db_done))))\<^sup>*\<^sup>* db_done db_parent"
    by (rule leads_spares[OF done_to_parent reachable_inv[OF reachable_done]])
  then show ?thesis using settled_forever[OF reachable_done _ c(1)] c(2,3) by auto
qed



section \<open>Retention\<close>

text \<open>C37. A purge takes a whole unit or nothing. It throws for a policy it refuses and otherwise never;
  a unit it takes belonged to a task that ended a window ago, and it is gone with every run, wait and
  checkpoint of it and its completion event, while every other row stays.\<close>

theorem purge_takes_whole_unit:
  assumes "reachable db" "fresh seed db" "purgeUnit seed now queue task key policy db = (db', ans)"
  shows "(\<exists>e. retentionWindowsMs policy = Inl e \<and> db' = db \<and> ans = Inl e) \<or>
    (db' = db \<and> ans = Inr None) \<or>
    (\<exists>ws t. retentionWindowsMs policy = Inr ws \<and> t \<in> set (tasks db) \<and> t_id t = task \<and> t_queue t = queue \<and>
       endedAWindowAgo now ws t \<and> ans = Inr (Some (unit_size queue task db)) \<and> db' = unit_gone queue task db)"
proof (cases rule: purge_unit_cases[OF inv_keys[OF reachable_inv[OF assms(1)]] assms(2,3)])
  case (3 ws parent t)
  then show ?thesis unfolding purge_admits_def by blast
qed simp_all

theorem purge_takes_whole_unit_witness:
  "\<exists>db'. purgeUnit ''n'' 3602600 ''q'' ''t1'' (Some ''k'') demo_policy db_done =
     (db', Inr (Some (unit_size ''q'' ''t1'' db_done))) \<and> db' = unit_gone ''q'' ''t1'' db_done"
proof -
  let ?x = "purgeUnit ''n'' 3602600 ''q'' ''t1'' (Some ''k'') demo_policy db_done"
  have f: "fresh ''n'' db_done" and p: "snd ?x = Inr (Some (unit_size ''q'' ''t1'' db_done))" by code_simp+
  obtain d a where x: "?x = (d, a)" by force
  then show ?thesis using purge_takes_whole_unit[OF reachable_done f x] p by auto
qed

text \<open>C38. A purge spares what may still be asked for: the children of a task that may run again, a
  task whose outcome a wait of its queue is for, a live task, and a task spawned under another key
  than the caller read.\<close>

theorem purge_spares_family:
  assumes "reachable db" "fresh seed db" "purgeUnit seed now queue task key policy db = (db', ans)"
    "(\<exists>p\<in>set (tasks db). \<exists>replay. key = Some (childSpawnKey (t_id p) replay) \<and> (live (t_state p) \<or> t_state p = Failed)) \<or>
     (\<exists>w\<in>set (waits db). w_queue w = queue \<and> w_event w = taskDoneEventName task) \<or>
     (\<exists>t\<in>set (tasks db). t_id t = task \<and> (live (t_state t) \<or> t_idem t \<noteq> key))"
  shows "db' = db"
  by (rule purge_spares[OF inv_keys[OF reachable_inv[OF assms(1)]] assms(2-4)])

theorem purge_spares_family_witness:
  "fst (purgeUnit ''n'' 3602600 ''q'' ''t1'' None demo_policy db_done) = db_done"
proof -
  have c: "fresh ''n'' db_done"
    "hd (tasks db_done) \<in> set (tasks db_done)" "t_id (hd (tasks db_done)) = ''t1''" "t_idem (hd (tasks db_done)) \<noteq> None"
    by code_simp+
  obtain d a where x: "purgeUnit ''n'' 3602600 ''q'' ''t1'' None demo_policy db_done = (d, a)" by force
  show ?thesis using purge_spares_family[OF reachable_done c(1) x] c(2-4) x by auto
qed

section \<open>Reads, names and bounds\<close>

text \<open>C39. A claimed run decodes. The decoder of a claimed run raises on a counter out of its bounds, on
  a retry policy or headers whose text is no JSON, and on a policy the parser refuses; in a reachable
  database it raises for no row of a claim's receipt, and for none an activation reads back, because
  what their SQL admits the parsers take. The decoded runs are the receipt's, in its order, each with its
  policy in normal form.\<close>

theorem claimed_runs_decode:
  assumes "reachable db"
  shows "(\<exists>cs. decode_all token (claimReceipt queue token db) = Inr cs \<and>
       map cr_run cs = map (\<lambda>(r, t). r_id r) (claimReceipt queue token db) \<and>
       (\<forall>c\<in>set cs. normalizeRetryStrategy (strategy_value (cr_retry c)) = Inr (cr_retry c))) \<and>
    (\<forall>seed now rid gen db' res r t.
       fresh seed db \<and> requirePositiveClaimGeneration ''activate.claimGen'' gen = Inr gen \<and>
       run_batch (activate_batch seed now queue rid token gen) db = (db', Inr res) \<and> won res = Some ''activate'' \<and>
       activatedRun seed rid db' = Some (r, t) \<longrightarrow> (\<exists>c. decodeClaimedRun token r t = Inr c \<and> cr_run c = r_id r))"
proof -
  note i = reachable_inv[OF assms]
  obtain cs where cs: "decode_all token (claimReceipt queue token db) = Inr cs" using claim_receipt_decodes[OF i] by blast
  moreover have "\<exists>c. decodeClaimedRun token r t = Inr c \<and> cr_run c = r_id r"
    if "fresh seed db" "requirePositiveClaimGeneration ''activate.claimGen'' gen = Inr gen"
      "run_batch (activate_batch seed now queue rid token gen) db = (db', Inr res)" "won res = Some ''activate''"
      "activatedRun seed rid db' = Some (r, t)" for seed now rid gen db' res r t
    using activated_row[OF i that(1,2,3,5,4)] decode_ok[of db' r t token] decode_run by blast
  ultimately show ?thesis using decode_all_runs[OF cs] decode_all_normal[OF cs] by blast
qed

theorem claimed_runs_decode_witness:
  "\<exists>c. decode_all ''w'' (claimReceipt ''q'' ''w'' db_active) = Inr [c] \<and> cr_run c = ''r1''"
proof -
  have r: "map (\<lambda>(r, t). r_id r) (claimReceipt ''q'' ''w'' db_active) = [''r1'']" by code_simp
  obtain cs where "decode_all ''w'' (claimReceipt ''q'' ''w'' db_active) = Inr cs" "map cr_run cs = [''r1'']"
    using claimed_runs_decode[OF reachable_active, of "''w''" "''q''"] r by auto
  then show ?thesis by auto
qed

text \<open>C40. The idempotency key of a child spawn names its parent and its call site without
  ambiguity: the parser gives back exactly the pair the key was built from.\<close>

theorem child_spawn_key_round_trip:
  "parseChildSpawnKey (childSpawnKey parent replay) = Some (parent, replay)"
  by (rule parse_childSpawnKey)

end
